(* ===== verification/Prelude.thy ===== *)
theory Prelude
  imports Main "HOL-Library.Word" "HOL-Library.Multiset"
begin

text \<open>
  Shared vocabulary of the development: the machine integers of the C code, byte order,
  little-endian loads and stores on byte buffers, and the lemma collections the component
  theories add to.

  The program runs on little-endian x86-64 (the Makefiles build for
  \<^verbatim>\<open>x86_64-native-linuxapp-gcc\<close> and the code uses SSE and AES-NI), so an object of
  \<^verbatim>\<open>n\<close> bytes read through a pointer is the little-endian value of its bytes,
  and \<^verbatim>\<open>htonl\<close>, \<^verbatim>\<open>ntohl\<close>, \<^verbatim>\<open>htons\<close>, \<^verbatim>\<open>ntohs\<close> and the
  \<^verbatim>\<open>rte_cpu_to_be_*\<close> family are byte swaps.
\<close>

unbundle bit_operations_syntax

type_synonym u8 = "8 word"
type_synonym u16 = "16 word"
type_synonym u32 = "32 word"
type_synonym u64 = "64 word"
type_synonym bytes = "u8 list"

named_theorems layout_simps \<open>reads of a byte buffer after a write\<close>
named_theorems cons_simps \<open>packet conservation of the forwarding primitives\<close>

section \<open>Words\<close>

lemma less_two_power_iff_take_bit:
  "unat (w :: 'a::len word) < 2 ^ n \<longleftrightarrow> take_bit n w = w"
  by (metis take_bit_nat_eq_self_iff unsigned_take_bit_eq word_unat_eq_iff)

lemma take_bit_eq_iff_bits:
  "take_bit n (w :: 'a::len word) = w \<longleftrightarrow> (\<forall>k\<ge>n. \<not> bit w k)"
  by (metis bit_take_bit_iff bit_word_eqI not_le)

lemma mask_and_word:
  "(w :: 'a::len word) AND (push_bit n 1 - 1) = take_bit n w"
  "(w :: 'a::len word) AND (2 ^ n - 1) = take_bit n w"
  by (simp_all add: take_bit_eq_mask mask_eq_exp_minus_1 push_bit_eq_mult)

lemma take_bit_int_plus_minus:
  assumes "m \<le> n"
  shows "take_bit m (take_bit n x + take_bit n y) = take_bit m (x + y :: int)"
    and "take_bit m (take_bit n x - take_bit n y) = take_bit m (x - y :: int)"
proof -
  have t: "take_bit m (take_bit n k) = take_bit m k" for k :: int
    using assms by (simp add: min.absorb1)
  show "take_bit m (take_bit n x + take_bit n y) = take_bit m (x + y)"
    using take_bit_add [of m "take_bit n x" "take_bit n y"] take_bit_add [of m x y]
    unfolding t by simp
  show "take_bit m (take_bit n x - take_bit n y) = take_bit m (x - y)"
    using take_bit_diff [of m "take_bit n x" "take_bit n y"] take_bit_diff [of m x y]
    unfolding t by simp
qed

lemma take_bit_plus_left: "take_bit n (take_bit n a + b) = take_bit n (a + b :: 'a::len word)"
proof -
  have *: "take_bit m (take_bit n x + y) = take_bit m (x + y)" if "m \<le> n" for m and x y :: int
    using take_bit_int_plus_minus(1) [OF that, of "take_bit n x" y] take_bit_int_plus_minus(1) [OF that, of x y]
    by simp
  have "uint (take_bit n (take_bit n a + b)) = uint (take_bit n (a + b))"
    by (simp add: unsigned_take_bit_eq uint_word_ariths(1) flip: take_bit_eq_mod)
      (simp add: take_bit_take_bit *)
  then show ?thesis by (rule word_uint_eqI)
qed

lemma take_bit_plus_right: "take_bit n (a + take_bit n b) = take_bit n (a + b :: 'a::len word)"
  using take_bit_plus_left [of n b a] by (simp only: add.commute)

lemma take_bit_minus_left: "take_bit n (take_bit n a - b) = take_bit n (a - b :: 'a::len word)"
  using take_bit_plus_left [of n a "- b"] by simp

lemma ucast_plus_down:
  "LENGTH('b) \<le> LENGTH('a) \<Longrightarrow> (ucast (x + y :: 'a::len word) :: 'b::len word) = ucast x + ucast y"
  by transfer (simp add: take_bit_int_plus_minus)

lemma ucast_minus_down:
  "LENGTH('b) \<le> LENGTH('a) \<Longrightarrow> (ucast (x - y :: 'a::len word) :: 'b::len word) = ucast x - ucast y"
  by transfer (simp add: take_bit_int_plus_minus)

lemma unat_take_bit_less: "unat (take_bit n (w :: 'a::len word)) < 2 ^ n"
  by (simp add: unsigned_take_bit_eq)

lemma ucast_ucast_take_bit:
  "n \<le> LENGTH('b) \<Longrightarrow> (ucast (ucast (take_bit n (w :: 'a::len word)) :: 'b::len word) :: 'a word) = take_bit n w"
  by (rule bit_word_eqI) (auto simp: bit_simps)

lemma xor_right_cancel [simp]: "v XOR x = w XOR x \<longleftrightarrow> v = (w :: 'a::len word)"
proof
  assume "v XOR x = w XOR x"
  then have "(v XOR x) XOR x = (w XOR x) XOR x" by simp
  then show "v = w" by (simp add: xor.assoc)
qed simp

lemma unat_of_nat_eq: "n < 2 ^ LENGTH('a) \<Longrightarrow> unat (of_nat n :: 'a::len word) = n"
  by (simp add: unsigned_of_nat take_bit_nat_eq_self)

lemma unat_uminus: "unat (- x :: 'a::len word) = (if x = 0 then 0 else 2 ^ LENGTH('a) - unat x)"
proof -
  have "unat (0 - x) = (if unat x \<le> unat (0 :: 'a word) then unat (0 :: 'a word) - unat x
    else unat (0 :: 'a word) + 2 ^ LENGTH('a) - unat x)"
    by (rule unat_sub_if')
  then show ?thesis by (auto simp: unat_eq_zero)
qed

text \<open>The rotations C code writes with two shifts.\<close>

lemma shifts_word_rotr:
  assumes "m < LENGTH('a)"
  shows "push_bit (LENGTH('a) - m) w OR drop_bit m (w :: 'a::len word) = word_rotr m w"
proof (rule bit_word_eqI)
  fix n assume n: "n < LENGTH('a)"
  have out: "\<not> bit w j" if "LENGTH('a) \<le> j" for j using that bit_imp_le_length [of w j] by auto
  show "bit (push_bit (LENGTH('a) - m) w OR drop_bit m w) n \<longleftrightarrow> bit (word_rotr m w) n"
  proof (cases "n + m < LENGTH('a)")
    case True
    then have "\<not> LENGTH('a) - m \<le> n" by linarith
    with True n assms show ?thesis
      by (simp add: bit_word_rotr_iff bit_or_iff bit_push_bit_iff bit_drop_bit_eq add.commute)
  next
    case False
    then have "(n + m) mod LENGTH('a) = n - (LENGTH('a) - m)"
      using n assms by (simp add: mod_if)
    with False n assms out [of "m + n"] show ?thesis
      by (auto simp: bit_word_rotr_iff bit_or_iff bit_push_bit_iff bit_drop_bit_eq)
  qed
qed

lemma shifts_word_rotl:
  assumes "m < LENGTH('a)"
  shows "push_bit m w OR drop_bit (LENGTH('a) - m) (w :: 'a::len word) = word_rotl m w"
proof (cases "m = 0")
  case True
  have "drop_bit LENGTH('a) w = 0" by (simp add: bit_eq_iff bit_drop_bit_eq bit_simps)
  moreover have "word_rotl 0 w = w" by (rule bit_word_eqI) (simp add: bit_word_rotl_iff)
  ultimately show ?thesis using True by simp
next
  case False
  with assms shifts_word_rotr [of "LENGTH('a) - m" w] show ?thesis
    by (simp add: word_rotl_eq_word_rotr)
qed

section \<open>Loops whose body can fail\<close>

fun fold_option :: "('a \<Rightarrow> 's \<Rightarrow> 's option) \<Rightarrow> 'a list \<Rightarrow> 's \<Rightarrow> 's option" where
  "fold_option f [] s = Some s"
| "fold_option f (x # xs) s = (case f x s of None \<Rightarrow> None | Some s \<Rightarrow> fold_option f xs s)"

lemma fold_option_undefined: "x \<in> set xs \<Longrightarrow> (\<And>s. f x s = None) \<Longrightarrow> fold_option f xs s = None"
proof (induction xs arbitrary: s)
  case (Cons y xs)
  then show ?case by (cases "x = y") (auto split: option.splits)
qed simp

lemma fold_option_append:
  "fold_option f (xs @ ys) s = (case fold_option f xs s of None \<Rightarrow> None | Some s \<Rightarrow> fold_option f ys s)"
  by (induction xs arbitrary: s) (simp_all split: option.split)

lemma fold_option_snoc:
  "fold_option f (xs @ [x]) s = (case fold_option f xs s of None \<Rightarrow> None | Some s \<Rightarrow> f x s)"
  by (induction xs arbitrary: s) (simp_all split: option.split)

lemma fold_option_invariant:
  "fold_option f xs s = Some s' \<Longrightarrow> P s \<Longrightarrow>
   (\<And>x s s'. x \<in> set xs \<Longrightarrow> f x s = Some s' \<Longrightarrow> P s \<Longrightarrow> P s') \<Longrightarrow> P s'"
proof (induction xs arbitrary: s)
  case (Cons x xs)
  then obtain s1 where "f x s = Some s1" "fold_option f xs s1 = Some s'" by (auto split: option.splits)
  with Cons show ?case by (metis list.set_intros)
qed simp

lemma fold_option_total: "(\<And>x s. f x s \<noteq> None) \<Longrightarrow> fold_option f xs s \<noteq> None"
  by (induction xs arbitrary: s) (auto split: option.split)

lemma fold_option_sink:
  assumes "\<And>x s. ok s \<Longrightarrow> x \<in> set xs \<Longrightarrow> \<exists>s'. f x s = Some s' \<and> ok s' \<and> tot s' = tot s + mset (c x)"
  shows "ok s \<Longrightarrow> \<exists>s'. fold_option f xs s = Some s' \<and> ok s' \<and> tot s' = tot s + mset (concat (map c xs))"
  using assms
proof (induction xs arbitrary: s)
  case (Cons x xs)
  from Cons.prems(2) [OF Cons.prems(1), of x] obtain s1 where
    s1: "f x s = Some s1" "ok s1" "tot s1 = tot s + mset (c x)" by auto
  from Cons.IH [OF s1(2)] Cons.prems(2) obtain s2 where
    "fold_option f xs s1 = Some s2" "ok s2" "tot s2 = tot s1 + mset (concat (map c xs))" by auto
  with s1 show ?case by (simp add: add.assoc)
qed simp

section \<open>Updating a list index by index\<close>

lemma fold_list_update:
  "length (fold (\<lambda>j d. d[j := g j]) js d) = length d"
  "\<forall>j\<in>set js. j < length d \<Longrightarrow> i < length d \<Longrightarrow> fold (\<lambda>j d. d[j := g j]) js d ! i = (if i \<in> set js then g i else d ! i)"
proof -
  show l: "length (fold (\<lambda>j d. d[j := g j]) js d) = length d" for d by (induction js arbitrary: d) auto
  show "\<forall>j\<in>set js. j < length d \<Longrightarrow> i < length d \<Longrightarrow> fold (\<lambda>j d. d[j := g j]) js d ! i = (if i \<in> set js then g i else d ! i)"
    by (induction js arbitrary: d) auto
qed

section \<open>Little-endian loads and stores\<close>

fun le_word :: "bytes \<Rightarrow> 'a::len word" where
  "le_word [] = 0"
| "le_word (b # bs) = ucast b OR push_bit 8 (le_word bs)"

definition le_bytes :: "nat \<Rightarrow> 'a::len word \<Rightarrow> bytes" where
  "le_bytes n w = map (\<lambda>i. ucast (drop_bit (8 * i) w)) [0..<n]"

text \<open>\<open>load n bs off\<close> reads the \<open>n\<close>-byte object at byte \<open>off\<close>; \<open>store bs off ys\<close> is
  \<^verbatim>\<open>memcpy (bs + off, ys, length ys)\<close>.\<close>

definition load :: "nat \<Rightarrow> bytes \<Rightarrow> nat \<Rightarrow> 'a::len word" where
  "load n bs off = le_word (take n (drop off bs))"

definition store :: "'b list \<Rightarrow> nat \<Rightarrow> 'b list \<Rightarrow> 'b list" where
  "store bs off ys = take off bs @ ys @ drop (off + length ys) bs"

lemma bit_le_word:
  "bit (le_word bs :: 'a::len word) n \<longleftrightarrow>
     n < LENGTH('a) \<and> n div 8 < length bs \<and> bit (bs ! (n div 8)) (n mod 8)"
proof (induction bs arbitrary: n)
  case Nil
  then show ?case by simp
next
  case (Cons b bs)
  show ?case
  proof (cases "n < 8")
    case True
    then show ?thesis by (auto simp: bit_simps)
  next
    case False
    then obtain m where n: "n = m + 8" by (metis add.commute le_Suc_ex not_less)
    have "\<not> bit b (m + 8)" using bit_imp_le_length [of b "m + 8"] by auto
    moreover have "(m + 8) div 8 = Suc (m div 8)" and "(m + 8) mod 8 = m mod 8" by simp_all
    ultimately show ?thesis using n by (auto simp: bit_simps Cons.IH)
  qed
qed

lemma bit_load:
  "bit (load n bs off :: 'a::len word) k \<longleftrightarrow>
     k < LENGTH('a) \<and> k div 8 < n \<and> off + k div 8 < length bs \<and> bit (bs ! (off + k div 8)) (k mod 8)"
  by (auto simp: load_def bit_le_word)

lemma length_le_bytes [simp]: "length (le_bytes n w) = n"
  by (simp add: le_bytes_def)

lemma nth_le_bytes: "i < n \<Longrightarrow> le_bytes n w ! i = ucast (drop_bit (8 * i) w)"
  by (simp add: le_bytes_def)

lemma le_word_le_bytes:
  "LENGTH('a::len) \<le> 8 * n \<Longrightarrow> le_word (le_bytes n (w :: 'a word)) = w"
proof (rule bit_word_eqI)
  fix k assume n: "LENGTH('a) \<le> 8 * n" and k: "k < LENGTH('a)"
  then have "k div 8 < n" by auto
  then show "bit (le_word (le_bytes n w) :: 'a word) k \<longleftrightarrow> bit w k"
    using k by (simp add: bit_le_word nth_le_bytes bit_simps)
qed

lemma load_le_bytes: "LENGTH('a::len) \<le> 8 * n \<Longrightarrow> load n (le_bytes n w) 0 = (w :: 'a word)"
  using le_word_le_bytes [of n w] by (simp add: load_def le_bytes_def)

lemma le_bytes_le_word:
  assumes "length bs = n" and "8 * n \<le> LENGTH('a::len)"
  shows "le_bytes n (le_word bs :: 'a word) = bs"
proof (rule nth_equalityI)
  show "length (le_bytes n (le_word bs :: 'a word)) = length bs" using assms by simp
next
  fix i assume "i < length (le_bytes n (le_word bs :: 'a word))"
  then have i: "i < n" by simp
  show "le_bytes n (le_word bs :: 'a word) ! i = bs ! i"
  proof (rule bit_word_eqI)
    fix k assume "k < LENGTH(8)"
    then have k: "k < 8" by simp
    have "8 * i + k < LENGTH('a)" using i k assms by linarith
    then show "bit (le_bytes n (le_word bs :: 'a word) ! i) k \<longleftrightarrow> bit (bs ! i) k"
      using i k assms by (simp add: nth_le_bytes bit_simps bit_le_word)
  qed
qed

lemma length_store [simp]: "off + length ys \<le> length bs \<Longrightarrow> length (store bs off ys) = length bs"
  by (simp add: store_def)

lemma nth_store:
  "off + length ys \<le> length bs \<Longrightarrow> i < length bs \<Longrightarrow>
   store bs off ys ! i = (if off \<le> i \<and> i < off + length ys then ys ! (i - off) else bs ! i)"
  by (auto simp: store_def nth_append min_def)

lemma take_drop_store_same:
  "off + length ys \<le> length bs \<Longrightarrow> take (length ys) (drop off (store bs off ys)) = ys"
  by (simp add: store_def)

lemma take_drop_store_disjoint:
  "off + length ys \<le> length bs \<Longrightarrow> off' + n \<le> off \<or> off + length ys \<le> off' \<Longrightarrow>
   take n (drop off' (store bs off ys)) = take n (drop off' bs)"
  by (rule nth_equalityI) (auto simp: nth_store)

lemma load_store_same [layout_simps]:
  assumes "off + n \<le> length bs" and "LENGTH('a::len) \<le> 8 * n"
  shows "(load n (store bs off (le_bytes n (w :: 'a word))) off :: 'a word) = w"
  using assms take_drop_store_same [of off "le_bytes n w" bs]
  by (simp add: load_def le_word_le_bytes)

lemma load_store_disjoint [layout_simps]:
  assumes "off + length ys \<le> length bs" and "off' + n \<le> off \<or> off + length ys \<le> off'"
  shows "load n (store bs off ys) off' = load n bs off'"
  using assms by (simp add: load_def take_drop_store_disjoint)

section \<open>Byte order\<close>

text \<open>\<^verbatim>\<open>__builtin_bswap32\<close>, \<^verbatim>\<open>ntohl\<close>, \<^verbatim>\<open>htonl\<close>, \<^verbatim>\<open>rte_cpu_to_be_32\<close> reverse
  the four bytes of a word; \<^verbatim>\<open>ntohs\<close>, \<^verbatim>\<open>htons\<close>, \<^verbatim>\<open>rte_cpu_to_be_16\<close> the two.\<close>

definition bswap32 :: "u32 \<Rightarrow> u32" where
  "bswap32 w = le_word (rev (le_bytes 4 w))"

definition bswap16 :: "u16 \<Rightarrow> u16" where
  "bswap16 w = le_word (rev (le_bytes 2 w))"

lemma bswap32_bswap32 [simp]: "bswap32 (bswap32 w) = w"
  by (simp add: bswap32_def le_bytes_le_word le_word_le_bytes)

lemma bswap16_bswap16 [simp]: "bswap16 (bswap16 w) = w"
  by (simp add: bswap16_def le_bytes_le_word le_word_le_bytes)

lemma bswap32_0 [simp]: "bswap32 0 = 0"
  by (simp add: bswap32_def le_bytes_def upt_rec)

lemma bswap32_inject [simp]: "bswap32 v = bswap32 w \<longleftrightarrow> v = w"
  by (metis bswap32_bswap32)

lemma bswap16_inject [simp]: "bswap16 v = bswap16 w \<longleftrightarrow> v = w"
  by (metis bswap16_bswap16)

lemma le_bytes_inject:
  "LENGTH('a::len) \<le> 8 * n \<Longrightarrow> le_bytes n (v :: 'a word) = le_bytes n w \<longleftrightarrow> v = w"
  by (metis le_word_le_bytes)

section \<open>Values of 16-bit objects\<close>

lemma unat_le_word_2: "unat (le_word [a, b] :: u16) = unat a + 256 * unat b"
proof -
  have "(le_word [a, b] :: u16) = ucast a + push_bit 8 (ucast b)"
    unfolding le_word.simps by (simp, rule disjunctive_add [symmetric]) (auto simp: bit_simps dest: bit_imp_le_length)
  moreover have "unat a < 256" "unat b < 256" using unsigned_less [where 'a = nat, of a] unsigned_less [where 'a = nat, of b] by simp_all
  ultimately show ?thesis
    by (simp add: unat_word_ariths unsigned_push_bit_eq unsigned_ucast_eq push_bit_eq_mult take_bit_eq_mod)
qed

lemma unat_bswap16: "unat (bswap16 t) = unat t div 256 + 256 * (unat t mod 256)"
proof -
  have "unat t < 65536" using unsigned_less [where 'a = nat, of t] by simp
  then have "unat t div 256 < 256" by linarith
  moreover have "rev (le_bytes 2 t) = [ucast (drop_bit 8 t), ucast t]" by (simp add: le_bytes_def upt_rec)
  ultimately show ?thesis
    by (simp add: bswap16_def unat_le_word_2 unsigned_ucast_eq take_bit_eq_mod drop_bit_eq_div unat_div
        del: le_word.simps)
qed

lemma load2_unat:
  "off + 2 \<le> length p \<Longrightarrow> unat (load 2 p off :: u16) = unat (p ! off) + 256 * unat (p ! Suc off)"
proof -
  assume "off + 2 \<le> length p"
  then have "take 2 (drop off p) = [p ! off, p ! Suc off]"
    by (intro nth_equalityI) (auto simp: less_Suc_eq numeral_2_eq_2)
  then show ?thesis unfolding load_def by (simp only: unat_le_word_2)
qed

end
