(* ===== verification/L3fwd_Tx.thy ===== *)
theory L3fwd_Tx
  imports Prelude
begin

text \<open>
  Transmission in the forwarder: the per-port transmit buffers of \<^verbatim>\<open>l3fwd.h\<close>
  (\<^verbatim>\<open>send_burst\<close>, \<^verbatim>\<open>send_single_packet\<close>) and \<^verbatim>\<open>send_packetsx4\<close> of
  \<^verbatim>\<open>l3fwd_sse.h\<close>.  The packets are of any type.  The driver call
  \<^verbatim>\<open>rte_eth_tx_burst\<close> is the parameter \<open>tx\<close>: from what was put on the wires so far,
  the port, the queue and the burst it says how many packets it takes.  What the driver took
  and what was freed is recorded in the state.
\<close>

section \<open>State\<close>

record 'm mbuf_table =
  mbt_len :: nat
  m_table :: "'m list"

record 'm fwd_state =
  tx_queue_id :: "nat \<Rightarrow> nat"
  tx_mbufs :: "nat \<Rightarrow> 'm mbuf_table"
  wire :: "(nat \<times> nat \<times> 'm list) list"
  freed :: "'m list"

type_synonym 'm tx_driver = "(nat \<times> nat \<times> 'm list) list \<Rightarrow> nat \<Rightarrow> nat \<Rightarrow> 'm list \<Rightarrow> nat"

text \<open>What the documentation of \<^verbatim>\<open>rte_eth_tx_burst\<close> says of its result.\<close>

definition driver_ok :: "'m tx_driver \<Rightarrow> bool" where
  "driver_ok tx \<longleftrightarrow> (\<forall>h port q ms. tx h port q ms \<le> length ms)"

definition MAX_PKT_BURST :: nat where "MAX_PKT_BURST = 32"
definition MAX_TX_BURST :: nat where "MAX_TX_BURST = MAX_PKT_BURST div 2"
definition FWDSTEP :: nat where "FWDSTEP = 4"

section \<open>The code\<close>

text \<open>\<^verbatim>\<open>rte_eth_tx_burst\<close> on the first \<open>n\<close> packets of \<open>m\<close>, and the loop that frees
  the packets it did not take.\<close>

definition tx_or_free :: "'m tx_driver \<Rightarrow> nat \<Rightarrow> nat \<Rightarrow> 'm list \<Rightarrow> nat \<Rightarrow> 'm fwd_state \<Rightarrow> 'm fwd_state" where
  "tx_or_free tx port q m n s =
     (let ret = tx (wire s) port q (take n m);
          s = s\<lparr>wire := wire s @ [(port, q, take ret (take n m))]\<rparr>
      in if ret < n then s\<lparr>freed := freed s @ map (\<lambda>i. m ! i) [ret..<n]\<rparr> else s)"

definition send_burst :: "'m tx_driver \<Rightarrow> nat \<Rightarrow> nat \<Rightarrow> 'm fwd_state \<Rightarrow> 'm fwd_state" where
  "send_burst tx n port s =
     tx_or_free tx port (tx_queue_id s port) (m_table (tx_mbufs s port)) n s"

definition set_slot :: "nat \<Rightarrow> nat \<Rightarrow> 'm \<Rightarrow> 'm fwd_state \<Rightarrow> 'm fwd_state" where
  "set_slot port i x s =
     s\<lparr>tx_mbufs := (tx_mbufs s)(port := (tx_mbufs s port)\<lparr>m_table := (m_table (tx_mbufs s port))[i := x]\<rparr>)\<rparr>"

definition set_len :: "nat \<Rightarrow> nat \<Rightarrow> 'm fwd_state \<Rightarrow> 'm fwd_state" where
  "set_len port n s =
     s\<lparr>tx_mbufs := (tx_mbufs s)(port := (tx_mbufs s port)\<lparr>mbt_len := n\<rparr>)\<rparr>"

definition send_single_packet :: "'m tx_driver \<Rightarrow> 'm \<Rightarrow> nat \<Rightarrow> 'm fwd_state \<Rightarrow> 'm fwd_state" where
  "send_single_packet tx m port s =
     (let n = mbt_len (tx_mbufs s port);
          s = set_slot port n m s;
          n = n + 1
      in if n = MAX_PKT_BURST
         then set_len port 0 (send_burst tx MAX_PKT_BURST port s)
         else set_len port n s)"

text \<open>The copy loops are switches that jump into a while loop.  \<open>rd junk m i\<close> is
  \<^verbatim>\<open>m[i]\<close>, where \<open>junk\<close> is what lies behind the array; \<open>copy_from\<close> performs the cases from
  \<open>k\<close> down to 1.\<close>

definition rd :: "(nat \<Rightarrow> 'm) \<Rightarrow> 'm list \<Rightarrow> nat \<Rightarrow> 'm" where
  "rd junk m i = (if i < length m then m ! i else junk i)"

definition copy_from ::
  "(nat \<Rightarrow> 'm) \<Rightarrow> nat \<Rightarrow> nat \<Rightarrow> 'm list \<Rightarrow> nat \<Rightarrow> nat \<Rightarrow> nat \<Rightarrow> 'm fwd_state \<Rightarrow> 'm fwd_state" where
  "copy_from junk port dst m src k j s =
     fold (\<lambda>i. set_slot port (dst + i) (rd junk m (src + i))) [j..<j + k] s"

function copy_while ::
  "(nat \<Rightarrow> 'm) \<Rightarrow> nat \<Rightarrow> nat \<Rightarrow> 'm list \<Rightarrow> nat \<Rightarrow> nat \<Rightarrow> nat \<Rightarrow> 'm fwd_state \<Rightarrow> 'm fwd_state" where
  "copy_while junk port dst m src n j s =
     (if j < n then copy_while junk port dst m src n (j + 4) (copy_from junk port dst m src 4 j s) else s)"
  by pat_completeness auto
termination by (relation "measure (\<lambda>(junk, port, dst, m, src, n, j, s). n - j)") auto

declare copy_while.simps [simp del]

definition duff_copy ::
  "(nat \<Rightarrow> 'm) \<Rightarrow> nat \<Rightarrow> nat \<Rightarrow> 'm list \<Rightarrow> nat \<Rightarrow> nat \<Rightarrow> 'm fwd_state \<Rightarrow> 'm fwd_state" where
  "duff_copy junk port dst m src n s =
     (let k = (if n mod FWDSTEP = 0 then 4 else n mod FWDSTEP)
      in copy_while junk port dst m src n k (copy_from junk port dst m src k 0 s))"

definition send_packetsx4 ::
  "'m tx_driver \<Rightarrow> (nat \<Rightarrow> 'm) \<Rightarrow> nat \<Rightarrow> 'm list \<Rightarrow> nat \<Rightarrow> 'm fwd_state \<Rightarrow> 'm fwd_state" where
  "send_packetsx4 tx junk port m num s =
     (let l = mbt_len (tx_mbufs s port)
      in if MAX_TX_BURST \<le> num \<and> l = 0 then tx_or_free tx port (tx_queue_id s port) m num s
         else
      let n = l + num;
          n = (if MAX_PKT_BURST < n then MAX_PKT_BURST - l else num);
          s = duff_copy junk port l m 0 n s;
          l = l + n
      in if l = MAX_PKT_BURST
         then let s = send_burst tx MAX_PKT_BURST port s;
                  l = num - n;
                  s = duff_copy junk port 0 m n l s
              in set_len port l s
         else set_len port l s)"

section \<open>Packet sinks\<close>

text \<open>What the forwarding loops rely on: sending keeps the state well formed and adds exactly the
  packets sent to the packets the state accounts for.\<close>

locale packet_sink =
  fixes ok :: "'s \<Rightarrow> bool"
    and total :: "'s \<Rightarrow> 'm multiset"
    and good :: "'a \<Rightarrow> bool"
    and contents :: "'a \<Rightarrow> 'm list"
    and send :: "'a \<Rightarrow> 's \<Rightarrow> 's"
  assumes send_ok: "ok s \<Longrightarrow> good a \<Longrightarrow> ok (send a s)"
    and send_total: "ok s \<Longrightarrow> good a \<Longrightarrow> total (send a s) = total s + mset (contents a)"
begin

lemma sends_ok: "ok s \<Longrightarrow> list_all good as \<Longrightarrow> ok (fold send as s)"
  by (induction as arbitrary: s) (auto simp: send_ok)

lemma sends_total:
  "ok s \<Longrightarrow> list_all good as \<Longrightarrow> total (fold send as s) = total s + mset (concat (map contents as))"
  by (induction as arbitrary: s) (auto simp: send_ok send_total)

end

section \<open>The state accounts for every packet\<close>

definition buffered :: "nat \<Rightarrow> 'm fwd_state \<Rightarrow> 'm list" where
  "buffered port s = take (mbt_len (tx_mbufs s port)) (m_table (tx_mbufs s port))"

definition tx_ok :: "'m fwd_state \<Rightarrow> bool" where
  "tx_ok s \<longleftrightarrow> (\<forall>port. length (m_table (tx_mbufs s port)) = MAX_PKT_BURST
     \<and> mbt_len (tx_mbufs s port) < MAX_PKT_BURST)"

text \<open>The ports of the board are \<open>0\<close> to \<open>255\<close>: the parameter \<^verbatim>\<open>port\<close> is a
  \<^verbatim>\<open>uint8_t\<close>.\<close>

definition held :: "'m fwd_state \<Rightarrow> 'm multiset" where
  "held s = (\<Sum>port<256. mset (buffered port s))"

definition sent :: "'m fwd_state \<Rightarrow> 'm multiset" where
  "sent s = mset (concat (map (\<lambda>(port, q, ms). ms) (wire s)))"

definition tx_total :: "'m fwd_state \<Rightarrow> 'm multiset" where
  "tx_total s = sent s + mset (freed s) + held s"

lemma held_change:
  assumes "port < 256" and "\<And>p. p \<noteq> port \<Longrightarrow> buffered p s' = buffered p s"
  shows "held s' + mset (buffered port s) = held s + mset (buffered port s')"
proof -
  have "held x = mset (buffered port x) + (\<Sum>p\<in>{..<256} - {port}. mset (buffered p x))" for x :: "'a fwd_state"
    unfolding held_def using assms(1) by (simp add: sum.remove)
  moreover have "(\<Sum>p\<in>{..<256} - {port}. mset (buffered p s')) = (\<Sum>p\<in>{..<256} - {port}. mset (buffered p s))"
    using assms(2) by (intro sum.cong) auto
  ultimately show ?thesis by simp
qed

lemma tx_or_free_fields [simp]:
  "tx_queue_id (tx_or_free tx port q m n s) = tx_queue_id s"
  "tx_mbufs (tx_or_free tx port q m n s) = tx_mbufs s"
  by (simp_all add: tx_or_free_def Let_def)

lemma tx_or_free_sent:
  assumes "driver_ok tx" and "n \<le> length m"
  shows "sent (tx_or_free tx port q m n s) + mset (freed (tx_or_free tx port q m n s))
    = sent s + mset (freed s) + mset (take n m)"
proof -
  let ?r = "tx (wire s) port q (take n m)"
  have r: "?r \<le> n" using assms by (metis driver_ok_def length_take min.absorb2)
  have "take n m = take ?r (take n m) @ drop ?r (take n m)"
    by (simp only: append_take_drop_id)
  moreover have "map (\<lambda>i. m ! i) [?r..<n] = drop ?r (take n m)"
    using assms(2) r by (intro nth_equalityI) auto
  ultimately have "mset (take n m) = mset (take ?r (take n m)) + mset (map (\<lambda>i. m ! i) [?r..<n])"
    by (metis mset_append)
  moreover have "sent (tx_or_free tx port q m n s) = sent s + mset (take ?r (take n m))"
    by (simp add: tx_or_free_def Let_def sent_def)
  moreover have "mset (freed (tx_or_free tx port q m n s)) = mset (freed s) + mset (map (\<lambda>i. m ! i) [?r..<n])"
    by (simp add: tx_or_free_def Let_def)
  ultimately show ?thesis by (simp only: ac_simps)
qed

lemma set_slot_fields [simp]:
  "tx_queue_id (set_slot port i x s) = tx_queue_id s" "wire (set_slot port i x s) = wire s"
  "freed (set_slot port i x s) = freed s"
  "mbt_len (tx_mbufs (set_slot port i x s) p) = mbt_len (tx_mbufs s p)"
  "m_table (tx_mbufs (set_slot port i x s) p) =
     (if p = port then (m_table (tx_mbufs s p))[i := x] else m_table (tx_mbufs s p))"
  by (simp_all add: set_slot_def)

lemma set_len_fields [simp]:
  "tx_queue_id (set_len port n s) = tx_queue_id s" "wire (set_len port n s) = wire s"
  "freed (set_len port n s) = freed s"
  "mbt_len (tx_mbufs (set_len port n s) p) = (if p = port then n else mbt_len (tx_mbufs s p))"
  "m_table (tx_mbufs (set_len port n s) p) = m_table (tx_mbufs s p)"
  by (simp_all add: set_len_def)

section \<open>The copy loops\<close>

lemma copy_from_fields [simp]:
  "tx_queue_id (copy_from junk port dst m src k j s) = tx_queue_id s"
  "wire (copy_from junk port dst m src k j s) = wire s"
  "freed (copy_from junk port dst m src k j s) = freed s"
  "mbt_len (tx_mbufs (copy_from junk port dst m src k j s) p) = mbt_len (tx_mbufs s p)"
  "p \<noteq> port \<Longrightarrow> m_table (tx_mbufs (copy_from junk port dst m src k j s) p) = m_table (tx_mbufs s p)"
  unfolding copy_from_def by (induction k) simp_all

lemma copy_from_m_table:
  "length (m_table (tx_mbufs (copy_from junk port dst m src k j s) port)) = length (m_table (tx_mbufs s port)) \<and>
   (\<forall>i<length (m_table (tx_mbufs s port)). m_table (tx_mbufs (copy_from junk port dst m src k j s) port) ! i =
     (if dst + j \<le> i \<and> i < dst + (j + k) then rd junk m (src + (i - dst)) else m_table (tx_mbufs s port) ! i))"
proof (induction k)
  case (Suc k)
  let ?tab = "m_table (tx_mbufs (copy_from junk port dst m src k j s) port)"
  have "m_table (tx_mbufs (copy_from junk port dst m src (Suc k) j s) port) =
    ?tab[dst + (j + k) := rd junk m (src + (j + k))]"
    by (simp add: copy_from_def)
  moreover have "(?tab[dst + (j + k) := x]) ! i = (if i = dst + (j + k) then x else ?tab ! i)"
    if "i < length ?tab" for i x using that by (cases "i = dst + (j + k)") auto
  ultimately show ?case using Suc by (auto simp: less_Suc_eq)
qed (auto simp: copy_from_def)

lemma copy_from_add:
  "copy_from junk port dst m src k' (j + k) (copy_from junk port dst m src k j s) =
   copy_from junk port dst m src (k + k') j s"
  using upt_add_eq_append [of j "j + k" k'] by (simp add: copy_from_def add.assoc)

lemma copy_while_eq:
  "4 dvd n - j \<Longrightarrow> copy_while junk port dst m src n j s = copy_from junk port dst m src (n - j) j s"
proof (induction junk port dst m src n j s rule: copy_while.induct)
  case (1 junk port dst m src n j s)
  show ?case
  proof (cases "j < n")
    case True
    with 1(2) have "4 \<le> n - j" by (auto elim!: dvdE)
    moreover have "n - (j + 4) = n - j - 4" by simp
    ultimately have "4 dvd n - (j + 4)" and "4 + (n - (j + 4)) = n - j"
      using 1(2) by (metis dvd_diff_nat dvd_refl, linarith)
    then show ?thesis
      using 1(1) True by (subst copy_while.simps) (simp add: copy_from_add)
  qed (subst copy_while.simps, simp add: copy_from_def)
qed

text \<open>The unrolled loop copies as many packets as it should, and four when it should copy none.\<close>

lemma duff_copy_eq:
  "duff_copy junk port dst m src n s = copy_from junk port dst m src (if n = 0 then 4 else n) 0 s"
proof -
  let ?k = "if n mod 4 = 0 then 4 else n mod 4"
  have "4 dvd n - ?k"
    by (cases "n mod 4 = 0") (auto simp: minus_mod_eq_mult_div elim!: dvdE)
  then have "duff_copy junk port dst m src n s =
    copy_from junk port dst m src (n - ?k) (0 + ?k) (copy_from junk port dst m src ?k 0 s)"
    unfolding duff_copy_def Let_def FWDSTEP_def by (simp only: copy_while_eq add_0)
  also have "\<dots> = copy_from junk port dst m src (?k + (n - ?k)) 0 s" by (rule copy_from_add)
  also have "?k + (n - ?k) = (if n = 0 then 4 else n)" using mod_less_eq_dividend [of n 4] by auto
  finally show ?thesis .
qed

lemma buffered_copy:
  assumes "length (m_table (tx_mbufs s port)) = 32" and "mbt_len (tx_mbufs s port) = l"
    and "0 < n" and "l + n \<le> 32" and "n \<le> length m"
    and s'_def: "s' = duff_copy junk port l m 0 n s"
  shows "length (m_table (tx_mbufs s' port)) = 32"
    and "take (l + n) (m_table (tx_mbufs s' port)) = buffered port s @ take n m"
proof -
  note t = copy_from_m_table [where k = n and j = 0 and s = s and junk = junk and port = port and dst = l
      and m = m and src = 0]
  show "length (m_table (tx_mbufs s' port)) = 32"
    using t assms(1,3) by (simp add: s'_def duff_copy_eq)
  then show "take (l + n) (m_table (tx_mbufs s' port)) = buffered port s @ take n m"
    using t assms by (intro nth_equalityI) (auto simp: s'_def duff_copy_eq buffered_def nth_append rd_def)
qed

text \<open>The packets behind the end of the burst that the second copy reads do not matter.\<close>

lemma rest_copy:
  assumes "length (m_table (tx_mbufs s port)) = 32" and "k \<le> 32" and "n + k \<le> length m"
    and s'_def: "s' = duff_copy junk port 0 m n k s"
  shows "length (m_table (tx_mbufs s' port)) = 32"
    and "take k (m_table (tx_mbufs s' port)) = take k (drop n m)"
proof -
  note t = copy_from_m_table [where k = "if k = 0 then 4 else k" and j = 0 and s = s and junk = junk
      and port = port and dst = 0 and m = m and src = n]
  show "length (m_table (tx_mbufs s' port)) = 32"
    using t assms(1) unfolding s'_def duff_copy_eq by simp
  then show "take k (m_table (tx_mbufs s' port)) = take k (drop n m)"
    using t assms unfolding s'_def duff_copy_eq by (intro nth_equalityI) (auto simp: rd_def)
qed

section \<open>Sending one packet, sending a group\<close>

lemma duff_copy_fields [simp]:
  "tx_queue_id (duff_copy junk port dst m src n s) = tx_queue_id s"
  "wire (duff_copy junk port dst m src n s) = wire s"
  "freed (duff_copy junk port dst m src n s) = freed s"
  "mbt_len (tx_mbufs (duff_copy junk port dst m src n s) p) = mbt_len (tx_mbufs s p)"
  "p \<noteq> port \<Longrightarrow> m_table (tx_mbufs (duff_copy junk port dst m src n s) p) = m_table (tx_mbufs s p)"
  by (simp_all add: duff_copy_eq)

lemma send_burst_fields [simp]:
  "tx_queue_id (send_burst tx n port s) = tx_queue_id s"
  "tx_mbufs (send_burst tx n port s) = tx_mbufs s"
  by (simp_all add: send_burst_def)

lemma sent_cong: "wire s = wire s' \<Longrightarrow> sent s = sent s'"
  by (simp add: sent_def)

text \<open>What an operation on the buffer of \<open>port\<close> does to the account: the packets \<open>ms\<close> it is given
  are sent, freed or in the buffer.\<close>

definition accounts :: "nat \<Rightarrow> 'm list \<Rightarrow> 'm fwd_state \<Rightarrow> 'm fwd_state \<Rightarrow> bool" where
  "accounts port ms s s' \<longleftrightarrow> tx_ok s'
     \<and> (\<forall>p. p \<noteq> port \<longrightarrow> buffered p s' = buffered p s)
     \<and> sent s' + mset (freed s') + mset (buffered port s') =
         sent s + mset (freed s) + mset (buffered port s) + mset ms"

lemma mset_exchange:
  fixes x :: "'m multiset"
  assumes "h' + b = h + b'" and "x' + b' = x + b + m"
  shows "x' + h' = x + h + m"
proof -
  have "(x' + h') + b = x' + (h + b')" using assms(1) by (simp only: add.assoc)
  also have "\<dots> = h + (x' + b')" by (simp only: ac_simps)
  also have "\<dots> = h + (x + b + m)" by (simp only: assms(2))
  also have "\<dots> = (x + h + m) + b" by (simp only: ac_simps)
  finally show ?thesis by simp
qed

lemma accounts_total:
  assumes "accounts port ms s s'" and "port < 256"
  shows "tx_total s' = tx_total s + mset ms"
  unfolding tx_total_def
  by (rule mset_exchange [OF held_change [OF assms(2)]]) (use assms(1) in \<open>auto simp: accounts_def\<close>)

lemma accounts_ok: "accounts port ms s s' \<Longrightarrow> tx_ok s'"
  by (simp add: accounts_def)

text \<open>Sending the full buffer.\<close>

lemma send_full_buffer:
  assumes "driver_ok tx" and "length (m_table (tx_mbufs s port)) = MAX_PKT_BURST"
  shows "sent (send_burst tx MAX_PKT_BURST port s) + mset (freed (send_burst tx MAX_PKT_BURST port s))
    = sent s + mset (freed s) + mset (m_table (tx_mbufs s port))"
  using tx_or_free_sent [OF assms(1), of MAX_PKT_BURST "m_table (tx_mbufs s port)" port "tx_queue_id s port" s] assms(2)
  by (simp add: send_burst_def)

lemma send_single_packet_accounts:
  assumes "driver_ok tx" and "tx_ok s"
  shows "accounts port [m] s (send_single_packet tx m port s)"
proof -
  let ?n = "mbt_len (tx_mbufs s port)" and ?s = "set_slot port (mbt_len (tx_mbufs s port)) m s"
  have n: "?n < 32" "length (m_table (tx_mbufs s port)) = 32"
    using assms(2) by (simp_all add: tx_ok_def MAX_PKT_BURST_def)
  then have put: "take (?n + 1) (m_table (tx_mbufs ?s port)) = buffered port s @ [m]"
    by (simp add: buffered_def take_Suc_conv_app_nth)
  show ?thesis
  proof (cases "?n + 1 = MAX_PKT_BURST")
    case True
    then have "m_table (tx_mbufs ?s port) = buffered port s @ [m]"
      using put n by (simp add: MAX_PKT_BURST_def)
    moreover have "sent (send_burst tx MAX_PKT_BURST port ?s) + mset (freed (send_burst tx MAX_PKT_BURST port ?s))
      = sent ?s + mset (freed ?s) + mset (m_table (tx_mbufs ?s port))"
      using n by (intro send_full_buffer [OF assms(1)]) (simp add: MAX_PKT_BURST_def)
    ultimately show ?thesis
      using True assms(2) by (auto simp: accounts_def send_single_packet_def Let_def tx_ok_def buffered_def sent_def
          MAX_PKT_BURST_def)
  next
    case False
    with n(1) have "?n < 31" by (simp add: MAX_PKT_BURST_def)
    with False show ?thesis
      using put n assms(2) by (auto simp: accounts_def send_single_packet_def Let_def tx_ok_def buffered_def sent_def
          MAX_PKT_BURST_def)
  qed
qed

lemma send_packetsx4_accounts:
  assumes "driver_ok tx" and "tx_ok s" and "0 < num" and "num \<le> length m" and "num \<le> MAX_PKT_BURST"
  shows "accounts port (take num m) s (send_packetsx4 tx junk port m num s)"
proof -
  let ?l = "mbt_len (tx_mbufs s port)"
  have n: "?l < 32" "length (m_table (tx_mbufs s port)) = 32"
    using assms(2) by (simp_all add: tx_ok_def MAX_PKT_BURST_def)
  consider (direct) "MAX_TX_BURST \<le> num" "?l = 0" | (fits) "\<not> (MAX_TX_BURST \<le> num \<and> ?l = 0)" "?l + num < 32"
    | (full) "\<not> (MAX_TX_BURST \<le> num \<and> ?l = 0)" "32 \<le> ?l + num" by linarith
  then show ?thesis
  proof cases
    case direct
    then have "send_packetsx4 tx junk port m num s = tx_or_free tx port (tx_queue_id s port) m num s"
      by (simp add: send_packetsx4_def)
    then show ?thesis
      using tx_or_free_sent [OF assms(1,4)] assms(2)
      by (auto simp: accounts_def tx_ok_def buffered_def)
  next
    case fits
    let ?s = "duff_copy junk port ?l m 0 num s"
    have eq: "send_packetsx4 tx junk port m num s = set_len port (?l + num) ?s"
      using fits by (auto simp: send_packetsx4_def Let_def MAX_PKT_BURST_def)
    have "take (?l + num) (m_table (tx_mbufs ?s port)) = buffered port s @ take num m"
      "length (m_table (tx_mbufs ?s port)) = 32"
      using buffered_copy [OF n(2) refl assms(3) _ assms(4) refl] fits by auto
    then show ?thesis
      using fits assms(2) unfolding eq
      by (auto simp: accounts_def tx_ok_def buffered_def sent_def MAX_PKT_BURST_def)
  next
    case full
    let ?n = "32 - ?l"
    let ?s = "duff_copy junk port ?l m 0 ?n s"
    let ?b = "send_burst tx MAX_PKT_BURST port ?s"
    let ?s' = "duff_copy junk port 0 m ?n (num - ?n) ?b"
    have n': "(if MAX_PKT_BURST < ?l + num then MAX_PKT_BURST - ?l else num) = ?n"
      using full(2) unfolding MAX_PKT_BURST_def by (cases "32 < ?l + num") simp_all
    have 32: "?l + ?n = MAX_PKT_BURST" using n(1) by (simp add: MAX_PKT_BURST_def)
    have eq: "send_packetsx4 tx junk port m num s = set_len port (num - ?n) ?s'"
      unfolding send_packetsx4_def Let_def n' if_not_P [OF full(1)] by (rule if_P [OF 32])
    have n0: "0 < ?n" "?l + ?n \<le> 32" "?n \<le> length m" using n(1) full(2) assms(4) by auto
    note copied = buffered_copy [OF n(2) refl n0 refl, of junk]
    have len: "length (m_table (tx_mbufs ?s port)) = 32" by (rule copied(1))
    have "?l + ?n = length (m_table (tx_mbufs ?s port))" unfolding len using n(1) by simp
    then have tab: "m_table (tx_mbufs ?s port) = buffered port s @ take ?n m"
      using copied(2) by (metis order_refl take_all)
    have "sent ?b + mset (freed ?b) = sent ?s + mset (freed ?s) + mset (m_table (tx_mbufs ?s port))"
      using len by (intro send_full_buffer [OF assms(1)]) (simp add: MAX_PKT_BURST_def)
    then have b: "sent ?b + mset (freed ?b) = sent s + mset (freed s) + mset (buffered port s) + mset (take ?n m)"
      unfolding tab by (simp add: sent_def)
    have rest: "take (num - ?n) (m_table (tx_mbufs ?s' port)) = take (num - ?n) (drop ?n m)"
      "length (m_table (tx_mbufs ?s' port)) = 32"
      using rest_copy [of ?b port "num - ?n" ?n m ?s' junk] len full assms(4,5) by (auto simp: MAX_PKT_BURST_def)
    have "take num m = take ?n m @ take (num - ?n) (drop ?n m)"
      using full by (metis le_add_diff_inverse le_diff_conv add.commute take_add)
    moreover have "sent (set_len port (num - ?n) ?s') = sent ?b" by (rule sent_cong) simp
    moreover have "num - ?n < 32" using assms(5) n(1) by (simp add: MAX_PKT_BURST_def)
    ultimately show ?thesis
      using b rest assms(2) unfolding eq accounts_def
      by (auto simp: tx_ok_def buffered_def MAX_PKT_BURST_def)
  qed
qed

text \<open>The two operations as sinks of packets and of groups \<open>(port, m, num)\<close>; an instance with a
  driver that breaks its contract is cut off by \<open>driver_ok\<close>.\<close>

lemma send_single_step:
  "driver_ok tx \<Longrightarrow> tx_ok s \<Longrightarrow> port < 256 \<Longrightarrow>
   tx_ok (send_single_packet tx m port s) \<and> tx_total (send_single_packet tx m port s) = tx_total s + mset [m]"
  by (blast intro: accounts_total accounts_ok send_single_packet_accounts)

lemma send_packetsx4_step:
  "driver_ok tx \<Longrightarrow> tx_ok s \<Longrightarrow> port < 256 \<Longrightarrow> 0 < num \<Longrightarrow> num \<le> length m \<Longrightarrow> num \<le> MAX_PKT_BURST \<Longrightarrow>
   tx_ok (send_packetsx4 tx junk port m num s)
   \<and> tx_total (send_packetsx4 tx junk port m num s) = tx_total s + mset (take num m)"
  by (blast intro: accounts_total accounts_ok send_packetsx4_accounts)

interpretation single: packet_sink "\<lambda>s. driver_ok tx \<and> tx_ok s" tx_total
  "\<lambda>(m, port). port < 256" "\<lambda>(m, port). [m]" "\<lambda>(m, port). send_single_packet tx m port" for tx
  by unfold_locales (auto simp: send_single_step)

interpretation burst: packet_sink "\<lambda>s. driver_ok tx \<and> tx_ok s" tx_total
  "\<lambda>(m, num, port). port < 256 \<and> 0 < num \<and> num \<le> length m \<and> num \<le> MAX_PKT_BURST"
  "\<lambda>(m, num, port). take num m" "\<lambda>(m, num, port). send_packetsx4 tx junk port m num" for tx junk
  by unfold_locales (auto simp: send_packetsx4_step)

section \<open>Properties\<close>

text \<open>\<^verbatim>\<open>send_packetsx4\<close> loses and invents no packet: whatever the driver takes, the
  packets of the group are afterwards on the wire, freed, or in the buffer of their port, every
  other buffer is untouched, and the buffer stays below its capacity; what lies behind the group
  in memory, which the unrolled copy loop reads when nothing is left to copy, has no influence on
  this.\<close>

theorem send_packetsx4_conserves:
  assumes "driver_ok tx" and "tx_ok s" and "port < 256"
    and "0 < num" and "num \<le> length m" and "num \<le> MAX_PKT_BURST"
  shows "tx_ok (send_packetsx4 tx junk port m num s)
    \<and> tx_total (send_packetsx4 tx junk port m num s) = tx_total s + mset (take num m)
    \<and> (\<forall>p. p \<noteq> port \<longrightarrow> buffered p (send_packetsx4 tx junk port m num s) = buffered p s)"
  using send_packetsx4_accounts [OF assms(1,2,4,5,6), of port junk] send_packetsx4_step [OF assms, of junk]
  by (simp add: accounts_def)

definition empty_fwd :: "'m \<Rightarrow> 'm fwd_state" where
  "empty_fwd x = \<lparr>tx_queue_id = \<lambda>_. 0, tx_mbufs = \<lambda>_. \<lparr>mbt_len = 0, m_table = replicate 32 x\<rparr>,
     wire = [], freed = []\<rparr>"

lemma empty_fwd_ok: "tx_ok (empty_fwd x)" "buffered p (empty_fwd x) = []" "tx_total (empty_fwd x) = {#}"
  by (simp_all add: tx_ok_def empty_fwd_def MAX_PKT_BURST_def buffered_def tx_total_def sent_def held_def)

theorem send_packetsx4_conserves_witness:
  "tx_total (send_packetsx4 (\<lambda>h port q ms. length ms div 2) (\<lambda>i. 99) 3 [1, 2, 3 :: nat] 3 (empty_fwd 0))
   = {#1, 2, 3#}"
proof -
  have "driver_ok (\<lambda>h port q ms. length (ms :: nat list) div 2)" by (simp add: driver_ok_def)
  from send_packetsx4_conserves [OF this empty_fwd_ok(1) [of 0], of 3 3 "[1, 2, 3]" "\<lambda>i. 99"]
  show ?thesis by (simp add: MAX_PKT_BURST_def empty_fwd_ok)
qed

text \<open>The copy loop of \<^verbatim>\<open>send_packetsx4\<close>, a switch into an unrolled while loop, writes
  the packets \<open>m[src], ..., m[src + n - 1]\<close> to the slots from \<open>dst\<close> on, as the plain loop does,
  for every \<open>n > 0\<close>; for \<open>n = 0\<close> it still copies four.\<close>

theorem duff_copy_reference:
  "duff_copy junk port dst m src n s =
    fold (\<lambda>i. set_slot port (dst + i) (rd junk m (src + i))) [0..<if n = 0 then 4 else n] s"
  by (simp add: duff_copy_eq copy_from_def)

end
