(* ===== verification/L3fwd_Sse.thy ===== *)
theory L3fwd_Sse
  imports L3fwd_Tx
begin

text \<open>
  The common packet processing of \<^verbatim>\<open>l3fwd.h\<close> and \<^verbatim>\<open>l3fwd_sse.h\<close>: the
  RFC 1812 checks, the rewriting of the Ethernet addresses, the grouping of a burst by
  destination port with 16-bit vector compares and a table, and \<^verbatim>\<open>send_packets_multi\<close>.
  SSE registers are lists of eight 16-bit lanes or of sixteen bytes.  The test of the packet
  type is a macro of DPDK, the parameter \<open>is4\<close>.
\<close>

record mbuf =
  pdata :: bytes
  packet_type :: u32

definition BAD_PORT :: u16 where "BAD_PORT = - 1"

section \<open>The checks\<close>

text \<open>\<^verbatim>\<open>struct ipv4_hdr\<close> at byte \<open>off\<close> of the packet.\<close>

definition version_ihl :: "bytes \<Rightarrow> nat \<Rightarrow> u8" where "version_ihl p off = p ! off"
definition total_length :: "bytes \<Rightarrow> nat \<Rightarrow> u16" where "total_length p off = load 2 p (off + 2)"
definition time_to_live :: "bytes \<Rightarrow> nat \<Rightarrow> u8" where "time_to_live p off = p ! (off + 8)"
definition hdr_checksum :: "bytes \<Rightarrow> nat \<Rightarrow> u16" where "hdr_checksum p off = load 2 p (off + 10)"

definition is_valid_ipv4_pkt :: "bytes \<Rightarrow> nat \<Rightarrow> nat \<Rightarrow> int" where
  "is_valid_ipv4_pkt p off link_len =
     (if link_len < 20 then -1
      else if drop_bit 4 (version_ihl p off) \<noteq> 4 then -3
      else if version_ihl p off AND 0xf < 5 then -4
      else if bswap16 (total_length p off) < 20 then -5
      else 0)"

definition IPV4_MIN_VER_IHL :: u8 where "IPV4_MIN_VER_IHL = 0x45"
definition IPV4_MAX_VER_IHL_DIFF :: u8 where "IPV4_MAX_VER_IHL_DIFF = 0x4f - IPV4_MIN_VER_IHL"
definition IPV4_MIN_LEN_BE :: u16 where "IPV4_MIN_LEN_BE = push_bit 8 20"

definition dec_ttl :: "bytes \<Rightarrow> nat \<Rightarrow> bytes" where
  "dec_ttl p off =
     (let p = p[off + 8 := time_to_live p off - 1]
      in store p (off + 10) (le_bytes 2 (hdr_checksum p off + 1)))"

definition rfc1812_process :: "(u32 \<Rightarrow> bool) \<Rightarrow> bytes \<Rightarrow> nat \<Rightarrow> u16 \<Rightarrow> u32 \<Rightarrow> bytes \<times> u16" where
  "rfc1812_process is4 p off dp ptype =
     (if is4 ptype then
        let ihl = version_ihl p off - IPV4_MIN_VER_IHL;
            p = dec_ttl p off
        in if IPV4_MAX_VER_IHL_DIFF < ihl
              \<or> (ucast (total_length p off) :: u8) = 0 \<and> total_length p off < IPV4_MIN_LEN_BE
           then (p, BAD_PORT) else (p, dp)
      else (p, dp))"

section \<open>Rewriting the Ethernet header\<close>

text \<open>\<^verbatim>\<open>_mm_blend_epi16 (te, ve, MASK_ETH)\<close>: the six low lanes from \<open>ve\<close>.\<close>

definition blend_eth :: "bytes \<Rightarrow> bytes \<Rightarrow> bytes" where
  "blend_eth te ve = take 12 ve @ drop 12 te"

definition step3_packet :: "(u32 \<Rightarrow> bool) \<Rightarrow> (u16 \<Rightarrow> bytes) \<Rightarrow> mbuf \<times> u16 \<Rightarrow> mbuf \<times> u16" where
  "step3_packet is4 val_eth = (\<lambda>(pkt, dst_port).
     let ve = val_eth dst_port;
         te = take 16 (pdata pkt);
         te = blend_eth te ve;
         p = store (pdata pkt) 0 te;
         (p, dst_port) = rfc1812_process is4 p 14 dst_port (packet_type pkt)
     in (pkt\<lparr>pdata := p\<rparr>, dst_port))"

definition process_packet :: "(u32 \<Rightarrow> bool) \<Rightarrow> (u16 \<Rightarrow> bytes) \<Rightarrow> mbuf \<times> u16 \<Rightarrow> mbuf \<times> u16" where
  "process_packet is4 val_eth = (\<lambda>(pkt, dst_port).
     let te = take 16 (pdata pkt);
         ve = val_eth dst_port;
         (p, dst_port) = rfc1812_process is4 (pdata pkt) 14 dst_port (packet_type pkt);
         te = blend_eth te ve;
         p = store p 0 te
     in (pkt\<lparr>pdata := p\<rparr>, dst_port))"

text \<open>A burst is the array of packets with the array of their ports;
  \<open>update_range f i n\<close> processes the packets \<open>i\<close> to \<open>i + n - 1\<close>.\<close>

type_synonym burst = "(mbuf \<times> u16) list"

definition update_range :: "('a \<Rightarrow> 'a) \<Rightarrow> nat \<Rightarrow> nat \<Rightarrow> 'a list \<Rightarrow> 'a list" where
  "update_range f i n b = fold (\<lambda>k b. b[k := f (b ! k)]) [i..<i + n] b"

definition processx4_step3 :: "(u32 \<Rightarrow> bool) \<Rightarrow> (u16 \<Rightarrow> bytes) \<Rightarrow> nat \<Rightarrow> burst \<Rightarrow> burst" where
  "processx4_step3 is4 val_eth j b = update_range (step3_packet is4 val_eth) j 4 b"

section \<open>Grouping by destination port\<close>

definition gptbl :: "(u64 \<times> nat \<times> nat) list" where
  "gptbl =
    [(0x0001000100010001, 4, 0), (0x0001000100010002, 4, 1), (0x0001000100020001, 4, 0), (0x0001000100020003, 4, 2),
     (0x0001000200010001, 4, 0), (0x0001000200010002, 4, 1), (0x0001000200030001, 4, 0), (0x0001000200030004, 4, 3),
     (0x0002000100010001, 3, 0), (0x0002000100010002, 3, 1), (0x0002000100020001, 3, 0), (0x0002000100020003, 3, 2),
     (0x0002000300010001, 2, 0), (0x0002000300010002, 2, 1), (0x0002000300040001, 1, 0), (0x0002000300040005, 0, 4)]"

text \<open>The four 16-bit objects a 64-bit store writes.\<close>

definition lanes64 :: "u64 \<Rightarrow> nat list" where
  "lanes64 w = map (\<lambda>i. unat (ucast (drop_bit (16 * i) w) :: u16)) [0..<4]"

definition GRPMSK :: nat where "GRPMSK = 15"

text \<open>\<^verbatim>\<open>_mm_cmpeq_epi16\<close>, \<^verbatim>\<open>_mm_unpacklo_epi16\<close> and \<^verbatim>\<open>_mm_movemask_ps\<close>: one bit for
  each of the four low lanes, set when they are equal.\<close>

definition cmp_mask :: "u16 list \<Rightarrow> u16 list \<Rightarrow> nat" where
  "cmp_mask dp1 dp2 = (\<Sum>i<4. if dp1 ! i = dp2 ! i then 2 ^ i else 0)"

text \<open>\<open>pn\<close> is the array \<^verbatim>\<open>pnum\<close>, \<open>base\<close> the element its argument points at, \<open>lp\<close> the
  element \<^verbatim>\<open>lp\<close> points at.\<close>

definition port_groupx4 :: "nat list \<Rightarrow> nat \<Rightarrow> nat \<Rightarrow> u16 list \<Rightarrow> u16 list \<Rightarrow> nat list \<times> nat" where
  "port_groupx4 pn base lp dp1 dp2 =
     (let v = cmp_mask dp1 dp2;
          (pnum, idx, lpv) = gptbl ! v;
          pn = pn[lp := pn ! lp + lpv]
      in if v \<noteq> GRPMSK
         then (store (store pn base (lanes64 pnum)) (base + 4) [1], base + idx)
         else (pn, lp))"

definition GROUP_PORT_STEP :: "(nat \<Rightarrow> u16) \<Rightarrow> nat \<Rightarrow> u16 \<times> nat \<times> nat list \<Rightarrow> u16 \<times> nat \<times> nat list" where
  "GROUP_PORT_STEP dcp idx = (\<lambda>(dlp, lp, pn).
     if dlp = dcp idx then (dlp, lp, pn[lp := pn ! lp + 1])
     else (dcp idx, idx, pn[idx := 1]))"

text \<open>The runs of equal ports: \<open>leader d pn j\<close> says that \<open>j\<close> is reached from \<open>0\<close> over maximal
  runs whose lengths \<open>pn\<close> records.\<close>

definition same_run :: "(nat \<Rightarrow> u16) \<Rightarrow> nat \<Rightarrow> nat \<Rightarrow> bool" where
  "same_run d j n \<longleftrightarrow> (\<forall>i. j \<le> i \<and> i < n \<longrightarrow> d i = d j)"

inductive leader :: "(nat \<Rightarrow> u16) \<Rightarrow> nat list \<Rightarrow> nat \<Rightarrow> bool" for d pn where
  leader_0: "leader d pn 0"
| leader_next: "leader d pn j \<Longrightarrow> pn ! j = k \<Longrightarrow> 0 < k \<Longrightarrow> same_run d j (j + k) \<Longrightarrow>
    d (j + k) \<noteq> d j \<Longrightarrow> leader d pn (j + k)"

text \<open>After the first \<open>n\<close> packets: \<open>lp\<close> starts the last run, whose length so far is recorded.\<close>

definition grouped :: "(nat \<Rightarrow> u16) \<Rightarrow> nat list \<Rightarrow> nat \<Rightarrow> nat \<Rightarrow> bool" where
  "grouped d pn lp n \<longleftrightarrow> leader d pn lp \<and> lp < n \<and> pn ! lp = n - lp \<and> same_run d lp n"

lemma leader_frame: "leader d pn j \<Longrightarrow> (\<forall>i<j. pn' ! i = pn ! i) \<Longrightarrow> leader d pn' j"
proof (induction rule: leader.induct)
  case (leader_next j k)
  then have "leader d pn' j" and "pn' ! j = k" by auto
  then show ?case using leader_next(3,4,5) by (rule leader.leader_next)
qed (rule leader.leader_0)

lemma same_runI: "(\<And>i. j \<le> i \<Longrightarrow> i < n \<Longrightarrow> d i = d j) \<Longrightarrow> same_run d j n"
  unfolding same_run_def by blast

lemma same_runD: "same_run d j n \<Longrightarrow> j \<le> i \<Longrightarrow> i < n \<Longrightarrow> d i = d j"
  unfolding same_run_def by blast

lemma same_run_join:
  assumes "same_run d j m" and "same_run d k n" and "j \<le> k" and "k < m"
  shows "same_run d j n"
proof (rule same_runI)
  fix i assume "j \<le> i" "i < n"
  then show "d i = d j"
    using same_runD [OF assms(1), of i] same_runD [OF assms(1,3,4)] same_runD [OF assms(2), of i] assms(4)
    by (cases "i < m") auto
qed

lemma same_run_single [simp]: "same_run d j (Suc j)"
  by (rule same_runI) (simp add: le_less_Suc_eq)

lemma same_run_extend: "same_run d j n \<Longrightarrow> d n = d j \<Longrightarrow> same_run d j (Suc n)"
  by (rule same_runI) (auto simp: less_Suc_eq dest: same_runD)

lemma grouped_step:
  assumes g: "grouped d pn lp n" and n: "n < length pn"
    and s: "GROUP_PORT_STEP d n (d lp, lp, pn) = (dlp', lp', pn')"
  shows "grouped d pn' lp' (Suc n) \<and> dlp' = d lp' \<and> length pn' = length pn"
proof (cases "d n = d lp")
  case True
  then have s': "pn' = pn[lp := pn ! lp + 1]" "lp' = lp" "dlp' = d lp"
    using s by (auto simp: GROUP_PORT_STEP_def)
  have "leader d pn lp" "lp < n" "pn ! lp = n - lp" "same_run d lp n" using g by (simp_all add: grouped_def)
  moreover from this have "leader d (pn[lp := pn ! lp + 1]) lp" by (auto intro: leader_frame)
  ultimately show ?thesis using n same_run_extend [OF _ True] by (simp add: s' grouped_def)
next
  case False
  then have s': "pn' = pn[n := 1]" "lp' = n" "dlp' = d n"
    using s by (auto simp: GROUP_PORT_STEP_def split: if_splits)
  have g': "leader d pn lp" "lp < n" "pn ! lp = n - lp" "same_run d lp n" using g by (simp_all add: grouped_def)
  then have "leader d (pn[n := 1]) lp" by (auto intro: leader_frame)
  then have "leader d (pn[n := 1]) (lp + (n - lp))"
    using g' False by (intro leader_next) auto
  then show ?thesis using g'(2) n by (simp add: s' grouped_def)
qed

text \<open>An entry of the table, read as positions \<open>0\<close> to \<open>4\<close> of the five packets it is about:
  following the counts from the first run leads to \<open>idx\<close>, and every run is maximal.\<close>

fun hops :: "nat \<Rightarrow> nat list \<Rightarrow> nat \<Rightarrow> nat \<Rightarrow> nat \<Rightarrow> bool" where
  "hops 0 L v p idx = (p = idx)"
| "hops (Suc f) L v p idx = (p = idx \<or> 0 < L ! p \<and> p + L ! p \<le> 4
     \<and> list_all (bit v) [p..<p + L ! p - 1] \<and> \<not> bit v (p + L ! p - 1) \<and> hops f L v (p + L ! p) idx)"

definition entry_ok :: "nat \<Rightarrow> bool" where
  "entry_ok v = (let (pnum, idx, lpv) = gptbl ! v; L = lanes64 pnum @ [1] in
     length L = 5 \<and> L ! 0 = 1 + lpv \<and> lpv < 4 \<and> list_all (bit v) [0..<lpv] \<and> \<not> bit v lpv
     \<and> hops 4 L v (1 + lpv) idx \<and> lpv < idx \<and> idx \<le> 4 \<and> L ! idx = 5 - idx \<and> list_all (bit v) [idx..<4])"

lemma entries_ok: "v < 15 \<Longrightarrow> entry_ok v"
proof -
  have "list_all entry_ok [0, 1, 2, 3, 4, 5, 6, 7, 8, 9, 10, 11, 12, 13, 14]"
    by code_simp
  moreover assume "v < 15"
  then have "v \<in> set [0, 1, 2, 3, 4, 5, 6, 7, 8, 9, 10, 11, 12, 13, 14]"
    by (auto simp: less_Suc_eq numeral_eq_Suc)
  ultimately show ?thesis by (simp only: list_all_iff)
qed

lemma same_run_bits:
  assumes "\<And>i. i < 4 \<Longrightarrow> bit v i \<longleftrightarrow> d (b + i) = d (b + i + 1)" and "list_all (bit v) [p..<q]" and "q \<le> 4"
  shows "same_run d (b + p) (b + q + 1)"
proof -
  have "d (b + (p + k)) = d (b + p)" if "p + k \<le> q" for k
    using that
  proof (induction k)
    case (Suc k)
    then have "bit v (p + k)" using assms(2) by (simp add: list_all_iff)
    then have "d (b + (p + k)) = d (b + (p + k) + 1)" using assms(1) [of "p + k"] Suc(2) assms(3) by simp
    then show ?case using Suc by simp
  qed simp
  note step = this
  show ?thesis
  proof (rule same_runI)
    fix x assume "b + p \<le> x" "x < b + q + 1"
    then have "x = b + (p + (x - (b + p)))" and "p + (x - (b + p)) \<le> q" by linarith+
    then show "d x = d (b + p)" using step by metis
  qed
qed

lemma leader_hops:
  assumes bits: "\<And>i. i < 4 \<Longrightarrow> bit v i \<longleftrightarrow> d (b + i) = d (b + i + 1)"
    and pn: "\<And>i. i \<le> 4 \<Longrightarrow> 0 < i \<Longrightarrow> pn ! (b + i) = L ! i"
  shows "hops f L v p idx \<Longrightarrow> 0 < p \<Longrightarrow> idx \<le> 4 \<Longrightarrow> leader d pn (b + p) \<Longrightarrow> leader d pn (b + idx)"
proof (induction f arbitrary: p)
  case (Suc f)
  show ?case
  proof (cases "p = idx")
    case False
    let ?k = "L ! p"
    have h: "0 < ?k" "p + ?k \<le> 4" "list_all (bit v) [p..<p + ?k - 1]" "\<not> bit v (p + ?k - 1)" "hops f L v (p + ?k) idx"
      using Suc(2) False by simp_all
    have "same_run d (b + p) (b + (p + ?k - 1) + 1)" using h by (intro same_run_bits [OF bits]) auto
    moreover have "b + (p + ?k - 1) + 1 = b + p + ?k" using h(1) by simp
    ultimately have run: "same_run d (b + p) (b + p + ?k)" by metis
    have "d (b + p + ?k - 1) \<noteq> d (b + p + ?k)"
      using bits [of "p + ?k - 1"] h by (simp add: add.assoc)
    moreover have "d (b + p + ?k - 1) = d (b + p)" using h(1) by (intro same_runD [OF run]) auto
    ultimately have ne: "d (b + p + ?k) \<noteq> d (b + p)" by simp
    have "pn ! (b + p) = ?k" using pn [of p] h(1,2) Suc(3) by simp
    from leader_next [OF Suc(5) this h(1) run ne] have "leader d pn (b + (p + ?k))" by (simp add: add.assoc)
    with Suc(1) [OF h(5)] Suc(3,4) show ?thesis by simp
  qed (use Suc in simp)
qed simp

lemma cmp_mask_eq:
  "cmp_mask dp1 dp2 = horner_sum of_bool 2 (map (\<lambda>i. dp1 ! i = dp2 ! i) [0..<4])"
proof -
  have "(\<Sum>n<4. of_bool (map (\<lambda>i. dp1 ! i = dp2 ! i) [0..<4] ! n) * 2 ^ n) =
    (\<Sum>i<4. if dp1 ! i = dp2 ! i then 2 ^ i else (0 :: nat))"
    by (rule sum.cong) auto
  then show ?thesis by (simp add: cmp_mask_def horner_sum_eq_sum atLeast0LessThan del: sum.lessThan_Suc)
qed

lemma port_groupx4_grouped:
  assumes g: "grouped d pn lp (Suc b)" and len: "b + 5 \<le> length pn"
    and dp: "\<And>i. i < 4 \<Longrightarrow> dp1 ! i = d (b + i) \<and> dp2 ! i = d (b + i + 1)"
    and s: "port_groupx4 pn b lp dp1 dp2 = (pn', lp')"
  shows "grouped d pn' lp' (b + 5) \<and> length pn' = length pn"
proof -
  define v where "v = cmp_mask dp1 dp2"
  have bits: "bit v i \<longleftrightarrow> d (b + i) = d (b + i + 1)" if "i < 4" for i
    using dp [OF that] that by (simp add: v_def cmp_mask_eq bit_horner_sum_bit_iff)
  have v: "v < 16"
    using horner_sum_of_bool_2_less [of "map (\<lambda>i. dp1 ! i = dp2 ! i) [0..<4]"] by (simp add: v_def cmp_mask_eq)
  have g': "leader d pn lp" "lp \<le> b" "pn ! lp = Suc b - lp" "same_run d lp (Suc b)"
    using g by (simp_all add: grouped_def)
  obtain pnum idx lpv where e: "gptbl ! v = (pnum, idx, lpv)" by (metis prod_cases3)
  let ?L = "lanes64 pnum @ [1]"
  show ?thesis
  proof (cases "v = 15")
    case True
    then have "pn' = pn[lp := pn ! lp + 4]" "lp' = lp"
      using s e by (auto simp: port_groupx4_def Let_def GRPMSK_def gptbl_def v_def [symmetric])
    moreover have "same_run d lp (b + 5)"
    proof -
      have "list_all (bit v) [0..<4]" unfolding True by code_simp
      from same_run_bits [OF bits this] have "same_run d b (b + 5)" by (simp add: add.commute)
      with g'(4) show ?thesis by (rule same_run_join) (use g'(2) in auto)
    qed
    moreover have "leader d (pn[lp := pn ! lp + 4]) lp" using g'(1) by (auto intro: leader_frame)
    ultimately show ?thesis using g'(2,3) len by (simp add: grouped_def)
  next
    case False
    then have ok: "length ?L = 5" "?L ! 0 = 1 + lpv" "lpv < 4" "list_all (bit v) [0..<lpv]" "\<not> bit v lpv"
      "hops 4 ?L v (1 + lpv) idx" "lpv < idx" "idx \<le> 4" "?L ! idx = 5 - idx" "list_all (bit v) [idx..<4]"
      using entries_ok [of v] v e by (simp_all add: entry_ok_def Let_def del: hops.simps)
    let ?p = "pn[lp := pn ! lp + lpv]"
    have pn': "pn' = store (store ?p b (lanes64 pnum)) (b + 4) [1]" "lp' = b + idx"
      using s e False by (auto simp: port_groupx4_def Let_def GRPMSK_def v_def [symmetric])
    have L4: "length (lanes64 pnum) = 4" by (simp add: lanes64_def)
    have nth: "pn' ! i = (if b \<le> i \<and> i < b + 5 then ?L ! (i - b) else ?p ! i)" if "i < length pn" for i
      using that len L4 by (auto simp: pn' nth_store nth_append less_Suc_eq numeral_eq_Suc)
    have len': "length pn' = length pn" using len L4 by (simp add: pn')
    have "leader d pn' lp" using g'(1,2) len by (elim leader_frame) (auto simp: nth)
    moreover have "pn' ! lp = Suc b - lp + lpv"
      using g'(2,3) len ok(2) by (cases "lp = b") (auto simp: nth)
    moreover have run: "same_run d lp (lp + (Suc b - lp + lpv))"
    proof -
      have "same_run d (b + 0) (b + lpv + 1)" using ok(3,4) by (intro same_run_bits [OF bits]) auto
      then have "same_run d b (b + lpv + 1)" by simp
      with g'(4) have "same_run d lp (b + lpv + 1)" by (rule same_run_join) (use g'(2) in auto)
      moreover have "lp + (Suc b - lp + lpv) = b + lpv + 1" using g'(2) by simp
      ultimately show ?thesis by metis
    qed
    moreover have "d (lp + (Suc b - lp + lpv)) \<noteq> d lp"
    proof -
      have "d (b + lpv) \<noteq> d (b + lpv + 1)" using bits [of lpv] ok(3,5) by simp
      moreover have "d (b + lpv) = d lp" using g'(2) by (intro same_runD [OF run]) auto
      moreover have "lp + (Suc b - lp + lpv) = b + lpv + 1" using g'(2) by simp
      ultimately show ?thesis by simp
    qed
    ultimately have "leader d pn' (lp + (Suc b - lp + lpv))" using g'(2) by (intro leader_next) auto
    moreover have "lp + (Suc b - lp + lpv) = b + (1 + lpv)" using g'(2) by simp
    ultimately have "leader d pn' (b + (1 + lpv))" by simp
    from leader_hops [OF bits _ ok(6) _ ok(8) this] have "leader d pn' lp'"
      using nth len by (simp add: pn'(2))
    moreover have "same_run d (b + idx) (b + 4 + 1)" using ok(10) by (intro same_run_bits [OF bits]) auto
    moreover have "pn' ! lp' = b + 5 - lp'" using nth [of "b + idx"] ok(8,9) len by (simp add: pn'(2))
    ultimately show ?thesis using ok(8) len' by (simp add: grouped_def pn'(2) numeral_eq_Suc)
  qed
qed

section \<open>\<open>send_packets_multi\<close>\<close>

definition dst_of :: "burst \<Rightarrow> nat \<Rightarrow> u16" where
  "dst_of b i = snd (b ! i)"

text \<open>A load of eight lanes of \<^verbatim>\<open>dst_port\<close>; \<open>pad\<close> is what lies behind the array.\<close>

definition load_lanes :: "(nat \<Rightarrow> u16) \<Rightarrow> burst \<Rightarrow> nat \<Rightarrow> u16 list" where
  "load_lanes pad b j = map (\<lambda>i. if i < length b then dst_of b i else pad i) [j..<j + 8]"

definition srli_lanes :: "nat \<Rightarrow> u16 list \<Rightarrow> u16 list" where
  "srli_lanes n v = drop n v @ replicate n 0"

text \<open>\<^verbatim>\<open>_mm_shufflelo_epi16 (v, 0xf9)\<close>.\<close>

definition shufflelo_f9 :: "u16 list \<Rightarrow> u16 list" where
  "shufflelo_f9 v = [v ! 1, v ! 2, v ! 3, v ! 3] @ drop 4 v"

definition group4_step :: "(u32 \<Rightarrow> bool) \<Rightarrow> (u16 \<Rightarrow> bytes) \<Rightarrow> (nat \<Rightarrow> u16) \<Rightarrow> nat \<Rightarrow>
    burst \<times> nat list \<times> nat \<times> u16 list \<Rightarrow> burst \<times> nat list \<times> nat \<times> u16 list" where
  "group4_step is4 val_eth pad j = (\<lambda>(b, pnum, lp, dp1).
     let b = processx4_step3 is4 val_eth j b;
         dp2 = load_lanes pad b (j - FWDSTEP + 1);
         (pnum, lp) = port_groupx4 pnum (j - FWDSTEP) lp dp1 dp2;
         dp1 = srli_lanes (FWDSTEP - 1) dp2
     in (b, pnum, lp, dp1))"

text \<open>The first part: the packets in fours.  The result is the burst, \<^verbatim>\<open>pnum\<close>, \<^verbatim>\<open>lp\<close>
  and \<^verbatim>\<open>dlp\<close>.\<close>

definition group_fours :: "(u32 \<Rightarrow> bool) \<Rightarrow> (u16 \<Rightarrow> bytes) \<Rightarrow> (nat \<Rightarrow> u16) \<Rightarrow> nat \<Rightarrow> nat list \<Rightarrow> burst \<Rightarrow>
    burst \<times> nat list \<times> nat \<times> u16" where
  "group_fours is4 val_eth pad k pnum b =
     (if k \<noteq> 0 then
        let lp = 0;
            pnum = pnum[0 := 1];
            b = processx4_step3 is4 val_eth 0 b;
            dp1 = load_lanes pad b 0;
            (b, pnum, lp, dp1) = fold (\<lambda>i. group4_step is4 val_eth pad (4 * i)) [1..<k div 4] (b, pnum, lp, dp1);
            dp2 = shufflelo_f9 dp1;
            (pnum, lp) = port_groupx4 pnum (k - FWDSTEP) lp dp1 dp2;
            pnum = pnum[lp := pnum ! lp - 1]
        in (b, pnum, lp, dst_of b (k - 1))
      else (b, pnum, MAX_PKT_BURST, BAD_PORT - 1))"

definition tail_step :: "(u32 \<Rightarrow> bool) \<Rightarrow> (u16 \<Rightarrow> bytes) \<Rightarrow> nat \<Rightarrow>
    burst \<times> nat list \<times> nat \<times> u16 \<Rightarrow> burst \<times> nat list \<times> nat \<times> u16" where
  "tail_step is4 val_eth j = (\<lambda>(b, pnum, lp, dlp).
     let b = b[j := process_packet is4 val_eth (b ! j)];
         (dlp, lp, pnum) = GROUP_PORT_STEP (dst_of b) j (dlp, lp, pnum)
     in (b, pnum, lp, dlp))"

definition group_burst :: "(u32 \<Rightarrow> bool) \<Rightarrow> (u16 \<Rightarrow> bytes) \<Rightarrow> (nat \<Rightarrow> u16) \<Rightarrow> nat list \<Rightarrow> burst \<Rightarrow>
    burst \<times> nat list \<times> nat \<times> u16" where
  "group_burst is4 val_eth pad pnum b =
     (let nb_rx = length b; k = nb_rx - nb_rx mod FWDSTEP
      in fold (tail_step is4 val_eth) [k..<nb_rx] (group_fours is4 val_eth pad k pnum b))"

definition send_group :: "mbuf tx_driver \<Rightarrow> (nat \<Rightarrow> mbuf) \<Rightarrow> u16 \<Rightarrow> mbuf list \<Rightarrow> nat \<Rightarrow> mbuf fwd_state \<Rightarrow> mbuf fwd_state" where
  "send_group tx junk pn m k s =
     (if pn \<noteq> BAD_PORT then send_packetsx4 tx junk (unat (ucast pn :: u8)) m k s
      else s\<lparr>freed := freed s @ take k m\<rparr>)"

text \<open>The last loop advances by \<^verbatim>\<open>pnum[j]\<close>; \<open>fuel\<close> bounds its iterations, and \<open>None\<close> is a
  run that does not end within it.\<close>

fun send_groups :: "nat \<Rightarrow> mbuf tx_driver \<Rightarrow> (nat \<Rightarrow> mbuf) \<Rightarrow> burst \<Rightarrow> nat list \<Rightarrow> nat \<Rightarrow> mbuf fwd_state \<Rightarrow> mbuf fwd_state option" where
  "send_groups fuel tx junk b pnum j s =
     (if length b \<le> j then Some s
      else case fuel of 0 \<Rightarrow> None
        | Suc fuel \<Rightarrow>
            send_groups fuel tx junk b pnum (j + pnum ! j)
              (send_group tx (\<lambda>i. junk (j + i)) (dst_of b j) (drop j (map fst b)) (pnum ! j) s))"

declare send_groups.simps [simp del]

definition send_packets_multi :: "mbuf tx_driver \<Rightarrow> (u32 \<Rightarrow> bool) \<Rightarrow> (u16 \<Rightarrow> bytes) \<Rightarrow> (nat \<Rightarrow> u16) \<Rightarrow> (nat \<Rightarrow> mbuf) \<Rightarrow>
    nat list \<Rightarrow> burst \<Rightarrow> mbuf fwd_state \<Rightarrow> mbuf fwd_state option" where
  "send_packets_multi tx is4 val_eth pad junk pnum b s =
     (let (b, pnum, lp, dlp) = group_burst is4 val_eth pad pnum b
      in send_groups (length b) tx junk b pnum 0 s)"

section \<open>The grouping is the run-length encoding of the ports\<close>

lemma leader_ne: "leader d pn j \<Longrightarrow> 0 < j \<Longrightarrow> d j \<noteq> d (j - 1)"
proof (induction rule: leader.induct)
  case (leader_next j k)
  then have "d (j + k - 1) = d j" by (intro same_runD [OF leader_next(4)]) auto
  with leader_next(5) show ?case by simp
qed simp

lemma leader_cong: "leader d pn j \<Longrightarrow> (\<forall>i\<le>j. d' i = d i) \<Longrightarrow> leader d' pn j"
proof (induction rule: leader.induct)
  case (leader_next j k)
  from leader_next(7) have D: "\<And>i. i \<le> j + k \<Longrightarrow> d' i = d i" by blast
  have "same_run d' j (j + k)"
  proof (rule same_runI)
    fix i assume i: "j \<le> i" "i < j + k"
    have "d' i = d i" by (rule D) (use i in linarith)
    also have "d i = d j" using i by (rule same_runD [OF leader_next(4)])
    also have "d j = d' j" by (rule D [symmetric]) simp
    finally show "d' i = d' j" .
  qed
  moreover have "d' (j + k) \<noteq> d' j" using leader_next(5) D [of "j + k"] D [of j] by simp
  moreover have "leader d' pn j" by (rule leader_next(6)) (use D in auto)
  ultimately show ?case using leader_next(2,3) by (intro leader.leader_next)
qed (rule leader.leader_0)

lemma grouped_cong:
  assumes "grouped d pn lp n" and "\<And>i. i < n \<Longrightarrow> d' i = d i"
  shows "grouped d' pn lp n"
proof -
  have g: "leader d pn lp" "lp < n" "pn ! lp = n - lp" "same_run d lp n" using assms(1) by (simp_all add: grouped_def)
  have "same_run d' lp n"
  proof (rule same_runI)
    fix i assume i: "lp \<le> i" "i < n"
    have "d' i = d i" using i(2) by (rule assms(2))
    also have "d i = d lp" using i by (rule same_runD [OF g(4)])
    also have "d lp = d' lp" using g(2) by (rule assms(2) [symmetric])
    finally show "d' i = d' lp" .
  qed
  moreover have "leader d' pn lp"
    using g(1) by (rule leader_cong) (use g(2) assms(2) in \<open>blast intro: le_less_trans\<close>)
  ultimately show ?thesis using g by (simp add: grouped_def)
qed

text \<open>From a start of a run the recorded length leads to the next start, or to the end.\<close>

lemma leader_path:
  "leader d pn l \<Longrightarrow> leader d pn j \<Longrightarrow> j < l \<Longrightarrow>
    0 < pn ! j \<and> leader d pn (j + pn ! j) \<and> j + pn ! j \<le> l \<and> same_run d j (j + pn ! j) \<and> d (j + pn ! j) \<noteq> d j"
proof (induction rule: leader.induct)
  case (leader_next l k)
  consider "j < l" | "j = l" | "l < j" by linarith
  then show ?case
  proof cases
    case 1
    with leader_next(6,7) have "j + pn ! j \<le> l + k" by linarith
    with leader_next(6,7) 1 show ?thesis by simp
  next
    case 2
    with leader_next leader.leader_next [OF leader_next(1-5)] show ?thesis by simp
  next
    case 3
    then have "d j = d l" "d (j - 1) = d l"
      using leader_next(8) by (auto intro!: same_runD [OF leader_next(4)])
    with leader_ne [OF leader_next(7)] 3 show ?thesis by simp
  qed
qed simp

definition run_end :: "burst \<Rightarrow> nat \<Rightarrow> nat" where
  "run_end b j = Suc (length (takeWhile (\<lambda>x. snd x = dst_of b j) (drop (Suc j) b)))"

lemma run_end_eq:
  assumes "same_run (dst_of b) j (j + k)" and "0 < k" and "j + k \<le> length b"
    and "j + k = length b \<or> dst_of b (j + k) \<noteq> dst_of b j"
  shows "run_end b j = k"
proof -
  have "takeWhile (\<lambda>x. snd x = dst_of b j) (drop (Suc j) b) = take (k - 1) (drop (Suc j) b)"
  proof (rule takeWhile_eq_take_P_nth)
    fix i assume "i < k - 1" "i < length (drop (Suc j) b)"
    then show "snd (drop (Suc j) b ! i) = dst_of b j"
      using same_runD [OF assms(1), of "Suc j + i"] by (simp add: dst_of_def)
  next
    assume "k - 1 < length (drop (Suc j) b)"
    then show "snd (drop (Suc j) b ! (k - 1)) \<noteq> dst_of b j"
      using assms(2,4) by (auto simp: dst_of_def)
  qed
  then show ?thesis using assms(2,3) by (simp add: run_end_def)
qed

lemma run_end_bound: "j < length b \<Longrightarrow> j + run_end b j \<le> length b"
  using length_takeWhile_le [of "\<lambda>x. snd x = dst_of b j" "drop (Suc j) b"] by (simp add: run_end_def)

lemma grouped_next:
  assumes "grouped (dst_of b) pn lp (length b)" and "leader (dst_of b) pn j" and "j < length b" and "j \<le> lp"
  shows "pn ! j = run_end b j
    \<and> (j + pn ! j < length b \<longrightarrow> leader (dst_of b) pn (j + pn ! j) \<and> j + pn ! j \<le> lp)"
proof -
  have g: "leader (dst_of b) pn lp" "lp < length b" "pn ! lp = length b - lp" "same_run (dst_of b) lp (length b)"
    using assms(1) by (simp_all add: grouped_def)
  show ?thesis
  proof (cases "j = lp")
    case True
    then show ?thesis using g run_end_eq [of b lp "length b - lp"] by simp
  next
    case False
    then have "j < lp" using assms(4) by simp
    from leader_path [OF g(1) assms(2) this] g(2) run_end_eq [of b j "pn ! j"]
    show ?thesis by auto
  qed
qed

text \<open>The reference: one call for every maximal run of equal ports.\<close>

function send_runs :: "mbuf tx_driver \<Rightarrow> (nat \<Rightarrow> mbuf) \<Rightarrow> burst \<Rightarrow> nat \<Rightarrow> mbuf fwd_state \<Rightarrow> mbuf fwd_state" where
  "send_runs tx junk b j s =
     (if length b \<le> j then s
      else send_runs tx junk b (j + run_end b j)
        (send_group tx (\<lambda>i. junk (j + i)) (dst_of b j) (drop j (map fst b)) (run_end b j) s))"
  by pat_completeness auto
termination by (relation "measure (\<lambda>(tx, junk, b, j, s). length b - j)") (auto simp: run_end_def)

declare send_runs.simps [simp del]

lemma send_groups_runs:
  assumes "grouped (dst_of b) pn lp (length b)"
  shows "j = length b \<or> leader (dst_of b) pn j \<and> j \<le> lp \<and> j < length b \<Longrightarrow> length b - j \<le> fuel \<Longrightarrow>
    send_groups fuel tx junk b pn j s = Some (send_runs tx junk b j s)"
proof (induction fuel arbitrary: j s)
  case 0
  then show ?case by (subst send_groups.simps, subst send_runs.simps) auto
next
  case (Suc fuel)
  show ?case
  proof (cases "j = length b")
    case True
    then show ?thesis by (subst send_groups.simps, subst send_runs.simps) simp
  next
    case False
    with Suc(2) have j: "leader (dst_of b) pn j" "j \<le> lp" "j < length b" by auto
    note next_run = grouped_next [OF assms j(1,3,2)]
    have "j + pn ! j \<le> length b" using next_run run_end_bound [OF j(3)] by simp
    moreover have "length b - (j + pn ! j) \<le> fuel" using Suc(3) next_run by (simp add: run_end_def)
    ultimately have "send_groups fuel tx junk b pn (j + pn ! j) s' = Some (send_runs tx junk b (j + pn ! j) s')" for s'
      using next_run by (intro Suc(1)) auto
    then show ?thesis
      using j(3) next_run by (subst send_groups.simps, subst send_runs.simps) simp
  qed
qed

section \<open>The burst after processing\<close>

lemma length_dec_ttl [simp]: "off + 12 \<le> length p \<Longrightarrow> length (dec_ttl p off) = length p"
  by (simp add: dec_ttl_def Let_def)

lemma length_rfc1812 [simp]:
  "off + 12 \<le> length p \<Longrightarrow> length (fst (rfc1812_process is4 p off dp ptype)) = length p"
  by (simp add: rfc1812_process_def Let_def)

lemma store_eth_nth:
  "16 \<le> length p \<Longrightarrow> 12 \<le> length ve \<Longrightarrow> i < length p \<Longrightarrow>
   store p 0 (blend_eth (take 16 p) ve) ! i = (if i < 12 then ve ! i else p ! i)"
  by (auto simp: nth_store blend_eth_def nth_append)

lemma length_store_eth [simp]:
  "16 \<le> length p \<Longrightarrow> 12 \<le> length ve \<Longrightarrow> length (store q 0 (blend_eth (take 16 p) ve)) = max 16 (length q)"
  by (auto simp: store_def blend_eth_def)

text \<open>The checks touch bytes 22, 24 and 25 only, the addresses bytes 0 to 11: the two orders the
  code uses give the same packet.\<close>

lemma dec_ttl_nth:
  "off + 12 \<le> length p \<Longrightarrow> i < length p \<Longrightarrow>
   dec_ttl p off ! i = (if i = off + 8 then p ! i - 1
     else if i = off + 10 \<or> i = off + 11 then le_bytes 2 (hdr_checksum p off + 1) ! (i - (off + 10)) else p ! i)"
  by (auto simp: dec_ttl_def Let_def nth_store time_to_live_def hdr_checksum_def load_def nth_list_update)

lemma total_length_dec_ttl: "off + 12 \<le> length p \<Longrightarrow> total_length (dec_ttl p off) off = total_length p off"
proof -
  assume "off + 12 \<le> length p"
  then have "take 2 (drop (off + 2) (dec_ttl p off)) = take 2 (drop (off + 2) p)"
    by (intro nth_equalityI) (auto simp: dec_ttl_nth)
  then show ?thesis by (simp add: total_length_def load_def)
qed

lemma hdr_fields_store_eth:
  assumes "34 \<le> length p" and "12 \<le> length ve"
  defines "q \<equiv> store p 0 (blend_eth (take 16 p) ve)"
  shows "version_ihl q 14 = version_ihl p 14" and "total_length q 14 = total_length p 14"
    and "hdr_checksum q 14 = hdr_checksum p 14"
proof -
  have len: "length q = length p" using assms(1,2) by (simp add: q_def)
  have nth: "q ! i = p ! i" if "12 \<le> i" "i < length p" for i
    using that assms(1,2) by (simp add: q_def store_eth_nth)
  have "take 2 (drop k q) = take 2 (drop k p)" if "12 \<le> k" "k + 2 \<le> length p" for k
    using that len nth by (intro nth_equalityI) auto
  then show "total_length q 14 = total_length p 14" "hdr_checksum q 14 = hdr_checksum p 14"
    using assms(1) by (simp_all add: total_length_def hdr_checksum_def load_def)
  show "version_ihl q 14 = version_ihl p 14" using nth assms(1) by (simp add: version_ihl_def)
qed

lemma step3_process:
  assumes "34 \<le> length (pdata pkt)" and "12 \<le> length (val_eth dp)"
  shows "step3_packet is4 val_eth (pkt, dp) = process_packet is4 val_eth (pkt, dp)"
proof -
  let ?p = "pdata pkt" and ?te = "blend_eth (take 16 (pdata pkt)) (val_eth dp)"
  note f = hdr_fields_store_eth [OF assms]
  have "dec_ttl (store ?p 0 ?te) 14 = store (dec_ttl ?p 14) 0 ?te"
  proof (rule nth_equalityI)
    show "length (dec_ttl (store ?p 0 ?te) 14) = length (store (dec_ttl ?p 14) 0 ?te)" using assms by simp
    fix i assume "i < length (dec_ttl (store ?p 0 ?te) 14)"
    then have i: "i < length ?p" using assms by simp
    have "length ?te = 16" using assms by (simp add: blend_eth_def)
    moreover have "?te ! i = (if i < 12 then val_eth dp ! i else ?p ! i)" if "i < 16"
      using that assms by (auto simp: blend_eth_def nth_append)
    ultimately show "dec_ttl (store ?p 0 ?te) 14 ! i = store (dec_ttl ?p 14) 0 ?te ! i"
      using i assms f(3) by (auto simp: dec_ttl_nth store_eth_nth nth_store)
  qed
  moreover have "total_length (dec_ttl ?p 14) 14 = total_length ?p 14"
    using assms(1) by (simp add: total_length_dec_ttl)
  moreover have "total_length (dec_ttl (store ?p 0 ?te) 14) 14 = total_length ?p 14"
    using assms f(2) by (simp add: total_length_dec_ttl)
  ultimately show ?thesis
    using f(1) by (simp add: step3_packet_def process_packet_def rfc1812_process_def Let_def)
qed

text \<open>A packet the forwarder can process, and the port it was given.\<close>

definition ready :: "(u16 \<Rightarrow> bytes) \<Rightarrow> mbuf \<times> u16 \<Rightarrow> bool" where
  "ready val_eth x \<longleftrightarrow> 34 \<le> length (pdata (fst x)) \<and> 12 \<le> length (val_eth (snd x)) \<and> unat (snd x) < 256"

lemma snd_process:
  "snd (process_packet is4 val_eth (pkt, dp)) = BAD_PORT \<or> snd (process_packet is4 val_eth (pkt, dp)) = dp"
  by (auto simp: process_packet_def rfc1812_process_def Let_def split: prod.splits if_splits)

lemma process_port_not_free: "ready val_eth x \<Longrightarrow> snd (process_packet is4 val_eth x) \<noteq> BAD_PORT - 1"
proof -
  assume r: "ready val_eth x"
  obtain pkt dp where x: "x = (pkt, dp)" by fastforce
  have "dp \<noteq> BAD_PORT - 1"
  proof
    assume "dp = BAD_PORT - 1"
    then have "unat dp = 65534" by (simp add: BAD_PORT_def)
    with r show False by (simp add: ready_def x)
  qed
  moreover have "BAD_PORT \<noteq> BAD_PORT - 1" by (simp add: BAD_PORT_def)
  ultimately show ?thesis using snd_process [of is4 val_eth pkt dp] by (auto simp: x)
qed

lemma update_range_nth:
  assumes "i + n \<le> length b"
  shows "length (update_range f i n b) = length b
    \<and> (\<forall>k<length b. update_range f i n b ! k = (if i \<le> k \<and> k < i + n then f (b ! k) else b ! k))"
  using assms
proof (induction n)
  case (Suc n)
  have "update_range f i (Suc n) b = (update_range f i n b)[i + n := f (update_range f i n b ! (i + n))]"
    by (simp add: update_range_def)
  with Suc show ?case by (auto simp: nth_list_update less_Suc_eq)
qed (auto simp: update_range_def)

text \<open>The first \<open>j\<close> packets processed.\<close>

definition done_upto :: "(u32 \<Rightarrow> bool) \<Rightarrow> (u16 \<Rightarrow> bytes) \<Rightarrow> burst \<Rightarrow> nat \<Rightarrow> burst" where
  "done_upto is4 val_eth b j = map (process_packet is4 val_eth) (take j b) @ drop j b"

lemma length_done_upto [simp]: "length (done_upto is4 val_eth b j) = length b"
  by (auto simp: done_upto_def min_def)

lemma nth_done_upto:
  "i < length b \<Longrightarrow> done_upto is4 val_eth b j ! i = (if i < j then process_packet is4 val_eth (b ! i) else b ! i)"
  by (auto simp: done_upto_def nth_append min_def)

lemma processx4_done:
  assumes "list_all (ready val_eth) b" and "j + 4 \<le> length b"
  shows "processx4_step3 is4 val_eth j (done_upto is4 val_eth b j) = done_upto is4 val_eth b (j + 4)"
proof -
  have "step3_packet is4 val_eth (b ! k) = process_packet is4 val_eth (b ! k)" if "k < length b" for k
    using assms(1) that by (cases "b ! k") (auto simp: list_all_length ready_def intro!: step3_process)
  then show ?thesis
    using update_range_nth [of j 4 "done_upto is4 val_eth b j" "step3_packet is4 val_eth"] assms(2)
    unfolding processx4_step3_def by (intro nth_equalityI) (auto simp: nth_done_upto)
qed

lemma tail_done:
  "j < length b \<Longrightarrow> (done_upto is4 val_eth b j)[j := process_packet is4 val_eth (done_upto is4 val_eth b j ! j)]
    = done_upto is4 val_eth b (Suc j)"
  by (rule nth_equalityI) (auto simp: nth_done_upto nth_list_update less_Suc_eq)

lemma dst_done_upto:
  "i < j \<Longrightarrow> j \<le> j' \<Longrightarrow> j' \<le> length b \<Longrightarrow>
   dst_of (done_upto is4 val_eth b j) i = dst_of (done_upto is4 val_eth b j') i"
  by (simp add: dst_of_def nth_done_upto)

section \<open>The grouping of a burst\<close>

text \<open>The state of the vector loop when the first \<open>j\<close> packets are processed and the ports up to
  \<open>j - 4\<close> grouped.\<close>

definition fours_inv :: "(u32 \<Rightarrow> bool) \<Rightarrow> (u16 \<Rightarrow> bytes) \<Rightarrow> burst \<Rightarrow> nat \<Rightarrow> nat \<Rightarrow> burst \<times> nat list \<times> nat \<times> u16 list \<Rightarrow> bool" where
  "fours_inv is4 val_eth b n j = (\<lambda>(b', pnum, lp, dp1).
     b' = done_upto is4 val_eth b j \<and> length pnum = n \<and> grouped (dst_of b') pnum lp (j - 3)
     \<and> (\<forall>i<4. dp1 ! i = dst_of b' (j - 4 + i)))"

lemma load_lanes_nth: "i < 8 \<Longrightarrow> j + i < length b \<Longrightarrow> load_lanes pad b j ! i = dst_of b (j + i)"
  by (simp add: load_lanes_def)

lemma fours_inv_step:
  assumes "list_all (ready val_eth) b" and "length b < n"
    and j: "4 dvd j" "4 \<le> j" "j + 4 \<le> length b"
    and inv: "fours_inv is4 val_eth b n j st"
  shows "fours_inv is4 val_eth b n (j + 4) (group4_step is4 val_eth pad j st)"
proof -
  obtain b' pnum lp dp1 where st: "st = (b', pnum, lp, dp1)" by (metis prod_cases4)
  let ?b = "done_upto is4 val_eth b (j + 4)" and ?d = "dst_of (done_upto is4 val_eth b (j + 4))"
  have b': "b' = done_upto is4 val_eth b j" and len: "length pnum = n"
    and g: "grouped (dst_of b') pnum lp (j - 3)" and dp1: "\<And>i. i < 4 \<Longrightarrow> dp1 ! i = dst_of b' (j - 4 + i)"
    using inv by (auto simp: st fours_inv_def)
  let ?dp2 = "load_lanes pad ?b (j - 4 + 1)"
  obtain pnum' lp' where pg: "port_groupx4 pnum (j - 4) lp dp1 ?dp2 = (pnum', lp')" by fastforce
  have same: "dst_of b' i = ?d i" if "i < j" for i
    unfolding b' using that j(3) by (intro dst_done_upto) auto
  have "Suc (j - 4) = j - 3" using j(2) by simp
  then have g': "grouped ?d pnum lp (Suc (j - 4))"
    using g same by (auto elim!: grouped_cong)
  have "dp1 ! i = ?d (j - 4 + i) \<and> ?dp2 ! i = ?d (j - 4 + i + 1)" if "i < 4" for i
    using that dp1 [OF that] same [of "j - 4 + i"] load_lanes_nth [of i "j - 4 + 1" ?b pad] j by simp
  from port_groupx4_grouped [OF g' _ this pg] have "grouped ?d pnum' lp' (j - 4 + 5)" "length pnum' = n"
    using assms(2) j len by auto
  moreover have "j - 4 + 5 = j + 4 - 3" using j(2) by simp
  moreover have "srli_lanes 3 ?dp2 ! i = ?d (j + i)" if "i < 4" for i
    using that j load_lanes_nth [of "3 + i" "j - 4 + 1" ?b pad] by (simp add: srli_lanes_def nth_append load_lanes_def)
  ultimately show ?thesis
    using processx4_done [OF assms(1) j(3), of is4] pg b'
    by (simp add: st group4_step_def fours_inv_def FWDSTEP_def Let_def)
qed

lemma fours_inv_loop:
  assumes "list_all (ready val_eth) b" and "length b < n" and "fours_inv is4 val_eth b n 4 st"
  shows "4 * m \<le> length b \<Longrightarrow> 1 \<le> m \<Longrightarrow>
    fours_inv is4 val_eth b n (4 * m) (fold (\<lambda>i. group4_step is4 val_eth pad (4 * i)) [1..<m] st)"
proof (induction m)
  case (Suc m)
  show ?case
  proof (cases "m = 0")
    case True
    with assms(3) show ?thesis by simp
  next
    case False
    then have "fours_inv is4 val_eth b n (4 * m + 4)
      (group4_step is4 val_eth pad (4 * m) (fold (\<lambda>i. group4_step is4 val_eth pad (4 * i)) [1..<m] st))"
      using Suc by (intro fours_inv_step [OF assms(1,2)]) auto
    with False show ?thesis by (simp add: add.commute)
  qed
qed simp

lemma group_fours_grouped:
  assumes "list_all (ready val_eth) b" and "length b < length pnum"
    and k: "4 dvd k" "0 < k" "k \<le> length b"
  shows "\<exists>pnum' lp. group_fours is4 val_eth pad k pnum b =
      (done_upto is4 val_eth b k, pnum', lp, dst_of (done_upto is4 val_eth b k) lp)
    \<and> grouped (dst_of (done_upto is4 val_eth b k)) pnum' lp k \<and> length pnum' = length pnum"
proof -
  let ?n = "length pnum"
  from k have k4: "4 \<le> k" by (auto elim!: dvdE)
  have b4: "processx4_step3 is4 val_eth 0 b = done_upto is4 val_eth b 4"
    using processx4_done [OF assms(1), of 0 is4] k4 k(3) by (simp add: done_upto_def)
  let ?st = "(done_upto is4 val_eth b 4, pnum[0 := 1], 0, load_lanes pad (done_upto is4 val_eth b 4) 0)"
  have "0 < length pnum" using assms(2) by linarith
  then have "grouped (dst_of (done_upto is4 val_eth b 4)) (pnum[0 := 1]) 0 1"
    by (simp add: grouped_def leader_0 flip: One_nat_def) simp
  moreover have "load_lanes pad (done_upto is4 val_eth b 4) 0 ! i = dst_of (done_upto is4 val_eth b 4) i" if "i < 4" for i
    using load_lanes_nth [of i 0 "done_upto is4 val_eth b 4" pad] that k4 k(3) by simp
  ultimately have "fours_inv is4 val_eth b ?n 4 ?st" by (simp add: fours_inv_def)
  from fours_inv_loop [OF assms(1,2) this, of "k div 4" pad]
  have "fours_inv is4 val_eth b ?n k (fold (\<lambda>i. group4_step is4 val_eth pad (4 * i)) [1..<k div 4] ?st)"
    using k k4 by (auto elim!: dvdE)
  then obtain pnum1 lp1 dp1 where
    st: "fold (\<lambda>i. group4_step is4 val_eth pad (4 * i)) [1..<k div 4] ?st = (done_upto is4 val_eth b k, pnum1, lp1, dp1)"
    and len: "length pnum1 = ?n" and g: "grouped (dst_of (done_upto is4 val_eth b k)) pnum1 lp1 (k - 3)"
    and dp1: "\<And>i. i < 4 \<Longrightarrow> dp1 ! i = dst_of (done_upto is4 val_eth b k) (k - 4 + i)"
    by (auto simp: fours_inv_def split: prod.splits)
  let ?d = "dst_of (done_upto is4 val_eth b k)"
  define e where "e = ?d(k := ?d (k - 1))"
  obtain pnum2 lp2 where pg: "port_groupx4 pnum1 (k - 4) lp1 dp1 (shufflelo_f9 dp1) = (pnum2, lp2)" by fastforce
  have "Suc (k - 4) = k - 3" using k4 by simp
  then have g': "grouped e pnum1 lp1 (Suc (k - 4))" using g by (auto elim!: grouped_cong simp: e_def)
  have "dp1 ! i = e (k - 4 + i) \<and> shufflelo_f9 dp1 ! i = e (k - 4 + i + 1)" if "i < 4" for i
  proof -
    obtain c where c: "k = c + 4" using k4 by (metis add.commute le_Suc_ex)
    have "i = 0 \<or> i = 1 \<or> i = 2 \<or> i = 3" using that by linarith
    then show ?thesis using dp1 [of 0] dp1 [of 1] dp1 [of 2] dp1 [of 3]
      by (elim disjE) (simp_all add: shufflelo_f9_def c e_def eval_nat_numeral)
  qed
  from port_groupx4_grouped [OF g' _ this pg] have g2: "grouped e pnum2 lp2 (k - 4 + 5)" and len2: "length pnum2 = ?n"
    using assms(2) k k4 len by auto
  have "k - 4 + 5 = Suc k" using k4 by simp
  with g2 have h: "leader e pnum2 lp2" "lp2 < Suc k" "pnum2 ! lp2 = Suc k - lp2" "same_run e lp2 (Suc k)"
    by (simp_all add: grouped_def)
  have "lp2 \<noteq> k"
  proof
    assume "lp2 = k"
    with leader_ne [OF h(1)] k(2) show False by (simp add: e_def)
  qed
  with h(2) have "lp2 < k" by simp
  let ?pnum = "pnum2[lp2 := pnum2 ! lp2 - 1]"
  have "leader e ?pnum lp2" using h(1) by (rule leader_frame) simp
  moreover have "same_run e lp2 k" using h(4) by (auto intro!: same_runI dest: same_runD)
  ultimately have "grouped e ?pnum lp2 k"
    using h(3) \<open>lp2 < k\<close> assms(2) k(3) len2 by (simp add: grouped_def)
  then have g3: "grouped ?d ?pnum lp2 k" by (rule grouped_cong) (simp add: e_def)
  then have "?d (k - 1) = ?d lp2" using \<open>lp2 < k\<close> by (auto simp: grouped_def intro: same_runD)
  with g3 st pg b4 k(2) len2 show ?thesis by (simp add: group_fours_def FWDSTEP_def)
qed

definition tail_inv :: "(u32 \<Rightarrow> bool) \<Rightarrow> (u16 \<Rightarrow> bytes) \<Rightarrow> burst \<Rightarrow> nat \<Rightarrow> nat \<Rightarrow> burst \<times> nat list \<times> nat \<times> u16 \<Rightarrow> bool" where
  "tail_inv is4 val_eth b n j = (\<lambda>(b', pnum, lp, dlp).
     b' = done_upto is4 val_eth b j \<and> length pnum = n
     \<and> (if j = 0 then dlp = BAD_PORT - 1 else grouped (dst_of b') pnum lp j \<and> dlp = dst_of b' lp))"

lemma tail_inv_step:
  assumes "list_all (ready val_eth) b" and "length b < n" and "j < length b" and "tail_inv is4 val_eth b n j st"
  shows "tail_inv is4 val_eth b n (Suc j) (tail_step is4 val_eth j st)"
proof -
  obtain b' pnum lp dlp where st: "st = (b', pnum, lp, dlp)" by (metis prod_cases4)
  let ?b = "done_upto is4 val_eth b (Suc j)"
  have b': "b' = done_upto is4 val_eth b j" and len: "length pnum = n"
    and g: "if j = 0 then dlp = BAD_PORT - 1 else grouped (dst_of b') pnum lp j \<and> dlp = dst_of b' lp"
    using assms(4) by (auto simp: st tail_inv_def)
  have same: "dst_of ?b i = dst_of b' i" if "i < j" for i
    unfolding b' using that assms(3) by (intro dst_done_upto [symmetric]) auto
  obtain dlp' lp' pnum' where s: "GROUP_PORT_STEP (dst_of ?b) j (dlp, lp, pnum) = (dlp', lp', pnum')"
    by (metis prod_cases3)
  have "length pnum' = n \<and> grouped (dst_of ?b) pnum' lp' (Suc j) \<and> dlp' = dst_of ?b lp'"
  proof (cases "j = 0")
    case True
    have "dst_of ?b 0 \<noteq> BAD_PORT - 1"
      using process_port_not_free [of val_eth "b ! 0" is4] assms(1,3) True
      by (simp add: dst_of_def nth_done_upto list_all_length)
    then have "pnum' = pnum[0 := 1]" "lp' = 0" "dlp' = dst_of ?b 0"
      using s g True by (auto simp: GROUP_PORT_STEP_def split: if_splits)
    then show ?thesis using True len assms(2) by (auto simp: grouped_def leader_0)
  next
    case False
    with g have g': "grouped (dst_of b') pnum lp j" "dlp = dst_of b' lp" by simp_all
    then have "dlp = dst_of ?b lp" using same by (simp add: grouped_def)
    moreover have "grouped (dst_of ?b) pnum lp j" using g'(1) same by (rule grouped_cong)
    moreover have "j < length pnum" using assms(2,3) len by simp
    ultimately show ?thesis using grouped_step [of "dst_of ?b" pnum lp j] s len by simp
  qed
  then show ?thesis
    using s tail_done [OF assms(3), of is4 val_eth] by (simp add: st tail_step_def tail_inv_def b' Let_def)
qed

lemma tail_inv_loop:
  assumes "list_all (ready val_eth) b" and "length b < n" and "tail_inv is4 val_eth b n k st"
  shows "k \<le> m \<Longrightarrow> m \<le> length b \<Longrightarrow> tail_inv is4 val_eth b n m (fold (tail_step is4 val_eth) [k..<m] st)"
proof (induction m)
  case (Suc m)
  show ?case
  proof (cases "k \<le> m")
    case True
    with Suc show ?thesis by (simp add: tail_inv_step [OF assms(1,2)])
  next
    case False
    with Suc(2) have "k = Suc m" by simp
    with assms(3) show ?thesis by simp
  qed
qed (use assms(3) in simp)

lemma group_burst_grouped:
  assumes "list_all (ready val_eth) b" and "length b < length pnum" and "b \<noteq> []"
  shows "\<exists>pnum' lp dlp. group_burst is4 val_eth pad pnum b = (map (process_packet is4 val_eth) b, pnum', lp, dlp)
    \<and> grouped (dst_of (map (process_packet is4 val_eth) b)) pnum' lp (length b)"
proof -
  let ?k = "length b - length b mod 4"
  have k: "4 dvd ?k" "?k \<le> length b" by (simp_all add: minus_mod_eq_mult_div)
  have "tail_inv is4 val_eth b (length pnum) ?k (group_fours is4 val_eth pad ?k pnum b)"
  proof (cases "?k = 0")
    case True
    then have "group_fours is4 val_eth pad ?k pnum b = (b, pnum, MAX_PKT_BURST, BAD_PORT - 1)"
      by (simp only: group_fours_def) simp
    with True show ?thesis by (simp add: tail_inv_def done_upto_def)
  next
    case False
    then have "0 < ?k" by simp
    from group_fours_grouped [OF assms(1,2) k(1) this k(2), of is4 pad] False show ?thesis
      by (auto simp: tail_inv_def)
  qed
  from tail_inv_loop [OF assms(1,2) this k(2) order_refl]
  have "tail_inv is4 val_eth b (length pnum) (length b) (group_burst is4 val_eth pad pnum b)"
    by (simp add: group_burst_def Let_def FWDSTEP_def)
  moreover have "done_upto is4 val_eth b (length b) = map (process_packet is4 val_eth) b"
    by (simp add: done_upto_def)
  ultimately show ?thesis using assms(3) by (auto simp: tail_inv_def split: prod.splits)
qed

lemma send_packets_multi_eq:
  assumes "list_all (ready val_eth) b" and "length b < length pnum"
  shows "send_packets_multi tx is4 val_eth pad junk pnum b s =
    Some (send_runs tx junk (map (process_packet is4 val_eth) b) 0 s)"
proof (cases "b = []")
  case True
  have "group_burst is4 val_eth pad pnum [] = ([], pnum, MAX_PKT_BURST, BAD_PORT - 1)"
    by (simp add: group_burst_def group_fours_def)
  then show ?thesis
    using True by (simp add: send_packets_multi_def send_groups.simps send_runs.simps)
next
  case False
  obtain pnum' lp dlp where
    b: "group_burst is4 val_eth pad pnum b = (map (process_packet is4 val_eth) b, pnum', lp, dlp)"
    and g: "grouped (dst_of (map (process_packet is4 val_eth) b)) pnum' lp (length b)"
    using group_burst_grouped [OF assms False] by blast
  let ?b = "map (process_packet is4 val_eth) b"
  have "send_groups (length ?b) tx junk ?b pnum' 0 s = Some (send_runs tx junk ?b 0 s)"
    by (rule send_groups_runs) (use g False in \<open>auto simp: leader_0\<close>)
  with b show ?thesis by (simp add: send_packets_multi_def)
qed

section \<open>Conservation\<close>

lemma send_group_step:
  assumes "driver_ok tx" and "tx_ok s" and "0 < k" and "k \<le> length m" and "k \<le> MAX_PKT_BURST"
  shows "tx_ok (send_group tx junk pn m k s)
    \<and> tx_total (send_group tx junk pn m k s) = tx_total s + mset (take k m)"
proof (cases "pn = BAD_PORT")
  case True
  have "buffered p (s\<lparr>freed := freed s @ take k m\<rparr>) = buffered p s" for p by (simp add: buffered_def)
  with True assms(2) show ?thesis
    by (simp add: send_group_def tx_ok_def tx_total_def sent_def held_def)
next
  case False
  have "unat (ucast pn :: u8) < 256" using unsigned_less [where 'a = nat, of "ucast pn :: u8"] by simp
  with False burst.send_ok [of tx s "(m, k, unat (ucast pn :: u8))" junk]
    burst.send_total [of tx s "(m, k, unat (ucast pn :: u8))" junk] assms
  show ?thesis by (simp add: send_group_def)
qed

lemma send_runs_total:
  "driver_ok tx \<Longrightarrow> tx_ok s \<Longrightarrow> length b \<le> MAX_PKT_BURST \<Longrightarrow>
   tx_ok (send_runs tx junk b j s) \<and> tx_total (send_runs tx junk b j s) = tx_total s + mset (drop j (map fst b))"
proof (induction tx junk b j s rule: send_runs.induct)
  case (1 tx junk b j s)
  show ?case
  proof (cases "length b \<le> j")
    case True
    then have "send_runs tx junk b j s = s" by (subst send_runs.simps) simp
    with True 1(3) show ?thesis by simp
  next
    case False
    let ?k = "run_end b j"
    let ?s = "send_group tx (\<lambda>i. junk (j + i)) (dst_of b j) (drop j (map fst b)) ?k s"
    have k: "0 < ?k" "j + ?k \<le> length b" using run_end_bound [of j b] False by (auto simp: run_end_def)
    have "tx_ok ?s \<and> tx_total ?s = tx_total s + mset (take ?k (drop j (map fst b)))"
      using k 1(2-4) by (intro send_group_step) auto
    moreover have "mset (take ?k (drop j (map fst b))) + mset (drop (j + ?k) (map fst b)) = mset (drop j (map fst b))"
    proof -
      have "drop j (map fst b) = take ?k (drop j (map fst b)) @ drop (j + ?k) (map fst b)"
        using append_take_drop_id [of ?k "drop j (map fst b)"] by (simp add: add.commute)
      then show ?thesis by (metis mset_append)
    qed
    moreover have "send_runs tx junk b j s = send_runs tx junk b (j + ?k) ?s"
      using False by (subst send_runs.simps) simp
    ultimately show ?thesis
      using 1(1) [OF False] 1(2,4) by (simp add: ac_simps)
  qed
qed

section \<open>Properties\<close>

text \<open>C36: The vectorised grouping is a run-length encoding: for up to 32 packets
  \<^verbatim>\<open>send_packets_multi\<close> processes every packet once and makes one send call for each maximal
  run of packets with the same port (or frees the run, for \<^verbatim>\<open>BAD_PORT\<close>), in order,
  whatever is behind the arrays and whatever \<^verbatim>\<open>pnum\<close> holds at the start; its last loop
  ends.\<close>

theorem send_packets_multi_run_length:
  assumes "list_all (ready val_eth) b" and "length b \<le> MAX_PKT_BURST" and "length pnum = MAX_PKT_BURST + 1"
  shows "send_packets_multi tx is4 val_eth pad junk pnum b s =
    Some (send_runs tx junk (map (process_packet is4 val_eth) b) 0 s)"
  using assms by (intro send_packets_multi_eq) auto

definition sample_mbuf :: mbuf where
  "sample_mbuf = \<lparr>pdata = replicate 60 0, packet_type = 0\<rparr>"

theorem send_packets_multi_run_length_witness:
  "send_packets_multi (\<lambda>h port q ms. length ms) (\<lambda>t. t = 0x10) (\<lambda>p. replicate 16 1) (\<lambda>i. 7) (\<lambda>i. sample_mbuf)
      (replicate 33 5) [(sample_mbuf, 3), (sample_mbuf, 3), (sample_mbuf, 4), (sample_mbuf, 3), (sample_mbuf, 3)]
      (empty_fwd sample_mbuf)
    = Some (send_runs (\<lambda>h port q ms. length ms) (\<lambda>i. sample_mbuf)
        (map (process_packet (\<lambda>t. t = 0x10) (\<lambda>p. replicate 16 1))
          [(sample_mbuf, 3), (sample_mbuf, 3), (sample_mbuf, 4), (sample_mbuf, 3), (sample_mbuf, 3)]) 0 (empty_fwd sample_mbuf))"
  by (rule send_packets_multi_run_length) (simp_all add: ready_def sample_mbuf_def MAX_PKT_BURST_def)

text \<open>\<^verbatim>\<open>send_packets_multi\<close> loses and invents no packet: every processed packet is
  afterwards on a wire, freed, or in a transmit buffer.\<close>

theorem send_packets_multi_conserves:
  assumes "driver_ok tx" and "tx_ok s"
    and "list_all (ready val_eth) b" and "length b \<le> MAX_PKT_BURST" and "length pnum = MAX_PKT_BURST + 1"
  shows "\<exists>s'. send_packets_multi tx is4 val_eth pad junk pnum b s = Some s' \<and> tx_ok s'
    \<and> tx_total s' = tx_total s + mset (map (fst \<circ> process_packet is4 val_eth) b)"
  using assms send_packets_multi_eq [of val_eth b pnum] send_runs_total [of tx s "map (process_packet is4 val_eth) b" junk 0]
  by (simp add: comp_def)

theorem send_packets_multi_conserves_witness:
  "\<exists>s'. send_packets_multi (\<lambda>h port q ms. 0) (\<lambda>t. t = 0x10) (\<lambda>p. replicate 16 1) (\<lambda>i. 7) (\<lambda>i. sample_mbuf)
      (replicate 33 5) (replicate 20 (sample_mbuf, 3)) (empty_fwd sample_mbuf) = Some s' \<and> size (tx_total s') = 20"
proof -
  have "driver_ok (\<lambda>h port q (ms :: mbuf list). 0)" by (simp add: driver_ok_def)
  moreover have "list_all (ready (\<lambda>p. replicate 16 1)) (replicate 20 (sample_mbuf, 3))"
    by (simp add: list_all_iff ready_def sample_mbuf_def)
  ultimately show ?thesis
    using send_packets_multi_conserves [where tx = "\<lambda>h port q ms. 0" and s = "empty_fwd sample_mbuf"
        and val_eth = "\<lambda>p. replicate 16 1" and b = "replicate 20 (sample_mbuf, 3)" and pnum = "replicate 33 5"
        and ?is4.0 = "\<lambda>t. t = 0x10" and pad = "\<lambda>i. 7" and junk = "\<lambda>i. sample_mbuf"]
      empty_fwd_ok [where x = sample_mbuf]
    by (auto simp: MAX_PKT_BURST_def)
qed

text \<open>The table-driven step for four compares: when the counts are right up to packet \<open>b\<close>,
  one call of \<^verbatim>\<open>port_groupx4\<close> makes them right for the next four packets.\<close>

theorem port_groupx4_correct:
  assumes "grouped d pn lp (Suc b)" and "b + 5 \<le> length pn"
    and "\<And>i. i < 4 \<Longrightarrow> dp1 ! i = d (b + i) \<and> dp2 ! i = d (b + i + 1)"
    and "port_groupx4 pn b lp dp1 dp2 = (pn', lp')"
  shows "grouped d pn' lp' (b + 5) \<and> length pn' = length pn"
  using assms by (rule port_groupx4_grouped)

theorem port_groupx4_correct_witness:
  "grouped (\<lambda>i. [7, 7, 9, 9, 9] ! i) (fst (port_groupx4 [1, 0, 0, 0, 0] 0 0 [7, 7, 9, 9] [7, 9, 9, 9]))
     (snd (port_groupx4 [1, 0, 0, 0, 0] 0 0 [7, 7, 9, 9] [7, 9, 9, 9])) 5"
proof -
  have "grouped (\<lambda>i. [7, 7, 9, 9, 9] ! i) [1, 0, 0, 0, 0] 0 (Suc 0)"
    by (simp add: grouped_def leader_0)
  moreover have "[7, 7, 9, 9] ! i = [7, 7, 9, 9, 9 :: u16] ! (0 + i)
      \<and> [7, 9, 9, 9] ! i = [7, 7, 9, 9, 9 :: u16] ! (0 + i + 1)" if "i < 4" for i
    using that by (auto simp: less_Suc_eq numeral_eq_Suc)
  ultimately show ?thesis
    using port_groupx4_correct [of "\<lambda>i. [7, 7, 9, 9, 9] ! i" "[1, 0, 0, 0, 0]" 0 0 "[7, 7, 9, 9]" "[7, 9, 9, 9]"]
    by (simp add: surjective_pairing [symmetric])
qed

section \<open>The two forms of the RFC 1812 checks\<close>

lemma unat_and_15_u8: "unat (b AND 0xf :: u8) = unat b mod 16"
proof -
  have "b AND 0xf = take_bit 4 b" using mask_and_word(2) [of b 4] by simp
  then have "unat (b AND 0xf) = take_bit 4 (unat b)" by (simp only: unsigned_take_bit_eq)
  then show ?thesis by (simp add: take_bit_eq_mod)
qed

lemma version_check: "10 < (b :: u8) - 0x45 \<longleftrightarrow> drop_bit 4 b \<noteq> 4 \<or> b AND 0xf < 5"
proof -
  have d: "unat (drop_bit 4 b) = unat b div 16"
    using take_bit_nat_eq_self [of "unat b" 8] unsigned_less [where 'a = nat, of b]
    by (subst unsigned_drop_bit_eq) (simp add: drop_bit_eq_div)
  have s: "unat (b - 0x45) = (if 69 \<le> unat b then unat b - 69 else unat b + 256 - 69)"
    by (simp add: unat_sub_if')
  have e: "drop_bit 4 b \<noteq> 4 \<longleftrightarrow> unat b div 16 \<noteq> 4"
    by (simp add: word_unat_eq_iff d)
  have u: "unat b < 256" using unsigned_less [where 'a = nat, of b] by simp
  have "10 < b - 0x45 \<longleftrightarrow> \<not> (69 \<le> unat b \<and> unat b \<le> 79)"
    unfolding word_less_nat_alt s using u by (auto split: if_splits)
  also have "\<dots> \<longleftrightarrow> unat b div 16 \<noteq> 4 \<or> unat b mod 16 < 5" 
  proof -
    define q r where "q = unat b div 16" and "r = unat b mod 16"
    then have b: "unat b = 16 * q + r" "r < 16" by simp_all
    consider "q \<le> 3" | "q = 4" | "5 \<le> q" by linarith
    then show ?thesis unfolding q_def [symmetric] r_def [symmetric] using b by cases auto
  qed
  finally show ?thesis unfolding e word_less_nat_alt unat_and_15_u8 by simp
qed

lemma length_check: "((ucast t :: u8) = 0 \<and> t < push_bit 8 20) \<longleftrightarrow> bswap16 t < 20"
proof -
  have b: "(ucast t :: u8) = 0 \<longleftrightarrow> unat t mod 256 = 0"
    by (simp add: word_unat_eq_iff unsigned_ucast_eq take_bit_eq_mod)
  have p: "t < push_bit 8 20 \<longleftrightarrow> unat t < 5120" by (simp add: word_less_nat_alt)
  have q: "bswap16 t < 20 \<longleftrightarrow> unat t div 256 + 256 * (unat t mod 256) < 20"
    by (simp add: word_less_nat_alt unat_bswap16)
  define u v where "u = unat t div 256" and "v = unat t mod 256"
  then have "unat t = 256 * u + v" "v < 256" by simp_all
  then show ?thesis unfolding b p q u_def [symmetric] v_def [symmetric] by auto
qed

lemma nth_dec_ttl:
  assumes "off + 12 \<le> length p"
  shows "length (dec_ttl p off) = length p"
    and "i < length p \<Longrightarrow> i < off + 8 \<or> i = off + 9 \<or> off + 12 \<le> i \<Longrightarrow> dec_ttl p off ! i = p ! i"
    and "time_to_live (dec_ttl p off) off = time_to_live p off - 1"
    and "hdr_checksum (dec_ttl p off) off = hdr_checksum p off + 1"
proof -
  have h: "hdr_checksum (p[off + 8 := x]) off = hdr_checksum p off" for x
    by (simp add: hdr_checksum_def load_def)
  show "length (dec_ttl p off) = length p" using assms by (simp add: dec_ttl_def Let_def)
  show "i < length p \<Longrightarrow> i < off + 8 \<or> i = off + 9 \<or> off + 12 \<le> i \<Longrightarrow> dec_ttl p off ! i = p ! i"
    using assms by (auto simp: dec_ttl_def Let_def nth_store)
  show "time_to_live (dec_ttl p off) off = time_to_live p off - 1"
    using assms by (simp add: dec_ttl_def Let_def nth_store time_to_live_def)
  show "hdr_checksum (dec_ttl p off) off = hdr_checksum p off + 1"
    using assms by (simp add: dec_ttl_def Let_def h) (simp add: hdr_checksum_def layout_simps)
qed

text \<open>The sum of the ten little-endian 16-bit words of the header, checksum included; its
  value modulo \<open>65535\<close> decides whether the header is accepted.\<close>

definition header_sum :: "bytes \<Rightarrow> nat \<Rightarrow> nat" where
  "header_sum p off = (\<Sum>i<10. unat (load 2 p (off + 2 * i) :: u16))"

lemma sum_10: "(\<Sum>i<10. f i) = f 0 + f 1 + f 2 + f 3 + f 4 + f 5 + f 6 + f 7 + f 8 + f (9 :: nat)"
  by (simp add: eval_nat_numeral)

lemma dec_ttl_header_sum:
  assumes l: "off + 20 \<le> length p" and t: "time_to_live p off \<noteq> 0" and c: "hdr_checksum p off \<noteq> - 1"
  shows "header_sum (dec_ttl p off) off = header_sum p off"
proof -
  let ?q = "dec_ttl p off"
  have same: "unat (load 2 ?q (off + 2 * i) :: u16) = unat (load 2 p (off + 2 * i) :: u16)"
    if "i < 10" "i \<noteq> 4" "i \<noteq> 5" for i
  proof -
    have "?q ! (off + 2 * i) = p ! (off + 2 * i)" "?q ! Suc (off + 2 * i) = p ! Suc (off + 2 * i)"
      using that l by (auto intro!: nth_dec_ttl(2))
    then show ?thesis using that l by (simp add: load2_unat nth_dec_ttl(1))
  qed
  have four: "unat (load 2 ?q (off + 8) :: u16) + 1 = unat (load 2 p (off + 8) :: u16)"
  proof -
    have "?q ! Suc (off + 8) = p ! Suc (off + 8)" using l by (intro nth_dec_ttl(2)) auto
    moreover have "?q ! (off + 8) = p ! (off + 8) - 1"
      using l nth_dec_ttl(3) [of off p] by (simp add: time_to_live_def)
    moreover have "unat (p ! (off + 8) - 1) + 1 = unat (p ! (off + 8))"
      using t by (simp add: time_to_live_def unat_minus_one unat_gt_0)
    ultimately show ?thesis using l by (simp add: load2_unat nth_dec_ttl(1))
  qed
  have five: "unat (load 2 ?q (off + 10) :: u16) = unat (load 2 p (off + 10) :: u16) + 1"
  proof -
    have "1 + hdr_checksum p off \<noteq> 0" using c by (metis add_eq_0_iff)
    then show ?thesis using l nth_dec_ttl(4) [of off p] unatSuc [of "hdr_checksum p off"]
      by (simp add: hdr_checksum_def add.commute)
  qed
  show ?thesis unfolding header_sum_def sum_10
    using same [of 0] same [of 1] same [of 2] same [of 3] same [of 6] same [of 7] same [of 8] same [of 9] four five
    by simp
qed

lemma rfc1812_verdict:
  assumes "is4 ptype" and "20 \<le> link_len" and "dp \<noteq> BAD_PORT" and "off + 20 \<le> length p"
  shows "snd (rfc1812_process is4 p off dp ptype) = (if is_valid_ipv4_pkt p off link_len = 0 then dp else BAD_PORT)"
proof -
  have "total_length (dec_ttl p off) off = total_length p off"
    using assms(4) by (simp add: total_length_def dec_ttl_def Let_def layout_simps)
      (simp add: load_def drop_update_swap)
  then show ?thesis using assms(1,2,3) version_check [of "version_ihl p off"] length_check [of "total_length p off"]
    by (auto simp: rfc1812_process_def is_valid_ipv4_pkt_def IPV4_MAX_VER_IHL_DIFF_def IPV4_MIN_VER_IHL_def
        IPV4_MIN_LEN_BE_def Let_def)
qed

text \<open>The vector path and the scalar path apply the same checks: for an IPv4 packet of at least
  twenty bytes, \<^verbatim>\<open>rfc1812_process\<close> turns the destination into \<^verbatim>\<open>BAD_PORT\<close> exactly
  when \<^verbatim>\<open>is_valid_ipv4_pkt\<close> returns an error, and leaves it alone otherwise.\<close>

theorem rfc1812_process_agrees:
  assumes "is4 ptype" and "20 \<le> link_len" and "dp \<noteq> BAD_PORT" and "off + 20 \<le> length p"
  shows "snd (rfc1812_process is4 p off dp ptype) = (if is_valid_ipv4_pkt p off link_len = 0 then dp else BAD_PORT)"
  using assms by (rule rfc1812_verdict)

theorem rfc1812_process_agrees_witness:
  "snd (rfc1812_process (\<lambda>t. True) (0x45 # replicate 19 1) 0 3 7) = 3
   \<and> snd (rfc1812_process (\<lambda>t. True) (0x65 # replicate 19 1) 0 3 7) = BAD_PORT"
proof -
  have "(3 :: u16) \<noteq> BAD_PORT" by (simp add: BAD_PORT_def)
  moreover have "is_valid_ipv4_pkt (0x45 # replicate 19 1) 0 20 = 0" by code_simp
  moreover have "is_valid_ipv4_pkt (0x65 # replicate 19 1) 0 20 \<noteq> 0" by code_simp
  ultimately show ?thesis
    using rfc1812_process_agrees [of "\<lambda>t. True" 7 20 3 0 "0x45 # replicate 19 1"]
      rfc1812_process_agrees [of "\<lambda>t. True" 7 20 3 0 "0x65 # replicate 19 1"] by simp
qed

text \<open>Decrementing the TTL and incrementing the checksum in place leaves the header sum, and so
  the validity of the checksum, as it was, unless the TTL is \<open>0\<close> or the stored checksum is
  \<open>0xffff\<close>; a TTL of \<open>0\<close> is not dropped but becomes \<open>255\<close>.\<close>

theorem dec_ttl_keeps_sum:
  assumes "off + 20 \<le> length p"
  shows "(time_to_live p off \<noteq> 0 \<and> hdr_checksum p off \<noteq> - 1 \<longrightarrow> header_sum (dec_ttl p off) off = header_sum p off)
    \<and> time_to_live (dec_ttl p off) off = (if time_to_live p off = 0 then 255 else time_to_live p off - 1)"
  using assms dec_ttl_header_sum [of off p] nth_dec_ttl(3) [of off p] by simp_all

theorem dec_ttl_keeps_sum_witness:
  "header_sum (dec_ttl (replicate 20 7) 0) 0 = header_sum (replicate 20 7) 0
   \<and> time_to_live (dec_ttl (replicate 20 0) 0) 0 = 255"
proof -
  have "time_to_live (replicate 20 7) 0 \<noteq> 0" by (simp add: time_to_live_def)
  moreover have "hdr_checksum (replicate 20 7) 0 \<noteq> - 1" by code_simp
  moreover have "time_to_live (replicate 20 0) 0 = 0" by (simp add: time_to_live_def)
  ultimately show ?thesis
    using dec_ttl_keeps_sum [of 0 "replicate 20 7"] dec_ttl_keeps_sum [of 0 "replicate 20 0"] by simp
qed

end
