(* ===== verification/L3fwd_Loop.thy ===== *)
theory L3fwd_Loop
  imports L3fwd_Tx
begin

text \<open>
  The polling loop of the forwarder.  \<^verbatim>\<open>lpm_main_loop\<close> and \<^verbatim>\<open>em_main_loop\<close> are the same
  code around different handlers for a received burst: from time to time the transmit buffers
  are drained, then every receive queue is polled.  The handler is the argument \<open>handle\<close> of the
  loop and the subject of the interface \<open>burst_handler\<close>; what the driver delivers and the time
  stamps are the input.
\<close>

section \<open>The code\<close>

definition US_PER_S :: u64 where "US_PER_S = 1000000"
definition BURST_TX_DRAIN_US :: u64 where "BURST_TX_DRAIN_US = 100"

definition drain_tsc :: "u64 \<Rightarrow> u64" where
  "drain_tsc hz = (hz + US_PER_S - 1) div US_PER_S * BURST_TX_DRAIN_US"

text \<open>The ports of the core are \<^verbatim>\<open>uint16_t\<close> in \<^verbatim>\<open>tx_port_id\<close> and
  \<^verbatim>\<open>uint8_t\<close> in the loop.\<close>

definition drain_port :: "'m tx_driver \<Rightarrow> u16 \<Rightarrow> 'm fwd_state \<Rightarrow> 'm fwd_state" where
  "drain_port tx pid s =
     (let portid = unat (ucast pid :: u8); n = mbt_len (tx_mbufs s portid)
      in if n = 0 then s else set_len portid 0 (send_burst tx n portid s))"

definition drain_ports :: "'m tx_driver \<Rightarrow> u16 list \<Rightarrow> 'm fwd_state \<Rightarrow> 'm fwd_state" where
  "drain_ports tx tx_port_id s = fold (drain_port tx) tx_port_id s"

type_synonym 'm handler = "u8 \<Rightarrow> 'm list \<Rightarrow> 'm fwd_state \<Rightarrow> 'm fwd_state option"

definition poll_queue :: "'m handler \<Rightarrow> u8 \<times> 'm list \<Rightarrow> 'm fwd_state \<Rightarrow> 'm fwd_state option" where
  "poll_queue handle = (\<lambda>(portid, pkts) s. if length pkts = 0 then Some s else handle portid pkts s)"

record 'm turn =
  cur_tsc :: u64
  bursts :: "(u8 \<times> 'm list) list"

definition fwd_turn :: "'m tx_driver \<Rightarrow> u16 list \<Rightarrow> 'm handler \<Rightarrow> u64 \<Rightarrow> 'm turn \<Rightarrow>
    u64 \<times> 'm fwd_state \<Rightarrow> (u64 \<times> 'm fwd_state) option" where
  "fwd_turn tx tx_port_id handle hz e = (\<lambda>(prev_tsc, s).
     let diff_tsc = cur_tsc e - prev_tsc;
         (prev_tsc, s) = (if drain_tsc hz < diff_tsc then (cur_tsc e, drain_ports tx tx_port_id s) else (prev_tsc, s))
     in map_option (Pair prev_tsc) (fold_option (poll_queue handle) (bursts e) s))"

text \<open>The turns before \<^verbatim>\<open>force_quit\<close>; a core without receive queues returns at once.\<close>

definition fwd_loop :: "'m tx_driver \<Rightarrow> u16 list \<Rightarrow> 'm handler \<Rightarrow> u64 \<Rightarrow> nat \<Rightarrow> 'm turn list \<Rightarrow> 'm fwd_state \<Rightarrow>
    'm fwd_state option" where
  "fwd_loop tx tx_port_id handle hz n_rx_queue es s =
     (if n_rx_queue = 0 then Some s
      else map_option snd (fold_option (fwd_turn tx tx_port_id handle hz) es (0, s)))"

section \<open>Draining\<close>

lemma drain_port_accounts:
  assumes "driver_ok tx" and "tx_ok s"
  shows "accounts (unat (ucast pid :: u8)) [] s (drain_port tx pid s)"
    and "buffered (unat (ucast pid :: u8)) (drain_port tx pid s) = []"
proof -
  let ?p = "unat (ucast pid :: u8)"
  let ?n = "mbt_len (tx_mbufs s ?p)" and ?m = "m_table (tx_mbufs s ?p)"
  have n: "?n \<le> length ?m" using assms(2) by (simp add: tx_ok_def less_imp_le)
  have "sent (send_burst tx ?n ?p s) + mset (freed (send_burst tx ?n ?p s)) = sent s + mset (freed s) + mset (take ?n ?m)"
    unfolding send_burst_def by (rule tx_or_free_sent [OF assms(1) n])
  moreover have "sent (set_len ?p 0 x) = sent x" for x :: "'a fwd_state" by (rule sent_cong) simp
  ultimately show "accounts ?p [] s (drain_port tx pid s)"
    using assms(2) by (auto simp: accounts_def drain_port_def Let_def tx_ok_def buffered_def MAX_PKT_BURST_def)
  show "buffered ?p (drain_port tx pid s) = []" by (simp add: drain_port_def Let_def buffered_def)
qed

lemma drain_ports_ok:
  assumes "driver_ok tx" and "tx_ok s"
  shows "tx_ok (drain_ports tx ids s) \<and> tx_total (drain_ports tx ids s) = tx_total s
    \<and> (\<forall>p. p \<in> (\<lambda>pid. unat (ucast pid :: u8)) ` set ids \<or> buffered p s = [] \<longrightarrow> buffered p (drain_ports tx ids s) = [])"
  using assms(2)
proof (induction ids arbitrary: s)
  case (Cons pid ids)
  let ?p = "unat (ucast pid :: u8)" and ?s = "drain_port tx pid s"
  have p: "?p < 256" using unsigned_less [where 'a = nat, of "ucast pid :: u8"] by simp
  note a = drain_port_accounts [OF assms(1) Cons.prems, of pid]
  have "tx_ok ?s" "tx_total ?s = tx_total s"
    using accounts_ok [OF a(1)] accounts_total [OF a(1) p] by simp_all
  moreover have "buffered q ?s = []" if "q = ?p \<or> buffered q s = []" for q
    using that a by (cases "q = ?p") (auto simp: accounts_def)
  ultimately show ?case using Cons.IH [of ?s] by (auto simp: drain_ports_def)
qed (auto simp: drain_ports_def)

section \<open>Handlers\<close>

text \<open>The bursts of a turn are good, and what the handler makes of them.\<close>

definition turn_good :: "(u8 \<Rightarrow> 'm list \<Rightarrow> bool) \<Rightarrow> 'm turn \<Rightarrow> bool" where
  "turn_good good e \<longleftrightarrow> list_all (\<lambda>b. good (fst b) (snd b)) (bursts e)"

definition turn_pkts :: "(u8 \<Rightarrow> 'm list \<Rightarrow> 'm list) \<Rightarrow> 'm turn \<Rightarrow> 'm list" where
  "turn_pkts handled e = concat (map (\<lambda>b. handled (fst b) (snd b)) (bursts e))"

text \<open>What the loop needs of the handler of a burst: it returns, keeps the buffers well formed, and
  every packet of the burst, as the handler leaves it, is afterwards accounted for.\<close>

locale burst_handler =
  fixes tx :: "'m tx_driver"
    and handle :: "'m handler"
    and good :: "u8 \<Rightarrow> 'm list \<Rightarrow> bool"
    and handled :: "u8 \<Rightarrow> 'm list \<Rightarrow> 'm list"
  assumes handle_accounts: "driver_ok tx \<Longrightarrow> tx_ok s \<Longrightarrow> good portid pkts \<Longrightarrow>
      \<exists>s'. handle portid pkts s = Some s' \<and> tx_ok s' \<and> tx_total s' = tx_total s + mset (handled portid pkts)"
    and handled_nil: "handled portid [] = []"
begin

lemma poll_accounts:
  assumes "driver_ok tx" and "tx_ok s" and "good (fst b) (snd b)"
  shows "\<exists>s'. poll_queue handle b s = Some s' \<and> tx_ok s' \<and> tx_total s' = tx_total s + mset (handled (fst b) (snd b))"
  using handle_accounts [OF assms] assms(2) by (cases b) (auto simp: poll_queue_def handled_nil)

lemma polls_account:
  assumes "driver_ok tx" and "tx_ok s" and "\<forall>b\<in>set bs. good (fst b) (snd b)"
  shows "\<exists>s'. fold_option (poll_queue handle) bs s = Some s' \<and> tx_ok s'
     \<and> tx_total s' = tx_total s + mset (concat (map (\<lambda>b. handled (fst b) (snd b)) bs))"
  using assms(2) by (rule fold_option_sink [rotated]) (use poll_accounts [OF assms(1)] assms(3) in blast)

lemma turn_accounts:
  assumes "driver_ok tx" and "tx_ok s" and "turn_good good e"
  shows "\<exists>tsc s'. fwd_turn tx ids handle hz e (prev, s) = Some (tsc, s') \<and> tx_ok s'
    \<and> tx_total s' = tx_total s + mset (turn_pkts handled e)"
proof -
  define s1 where "s1 = (if drain_tsc hz < cur_tsc e - prev then drain_ports tx ids s else s)"
  have "tx_ok s1" "tx_total s1 = tx_total s" using drain_ports_ok [OF assms(1,2), of ids] assms(2) by (simp_all add: s1_def)
  with polls_account [OF assms(1), of s1 "bursts e"] assms(3) show ?thesis
    by (cases "drain_tsc hz < cur_tsc e - prev") (auto simp: fwd_turn_def s1_def turn_good_def turn_pkts_def list_all_iff)
qed

lemma turns_account:
  "driver_ok tx \<Longrightarrow> tx_ok s \<Longrightarrow> \<forall>e\<in>set es. turn_good good e \<Longrightarrow>
   \<exists>tsc s'. fold_option (fwd_turn tx ids handle hz) es (prev, s) = Some (tsc, s') \<and> tx_ok s'
     \<and> tx_total s' = tx_total s + mset (concat (map (turn_pkts handled) es))"
proof (induction es arbitrary: prev s)
  case (Cons e es)
  from turn_accounts [OF Cons.prems(1,2), of e ids hz prev] Cons.prems(3) obtain tsc s1 where
    s1: "fwd_turn tx ids handle hz e (prev, s) = Some (tsc, s1)" "tx_ok s1" "tx_total s1 = tx_total s + mset (turn_pkts handled e)" by auto
  from Cons.IH [OF Cons.prems(1) s1(2), of tsc] Cons.prems(3) s1 show ?case by (auto simp: add.assoc)
qed simp

lemma loop_accounts:
  assumes "driver_ok tx" and "tx_ok s" and "\<forall>e\<in>set es. turn_good good e" and "0 < n"
  shows "\<exists>s'. fwd_loop tx ids handle hz n es s = Some s' \<and> tx_ok s'
    \<and> tx_total s' = tx_total s + mset (concat (map (turn_pkts handled) es))"
  using turns_account [OF assms(1-3), of ids hz 0] assms(4) by (auto simp: fwd_loop_def)

end

end
