(* ===== verification/L3fwd_Fwd.thy ===== *)
theory L3fwd_Fwd
  imports L3fwd_Sse L3fwd_Loop
begin

text \<open>
  What forwarding by longest prefix match and by exact match have in common: the packet types of
  DPDK, which are parameters, the addresses and the mask of the ports, the check of the port a
  lookup gives, and the lemmas that relate the scalar code, which writes the addresses with two
  stores, to the vector code of \<^verbatim>\<open>process_packet\<close>.
\<close>

section \<open>What the code is given\<close>

record ptype_consts =
  RTE_ETH_IS_IPV4_HDR :: "u32 \<Rightarrow> bool"
  RTE_ETH_IS_IPV6_HDR :: "u32 \<Rightarrow> bool"
  RTE_PTYPE_L3_IPV4 :: u32
  RTE_PTYPE_L3_IPV6 :: u32
  RTE_PTYPE_L3_IPV4_EXT_UNKNOWN :: u32
  RTE_PTYPE_L3_IPV6_EXT_UNKNOWN :: u32

text \<open>A packet has an IPv4 header when \<^verbatim>\<open>RTE_PTYPE_L3_IPV4\<close> is set in its type.\<close>

definition ptypes_ok :: "ptype_consts \<Rightarrow> bool" where
  "ptypes_ok c \<longleftrightarrow> (\<forall>t. RTE_ETH_IS_IPV4_HDR c t \<longleftrightarrow> t AND RTE_PTYPE_L3_IPV4 c \<noteq> 0)"

record port_conf =
  enabled_port_mask :: u32
  dest_eth_addr :: "nat \<Rightarrow> u64"
  ports_eth_addr :: "nat \<Rightarrow> bytes"
  val_eth :: "u16 \<Rightarrow> bytes"

text \<open>The registers with the addresses of the ports agree with the arrays they were filled from.\<close>

definition macs_ok :: "'z port_conf_scheme \<Rightarrow> bool" where
  "macs_ok q \<longleftrightarrow> (\<forall>d. length (ports_eth_addr q (unat d)) = 6
     \<and> take 12 (val_eth q d) = take 6 (le_bytes 8 (dest_eth_addr q (unat d))) @ ports_eth_addr q (unat d))"

definition ETHER_TYPE_IPv4 :: u16 where "ETHER_TYPE_IPv4 = 0x0800"
definition ETHER_TYPE_IPv6 :: u16 where "ETHER_TYPE_IPv6 = 0x86DD"

definition PREFETCH_OFFSET :: nat where "PREFETCH_OFFSET = 3"

section \<open>Ports and addresses\<close>

definition RTE_MAX_ETHPORTS :: nat where "RTE_MAX_ETHPORTS = 32"

definition checked_port :: "'z port_conf_scheme \<Rightarrow> u8 \<Rightarrow> u8 \<Rightarrow> u8" where
  "checked_port q dst_port portid =
     (if RTE_MAX_ETHPORTS \<le> unat dst_port \<or> enabled_port_mask q AND push_bit (unat dst_port) 1 = 0 then portid else dst_port)"

definition set_macs :: "'z port_conf_scheme \<Rightarrow> u8 \<Rightarrow> bytes \<Rightarrow> bytes" where
  "set_macs q dst_port p =
     (let p = store p 0 (le_bytes 8 (dest_eth_addr q (unat dst_port)))
      in store p 6 (ports_eth_addr q (unat dst_port)))"

definition port_unused :: "u32 \<Rightarrow> u8 \<Rightarrow> bool" where
  "port_unused pm if_out \<longleftrightarrow> push_bit (unat if_out) 1 AND pm = 0"

section \<open>Lemmas\<close>

definition port_enabled :: "u32 \<Rightarrow> u8 \<Rightarrow> bool" where
  "port_enabled pm p \<longleftrightarrow> unat p < 8 \<and> bit pm (unat p)"

lemma port_used: "\<not> port_unused pm p \<longleftrightarrow> unat p < 32 \<and> bit pm (unat p)"
proof -
  have "bit (push_bit n 1 AND pm) m \<longleftrightarrow> m = n \<and> n < 32 \<and> bit pm n" for n m
    by (auto simp: bit_simps)
  then have "push_bit n 1 AND pm \<noteq> 0 \<longleftrightarrow> n < 32 \<and> bit pm n" for n
    by (metis bit_0_eq bit_word_eqI bot_apply bot_bool_def)
  then show ?thesis by (simp add: port_unused_def)
qed

lemma val_eth_length: "macs_ok q \<Longrightarrow> 12 \<le> length (val_eth q d)"
proof -
  assume "macs_ok q"
  then have "length (take 12 (val_eth q d)) = length (take 6 (le_bytes 8 (dest_eth_addr q (unat d)))) + 6"
    by (simp add: macs_ok_def del: length_take)
  then show ?thesis by simp
qed

lemma unat_ucast_u8_u16 [simp]: "unat (ucast (d :: u8) :: u16) = unat d"
  using unsigned_less [where 'a = nat, of d] by (simp add: unsigned_ucast_eq take_bit_nat_eq_self)

lemma set_macs_blend:
  assumes q: "macs_ok q" and l: "16 \<le> length p"
  shows "set_macs q d p = store p 0 (blend_eth (take 16 p) (val_eth q (ucast d)))"
proof (rule nth_equalityI)
  let ?ve = "val_eth q (ucast d)" and ?a = "le_bytes 8 (dest_eth_addr q (unat d))" and ?b = "ports_eth_addr q (unat d)"
  have b: "length ?b = 6" and t: "take 12 ?ve = take 6 ?a @ ?b"
    using q unat_ucast_u8_u16 [of d] by (metis macs_ok_def)+
  note ve = val_eth_length [OF q, of "ucast d"]
  show len: "length (set_macs q d p) = length (store p 0 (blend_eth (take 16 p) ?ve))"
    using l ve b by (simp add: set_macs_def Let_def)
  fix i assume "i < length (set_macs q d p)"
  then have i: "i < length p" using len l ve by simp
  have "?ve ! i = (if i < 6 then ?a ! i else ?b ! (i - 6))" if "i < 12"
    using arg_cong [OF t, of "\<lambda>xs. xs ! i"] that ve b by (simp add: nth_append)
  then show "set_macs q d p ! i = store p 0 (blend_eth (take 16 p) ?ve) ! i"
    using i l b by (auto simp: set_macs_def Let_def nth_store store_eth_nth [OF l ve i])
qed

lemma process_packet_v4:
  assumes "is4 (packet_type m)" and "34 \<le> length (pdata m)" and "dp \<noteq> BAD_PORT"
  shows "process_packet is4 ve (m, dp) =
    (m\<lparr>pdata := store (dec_ttl (pdata m) 14) 0 (blend_eth (take 16 (pdata m)) (ve dp))\<rparr>,
     if is_valid_ipv4_pkt (pdata m) 14 (length (pdata m)) = 0 then dp else BAD_PORT)"
proof -
  have "snd (rfc1812_process is4 (pdata m) 14 dp (packet_type m)) =
      (if is_valid_ipv4_pkt (pdata m) 14 (length (pdata m)) = 0 then dp else BAD_PORT)"
    using assms by (intro rfc1812_verdict) simp_all
  moreover have "fst (rfc1812_process is4 (pdata m) 14 dp (packet_type m)) = dec_ttl (pdata m) 14"
    using assms(1) by (simp add: rfc1812_process_def Let_def)
  ultimately show ?thesis by (simp add: process_packet_def case_prod_beta Let_def)
qed

lemma process_packet_other:
  "\<not> is4 (packet_type m) \<Longrightarrow>
   process_packet is4 ve (m, dp) = (m\<lparr>pdata := store (pdata m) 0 (blend_eth (take 16 (pdata m)) (ve dp))\<rparr>, dp)"
  by (simp add: process_packet_def rfc1812_process_def Let_def)

lemma take_dec_ttl: "34 \<le> length p \<Longrightarrow> take 16 (dec_ttl p 14) = take 16 p"
  by (rule nth_equalityI) (auto simp: dec_ttl_nth)

lemma is_valid_ipv4_pkt_sign: "is_valid_ipv4_pkt p off n < 0 \<longleftrightarrow> is_valid_ipv4_pkt p off n \<noteq> 0"
  by (simp add: is_valid_ipv4_pkt_def)

text \<open>The port of the scalar code, and the lookup of the vector code.\<close>

lemma ucast_u8_u16_inject [simp]: "(ucast (a :: u8) :: u16) = ucast b \<longleftrightarrow> a = b"
  by (metis unat_ucast_u8_u16 word_unat_eq_iff)

lemma checked_port_id: "port_enabled (enabled_port_mask q) d \<or> d = portid \<Longrightarrow> checked_port q d portid = d"
proof (cases "d = portid")
  case False
  assume "port_enabled (enabled_port_mask q) d \<or> d = portid"
  with False have "unat d < 8" "\<not> port_unused (enabled_port_mask q) d" by (simp_all add: port_enabled_def port_used)
  then show ?thesis by (simp add: checked_port_def port_unused_def and.commute RTE_MAX_ETHPORTS_def)
qed (simp add: checked_port_def)

lemma not_BAD_PORT: "ucast (d :: u8) \<noteq> BAD_PORT"
proof
  have b: "unat BAD_PORT = 65535" by (simp add: BAD_PORT_def unat_uminus)
  assume "ucast d = BAD_PORT"
  then have "unat d = 65535" using unat_ucast_u8_u16 [of d] unfolding b [symmetric] by (simp only:)
  then show False using unsigned_less [where 'a = nat, of d] by simp
qed

lemma free_one: "tx_ok s \<Longrightarrow> tx_ok (s\<lparr>freed := freed s @ [m]\<rparr>) \<and> tx_total (s\<lparr>freed := freed s @ [m]\<rparr>) = tx_total s + mset [m]"
  by (simp add: tx_ok_def tx_total_def sent_def held_def buffered_def)

text \<open>The macro \<^verbatim>\<open>IPv4\<close> of DPDK makes an address of its four bytes.\<close>

definition ip4_law :: "(u8 \<Rightarrow> u8 \<Rightarrow> u8 \<Rightarrow> u8 \<Rightarrow> u32) \<Rightarrow> bool" where
  "ip4_law ip4 \<longleftrightarrow> (\<forall>a b c d a' b' c' d'. ip4 a b c d = ip4 a' b' c' d' \<longrightarrow> a = a' \<and> b = b' \<and> c = c' \<and> d = d')"

definition sample_ip4 :: "u8 \<Rightarrow> u8 \<Rightarrow> u8 \<Rightarrow> u8 \<Rightarrow> u32" where
  "sample_ip4 a b c d = le_word [d, c, b, a]"

lemma sample_ip4_law: "ip4_law sample_ip4"
proof -
  have "le_bytes 4 (sample_ip4 a b c d) = [d, c, b, a]" for a b c d
    unfolding sample_ip4_def by (rule le_bytes_le_word) simp_all
  then have "[d, c, b, a] = [d', c', b', a']" if "sample_ip4 a b c d = sample_ip4 a' b' c' d'" for a b c d a' b' c' d'
    using that by metis
  then show ?thesis by (simp add: ip4_law_def)
qed

end
