(* ===== verification/L3fwd_Lpm.thy ===== *)
theory L3fwd_Lpm
  imports L3fwd_Fwd
begin

text \<open>
  Longest prefix match forwarding: \<^verbatim>\<open>l3fwd_lpm.c\<close> with both of its handlers,
  \<^verbatim>\<open>l3fwd_lpm_sse.h\<close>, which classifies four packets at a time, and
  \<^verbatim>\<open>l3fwd_lpm.h\<close>, which forwards them one by one.  The tables of
  \<^verbatim>\<open>rte_lpm\<close> and \<^verbatim>\<open>rte_lpm6\<close> and the packet types of DPDK are parameters;
  \<open>lpm_laws\<close> and \<open>ptypes_ok\<close> state what their documentation says of them.  A packet is one segment,
  so \<^verbatim>\<open>pkt_len\<close> is its length.
\<close>

section \<open>What the code is given\<close>

record ('a, 'b) lpm_lib =
  lpm_create :: "'a option"
  lpm_add :: "'a \<Rightarrow> u32 \<Rightarrow> u8 \<Rightarrow> u32 \<Rightarrow> 'a option"
  lpm_lookup :: "'a \<Rightarrow> u32 \<Rightarrow> u32 option"
  lpm_lookupx4 :: "'a \<Rightarrow> u32 list \<Rightarrow> u32 \<Rightarrow> u32 list"
  lpm6_create :: "'b option"
  lpm6_add :: "'b \<Rightarrow> bytes \<Rightarrow> u8 \<Rightarrow> u8 \<Rightarrow> 'b option"
  lpm6_lookup :: "'b \<Rightarrow> bytes \<Rightarrow> u8 option"

text \<open>A new table is empty; a rule that was added answers a lookup itself or leaves the answer as it
  was; the lookup of four addresses looks each up and uses the default where that fails.\<close>

definition lpm_laws :: "('a, 'b) lpm_lib \<Rightarrow> bool" where
  "lpm_laws L \<longleftrightarrow>
     (\<forall>t a. lpm_create L = Some t \<longrightarrow> lpm_lookup L t a = None)
     \<and> (\<forall>t ip d h t' a. lpm_add L t ip d h = Some t' \<longrightarrow> lpm_lookup L t' a \<in> {Some h, lpm_lookup L t a})
     \<and> (\<forall>t ips dv. lpm_lookupx4 L t ips dv = map (\<lambda>a. case lpm_lookup L t a of Some h \<Rightarrow> h | None \<Rightarrow> dv) ips)
     \<and> (\<forall>t a. lpm6_create L = Some t \<longrightarrow> lpm6_lookup L t a = None)
     \<and> (\<forall>t ip d h t' a. lpm6_add L t ip d h = Some t' \<longrightarrow> lpm6_lookup L t' a \<in> {Some h, lpm6_lookup L t a})"

record ('a, 'b) lpm_conf = port_conf +
  ptypes :: ptype_consts
  lib :: "('a, 'b) lpm_lib"
  ipv4_lookup_struct :: 'a
  ipv6_lookup_struct :: 'b

section \<open>One packet\<close>

text \<open>The destination addresses behind the Ethernet header.\<close>

definition ip4_dst :: "bytes \<Rightarrow> u32" where "ip4_dst p = load 4 p (14 + 16)"
definition ip6_dst :: "bytes \<Rightarrow> bytes" where "ip6_dst p = take 16 (drop (14 + 24) p)"

definition lpm_get_dst_port_with_ipv4 :: "('a, 'b) lpm_conf \<Rightarrow> mbuf \<Rightarrow> u32 \<Rightarrow> u8 \<Rightarrow> u16" where
  "lpm_get_dst_port_with_ipv4 q pkt dst_ipv4 portid =
     (if RTE_ETH_IS_IPV4_HDR (ptypes q) (packet_type pkt)
      then case lpm_lookup (lib q) (ipv4_lookup_struct q) dst_ipv4 of Some h \<Rightarrow> ucast h | None \<Rightarrow> ucast portid
      else if RTE_ETH_IS_IPV6_HDR (ptypes q) (packet_type pkt)
      then case lpm6_lookup (lib q) (ipv6_lookup_struct q) (ip6_dst (pdata pkt)) of Some h \<Rightarrow> ucast h | None \<Rightarrow> ucast portid
      else ucast portid)"

definition lpm_get_dst_port :: "('a, 'b) lpm_conf \<Rightarrow> mbuf \<Rightarrow> u8 \<Rightarrow> u16" where
  "lpm_get_dst_port q pkt portid =
     (if RTE_ETH_IS_IPV4_HDR (ptypes q) (packet_type pkt)
      then case lpm_lookup (lib q) (ipv4_lookup_struct q) (bswap32 (ip4_dst (pdata pkt))) of
             Some h \<Rightarrow> ucast h | None \<Rightarrow> ucast portid
      else if RTE_ETH_IS_IPV6_HDR (ptypes q) (packet_type pkt)
      then case lpm6_lookup (lib q) (ipv6_lookup_struct q) (ip6_dst (pdata pkt)) of Some h \<Rightarrow> ucast h | None \<Rightarrow> ucast portid
      else ucast portid)"

section \<open>Four packets\<close>

text \<open>\<^verbatim>\<open>dip\<close> is a register of sixteen bytes.\<close>

definition processx4_step1 :: "ptype_consts \<Rightarrow> mbuf list \<Rightarrow> bytes \<times> u32" where
  "processx4_step1 c pkt =
     (let x0 = ip4_dst (pdata (pkt ! 0)); flag = packet_type (pkt ! 0) AND RTE_PTYPE_L3_IPV4 c;
          x1 = ip4_dst (pdata (pkt ! 1)); flag = flag AND packet_type (pkt ! 1);
          x2 = ip4_dst (pdata (pkt ! 2)); flag = flag AND packet_type (pkt ! 2);
          x3 = ip4_dst (pdata (pkt ! 3)); flag = flag AND packet_type (pkt ! 3)
      in (le_bytes 4 x0 @ le_bytes 4 x1 @ le_bytes 4 x2 @ le_bytes 4 x3, flag))"

text \<open>\<^verbatim>\<open>_mm_shuffle_epi8\<close> with the mask listed from the lowest byte, and
  \<^verbatim>\<open>_mm_packs_epi32\<close>, which saturates.\<close>

definition bswap_mask :: "nat list" where
  "bswap_mask = [3, 2, 1, 0, 7, 6, 5, 4, 11, 10, 9, 8, 15, 14, 13, 12]"

definition shuffle_epi8 :: "bytes \<Rightarrow> nat list \<Rightarrow> bytes" where
  "shuffle_epi8 v ms = map (\<lambda>m. v ! m) ms"

definition u32_lanes :: "bytes \<Rightarrow> u32 list" where
  "u32_lanes v = map (\<lambda>i. load 4 v (4 * i)) [0..<4]"

definition packs_lane :: "u32 \<Rightarrow> u16" where
  "packs_lane x = (if sint x < - 32768 then 0x8000 else if 32767 < sint x then 0x7fff else ucast x)"

definition processx4_step2 :: "('a, 'b) lpm_conf \<Rightarrow> bytes \<Rightarrow> u32 \<Rightarrow> u8 \<Rightarrow> mbuf list \<Rightarrow> u16 list" where
  "processx4_step2 q dip ipv4_flag portid pkt =
     (let dip = shuffle_epi8 dip bswap_mask
      in if ipv4_flag \<noteq> 0
         then map packs_lane (lpm_lookupx4 (lib q) (ipv4_lookup_struct q) (u32_lanes dip) (ucast portid))
         else let dst = u32_lanes dip
              in map (\<lambda>i. lpm_get_dst_port_with_ipv4 q (pkt ! i) (dst ! i) portid) [0, 1, 2, 3])"

section \<open>A burst\<close>

text \<open>\<open>dst_port\<close> is the array of the destinations, with what it holds at the start;
  \<open>pad\<close>, \<open>junk\<close> and \<open>pnum\<close> are what \<^verbatim>\<open>send_packets_multi\<close> finds in memory.\<close>

definition lpm_classify :: "('a, 'b) lpm_conf \<Rightarrow> u16 list \<Rightarrow> u8 \<Rightarrow> mbuf list \<Rightarrow> u16 list" where
  "lpm_classify q dst_port portid pkts =
     (let nb_rx = length pkts; k = nb_rx - nb_rx mod FWDSTEP;
          four = (\<lambda>i. take 4 (drop (4 * i) pkts));
          s1 = map (\<lambda>i. processx4_step1 (ptypes q) (four i)) [0..<k div 4];
          dst_port = fold (\<lambda>i d. store d (4 * i) (processx4_step2 q (fst (s1 ! i)) (snd (s1 ! i)) portid (four i)))
            [0..<k div 4] dst_port
      in fold (\<lambda>j d. d[j := lpm_get_dst_port q (pkts ! j) portid]) [k..<nb_rx] dst_port)"

definition l3fwd_lpm_send_packets :: "mbuf tx_driver \<Rightarrow> ('a, 'b) lpm_conf \<Rightarrow> (nat \<Rightarrow> u16) \<Rightarrow> (nat \<Rightarrow> mbuf) \<Rightarrow>
    nat list \<Rightarrow> u16 list \<Rightarrow> mbuf handler" where
  "l3fwd_lpm_send_packets tx q pad junk pnum dst_port portid pkts s =
     send_packets_multi tx (RTE_ETH_IS_IPV4_HDR (ptypes q)) (val_eth q) pad junk pnum
       (zip pkts (lpm_classify q dst_port portid pkts)) s"

section \<open>The scalar handler\<close>

definition lpm_get_ipv4_dst_port :: "('a, 'b) lpm_conf \<Rightarrow> bytes \<Rightarrow> u8 \<Rightarrow> u8" where
  "lpm_get_ipv4_dst_port q p portid =
     (case lpm_lookup (lib q) (ipv4_lookup_struct q) (bswap32 (ip4_dst p)) of Some h \<Rightarrow> ucast h | None \<Rightarrow> portid)"

definition lpm_get_ipv6_dst_port :: "('a, 'b) lpm_conf \<Rightarrow> bytes \<Rightarrow> u8 \<Rightarrow> u8" where
  "lpm_get_ipv6_dst_port q p portid =
     (case lpm6_lookup (lib q) (ipv6_lookup_struct q) (ip6_dst p) of Some h \<Rightarrow> h | None \<Rightarrow> portid)"

definition l3fwd_lpm_simple_forward :: "mbuf tx_driver \<Rightarrow> ('a, 'b) lpm_conf \<Rightarrow> u8 \<Rightarrow> mbuf \<Rightarrow> mbuf fwd_state \<Rightarrow> mbuf fwd_state" where
  "l3fwd_lpm_simple_forward tx q portid m s =
     (if RTE_ETH_IS_IPV4_HDR (ptypes q) (packet_type m) then
        if is_valid_ipv4_pkt (pdata m) 14 (length (pdata m)) < 0 then s\<lparr>freed := freed s @ [m]\<rparr>
        else
          let dst_port = checked_port q (lpm_get_ipv4_dst_port q (pdata m) portid) portid;
              p = dec_ttl (pdata m) 14;
              p = set_macs q dst_port p
          in send_single_packet tx (m\<lparr>pdata := p\<rparr>) (unat dst_port) s
      else if RTE_ETH_IS_IPV6_HDR (ptypes q) (packet_type m) then
        let dst_port = checked_port q (lpm_get_ipv6_dst_port q (pdata m) portid) portid;
            p = set_macs q dst_port (pdata m)
        in send_single_packet tx (m\<lparr>pdata := p\<rparr>) (unat dst_port) s
      else s\<lparr>freed := freed s @ [m]\<rparr>)"

definition l3fwd_lpm_no_opt_send_packets :: "mbuf tx_driver \<Rightarrow> ('a, 'b) lpm_conf \<Rightarrow> mbuf handler" where
  "l3fwd_lpm_no_opt_send_packets tx q portid pkts s =
     (let k = length pkts - PREFETCH_OFFSET;
          s = fold (l3fwd_lpm_simple_forward tx q portid) (take k pkts) s
      in Some (fold (l3fwd_lpm_simple_forward tx q portid) (drop k pkts) s))"

section \<open>Parsing the packet type\<close>

definition lpm_parse_ptype :: "ptype_consts \<Rightarrow> mbuf \<Rightarrow> mbuf" where
  "lpm_parse_ptype c m =
     (let ether_type = load 2 (pdata m) 12
      in m\<lparr>packet_type :=
           (if ether_type = bswap16 ETHER_TYPE_IPv4 then RTE_PTYPE_L3_IPV4_EXT_UNKNOWN c
            else if ether_type = bswap16 ETHER_TYPE_IPv6 then RTE_PTYPE_L3_IPV6_EXT_UNKNOWN c
            else 0)\<rparr>)"

definition lpm_cb_parse_ptype :: "ptype_consts \<Rightarrow> mbuf list \<Rightarrow> mbuf list" where
  "lpm_cb_parse_ptype c pkts = map (lpm_parse_ptype c) pkts"

text \<open>The driver's list of supported types, empty when it gives none.\<close>

definition lpm_check_ptype :: "ptype_consts \<Rightarrow> u32 list \<Rightarrow> int" where
  "lpm_check_ptype c supported =
     (let (v4, v6) = fold (\<lambda>t (v4, v6).
        (if t AND RTE_PTYPE_L3_IPV4 c \<noteq> 0 then 1 else v4, if t AND RTE_PTYPE_L3_IPV6 c \<noteq> 0 then 1 else v6)) supported (0, 0)
      in if v4 \<noteq> (0 :: int) \<and> v6 \<noteq> (0 :: int) then 1 else 0)"

section \<open>Setting up the tables\<close>

text \<open>\<open>ip4\<close> is the macro \<^verbatim>\<open>IPv4\<close>.  A call of \<^verbatim>\<open>rte_exit\<close> is \<open>None\<close>.\<close>

definition ipv4_l3fwd_lpm_route_array :: "(u8 \<Rightarrow> u8 \<Rightarrow> u8 \<Rightarrow> u8 \<Rightarrow> u32) \<Rightarrow> (u32 \<times> u8 \<times> u8) list" where
  "ipv4_l3fwd_lpm_route_array ip4 =
     [(ip4 10 1 0 10, 8, 7), (ip4 2 1 1 0, 24, 1), (ip4 3 1 1 0, 24, 2), (ip4 4 1 1 0, 24, 3),
      (ip4 5 1 1 0, 24, 4), (ip4 6 1 1 0, 24, 5), (ip4 7 1 1 0, 24, 6), (ip4 8 1 1 0, 24, 7)]"

definition ipv6_l3fwd_lpm_route_array :: "(bytes \<times> u8 \<times> u8) list" where
  "ipv6_l3fwd_lpm_route_array =
     [(replicate 16 1, 48, 0), (2 # replicate 15 1, 48, 1), (3 # replicate 15 1, 48, 2), (4 # replicate 15 1, 48, 3),
      (5 # replicate 15 1, 48, 4), (6 # replicate 15 1, 48, 5), (7 # replicate 15 1, 48, 6), (8 # replicate 15 1, 48, 7)]"

definition add_route4 :: "('a, 'b) lpm_lib \<Rightarrow> u32 \<Rightarrow> u32 \<times> u8 \<times> u8 \<Rightarrow> 'a \<Rightarrow> 'a option" where
  "add_route4 L pm = (\<lambda>(ip, depth, if_out) t.
     if port_unused pm if_out then Some t else lpm_add L t ip depth (ucast if_out))"

definition add_route6 :: "('a, 'b) lpm_lib \<Rightarrow> u32 \<Rightarrow> bytes \<times> u8 \<times> u8 \<Rightarrow> 'b \<Rightarrow> 'b option" where
  "add_route6 L pm = (\<lambda>(ip, depth, if_out) t.
     if port_unused pm if_out then Some t else lpm6_add L t ip depth if_out)"

definition setup_lpm :: "('a, 'b) lpm_lib \<Rightarrow> u32 \<Rightarrow> (u8 \<Rightarrow> u8 \<Rightarrow> u8 \<Rightarrow> u8 \<Rightarrow> u32) \<Rightarrow> ('a \<times> 'b) option" where
  "setup_lpm L pm ip4 =
     (case lpm_create L of None \<Rightarrow> None | Some t \<Rightarrow>
      case fold_option (add_route4 L pm) (ipv4_l3fwd_lpm_route_array ip4) t of None \<Rightarrow> None | Some t4 \<Rightarrow>
      case lpm6_create L of None \<Rightarrow> None | Some t \<Rightarrow>
      case fold_option (add_route6 L pm) ipv6_l3fwd_lpm_route_array t of None \<Rightarrow> None | Some t6 \<Rightarrow>
      Some (t4, t6))"

section \<open>The main loop\<close>

text \<open>With and without SSE 4.1.\<close>

definition lpm_main_loop :: "mbuf tx_driver \<Rightarrow> ('a, 'b) lpm_conf \<Rightarrow> (nat \<Rightarrow> u16) \<Rightarrow> (nat \<Rightarrow> mbuf) \<Rightarrow> nat list \<Rightarrow> u16 list \<Rightarrow>
    u16 list \<Rightarrow> u64 \<Rightarrow> nat \<Rightarrow> mbuf turn list \<Rightarrow> mbuf fwd_state \<Rightarrow> mbuf fwd_state option" where
  "lpm_main_loop tx q pad junk pnum dst_port tx_port_id =
     fwd_loop tx tx_port_id (l3fwd_lpm_send_packets tx q pad junk pnum dst_port)"

definition lpm_main_loop_no_opt :: "mbuf tx_driver \<Rightarrow> ('a, 'b) lpm_conf \<Rightarrow>
    u16 list \<Rightarrow> u64 \<Rightarrow> nat \<Rightarrow> mbuf turn list \<Rightarrow> mbuf fwd_state \<Rightarrow> mbuf fwd_state option" where
  "lpm_main_loop_no_opt tx q tx_port_id = fwd_loop tx tx_port_id (l3fwd_lpm_no_opt_send_packets tx q)"

section \<open>The vector classification\<close>

lemma list4: "length xs = 4 \<Longrightarrow> xs = [xs ! 0, xs ! 1, xs ! 2, xs ! 3]"
  by (rule nth_equalityI) (auto simp: less_Suc_eq numeral_eq_Suc)

lemma u32_lanes_16:
  "u32_lanes (shuffle_epi8 [a0, a1, a2, a3, b0, b1, b2, b3, c0, c1, c2, c3, d0, d1, d2, d3] bswap_mask) =
    [le_word [a3, a2, a1, a0], le_word [b3, b2, b1, b0], le_word [c3, c2, c1, c0], le_word [d3, d2, d1, d0]]"
proof -
  have four: "[0..<4] = [0, 1, 2, 3 :: nat]" by code_simp
  show ?thesis unfolding u32_lanes_def shuffle_epi8_def bswap_mask_def load_def four list.map
    by (simp del: le_word.simps)
qed

lemma u32_lanes_shuffle:
  "u32_lanes (shuffle_epi8 (le_bytes 4 a @ le_bytes 4 b @ le_bytes 4 c @ le_bytes 4 d) bswap_mask)
    = [bswap32 a, bswap32 b, bswap32 c, bswap32 d]"
proof -
  have bytes: "\<exists>x0 x1 x2 x3. le_bytes 4 x = [x0, x1, x2, x3]" for x :: u32
    using list4 [OF length_le_bytes, of x] by blast
  have swap: "bswap32 x = le_word [x3, x2, x1, x0]" if "le_bytes 4 x = [x0, x1, x2, x3]" for x x0 x1 x2 x3
    unfolding bswap32_def that by (simp del: le_word.simps)
  obtain a0 a1 a2 a3 where a: "le_bytes 4 a = [a0, a1, a2, a3]" using bytes by blast
  obtain b0 b1 b2 b3 where b: "le_bytes 4 b = [b0, b1, b2, b3]" using bytes by blast
  obtain c0 c1 c2 c3 where c: "le_bytes 4 c = [c0, c1, c2, c3]" using bytes by blast
  obtain d0 d1 d2 d3 where d: "le_bytes 4 d = [d0, d1, d2, d3]" using bytes by blast
  show ?thesis unfolding swap [OF a] swap [OF b] swap [OF c] swap [OF d] unfolding a b c d append.simps
    by (rule u32_lanes_16)
qed

lemma packs_lane_small:
  assumes "unat x < 2 ^ 15"
  shows "packs_lane x = ucast x"
proof -
  have "int (unat x) < int (2 ^ 15)" using assms by (simp only: of_nat_less_iff)
  then have u: "uint x < 2 ^ 15" by simp
  have "- (2 ^ 31) \<le> uint x" by (rule order.trans [OF _ unsigned_greater_eq]) simp
  then have "sint x = uint x"
    using signed_take_bit_int_eq_self [of 31 "uint x"] u by (simp add: sint_uint)
  moreover have "\<not> uint x < - 32768" by (simp add: not_less order.trans [OF _ unsigned_greater_eq])
  ultimately show ?thesis using u by (simp add: packs_lane_def)
qed

text \<open>What the vector path needs of the answers: they fit a signed 16-bit lane.\<close>

definition hops_fit :: "('a, 'b) lpm_conf \<Rightarrow> bool" where
  "hops_fit q \<longleftrightarrow> (\<forall>a h. lpm_lookup (lib q) (ipv4_lookup_struct q) a = Some h \<longrightarrow> unat h < 2 ^ 15)"

lemma processx4_eq:
  assumes c: "ptypes_ok (ptypes q)" and L: "lpm_laws (lib q)" and h: "hops_fit q" and four: "length ps = 4"
  shows "processx4_step2 q (fst (processx4_step1 (ptypes q) ps)) (snd (processx4_step1 (ptypes q) ps)) portid ps
    = map (\<lambda>p. lpm_get_dst_port q p portid) ps"
proof -
  define f where "f = snd (processx4_step1 (ptypes q) ps)"
  have lanes: "u32_lanes (shuffle_epi8 (fst (processx4_step1 (ptypes q) ps)) bswap_mask)
      = map (\<lambda>p. bswap32 (ip4_dst (pdata p))) ps"
    by (subst (2) list4 [OF four]) (simp add: processx4_step1_def Let_def u32_lanes_shuffle)
  have with_ipv4: "lpm_get_dst_port_with_ipv4 q p (bswap32 (ip4_dst (pdata p))) portid = lpm_get_dst_port q p portid" for p
    by (simp add: lpm_get_dst_port_def lpm_get_dst_port_with_ipv4_def)
  show ?thesis
  proof (cases "f = 0")
    case True
    then show ?thesis unfolding processx4_step2_def Let_def lanes
      by (subst (4) list4 [OF four]) (use four with_ipv4 in \<open>simp add: f_def\<close>)
  next
    case False
    have is4: "RTE_ETH_IS_IPV4_HDR (ptypes q) t \<longleftrightarrow> t AND RTE_PTYPE_L3_IPV4 (ptypes q) \<noteq> 0" for t
      using c by (simp add: ptypes_ok_def)
    obtain n where n: "bit f n" using False by (auto simp: bit_eq_iff)
    have all4: "RTE_ETH_IS_IPV4_HDR (ptypes q) (packet_type p)" if "p \<in> set ps" for p
    proof -
      have "p \<in> set [ps ! 0, ps ! 1, ps ! 2, ps ! 3]" using that list4 [OF four] by simp
      then have "bit (packet_type p AND RTE_PTYPE_L3_IPV4 (ptypes q)) n"
        using n by (auto simp: f_def processx4_step1_def Let_def bit_and_iff)
      then show ?thesis unfolding is4 by auto
    qed
    have "packs_lane (case lpm_lookup (lib q) (ipv4_lookup_struct q) (bswap32 (ip4_dst (pdata p))) of
        Some h \<Rightarrow> h | None \<Rightarrow> ucast portid) = lpm_get_dst_port q p portid" if "p \<in> set ps" for p
    proof -
      have "unat (ucast portid :: u32) < 2 ^ 15"
        using unsigned_less [where 'a = nat, of portid] by (simp add: unsigned_ucast_eq take_bit_nat_eq_self)
      moreover have "(ucast (ucast portid :: u32) :: u16) = ucast portid" by (rule bit_word_eqI) (auto simp: bit_simps)
      ultimately show ?thesis using all4 [OF that] h
        by (auto simp: lpm_get_dst_port_def hops_fit_def packs_lane_small split: option.split)
    qed
    then show ?thesis using False L
      by (simp add: processx4_step2_def Let_def lanes f_def [symmetric] lpm_laws_def comp_def)
  qed
qed

lemma fold_store_fours:
  assumes "\<And>i. i < m \<Longrightarrow> step i = map g (take 4 (drop (4 * i) ps))" and "4 * m \<le> length ps" and "length ps \<le> length d"
  shows "length (fold (\<lambda>i d. store d (4 * i) (step i)) [0..<m] d) = length d
    \<and> (\<forall>j<4 * m. fold (\<lambda>i d. store d (4 * i) (step i)) [0..<m] d ! j = g (ps ! j))"
  using assms
proof (induction m)
  case (Suc m)
  let ?d = "fold (\<lambda>i d. store d (4 * i) (step i)) [0..<m] d"
  have IH: "length ?d = length d" "\<And>j. j < 4 * m \<Longrightarrow> ?d ! j = g (ps ! j)"
    using Suc.IH Suc.prems by auto
  have st: "length (step m) = 4" "\<And>i. i < 4 \<Longrightarrow> step m ! i = g (ps ! (4 * m + i))"
    using Suc.prems(1) [of m] Suc.prems(2) by simp_all
  have "store ?d (4 * m) (step m) ! j = g (ps ! j)" if "j < 4 * Suc m" for j
    using that IH st Suc.prems(2,3) by (cases "j < 4 * m") (simp_all add: nth_store)
  then show ?case using IH(1) st(1) Suc.prems(2,3) by simp
qed simp

lemma lpm_classify_eq:
  assumes "ptypes_ok (ptypes q)" and "lpm_laws (lib q)" and "hops_fit q" and n: "length pkts \<le> length dst_port"
  shows "zip pkts (lpm_classify q dst_port portid pkts) = map (\<lambda>p. (p, lpm_get_dst_port q p portid)) pkts"
proof -
  let ?g = "\<lambda>p. lpm_get_dst_port q p portid" and ?four = "\<lambda>i. take 4 (drop (4 * i) pkts)"
  define k where "k = length pkts - length pkts mod FWDSTEP"
  define m where "m = k div 4"
  have k: "4 * m = k" "k \<le> length pkts"
    unfolding m_def k_def FWDSTEP_def minus_mod_eq_mult_div by simp_all
  let ?s1 = "map (\<lambda>i. processx4_step1 (ptypes q) (?four i)) [0..<m]"
  define st where "st i = processx4_step2 q (fst (?s1 ! i)) (snd (?s1 ! i)) portid (?four i)" for i
  define d1 where "d1 = fold (\<lambda>i d. store d (4 * i) (st i)) [0..<m] dst_port"
  have fours: "st i = map ?g (?four i)" if "i < m" for i
  proof -
    have "4 * i + 4 \<le> length pkts" using that k by linarith
    then have "length (?four i) = 4" by simp
    then show ?thesis using processx4_eq [OF assms(1-3), of "?four i" portid] that by (simp add: st_def)
  qed
  have "4 * m \<le> length pkts" using k by simp
  from fold_store_fours [OF fours this n] have
    d1: "length d1 = length dst_port" "\<And>j. j < k \<Longrightarrow> d1 ! j = ?g (pkts ! j)"
    unfolding d1_def k by blast+
  have c: "lpm_classify q dst_port portid pkts = fold (\<lambda>j d. d[j := ?g (pkts ! j)]) [k..<length pkts] d1"
    unfolding lpm_classify_def d1_def Let_def k_def [symmetric] m_def [symmetric] st_def ..
  have "lpm_classify q dst_port portid pkts ! j = ?g (pkts ! j)" if "j < length pkts" for j
  proof -
    have "\<forall>i\<in>set [k..<length pkts]. i < length d1" "j < length d1" using that d1(1) n by auto
    from fold_list_update(2) [OF this, of "\<lambda>j. ?g (pkts ! j)"] show ?thesis
      unfolding c using that d1(2) [of j] by (cases "j < k") simp_all
  qed
  moreover have "length (lpm_classify q dst_port portid pkts) = length dst_port"
    unfolding c by (simp only: fold_list_update(1) d1(1))
  ultimately show ?thesis using n by (intro nth_equalityI) simp_all
qed

section \<open>The tables hold enabled ports only\<close>

lemma route_ports:
  "\<forall>r\<in>set (ipv4_l3fwd_lpm_route_array ip4). unat (snd (snd r)) < 8"
  "\<forall>r\<in>set ipv6_l3fwd_lpm_route_array. unat (snd (snd r)) < 8"
  by (simp_all add: ipv4_l3fwd_lpm_route_array_def ipv6_l3fwd_lpm_route_array_def)

lemma setup_lpm_hops:
  assumes L: "lpm_laws L" and s: "setup_lpm L pm ip4 = Some (t4, t6)"
  shows "lpm_lookup L t4 a = Some h \<Longrightarrow> \<exists>p. h = ucast p \<and> port_enabled pm p"
    and "lpm6_lookup L t6 b = Some p \<Longrightarrow> port_enabled pm p"
proof -
  obtain e4 e6 where e: "lpm_create L = Some e4" "lpm6_create L = Some e6"
    and f4: "fold_option (add_route4 L pm) (ipv4_l3fwd_lpm_route_array ip4) e4 = Some t4"
    and f6: "fold_option (add_route6 L pm) ipv6_l3fwd_lpm_route_array e6 = Some t6"
    using s by (auto simp: setup_lpm_def split: option.splits)
  let ?P4 = "\<lambda>t. \<forall>a h. lpm_lookup L t a = Some h \<longrightarrow> (\<exists>p. h = ucast p \<and> port_enabled pm p)"
  let ?P6 = "\<lambda>t. \<forall>a p. lpm6_lookup L t a = Some p \<longrightarrow> port_enabled pm p"
  have "?P4 t4" using f4
  proof (rule fold_option_invariant [where P = ?P4])
    fix r t t' assume r: "r \<in> set (ipv4_l3fwd_lpm_route_array ip4)" "add_route4 L pm r t = Some t'" "?P4 t"
    obtain ip d p where p: "r = (ip, d, p)" by (metis prod_cases3)
    show "?P4 t'"
    proof (cases "port_unused pm p")
      case False
      then have "port_enabled pm p" using bspec [OF route_ports(1) r(1)] by (simp add: p port_used port_enabled_def)
      moreover have "lpm_add L t ip d (ucast p) = Some t'" using False r(2) by (simp add: p add_route4_def)
      then have "lpm_lookup L t' a = Some (ucast p) \<or> lpm_lookup L t' a = lpm_lookup L t a" for a using L by (auto simp: lpm_laws_def)
      ultimately show ?thesis using r(3) by (metis option.inject)
    qed (use r in \<open>simp add: p add_route4_def\<close>)
  qed (use L e in \<open>simp add: lpm_laws_def\<close>)
  then show "lpm_lookup L t4 a = Some h \<Longrightarrow> \<exists>p. h = ucast p \<and> port_enabled pm p" by blast
  have "?P6 t6" using f6
  proof (rule fold_option_invariant [where P = ?P6])
    fix r t t' assume r: "r \<in> set ipv6_l3fwd_lpm_route_array" "add_route6 L pm r t = Some t'" "?P6 t"
    obtain ip d p where p: "r = (ip, d, p)" by (metis prod_cases3)
    show "?P6 t'"
    proof (cases "port_unused pm p")
      case False
      then have "port_enabled pm p" using bspec [OF route_ports(2) r(1)] by (simp add: p port_used port_enabled_def)
      moreover have "lpm6_add L t ip d p = Some t'" using False r(2) by (simp add: p add_route6_def)
      then have "lpm6_lookup L t' a = Some p \<or> lpm6_lookup L t' a = lpm6_lookup L t a" for a using L by (auto simp: lpm_laws_def)
      ultimately show ?thesis using r(3) by (metis option.inject)
    qed (use r in \<open>simp add: p add_route6_def\<close>)
  qed (use L e in \<open>simp add: lpm_laws_def\<close>)
  then show "lpm6_lookup L t6 b = Some p \<Longrightarrow> port_enabled pm p" by blast
qed

text \<open>A configuration as the program sets it up: the tables are those of \<^verbatim>\<open>setup_lpm\<close>, and the
  registers with the addresses of the ports agree with the arrays they were filled from.\<close>

definition lpm_conf_ok :: "('a, 'b) lpm_conf \<Rightarrow> (u8 \<Rightarrow> u8 \<Rightarrow> u8 \<Rightarrow> u8 \<Rightarrow> u32) \<Rightarrow> bool" where
  "lpm_conf_ok q ip4 \<longleftrightarrow> ptypes_ok (ptypes q) \<and> lpm_laws (lib q)
     \<and> setup_lpm (lib q) (enabled_port_mask q) ip4 = Some (ipv4_lookup_struct q, ipv6_lookup_struct q)
     \<and> macs_ok q"

lemma hops_fit_setup: "lpm_conf_ok q ip4 \<Longrightarrow> hops_fit q"
proof -
  assume q: "lpm_conf_ok q ip4"
  have "unat h < 2 ^ 15" if l: "lpm_lookup (lib q) (ipv4_lookup_struct q) a = Some h" for a h
  proof -
    have "lpm_laws (lib q)"
      "setup_lpm (lib q) (enabled_port_mask q) ip4 = Some (ipv4_lookup_struct q, ipv6_lookup_struct q)"
      using q by (simp_all add: lpm_conf_ok_def)
    from setup_lpm_hops(1) [OF this l] obtain p :: u8 where "h = ucast p" "unat p < 8"
      by (auto simp: port_enabled_def)
    then show ?thesis by (simp add: unsigned_ucast_eq take_bit_nat_eq_self)
  qed
  then show ?thesis by (simp add: hops_fit_def)
qed

text \<open>The destination is an enabled port, or the port the packet came from.\<close>

lemma lpm_get_dst_port_enabled:
  assumes q: "lpm_conf_ok q ip4"
  shows "lpm_get_dst_port q pkt portid = ucast portid
    \<or> (\<exists>p. lpm_get_dst_port q pkt portid = ucast p \<and> port_enabled (enabled_port_mask q) p)"
proof -
  have s: "lpm_laws (lib q)"
    "setup_lpm (lib q) (enabled_port_mask q) ip4 = Some (ipv4_lookup_struct q, ipv6_lookup_struct q)"
    using q by (simp_all add: lpm_conf_ok_def)
  have u: "(ucast (ucast p :: u32) :: u16) = ucast (p :: u8)" for p by (rule bit_word_eqI) (auto simp: bit_simps)
  show ?thesis using setup_lpm_hops [OF s] u by (auto simp: lpm_get_dst_port_def split: option.split) metis+
qed

section \<open>The two handlers treat a packet alike\<close>

lemma lpm_macs_ok: "lpm_conf_ok q ip4 \<Longrightarrow> macs_ok q"
  by (simp add: lpm_conf_ok_def)

lemma scalar_port:
  assumes q: "lpm_conf_ok q ip4"
  shows "RTE_ETH_IS_IPV4_HDR (ptypes q) (packet_type m) \<Longrightarrow>
      ucast (checked_port q (lpm_get_ipv4_dst_port q (pdata m) portid) portid) = lpm_get_dst_port q m portid"
    and "\<not> RTE_ETH_IS_IPV4_HDR (ptypes q) (packet_type m) \<Longrightarrow> RTE_ETH_IS_IPV6_HDR (ptypes q) (packet_type m) \<Longrightarrow>
      ucast (checked_port q (lpm_get_ipv6_dst_port q (pdata m) portid) portid) = lpm_get_dst_port q m portid"
proof -
  have s: "lpm_laws (lib q)"
    "setup_lpm (lib q) (enabled_port_mask q) ip4 = Some (ipv4_lookup_struct q, ipv6_lookup_struct q)"
    using q by (simp_all add: lpm_conf_ok_def)
  note hops = setup_lpm_hops [OF s]
  have u: "(ucast (ucast p :: u32) :: u16) = ucast p" "(ucast (ucast p :: u32) :: u8) = p" for p :: u8
    by (rule bit_word_eqI; auto simp: bit_simps)+
  show "ucast (checked_port q (lpm_get_ipv4_dst_port q (pdata m) portid) portid) = lpm_get_dst_port q m portid"
    if "RTE_ETH_IS_IPV4_HDR (ptypes q) (packet_type m)"
  proof (cases "lpm_lookup (lib q) (ipv4_lookup_struct q) (bswap32 (ip4_dst (pdata m)))")
    case (Some h)
    with hops(1) obtain p where p: "h = ucast p" "port_enabled (enabled_port_mask q) p" by blast
    with Some that show ?thesis
      using checked_port_id [of q p portid] by (simp add: lpm_get_ipv4_dst_port_def lpm_get_dst_port_def u)
  qed (use that checked_port_id [of q portid portid] in \<open>simp add: lpm_get_ipv4_dst_port_def lpm_get_dst_port_def\<close>)
  show "ucast (checked_port q (lpm_get_ipv6_dst_port q (pdata m) portid) portid) = lpm_get_dst_port q m portid"
    if "\<not> RTE_ETH_IS_IPV4_HDR (ptypes q) (packet_type m)" "RTE_ETH_IS_IPV6_HDR (ptypes q) (packet_type m)"
  proof (cases "lpm6_lookup (lib q) (ipv6_lookup_struct q) (ip6_dst (pdata m))")
    case (Some p)
    with hops(2) have "port_enabled (enabled_port_mask q) p" by blast
    with Some that show ?thesis
      using checked_port_id [of q p portid] by (simp add: lpm_get_ipv6_dst_port_def lpm_get_dst_port_def)
  qed (use that checked_port_id [of q portid portid] in \<open>simp add: lpm_get_ipv6_dst_port_def lpm_get_dst_port_def\<close>)
qed

lemma simple_forward_process:
  assumes q: "lpm_conf_ok q ip4" and l: "34 \<le> length (pdata m)"
    and r: "process_packet (RTE_ETH_IS_IPV4_HDR (ptypes q)) (val_eth q) (m, lpm_get_dst_port q m portid) = (m', d)"
    and ip: "RTE_ETH_IS_IPV4_HDR (ptypes q) (packet_type m) \<or> RTE_ETH_IS_IPV6_HDR (ptypes q) (packet_type m)"
  shows "l3fwd_lpm_simple_forward tx q portid m s =
    (if d = BAD_PORT then s\<lparr>freed := freed s @ [m]\<rparr> else send_single_packet tx m' (unat d) s)"
proof (cases "RTE_ETH_IS_IPV4_HDR (ptypes q) (packet_type m)")
  case True
  define c where "c = checked_port q (lpm_get_ipv4_dst_port q (pdata m) portid) portid"
  have dst: "lpm_get_dst_port q m portid = ucast c" using scalar_port(1) [OF q True, of portid] by (simp add: c_def)
  have r': "m' = m\<lparr>pdata := set_macs q c (dec_ttl (pdata m) 14)\<rparr>"
    "d = (if is_valid_ipv4_pkt (pdata m) 14 (length (pdata m)) = 0 then ucast c else BAD_PORT)"
    using r l process_packet_v4 [where ?is4.0 = "RTE_ETH_IS_IPV4_HDR (ptypes q)", OF True l not_BAD_PORT [of c], of "val_eth q"] set_macs_blend [OF lpm_macs_ok [OF q], of "dec_ttl (pdata m) 14" c]
    unfolding dst by (simp_all add: take_dec_ttl)
  show ?thesis
    unfolding l3fwd_lpm_simple_forward_def c_def [symmetric] Let_def if_P [OF True] is_valid_ipv4_pkt_sign r'
    using not_BAD_PORT [of c] by simp
next
  case False
  with ip have six: "RTE_ETH_IS_IPV6_HDR (ptypes q) (packet_type m)" by simp
  define c where "c = checked_port q (lpm_get_ipv6_dst_port q (pdata m) portid) portid"
  have dst: "lpm_get_dst_port q m portid = ucast c" using scalar_port(2) [OF q False six, of portid] by (simp add: c_def)
  have r': "m' = m\<lparr>pdata := set_macs q c (pdata m)\<rparr>" "d = ucast c"
    using r l process_packet_other [where ?is4.0 = "RTE_ETH_IS_IPV4_HDR (ptypes q)", OF False, of "val_eth q" "ucast c"] set_macs_blend [OF lpm_macs_ok [OF q], of "pdata m" c]
    unfolding dst by auto
  show ?thesis
    unfolding l3fwd_lpm_simple_forward_def c_def [symmetric] Let_def if_not_P [OF False] if_P [OF six] r'
    using not_BAD_PORT [of c] by simp
qed

section \<open>The handlers account for every packet\<close>

definition vector_result :: "('a, 'b) lpm_conf \<Rightarrow> u8 \<Rightarrow> mbuf \<Rightarrow> mbuf \<times> u16" where
  "vector_result q portid m =
     process_packet (RTE_ETH_IS_IPV4_HDR (ptypes q)) (val_eth q) (m, lpm_get_dst_port q m portid)"

lemma lpm_get_dst_port_u8: "lpm_conf_ok q ip4 \<Longrightarrow> unat (lpm_get_dst_port q m portid) < 256"
proof -
  assume "lpm_conf_ok q ip4"
  then obtain d :: u8 where "lpm_get_dst_port q m portid = ucast d" using lpm_get_dst_port_enabled by blast
  then show ?thesis using unsigned_less [where 'a = nat, of d] by simp
qed

lemma ready_conf:
  "lpm_conf_ok q ip4 \<Longrightarrow> 34 \<le> length (pdata m) \<Longrightarrow> ready (val_eth q) (m, lpm_get_dst_port q m portid)"
  by (simp add: ready_def val_eth_length [OF lpm_macs_ok] lpm_get_dst_port_u8)

lemma l3fwd_lpm_send_packets_eq:
  assumes q: "lpm_conf_ok q ip4" and p: "\<forall>m\<in>set pkts. 34 \<le> length (pdata m)"
    and n: "length pkts \<le> MAX_PKT_BURST" "length dst_port = MAX_PKT_BURST" "length pnum = MAX_PKT_BURST + 1"
  shows "l3fwd_lpm_send_packets tx q pad junk pnum dst_port portid pkts s =
    Some (send_runs tx junk (map (vector_result q portid) pkts) 0 s)"
proof -
  have z: "zip pkts (lpm_classify q dst_port portid pkts) = map (\<lambda>m. (m, lpm_get_dst_port q m portid)) pkts"
    using q hops_fit_setup [OF q] n by (intro lpm_classify_eq) (simp_all add: lpm_conf_ok_def)
  have "list_all (ready (val_eth q)) (map (\<lambda>m. (m, lpm_get_dst_port q m portid)) pkts)"
    using ready_conf [OF q] p by (simp add: list_all_iff)
  moreover have "vector_result q portid = (\<lambda>m. process_packet (RTE_ETH_IS_IPV4_HDR (ptypes q)) (val_eth q) (m, lpm_get_dst_port q m portid))"
    by (rule ext) (simp add: vector_result_def)
  ultimately show ?thesis
    using send_packets_multi_eq [of "val_eth q" "map (\<lambda>m. (m, lpm_get_dst_port q m portid)) pkts" pnum] n
    by (simp add: l3fwd_lpm_send_packets_def z comp_def)
qed

definition lpm_burst_ok :: "('a, 'b) lpm_conf \<Rightarrow> (u8 \<Rightarrow> u8 \<Rightarrow> u8 \<Rightarrow> u8 \<Rightarrow> u32) \<Rightarrow> u16 list \<Rightarrow> nat list \<Rightarrow> mbuf list \<Rightarrow> bool" where
  "lpm_burst_ok q ip4 dst_port pnum pkts \<longleftrightarrow> lpm_conf_ok q ip4 \<and> (\<forall>m\<in>set pkts. 34 \<le> length (pdata m))
     \<and> length pkts \<le> MAX_PKT_BURST \<and> length dst_port = MAX_PKT_BURST \<and> length pnum = MAX_PKT_BURST + 1"

interpretation lpm_sse: burst_handler tx "l3fwd_lpm_send_packets tx q pad junk pnum dst_port"
  "\<lambda>portid. lpm_burst_ok q ip4 dst_port pnum" "\<lambda>portid. map (fst \<circ> vector_result q portid)"
  for tx q pad junk pnum dst_port ip4
proof unfold_locales
  fix s :: "mbuf fwd_state" and portid and pkts :: "mbuf list"
  assume a: "driver_ok tx" "tx_ok s" "lpm_burst_ok q ip4 dst_port pnum pkts"
  let ?b = "map (vector_result q portid) pkts"
  have "l3fwd_lpm_send_packets tx q pad junk pnum dst_port portid pkts s = Some (send_runs tx junk ?b 0 s)"
    using a(3) by (intro l3fwd_lpm_send_packets_eq) (auto simp: lpm_burst_ok_def)
  moreover have "tx_ok (send_runs tx junk ?b 0 s) \<and> tx_total (send_runs tx junk ?b 0 s) = tx_total s + mset (drop 0 (map fst ?b))"
    using a by (intro send_runs_total) (simp_all add: lpm_burst_ok_def)
  ultimately show "\<exists>s'. l3fwd_lpm_send_packets tx q pad junk pnum dst_port portid pkts s = Some s' \<and> tx_ok s'
      \<and> tx_total s' = tx_total s + mset (map (fst \<circ> vector_result q portid) pkts)"
    by simp
qed simp

text \<open>The scalar handler: what becomes of a packet.\<close>

definition simple_result :: "('a, 'b) lpm_conf \<Rightarrow> u8 \<Rightarrow> mbuf \<Rightarrow> mbuf" where
  "simple_result q portid m =
     (if (RTE_ETH_IS_IPV4_HDR (ptypes q) (packet_type m) \<or> RTE_ETH_IS_IPV6_HDR (ptypes q) (packet_type m))
         \<and> snd (vector_result q portid m) \<noteq> BAD_PORT
      then fst (vector_result q portid m) else m)"

lemma vector_result_port: "lpm_conf_ok q ip4 \<Longrightarrow> snd (vector_result q portid m) \<noteq> BAD_PORT \<Longrightarrow> unat (snd (vector_result q portid m)) < 256"
proof -
  assume q: "lpm_conf_ok q ip4" and "snd (vector_result q portid m) \<noteq> BAD_PORT"
  then have "snd (vector_result q portid m) = lpm_get_dst_port q m portid"
    using snd_process by (fastforce simp: vector_result_def)
  then show ?thesis using lpm_get_dst_port_u8 [OF q] by simp
qed

interpretation lpm_scalar: packet_sink "\<lambda>s. driver_ok tx \<and> lpm_conf_ok q ip4 \<and> tx_ok s" tx_total
  "\<lambda>m. 34 \<le> length (pdata m)" "\<lambda>m. [simple_result q portid m]" "l3fwd_lpm_simple_forward tx q portid"
  for tx q ip4 portid
proof -
  have step: "tx_ok (l3fwd_lpm_simple_forward tx q portid m s)
      \<and> tx_total (l3fwd_lpm_simple_forward tx q portid m s) = tx_total s + mset [simple_result q portid m]"
    if a: "driver_ok tx" "lpm_conf_ok q ip4" "tx_ok s" "34 \<le> length (pdata m)" for s m
  proof (cases "RTE_ETH_IS_IPV4_HDR (ptypes q) (packet_type m) \<or> RTE_ETH_IS_IPV6_HDR (ptypes q) (packet_type m)")
    case True
    obtain m' d where r: "vector_result q portid m = (m', d)" by fastforce
    then have f: "l3fwd_lpm_simple_forward tx q portid m s =
        (if d = BAD_PORT then s\<lparr>freed := freed s @ [m]\<rparr> else send_single_packet tx m' (unat d) s)"
      using True a by (intro simple_forward_process) (simp_all add: vector_result_def)
    have c: "simple_result q portid m = (if d = BAD_PORT then m else m')" using True r by (simp add: simple_result_def)
    show ?thesis
    proof (cases "d = BAD_PORT")
      case True
      then show ?thesis unfolding f c using free_one [OF a(3)] by simp
    next
      case False
      then show ?thesis unfolding f c
        using send_single_step [OF a(1,3), of "unat d" m'] vector_result_port [OF a(2), of portid m] r by simp
    qed
  next
    case False
    then show ?thesis using free_one [OF a(3)] by (simp add: l3fwd_lpm_simple_forward_def simple_result_def)
  qed
  show "packet_sink (\<lambda>s. driver_ok tx \<and> lpm_conf_ok q ip4 \<and> tx_ok s) tx_total (\<lambda>m. 34 \<le> length (pdata m))
      (\<lambda>m. [simple_result q portid m]) (l3fwd_lpm_simple_forward tx q portid)"
    by unfold_locales (use step in auto)
qed

lemma no_opt_eq: "l3fwd_lpm_no_opt_send_packets tx q portid pkts s = Some (fold (l3fwd_lpm_simple_forward tx q portid) pkts s)"
  using fold_append [of "l3fwd_lpm_simple_forward tx q portid" "take (length pkts - PREFETCH_OFFSET) pkts"
      "drop (length pkts - PREFETCH_OFFSET) pkts"]
  by (simp add: l3fwd_lpm_no_opt_send_packets_def Let_def del: fold_append)

interpretation lpm_no_opt: burst_handler tx "l3fwd_lpm_no_opt_send_packets tx q"
  "\<lambda>portid pkts. lpm_conf_ok q ip4 \<and> (\<forall>m\<in>set pkts. 34 \<le> length (pdata m))" "\<lambda>portid. map (simple_result q portid)"
  for tx q ip4
proof unfold_locales
  fix s :: "mbuf fwd_state" and portid and pkts :: "mbuf list"
  assume a: "driver_ok tx" "tx_ok s" "lpm_conf_ok q ip4 \<and> (\<forall>m\<in>set pkts. 34 \<le> length (pdata m))"
  then show "\<exists>s'. l3fwd_lpm_no_opt_send_packets tx q portid pkts s = Some s' \<and> tx_ok s'
      \<and> tx_total s' = tx_total s + mset (map (simple_result q portid) pkts)"
    using lpm_scalar.sends_ok [of tx q ip4 s pkts portid] lpm_scalar.sends_total [of tx q ip4 s pkts portid]
    by (simp add: no_opt_eq list_all_iff)
qed simp

section \<open>Properties\<close>

text \<open>A library that keeps the laws: a table maps an address to the depth and the hop of its rule.\<close>

definition covers4 :: "u32 \<Rightarrow> u8 \<Rightarrow> u32 \<Rightarrow> bool" where
  "covers4 ip d a \<longleftrightarrow> drop_bit (32 - unat d) a = drop_bit (32 - unat d) ip"

definition covers6 :: "bytes \<Rightarrow> u8 \<Rightarrow> bytes \<Rightarrow> bool" where
  "covers6 ip d a \<longleftrightarrow> take (unat d div 8) a = take (unat d div 8) ip"

definition put_rule :: "('k \<Rightarrow> bool) \<Rightarrow> u8 \<Rightarrow> 'h \<Rightarrow> ('k \<Rightarrow> (u8 \<times> 'h) option) \<Rightarrow> 'k \<Rightarrow> (u8 \<times> 'h) option" where
  "put_rule covered d h t = (\<lambda>a. if covered a \<and> (case t a of None \<Rightarrow> True | Some r \<Rightarrow> fst r \<le> d) then Some (d, h) else t a)"

definition sample_lib :: "(u32 \<Rightarrow> (u8 \<times> u32) option, bytes \<Rightarrow> (u8 \<times> u8) option) lpm_lib" where
  "sample_lib = \<lparr>lpm_create = Some (\<lambda>a. None), lpm_add = (\<lambda>t ip d h. Some (put_rule (covers4 ip d) d h t)),
     lpm_lookup = (\<lambda>t a. map_option snd (t a)),
     lpm_lookupx4 = (\<lambda>t ips dv. map (\<lambda>a. case t a of Some r \<Rightarrow> snd r | None \<Rightarrow> dv) ips),
     lpm6_create = Some (\<lambda>a. None), lpm6_add = (\<lambda>t ip d h. Some (put_rule (covers6 ip d) d h t)),
     lpm6_lookup = (\<lambda>t a. map_option snd (t a))\<rparr>"

lemma sample_lib_laws: "lpm_laws sample_lib"
  by (auto simp: lpm_laws_def sample_lib_def put_rule_def split: option.split)

lemma sample_setup: "\<exists>t4 t6. setup_lpm sample_lib pm ip4 = Some (t4, t6)"
proof -
  have f4: "\<exists>t'. fold_option (add_route4 sample_lib pm) rs t = Some t'" for rs t
    unfolding not_None_eq [symmetric]
    by (rule fold_option_total) (simp add: add_route4_def sample_lib_def split: prod.split)
  have f6: "\<exists>t'. fold_option (add_route6 sample_lib pm) rs t = Some t'" for rs t
    unfolding not_None_eq [symmetric]
    by (rule fold_option_total) (simp add: add_route6_def sample_lib_def split: prod.split)
  obtain e4 e6 where e: "lpm_create sample_lib = Some e4" "lpm6_create sample_lib = Some e6" by (simp add: sample_lib_def)
  obtain t4 where "fold_option (add_route4 sample_lib pm) (ipv4_l3fwd_lpm_route_array ip4) e4 = Some t4" using f4 by blast
  moreover obtain t6 where "fold_option (add_route6 sample_lib pm) ipv6_l3fwd_lpm_route_array e6 = Some t6" using f6 by blast
  ultimately show ?thesis using e by (simp add: setup_lpm_def)
qed

definition sample_ptypes :: ptype_consts where
  "sample_ptypes = \<lparr>RTE_ETH_IS_IPV4_HDR = \<lambda>t. t AND 0x10 \<noteq> 0, RTE_ETH_IS_IPV6_HDR = \<lambda>t. t AND 0x40 \<noteq> 0,
     RTE_PTYPE_L3_IPV4 = 0x10, RTE_PTYPE_L3_IPV6 = 0x40,
     RTE_PTYPE_L3_IPV4_EXT_UNKNOWN = 0x90, RTE_PTYPE_L3_IPV6_EXT_UNKNOWN = 0xe0\<rparr>"

definition sample_lpm :: "(u32 \<Rightarrow> (u8 \<times> u32) option, bytes \<Rightarrow> (u8 \<times> u8) option) lpm_conf" where
  "sample_lpm = \<lparr>enabled_port_mask = 0xff, dest_eth_addr = (\<lambda>p. 2), ports_eth_addr = (\<lambda>p. replicate 6 1),
     val_eth = (\<lambda>p. le_bytes 6 (2 :: u64) @ replicate 10 1), ptypes = sample_ptypes, lib = sample_lib,
     ipv4_lookup_struct = fst (the (setup_lpm sample_lib 0xff sample_ip4)),
     ipv6_lookup_struct = snd (the (setup_lpm sample_lib 0xff sample_ip4))\<rparr>"

lemma sample_lpm_ok: "lpm_conf_ok sample_lpm sample_ip4"
proof -
  obtain t4 t6 where s: "setup_lpm sample_lib 0xff sample_ip4 = Some (t4, t6)" using sample_setup by blast
  have "take 12 (le_bytes 6 (2 :: u64) @ replicate 10 1) = take 6 (le_bytes 8 (2 :: u64)) @ replicate 6 1"
    by (simp add: le_bytes_def upt_rec)
  then show ?thesis using s sample_lib_laws
    by (simp add: lpm_conf_ok_def sample_lpm_def macs_ok_def ptypes_ok_def sample_ptypes_def)
qed

text \<open>C16: The classification of four packets at a time, with a byte shuffle for the addresses, one test
  for their types and a saturating pack of the ports, is the lookup of each packet: on the tables
  \<^verbatim>\<open>setup_lpm\<close> makes, the handler of a burst sends the runs of packets with equal ports, each
  packet processed for the port \<^verbatim>\<open>lpm_get_dst_port\<close> gives it.\<close>

theorem lpm_vector_handler:
  assumes "lpm_conf_ok q ip4" and "\<forall>m\<in>set pkts. 34 \<le> length (pdata m)"
    and "length pkts \<le> MAX_PKT_BURST" and "length dst_port = MAX_PKT_BURST" and "length pnum = MAX_PKT_BURST + 1"
  shows "l3fwd_lpm_send_packets tx q pad junk pnum dst_port portid pkts s =
    Some (send_runs tx junk (map (\<lambda>m. process_packet (RTE_ETH_IS_IPV4_HDR (ptypes q)) (val_eth q)
      (m, lpm_get_dst_port q m portid)) pkts) 0 s)"
  using l3fwd_lpm_send_packets_eq [OF assms, of tx pad junk portid s] by (simp add: vector_result_def cong: map_cong)

definition sample_pkt :: "u32 \<Rightarrow> mbuf" where
  "sample_pkt t = \<lparr>pdata = replicate 30 1 @ [2, 1, 1, 9] @ replicate 26 0, packet_type = t\<rparr>"

theorem lpm_vector_handler_witness:
  "l3fwd_lpm_send_packets (\<lambda>h port q ms. 0) sample_lpm (\<lambda>i. 7) (\<lambda>i. sample_pkt 0) (replicate 33 5) (replicate 32 9) 3
      (replicate 7 (sample_pkt 0x10)) (empty_fwd (sample_pkt 0)) \<noteq> None"
proof -
  have "\<forall>m\<in>set (replicate 7 (sample_pkt 0x10)). 34 \<le> length (pdata m)" by (simp add: sample_pkt_def)
  from lpm_vector_handler [OF sample_lpm_ok this, of "replicate 32 9" "replicate 33 5"] show ?thesis
    by (simp add: MAX_PKT_BURST_def)
qed

text \<open>C17: The vector handler and the scalar handler treat an IP packet alike: the scalar one frees it
  exactly when the vector one marks it with \<^verbatim>\<open>BAD_PORT\<close>, and otherwise sends the same
  frame to the same port.  They differ on a packet that is not IP, which the scalar handler frees
  and the vector handler sends back to the port it came from.\<close>

theorem lpm_handlers_agree:
  assumes "lpm_conf_ok q ip4" and "34 \<le> length (pdata m)"
    and "process_packet (RTE_ETH_IS_IPV4_HDR (ptypes q)) (val_eth q) (m, lpm_get_dst_port q m portid) = (m', d)"
  shows "l3fwd_lpm_simple_forward tx q portid m s =
    (if RTE_ETH_IS_IPV4_HDR (ptypes q) (packet_type m) \<or> RTE_ETH_IS_IPV6_HDR (ptypes q) (packet_type m)
     then if d = BAD_PORT then s\<lparr>freed := freed s @ [m]\<rparr> else send_single_packet tx m' (unat d) s
     else s\<lparr>freed := freed s @ [m]\<rparr>)
    \<and> (\<not> RTE_ETH_IS_IPV4_HDR (ptypes q) (packet_type m) \<and> \<not> RTE_ETH_IS_IPV6_HDR (ptypes q) (packet_type m) \<longrightarrow> d = ucast portid)"
  using simple_forward_process [OF assms] process_packet_other [of "RTE_ETH_IS_IPV4_HDR (ptypes q)" m "val_eth q"] assms(3)
  by (auto simp: l3fwd_lpm_simple_forward_def lpm_get_dst_port_def)

theorem lpm_handlers_agree_witness:
  "freed (l3fwd_lpm_simple_forward (\<lambda>h port q ms. 0) sample_lpm 3 (sample_pkt 0) (empty_fwd (sample_pkt 0))) = [sample_pkt 0]
   \<and> snd (process_packet (RTE_ETH_IS_IPV4_HDR sample_ptypes) (val_eth sample_lpm)
        (sample_pkt 0, lpm_get_dst_port sample_lpm (sample_pkt 0) 3)) = 3"
proof -
  have p: "ptypes sample_lpm = sample_ptypes" "34 \<le> length (pdata (sample_pkt 0))" "packet_type (sample_pkt 0) = 0"
    by (simp_all add: sample_lpm_def sample_pkt_def)
  have t: "\<not> RTE_ETH_IS_IPV4_HDR sample_ptypes 0" "\<not> RTE_ETH_IS_IPV6_HDR sample_ptypes 0" by (simp_all add: sample_ptypes_def)
  obtain m' d where r: "process_packet (RTE_ETH_IS_IPV4_HDR (ptypes sample_lpm)) (val_eth sample_lpm)
      (sample_pkt 0, lpm_get_dst_port sample_lpm (sample_pkt 0) 3) = (m', d)" by fastforce
  from lpm_handlers_agree [OF sample_lpm_ok p(2) r, of "\<lambda>h port q ms. 0" "empty_fwd (sample_pkt 0)"] r p t show ?thesis
    by (simp add: empty_fwd_def)
qed

text \<open>No packet goes to a port that is not enabled: after \<^verbatim>\<open>setup_lpm\<close> every answer of
  the tables, and so every port \<^verbatim>\<open>lpm_get_dst_port\<close> chooses other than the one the packet
  came from, is one of the first eight ports and in \<^verbatim>\<open>enabled_port_mask\<close>.\<close>

theorem lpm_ports_enabled:
  assumes "lpm_conf_ok q ip4" and "lpm_get_dst_port q m portid \<noteq> ucast portid"
  shows "unat (lpm_get_dst_port q m portid) < 8 \<and> bit (enabled_port_mask q) (unat (lpm_get_dst_port q m portid))"
  using lpm_get_dst_port_enabled [OF assms(1), of m portid] assms(2) by (auto simp: port_enabled_def)

theorem lpm_ports_enabled_witness:
  "unat (lpm_get_dst_port sample_lpm (sample_pkt 0x10) 3) < 8
   \<and> bit (0xff :: u32) (unat (lpm_get_dst_port sample_lpm (sample_pkt 0x10) 3))"
proof -
  have "lpm_get_dst_port sample_lpm (sample_pkt 0x10) 3 \<noteq> ucast (3 :: u8)" by code_simp
  from lpm_ports_enabled [OF sample_lpm_ok this] show ?thesis by (simp add: sample_lpm_def)
qed

text \<open>C9: Both main loops of longest prefix match forwarding account for every packet: over any number of
  turns with bursts of at most 32 packets, each with its IP header, and whatever the driver takes,
  the loop returns, the transmit buffers stay within their bounds, and every packet received is
  afterwards on a wire, freed, or in a buffer.\<close>

theorem lpm_main_loop_conserves:
  assumes "driver_ok tx" and "tx_ok s" and "0 < n_rx_queue"
    and "\<forall>e\<in>set es. turn_good (\<lambda>portid. lpm_burst_ok q ip4 dst_port pnum) e"
  shows "(\<exists>s'. lpm_main_loop tx q pad junk pnum dst_port tx_port_id hz n_rx_queue es s = Some s' \<and> tx_ok s'
      \<and> tx_total s' = tx_total s + mset (concat (map (turn_pkts (\<lambda>portid. map (fst \<circ> vector_result q portid))) es)))
    \<and> (\<exists>s'. lpm_main_loop_no_opt tx q tx_port_id hz n_rx_queue es s = Some s' \<and> tx_ok s'
      \<and> tx_total s' = tx_total s + mset (concat (map (turn_pkts (\<lambda>portid. map (simple_result q portid))) es)))"
proof
  show "\<exists>s'. lpm_main_loop tx q pad junk pnum dst_port tx_port_id hz n_rx_queue es s = Some s' \<and> tx_ok s'
      \<and> tx_total s' = tx_total s + mset (concat (map (turn_pkts (\<lambda>portid. map (fst \<circ> vector_result q portid))) es))"
    unfolding lpm_main_loop_def using assms(1,2,4,3) by (rule lpm_sse.loop_accounts)
  have "\<forall>e\<in>set es. turn_good (\<lambda>portid pkts. lpm_conf_ok q ip4 \<and> (\<forall>m\<in>set pkts. 34 \<le> length (pdata m))) e"
    using assms(4) by (fastforce simp: turn_good_def lpm_burst_ok_def list_all_iff)
  then show "\<exists>s'. lpm_main_loop_no_opt tx q tx_port_id hz n_rx_queue es s = Some s' \<and> tx_ok s'
      \<and> tx_total s' = tx_total s + mset (concat (map (turn_pkts (\<lambda>portid. map (simple_result q portid))) es))"
    unfolding lpm_main_loop_no_opt_def using assms(3) by (intro lpm_no_opt.loop_accounts [OF assms(1,2)])
qed

theorem lpm_main_loop_conserves_witness:
  "\<exists>s'. lpm_main_loop (\<lambda>h port q ms. 0) sample_lpm (\<lambda>i. 7) (\<lambda>i. sample_pkt 0) (replicate 33 5) (replicate 32 9) [0, 1]
      1000000 2 [\<lparr>cur_tsc = 5000, bursts = [(3, replicate 7 (sample_pkt 0x10))]\<rparr>] (empty_fwd (sample_pkt 0)) = Some s'
    \<and> size (tx_total s') = 7"
proof -
  have "driver_ok (\<lambda>h port q (ms :: mbuf list). 0)" by (simp add: driver_ok_def)
  moreover have "\<forall>e\<in>set [\<lparr>cur_tsc = 5000, bursts = [(3, replicate 7 (sample_pkt 0x10))]\<rparr>].
      turn_good (\<lambda>portid. lpm_burst_ok sample_lpm sample_ip4 (replicate 32 9) (replicate 33 5)) e"
    by (simp add: turn_good_def lpm_burst_ok_def sample_lpm_ok sample_pkt_def MAX_PKT_BURST_def)
  ultimately show ?thesis
    using lpm_main_loop_conserves [where tx = "\<lambda>h port q ms. 0" and s = "empty_fwd (sample_pkt 0)" and n_rx_queue = 2
        and es = "[\<lparr>cur_tsc = 5000, bursts = [(3, replicate 7 (sample_pkt 0x10))]\<rparr>]" and q = sample_lpm
        and ?ip4.0 = sample_ip4 and dst_port = "replicate 32 9" and pnum = "replicate 33 5" and pad = "\<lambda>i. 7"
        and junk = "\<lambda>i. sample_pkt 0" and tx_port_id = "[0, 1]" and hz = 1000000]
      empty_fwd_ok [where x = "sample_pkt 0"]
    by (fastforce simp: turn_pkts_def)
qed

end
