(* ===== verification/L3fwd_Em_Key.thy ===== *)
theory L3fwd_Em_Key
  imports L3fwd_Fwd
begin

text \<open>
  The tables of exact match forwarding (\<^verbatim>\<open>l3fwd_em.c\<close>): the keys built from a packet with
  three masks, the keys of the configured flows, the two ways the tables are filled, and the
  lookup.  \<^verbatim>\<open>rte_hash\<close> is a parameter; \<open>hash_laws\<close> states what its documentation says: a key
  that was added is found at the position the addition returned, which no other key has.  It is created
  with room for \<^verbatim>\<open>L3FWD_HASH_ENTRIES\<close> keys, as many as the arrays of ports have entries; filling
  the tables is \<open>None\<close> when a key is refused (\<^verbatim>\<open>rte_exit\<close>) or its position lies behind the array.  The
  bytes behind a packet, which the vector loads can reach, are the argument \<open>junk\<close>.
\<close>

section \<open>Keys\<close>

record ipv4_5tuple =
  ip_dst :: u32
  ip_src :: u32
  port_dst :: u16
  port_src :: u16
  proto :: u8

record ipv6_5tuple =
  ip_dst6 :: bytes
  ip_src6 :: bytes
  port_dst6 :: u16
  port_src6 :: u16
  proto6 :: u8

text \<open>\<^verbatim>\<open>union ipv4_5tuple_host\<close> and \<^verbatim>\<open>union ipv6_5tuple_host\<close> as their 16 and 48
  bytes.\<close>

definition convert_ipv4_5tuple :: "ipv4_5tuple \<Rightarrow> bytes" where
  "convert_ipv4_5tuple k =
     [0, proto k] @ le_bytes 2 (0 :: u16) @ le_bytes 4 (bswap32 (ip_src k)) @ le_bytes 4 (bswap32 (ip_dst k))
     @ le_bytes 2 (bswap16 (port_src k)) @ le_bytes 2 (bswap16 (port_dst k))"

definition convert_ipv6_5tuple :: "ipv6_5tuple \<Rightarrow> bytes" where
  "convert_ipv6_5tuple k =
     le_bytes 2 (0 :: u16) @ [proto6 k, 0] @ map (\<lambda>i. ip_src6 k ! i) [0..<16] @ map (\<lambda>i. ip_dst6 k ! i) [0..<16]
     @ le_bytes 2 (bswap16 (port_src6 k)) @ le_bytes 2 (bswap16 (port_dst6 k)) @ le_bytes 8 (0 :: u64)"

definition load_xmm :: "(nat \<Rightarrow> u8) \<Rightarrow> bytes \<Rightarrow> nat \<Rightarrow> bytes" where
  "load_xmm junk p off = map (\<lambda>i. if i < length p then p ! i else junk i) [off..<off + 16]"

definition em_mask_key :: "(nat \<Rightarrow> u8) \<Rightarrow> bytes \<Rightarrow> nat \<Rightarrow> bytes \<Rightarrow> bytes" where
  "em_mask_key junk p off m = map2 (AND) (load_xmm junk p off) m"

definition rte_xmm :: "u32 list \<Rightarrow> bytes" where
  "rte_xmm ws = concat (map (le_bytes 4) ws)"

section \<open>The hash functions\<close>

text \<open>\<open>crc\<close> is \<^verbatim>\<open>rte_hash_crc_4byte\<close>.\<close>

definition ipv4_hash_crc :: "(u32 \<Rightarrow> u32 \<Rightarrow> u32) \<Rightarrow> bytes \<Rightarrow> u32 \<Rightarrow> u32" where
  "ipv4_hash_crc crc k init_val =
     (let t = ucast (k ! 1);
          init_val = crc t init_val;
          init_val = crc (load 4 k 4) init_val;
          init_val = crc (load 4 k 8) init_val
      in crc (load 4 k 12) init_val)"

definition ipv6_hash_crc :: "(u32 \<Rightarrow> u32 \<Rightarrow> u32) \<Rightarrow> bytes \<Rightarrow> u32 \<Rightarrow> u32" where
  "ipv6_hash_crc crc k init_val =
     (let t = ucast (k ! 2);
          init_val = crc t init_val;
          init_val = fold (\<lambda>off. crc (load 4 k off)) [4, 8, 12, 16] init_val;
          init_val = fold (\<lambda>off. crc (load 4 k off)) [20, 24, 28, 32] init_val
      in crc (load 4 k 36) init_val)"

section \<open>Tables\<close>

text \<open>The creation of a hash gets the number of its entries and the hash function.\<close>

record 'h hash_lib =
  hash_create :: "nat \<Rightarrow> (bytes \<Rightarrow> u32 \<Rightarrow> u32) \<Rightarrow> 'h option"
  hash_add_key :: "'h \<Rightarrow> bytes \<Rightarrow> ('h \<times> nat) option"
  hash_lookup :: "'h \<Rightarrow> bytes \<Rightarrow> nat option"
  hash_lookup_bulk :: "'h \<Rightarrow> bytes list \<Rightarrow> nat option list"

definition hash_laws :: "'h hash_lib \<Rightarrow> bool" where
  "hash_laws H \<longleftrightarrow>
     (\<forall>n f h k. hash_create H n f = Some h \<longrightarrow> hash_lookup H h k = None)
     \<and> (\<forall>h k h' i. hash_add_key H h k = Some (h', i) \<longrightarrow>
          hash_lookup H h' = (hash_lookup H h)(k := Some i) \<and> (\<forall>k'. k' \<noteq> k \<longrightarrow> hash_lookup H h k' \<noteq> Some i))
     \<and> (\<forall>h ks. hash_lookup_bulk H h ks = map (hash_lookup H h) ks)"

definition L3FWD_HASH_ENTRIES :: nat where "L3FWD_HASH_ENTRIES = 1024"

text \<open>The global variables of \<^verbatim>\<open>l3fwd_em.c\<close>, for one socket.  The two arrays of ports have
  \<^verbatim>\<open>L3FWD_HASH_ENTRIES\<close> elements.\<close>

record 'h em_tables =
  em_h4 :: 'h
  em_h6 :: 'h
  ipv4_l3fwd_out_if :: "nat \<Rightarrow> u8"
  ipv6_l3fwd_out_if :: "nat \<Rightarrow> u8"
  mask0 :: bytes
  mask1 :: bytes
  mask2 :: bytes

definition ipv4_key :: "(nat \<Rightarrow> u8) \<Rightarrow> 'h em_tables \<Rightarrow> bytes \<Rightarrow> bytes" where
  "ipv4_key junk T ip = em_mask_key junk ip 8 (mask0 T)"

definition ipv6_key :: "(nat \<Rightarrow> u8) \<Rightarrow> 'h em_tables \<Rightarrow> bytes \<Rightarrow> bytes" where
  "ipv6_key junk T ip = em_mask_key junk ip 4 (mask1 T) @ load_xmm junk ip 20 @ em_mask_key junk ip 36 (mask2 T)"

definition em_get_ipv4_dst_port :: "'h hash_lib \<Rightarrow> (nat \<Rightarrow> u8) \<Rightarrow> 'h em_tables \<Rightarrow> bytes \<Rightarrow> u8 \<Rightarrow> u8" where
  "em_get_ipv4_dst_port H junk T ip portid =
     (case hash_lookup H (em_h4 T) (ipv4_key junk T ip) of None \<Rightarrow> portid | Some i \<Rightarrow> ipv4_l3fwd_out_if T i)"

definition em_get_ipv6_dst_port :: "'h hash_lib \<Rightarrow> (nat \<Rightarrow> u8) \<Rightarrow> 'h em_tables \<Rightarrow> bytes \<Rightarrow> u8 \<Rightarrow> u8" where
  "em_get_ipv6_dst_port H junk T ip portid =
     (case hash_lookup H (em_h6 T) (ipv6_key junk T ip) of None \<Rightarrow> portid | Some i \<Rightarrow> ipv6_l3fwd_out_if T i)"

section \<open>Filling the tables\<close>

definition IPPROTO_TCP :: u8 where "IPPROTO_TCP = 6"
definition IPPROTO_UDP :: u8 where "IPPROTO_UDP = 17"

text \<open>\<open>ip4\<close> is the macro \<^verbatim>\<open>IPv4\<close>.\<close>

definition ipv4_l3fwd_em_route_array :: "(u8 \<Rightarrow> u8 \<Rightarrow> u8 \<Rightarrow> u8 \<Rightarrow> u32) \<Rightarrow> (ipv4_5tuple \<times> u8) list" where
  "ipv4_l3fwd_em_route_array ip4 =
     [(\<lparr>ip_dst = ip4 101 0 0 0, ip_src = ip4 100 10 0 1, port_dst = 101, port_src = 11, proto = IPPROTO_TCP\<rparr>, 0),
      (\<lparr>ip_dst = ip4 201 0 0 0, ip_src = ip4 200 20 0 1, port_dst = 102, port_src = 12, proto = IPPROTO_TCP\<rparr>, 1),
      (\<lparr>ip_dst = ip4 111 0 0 0, ip_src = ip4 100 30 0 1, port_dst = 101, port_src = 11, proto = IPPROTO_TCP\<rparr>, 2),
      (\<lparr>ip_dst = ip4 211 0 0 0, ip_src = ip4 200 40 0 1, port_dst = 102, port_src = 12, proto = IPPROTO_TCP\<rparr>, 3)]"

definition v6_dst :: "u8 \<Rightarrow> bytes" where
  "v6_dst b = [0xfe, b, 0, 0, 0, 0, 0, 0, 0x02, 0x1e, 0x67, 0xff, 0xfe, 0, 0, 0]"

definition v6_src :: "u8 \<Rightarrow> bytes" where
  "v6_src b = [0xfe, b, 0, 0, 0, 0, 0, 0, 0x02, 0x1b, 0x21, 0xff, 0xfe, 0x91, 0x38, 0x05]"

definition ipv6_l3fwd_em_route_array :: "(ipv6_5tuple \<times> u8) list" where
  "ipv6_l3fwd_em_route_array =
     [(\<lparr>ip_dst6 = v6_dst 0x80, ip_src6 = v6_src 0x80, port_dst6 = 101, port_src6 = 11, proto6 = IPPROTO_TCP\<rparr>, 0),
      (\<lparr>ip_dst6 = v6_dst 0x90, ip_src6 = v6_src 0x90, port_dst6 = 102, port_src6 = 12, proto6 = IPPROTO_TCP\<rparr>, 1),
      (\<lparr>ip_dst6 = v6_dst 0xa0, ip_src6 = v6_src 0xa0, port_dst6 = 101, port_src6 = 11, proto6 = IPPROTO_TCP\<rparr>, 2),
      (\<lparr>ip_dst6 = v6_dst 0xb0, ip_src6 = v6_src 0xb0, port_dst6 = 102, port_src6 = 12, proto6 = IPPROTO_TCP\<rparr>, 3)]"

text \<open>\<open>None\<close> is a call of \<^verbatim>\<open>rte_exit\<close>, because the hash has no room for the key, or a write behind the
  array of ports.\<close>

definition add_flow4 :: "'h hash_lib \<Rightarrow> ipv4_5tuple \<times> u8 \<Rightarrow> 'h em_tables \<Rightarrow> 'h em_tables option" where
  "add_flow4 H = (\<lambda>(key, if_out) T.
     case hash_add_key H (em_h4 T) (convert_ipv4_5tuple key) of None \<Rightarrow> None
     | Some (h, ret) \<Rightarrow>
         if L3FWD_HASH_ENTRIES \<le> ret then None
         else Some (T\<lparr>em_h4 := h, ipv4_l3fwd_out_if := (ipv4_l3fwd_out_if T)(ret := if_out)\<rparr>))"

definition add_flow6 :: "'h hash_lib \<Rightarrow> ipv6_5tuple \<times> u8 \<Rightarrow> 'h em_tables \<Rightarrow> 'h em_tables option" where
  "add_flow6 H = (\<lambda>(key, if_out) T.
     case hash_add_key H (em_h6 T) (convert_ipv6_5tuple key) of None \<Rightarrow> None
     | Some (h, ret) \<Rightarrow>
         if L3FWD_HASH_ENTRIES \<le> ret then None
         else Some (T\<lparr>em_h6 := h, ipv6_l3fwd_out_if := (ipv6_l3fwd_out_if T)(ret := if_out)\<rparr>))"

definition BIT_8_TO_15 :: u32 where "BIT_8_TO_15 = 0x0000ff00"
definition BIT_16_TO_23 :: u32 where "BIT_16_TO_23 = 0x00ff0000"
definition ALL_32_BITS :: u32 where "ALL_32_BITS = 0xffffffff"

definition set_mask4 :: "'h em_tables \<Rightarrow> 'h em_tables" where
  "set_mask4 T = T\<lparr>mask0 := rte_xmm [BIT_8_TO_15, ALL_32_BITS, ALL_32_BITS, ALL_32_BITS]\<rparr>"

definition set_masks6 :: "'h em_tables \<Rightarrow> 'h em_tables" where
  "set_masks6 T = T\<lparr>mask1 := rte_xmm [BIT_16_TO_23, ALL_32_BITS, ALL_32_BITS, ALL_32_BITS],
     mask2 := rte_xmm [ALL_32_BITS, ALL_32_BITS, 0, 0]\<rparr>"

definition populate_ipv4_few_flow_into_table ::
  "'h hash_lib \<Rightarrow> (u8 \<Rightarrow> u8 \<Rightarrow> u8 \<Rightarrow> u8 \<Rightarrow> u32) \<Rightarrow> 'h em_tables \<Rightarrow> 'h em_tables option" where
  "populate_ipv4_few_flow_into_table H ip4 T = fold_option (add_flow4 H) (ipv4_l3fwd_em_route_array ip4) (set_mask4 T)"

definition populate_ipv6_few_flow_into_table :: "'h hash_lib \<Rightarrow> 'h em_tables \<Rightarrow> 'h em_tables option" where
  "populate_ipv6_few_flow_into_table H T = fold_option (add_flow6 H) ipv6_l3fwd_em_route_array (set_masks6 T)"

definition NUMBER_PORT_USED :: nat where "NUMBER_PORT_USED = 4"
definition BYTE_VALUE_MAX :: nat where "BYTE_VALUE_MAX = 256"

text \<open>The bytes \<open>a\<close>, \<open>b\<close>, \<open>c\<close> of flow \<open>i\<close>.\<close>

definition flow_bytes :: "nat \<Rightarrow> u8 \<times> u8 \<times> u8" where
  "flow_bytes i =
     (of_nat (i div NUMBER_PORT_USED mod BYTE_VALUE_MAX),
      of_nat (i div NUMBER_PORT_USED div BYTE_VALUE_MAX mod BYTE_VALUE_MAX),
      of_nat (i div NUMBER_PORT_USED div (BYTE_VALUE_MAX * BYTE_VALUE_MAX)))"

definition many_flow4 :: "(u8 \<Rightarrow> u8 \<Rightarrow> u8 \<Rightarrow> u8 \<Rightarrow> u32) \<Rightarrow> nat \<Rightarrow> ipv4_5tuple \<times> u8" where
  "many_flow4 ip4 i =
     (let (a, b, c) = flow_bytes i;
          (key, if_out) = ipv4_l3fwd_em_route_array ip4 ! (i mod NUMBER_PORT_USED);
          d = [101, 201, 111, 211] ! (i mod NUMBER_PORT_USED)
      in (key\<lparr>ip_dst := ip4 d c b a\<rparr>, if_out))"

definition many_flow6 :: "nat \<Rightarrow> ipv6_5tuple \<times> u8" where
  "many_flow6 i =
     (let (a, b, c) = flow_bytes i;
          (key, if_out) = ipv6_l3fwd_em_route_array ! (i mod NUMBER_PORT_USED)
      in (key\<lparr>ip_dst6 := (ip_dst6 key)[13 := c, 14 := b, 15 := a]\<rparr>, if_out))"

definition populate_ipv4_many_flow_into_table ::
  "'h hash_lib \<Rightarrow> (u8 \<Rightarrow> u8 \<Rightarrow> u8 \<Rightarrow> u8 \<Rightarrow> u32) \<Rightarrow> u32 \<Rightarrow> 'h em_tables \<Rightarrow> 'h em_tables option" where
  "populate_ipv4_many_flow_into_table H ip4 nr_flow T =
     fold_option (\<lambda>i. add_flow4 H (many_flow4 ip4 i)) [0..<unat nr_flow] (set_mask4 T)"

definition populate_ipv6_many_flow_into_table :: "'h hash_lib \<Rightarrow> u32 \<Rightarrow> 'h em_tables \<Rightarrow> 'h em_tables option" where
  "populate_ipv6_many_flow_into_table H nr_flow T =
     fold_option (\<lambda>i. add_flow6 H (many_flow6 i)) [0..<unat nr_flow] (set_masks6 T)"

definition HASH_ENTRY_NUMBER_DEFAULT :: u32 where "HASH_ENTRY_NUMBER_DEFAULT = 4"

text \<open>\<open>T\<close> holds the initial values of the arrays and masks; \<^verbatim>\<open>setup_nat_table\<close> is not a part
  of this step.\<close>

definition setup_hash :: "'h hash_lib \<Rightarrow> (u32 \<Rightarrow> u32 \<Rightarrow> u32) \<Rightarrow> (u8 \<Rightarrow> u8 \<Rightarrow> u8 \<Rightarrow> u8 \<Rightarrow> u32) \<Rightarrow> u32 \<Rightarrow> int \<Rightarrow>
    'h em_tables \<Rightarrow> 'h em_tables option" where
  "setup_hash H crc ip4 hash_entry_number ipv6 T =
     (case hash_create H L3FWD_HASH_ENTRIES (ipv4_hash_crc crc) of None \<Rightarrow> None | Some h4 \<Rightarrow>
      case hash_create H L3FWD_HASH_ENTRIES (ipv6_hash_crc crc) of None \<Rightarrow> None | Some h6 \<Rightarrow>
      let T = T\<lparr>em_h4 := h4, em_h6 := h6\<rparr>
      in if hash_entry_number \<noteq> HASH_ENTRY_NUMBER_DEFAULT
         then if ipv6 = 0 then populate_ipv4_many_flow_into_table H ip4 hash_entry_number T
              else populate_ipv6_many_flow_into_table H hash_entry_number T
         else if ipv6 = 0 then populate_ipv4_few_flow_into_table H ip4 T
              else populate_ipv6_few_flow_into_table H T)"

section \<open>The masked packet is the key of its flow\<close>

definition flow4 :: "bytes \<Rightarrow> ipv4_5tuple" where
  "flow4 ip = \<lparr>ip_dst = bswap32 (load 4 ip 16), ip_src = bswap32 (load 4 ip 12),
     port_dst = bswap16 (load 2 ip 22), port_src = bswap16 (load 2 ip 20), proto = ip ! 9\<rparr>"

definition flow6 :: "bytes \<Rightarrow> ipv6_5tuple" where
  "flow6 ip = \<lparr>ip_dst6 = take 16 (drop 24 ip), ip_src6 = take 16 (drop 8 ip),
     port_dst6 = bswap16 (load 2 ip 42), port_src6 = bswap16 (load 2 ip 40), proto6 = ip ! 6\<rparr>"

lemma le_bytes_load:
  "off + n \<le> length p \<Longrightarrow> 8 * n \<le> LENGTH('a::len) \<Longrightarrow> le_bytes n (load n p off :: 'a word) = take n (drop off p)"
  by (simp add: load_def le_bytes_le_word)

lemma take_drop_upt: "off + n \<le> length p \<Longrightarrow> take n (drop off p) = map (\<lambda>i. p ! i) [off..<off + n]"
  by (rule nth_equalityI) auto

lemma rte_xmm_masks:
  "rte_xmm [BIT_8_TO_15, ALL_32_BITS, ALL_32_BITS, ALL_32_BITS] = [0, - 1, 0, 0] @ replicate 12 (- 1)"
  "rte_xmm [BIT_16_TO_23, ALL_32_BITS, ALL_32_BITS, ALL_32_BITS] = [0, 0, - 1, 0] @ replicate 12 (- 1)"
  "rte_xmm [ALL_32_BITS, ALL_32_BITS, 0, 0] = replicate 8 (- 1) @ replicate 8 0"
  by code_simp+

lemma upt_16: "[off..<off + 16] = map ((+) off) [0, 1, 2, 3, 4, 5, 6, 7, 8, 9, 10, 11, 12, 13, 14, 15]"
  by (simp add: upt_rec [of off] upt_conv_Cons eval_nat_numeral)

lemma upt_4: "[off..<off + 4] = [off, off + 1, off + 2, off + 3]"
  by (simp add: eval_nat_numeral)

lemma upt_2: "[off..<off + 2] = [off, off + 1]"
  by (simp add: eval_nat_numeral)

lemma ipv4_key_flow:
  assumes "mask0 T = rte_xmm [BIT_8_TO_15, ALL_32_BITS, ALL_32_BITS, ALL_32_BITS]" and "24 \<le> length ip"
  shows "ipv4_key junk T ip = convert_ipv4_5tuple (flow4 ip)"
proof -
  have x: "load_xmm junk ip 8 = [ip ! 8, ip ! 9, ip ! 10, ip ! 11, ip ! 12, ip ! 13, ip ! 14, ip ! 15,
      ip ! 16, ip ! 17, ip ! 18, ip ! 19, ip ! 20, ip ! 21, ip ! 22, ip ! 23]"
    using assms(2) unfolding load_xmm_def upt_16 by simp
  have "le_bytes 4 (load 4 ip off :: u32) = [ip ! off, ip ! (off + 1), ip ! (off + 2), ip ! (off + 3)]" if "off + 4 \<le> length ip" for off
    using that by (simp add: le_bytes_load take_drop_upt upt_4 del: upt_Suc)
  moreover have "le_bytes 2 (load 2 ip off :: u16) = [ip ! off, ip ! (off + 1)]" if "off + 2 \<le> length ip" for off
    using that by (simp add: le_bytes_load take_drop_upt)
  moreover have "le_bytes 2 (0 :: u16) = [0, 0]" by code_simp
  ultimately show ?thesis
    using assms(2) unfolding ipv4_key_def em_mask_key_def x assms(1) rte_xmm_masks
    by (simp add: convert_ipv4_5tuple_def flow4_def eval_nat_numeral)
qed

lemma ipv6_key_flow:
  assumes "mask1 T = rte_xmm [BIT_16_TO_23, ALL_32_BITS, ALL_32_BITS, ALL_32_BITS]"
    and "mask2 T = rte_xmm [ALL_32_BITS, ALL_32_BITS, 0, 0]" and "44 \<le> length ip"
  shows "ipv6_key junk T ip = convert_ipv6_5tuple (flow6 ip)"
proof -
  have x: "load_xmm junk ip 4 = [ip ! 4, ip ! 5, ip ! 6, ip ! 7, ip ! 8, ip ! 9, ip ! 10, ip ! 11,
      ip ! 12, ip ! 13, ip ! 14, ip ! 15, ip ! 16, ip ! 17, ip ! 18, ip ! 19]"
    "load_xmm junk ip 20 = [ip ! 20, ip ! 21, ip ! 22, ip ! 23, ip ! 24, ip ! 25, ip ! 26, ip ! 27,
      ip ! 28, ip ! 29, ip ! 30, ip ! 31, ip ! 32, ip ! 33, ip ! 34, ip ! 35]"
    using assms(3) unfolding load_xmm_def upt_16 by simp_all
  obtain y where y: "load_xmm junk ip 36 = [ip ! 36, ip ! 37, ip ! 38, ip ! 39, ip ! 40, ip ! 41, ip ! 42, ip ! 43] @ y"
    "length y = 8"
    using assms(3) unfolding load_xmm_def upt_16 by simp
  have "map2 (AND) y (replicate 8 0) = replicate 8 (0 :: u8)"
    using y(2) by (intro nth_equalityI) simp_all
  then have m: "em_mask_key junk ip 36 (mask2 T) = [ip ! 36, ip ! 37, ip ! 38, ip ! 39, ip ! 40, ip ! 41, ip ! 42, ip ! 43]
      @ replicate 8 0"
    unfolding em_mask_key_def y(1) assms(2) rte_xmm_masks by (simp add: eval_nat_numeral)
  have "map (\<lambda>i. take 16 (drop off ip) ! i) [0..<16] = map (\<lambda>i. ip ! i) (map ((+) off) [0, 1, 2, 3, 4, 5, 6, 7, 8, 9, 10, 11, 12, 13, 14, 15])"
    if "off + 16 \<le> length ip" for off
    using that by (intro nth_equalityI) (auto simp: less_Suc_eq eval_nat_numeral)
  moreover have "le_bytes 2 (load 2 ip off :: u16) = [ip ! off, ip ! (off + 1)]" if "off + 2 \<le> length ip" for off
    using that by (simp add: le_bytes_load take_drop_upt)
  moreover have "le_bytes 2 (0 :: u16) = [0, 0]" "le_bytes 8 (0 :: u64) = replicate 8 0" by code_simp+
  ultimately show ?thesis
    using assms(3) unfolding ipv6_key_def m x(2)
    unfolding em_mask_key_def x(1) assms(1) rte_xmm_masks
    by (simp add: convert_ipv6_5tuple_def flow6_def eval_nat_numeral)
qed

lemma convert_ipv4_inject: "convert_ipv4_5tuple k = convert_ipv4_5tuple k' \<longleftrightarrow> k = k'"
  by (auto simp: convert_ipv4_5tuple_def le_bytes_inject intro: ipv4_5tuple.equality)

definition wf_flow6 :: "ipv6_5tuple \<Rightarrow> bool" where
  "wf_flow6 k \<longleftrightarrow> length (ip_dst6 k) = 16 \<and> length (ip_src6 k) = 16"

lemma convert_ipv6_inject:
  assumes "wf_flow6 k" and "wf_flow6 k'"
  shows "convert_ipv6_5tuple k = convert_ipv6_5tuple k' \<longleftrightarrow> k = k'"
proof -
  have "map (\<lambda>i. xs ! i) [0..<16] = xs" if "length xs = 16" for xs :: bytes
    using that map_nth [of xs] by simp
  then show ?thesis using assms
    by (auto simp: convert_ipv6_5tuple_def wf_flow6_def le_bytes_inject intro: ipv6_5tuple.equality)
qed

section \<open>The tables hold the flows\<close>

text \<open>A hash and its array of ports represent a map from keys to ports.\<close>

definition represents :: "'h hash_lib \<Rightarrow> 'h \<Rightarrow> (nat \<Rightarrow> u8) \<Rightarrow> (bytes \<Rightarrow> u8 option) \<Rightarrow> bool" where
  "represents H h out m \<longleftrightarrow> (\<forall>k. map_option out (hash_lookup H h k) = m k)"

lemma represents_add:
  assumes "hash_laws H" and "hash_add_key H h k = Some (h', i)" and "represents H h out m"
  shows "represents H h' (out(i := p)) (m(k \<mapsto> p))"
proof -
  have l: "hash_lookup H h' = (hash_lookup H h)(k := Some i)" "\<And>k'. k' \<noteq> k \<Longrightarrow> hash_lookup H h k' \<noteq> Some i"
    using assms(1,2) by (auto simp: hash_laws_def)
  have "map_option (out(i := p)) (hash_lookup H h k') = map_option out (hash_lookup H h k')" if "k' \<noteq> k" for k'
    using l(2) [OF that] by (cases "hash_lookup H h k'") auto
  then show ?thesis using assms(3) by (simp add: represents_def l(1))
qed

lemma represents_create: "hash_laws H \<Longrightarrow> hash_create H n f = Some h \<Longrightarrow> represents H h out Map.empty"
  by (simp add: represents_def hash_laws_def)

lemma fold_map_upd: "fold (\<lambda>(k, p) m. m(f k \<mapsto> p)) rs m = m ++ map_of (rev (map (apfst f) rs))"
  by (induction rs arbitrary: m) (auto simp: map_add_upd_left fun_eq_iff map_add_def split: option.split)

lemma fold_add_flow4:
  assumes "hash_laws H"
  shows "fold_option (add_flow4 H) rs T = Some T' \<Longrightarrow> represents H (em_h4 T) (ipv4_l3fwd_out_if T) m \<Longrightarrow>
    represents H (em_h4 T') (ipv4_l3fwd_out_if T') (fold (\<lambda>(k, p) m. m(convert_ipv4_5tuple k \<mapsto> p)) rs m)
    \<and> em_h6 T' = em_h6 T \<and> ipv6_l3fwd_out_if T' = ipv6_l3fwd_out_if T
    \<and> mask0 T' = mask0 T \<and> mask1 T' = mask1 T \<and> mask2 T' = mask2 T"
proof (induction rs arbitrary: T m)
  case (Cons r rs)
  obtain key p where r: "r = (key, p)" by fastforce
  from Cons.prems(1) obtain T1 where T1: "add_flow4 H r T = Some T1" "fold_option (add_flow4 H) rs T1 = Some T'"
    by (auto split: option.splits)
  then obtain h i where h: "hash_add_key H (em_h4 T) (convert_ipv4_5tuple key) = Some (h, i)"
    and T1': "T1 = T\<lparr>em_h4 := h, ipv4_l3fwd_out_if := (ipv4_l3fwd_out_if T)(i := p)\<rparr>"
    by (auto simp: r add_flow4_def split: option.splits if_splits)
  have "represents H (em_h4 T1) (ipv4_l3fwd_out_if T1) (m(convert_ipv4_5tuple key \<mapsto> p))"
    using represents_add [OF assms h Cons.prems(2)] by (simp add: T1')
  from Cons.IH [OF T1(2) this] show ?case by (simp add: r T1')
qed simp

lemma fold_add_flow6:
  assumes "hash_laws H"
  shows "fold_option (add_flow6 H) rs T = Some T' \<Longrightarrow> represents H (em_h6 T) (ipv6_l3fwd_out_if T) m \<Longrightarrow>
    represents H (em_h6 T') (ipv6_l3fwd_out_if T') (fold (\<lambda>(k, p) m. m(convert_ipv6_5tuple k \<mapsto> p)) rs m)
    \<and> em_h4 T' = em_h4 T \<and> ipv4_l3fwd_out_if T' = ipv4_l3fwd_out_if T
    \<and> mask0 T' = mask0 T \<and> mask1 T' = mask1 T \<and> mask2 T' = mask2 T"
proof (induction rs arbitrary: T m)
  case (Cons r rs)
  obtain key p where r: "r = (key, p)" by fastforce
  from Cons.prems(1) obtain T1 where T1: "add_flow6 H r T = Some T1" "fold_option (add_flow6 H) rs T1 = Some T'"
    by (auto split: option.splits)
  then obtain h i where h: "hash_add_key H (em_h6 T) (convert_ipv6_5tuple key) = Some (h, i)"
    and T1': "T1 = T\<lparr>em_h6 := h, ipv6_l3fwd_out_if := (ipv6_l3fwd_out_if T)(i := p)\<rparr>"
    by (auto simp: r add_flow6_def split: option.splits if_splits)
  have "represents H (em_h6 T1) (ipv6_l3fwd_out_if T1) (m(convert_ipv6_5tuple key \<mapsto> p))"
    using represents_add [OF assms h Cons.prems(2)] by (simp add: T1')
  from Cons.IH [OF T1(2) this] show ?case by (simp add: r T1')
qed simp

lemma map_of_inj_keys:
  "\<forall>r\<in>set rs. f (fst r) = f k \<longrightarrow> fst r = k \<Longrightarrow> map_of (map (apfst f) rs) (f k) = map_of rs k"
  by (induction rs) auto

text \<open>The abstract tables: the configured flows with their ports, the last entry for a flow first.\<close>

definition flows4 :: "(u8 \<Rightarrow> u8 \<Rightarrow> u8 \<Rightarrow> u8 \<Rightarrow> u32) \<Rightarrow> u32 \<Rightarrow> int \<Rightarrow> (ipv4_5tuple \<times> u8) list" where
  "flows4 ip4 n ipv6 =
     (if ipv6 \<noteq> 0 then [] else if n = HASH_ENTRY_NUMBER_DEFAULT then ipv4_l3fwd_em_route_array ip4
      else map (many_flow4 ip4) [0..<unat n])"

definition flows6 :: "u32 \<Rightarrow> int \<Rightarrow> (ipv6_5tuple \<times> u8) list" where
  "flows6 n ipv6 =
     (if ipv6 = 0 then [] else if n = HASH_ENTRY_NUMBER_DEFAULT then ipv6_l3fwd_em_route_array
      else map many_flow6 [0..<unat n])"

lemma fold_option_map: "fold_option (\<lambda>x. f (g x)) xs s = fold_option f (map g xs) s"
  by (induction xs arbitrary: s) (simp_all split: option.split)

lemma setup_hash_cases:
  assumes "setup_hash H crc ip4 n ipv6 T = Some T'"
  obtains h4 h6 T0 where "hash_create H L3FWD_HASH_ENTRIES (ipv4_hash_crc crc) = Some h4" "hash_create H L3FWD_HASH_ENTRIES (ipv6_hash_crc crc) = Some h6"
    and "T0 = T\<lparr>em_h4 := h4, em_h6 := h6\<rparr>"
    and "ipv6 = 0 \<and> fold_option (add_flow4 H) (flows4 ip4 n ipv6) (set_mask4 T0) = Some T'
      \<or> ipv6 \<noteq> 0 \<and> fold_option (add_flow6 H) (flows6 n ipv6) (set_masks6 T0) = Some T'"
  using assms
  by (auto simp: setup_hash_def Let_def flows4_def flows6_def populate_ipv4_few_flow_into_table_def
      populate_ipv6_few_flow_into_table_def populate_ipv4_many_flow_into_table_def
      populate_ipv6_many_flow_into_table_def fold_option_map split: option.splits if_splits)

lemma wf_routes6: "\<forall>r\<in>set (flows6 n ipv6). wf_flow6 (fst r)"
proof -
  have a: "\<forall>r\<in>set ipv6_l3fwd_em_route_array. wf_flow6 (fst r)"
    by (simp add: ipv6_l3fwd_em_route_array_def wf_flow6_def v6_dst_def v6_src_def)
  moreover have "wf_flow6 (fst (many_flow6 i))" for i
  proof -
    have "ipv6_l3fwd_em_route_array ! (i mod 4) \<in> set ipv6_l3fwd_em_route_array"
      by (rule nth_mem) (simp add: ipv6_l3fwd_em_route_array_def)
    with a have "wf_flow6 (fst (ipv6_l3fwd_em_route_array ! (i mod 4)))" by blast
    then show ?thesis
      by (simp add: many_flow6_def wf_flow6_def NUMBER_PORT_USED_def case_prod_beta Let_def)
  qed
  ultimately show ?thesis by (auto simp: flows6_def)
qed

lemma setup_hash_lookup:
  assumes L: "hash_laws H" and S: "setup_hash H crc ip4 n ipv6 T = Some T'"
  shows "24 \<le> length ip \<Longrightarrow> em_get_ipv4_dst_port H junk T' ip portid =
      (case map_of (rev (flows4 ip4 n ipv6)) (flow4 ip) of None \<Rightarrow> portid | Some p \<Rightarrow> p)"
    and "44 \<le> length ip \<Longrightarrow> em_get_ipv6_dst_port H junk T' ip portid =
      (case map_of (rev (flows6 n ipv6)) (flow6 ip) of None \<Rightarrow> portid | Some p \<Rightarrow> p)"
proof -
  obtain h4 h6 T0 where c: "hash_create H L3FWD_HASH_ENTRIES (ipv4_hash_crc crc) = Some h4" "hash_create H L3FWD_HASH_ENTRIES (ipv6_hash_crc crc) = Some h6"
    and T0: "T0 = T\<lparr>em_h4 := h4, em_h6 := h6\<rparr>"
    and f: "ipv6 = 0 \<and> fold_option (add_flow4 H) (flows4 ip4 n ipv6) (set_mask4 T0) = Some T'
      \<or> ipv6 \<noteq> 0 \<and> fold_option (add_flow6 H) (flows6 n ipv6) (set_masks6 T0) = Some T'"
    using setup_hash_cases [OF S] .
  have empty: "represents H (em_h4 T0) out Map.empty" "represents H (em_h6 T0) out Map.empty" for out
    using represents_create [OF L] c by (simp_all add: T0)
  have l4: "em_get_ipv4_dst_port H junk T' ip portid = (case m (ipv4_key junk T' ip) of None \<Rightarrow> portid | Some p \<Rightarrow> p)"
    if "represents H (em_h4 T') (ipv4_l3fwd_out_if T') m" for m
    using that [unfolded represents_def, rule_format, of "ipv4_key junk T' ip", symmetric]
    by (auto simp: em_get_ipv4_dst_port_def split: option.split)
  have l6: "em_get_ipv6_dst_port H junk T' ip portid = (case m (ipv6_key junk T' ip) of None \<Rightarrow> portid | Some p \<Rightarrow> p)"
    if "represents H (em_h6 T') (ipv6_l3fwd_out_if T') m" for m
    using that [unfolded represents_def, rule_format, of "ipv6_key junk T' ip", symmetric]
    by (auto simp: em_get_ipv6_dst_port_def split: option.split)
  show "em_get_ipv4_dst_port H junk T' ip portid =
      (case map_of (rev (flows4 ip4 n ipv6)) (flow4 ip) of None \<Rightarrow> portid | Some p \<Rightarrow> p)" if "24 \<le> length ip"
  proof (cases "ipv6 = 0")
    case True
    then have "fold_option (add_flow4 H) (flows4 ip4 n ipv6) (set_mask4 T0) = Some T'" using f by simp
    from fold_add_flow4 [OF L this, of Map.empty] empty(1) have
      r: "represents H (em_h4 T') (ipv4_l3fwd_out_if T') (map_of (rev (map (apfst convert_ipv4_5tuple) (flows4 ip4 n ipv6))))"
      and m: "mask0 T' = mask0 (set_mask4 T0)"
      by (simp_all add: fold_map_upd set_mask4_def)
    from m have "ipv4_key junk T' ip = convert_ipv4_5tuple (flow4 ip)"
      using that by (intro ipv4_key_flow) (simp_all add: set_mask4_def)
    moreover have "map_of (map (apfst convert_ipv4_5tuple) (rev (flows4 ip4 n ipv6))) (convert_ipv4_5tuple (flow4 ip)) =
        map_of (rev (flows4 ip4 n ipv6)) (flow4 ip)"
      by (rule map_of_inj_keys) (simp add: convert_ipv4_inject)
    ultimately show ?thesis using l4 [OF r] by (simp add: rev_map)
  next
    case False
    then have "fold_option (add_flow6 H) (flows6 n ipv6) (set_masks6 T0) = Some T'" using f by simp
    from fold_add_flow6 [OF L this, of Map.empty] empty(2) have "em_h4 T' = em_h4 T0"
      by (simp add: set_masks6_def)
    then show ?thesis using l4 [of Map.empty] empty(1) False by (simp add: flows4_def)
  qed
  show "em_get_ipv6_dst_port H junk T' ip portid =
      (case map_of (rev (flows6 n ipv6)) (flow6 ip) of None \<Rightarrow> portid | Some p \<Rightarrow> p)" if l: "44 \<le> length ip"
  proof (cases "ipv6 = 0")
    case True
    then have "fold_option (add_flow4 H) (flows4 ip4 n ipv6) (set_mask4 T0) = Some T'" using f by simp
    from fold_add_flow4 [OF L this, of Map.empty] empty(1) have "em_h6 T' = em_h6 T0"
      by (simp add: set_mask4_def)
    then show ?thesis using l6 [of Map.empty] empty(2) True by (simp add: flows6_def)
  next
    case False
    then have "fold_option (add_flow6 H) (flows6 n ipv6) (set_masks6 T0) = Some T'" using f by simp
    from fold_add_flow6 [OF L this, of Map.empty] empty(2) have
      r: "represents H (em_h6 T') (ipv6_l3fwd_out_if T') (map_of (rev (map (apfst convert_ipv6_5tuple) (flows6 n ipv6))))"
      and m: "mask1 T' = mask1 (set_masks6 T0)" "mask2 T' = mask2 (set_masks6 T0)"
      by (simp_all add: fold_map_upd set_masks6_def)
    from m have "ipv6_key junk T' ip = convert_ipv6_5tuple (flow6 ip)"
      using l by (intro ipv6_key_flow) (simp_all add: set_masks6_def)
    moreover have "wf_flow6 (flow6 ip)" using l by (simp add: wf_flow6_def flow6_def)
    then have "map_of (map (apfst convert_ipv6_5tuple) (rev (flows6 n ipv6))) (convert_ipv6_5tuple (flow6 ip)) =
        map_of (rev (flows6 n ipv6)) (flow6 ip)"
      using wf_routes6 [of n ipv6] by (intro map_of_inj_keys) (simp add: convert_ipv6_inject)
    ultimately show ?thesis using l6 [OF r] by (simp add: rev_map)
  qed
qed

section \<open>The capacity of the tables\<close>

text \<open>The positions of the keys lie inside the arrays, and different keys have different ones.\<close>

definition positions_ok :: "'h hash_lib \<Rightarrow> 'h \<Rightarrow> bool" where
  "positions_ok H h \<longleftrightarrow> (\<forall>k i. hash_lookup H h k = Some i \<longrightarrow>
     i < L3FWD_HASH_ENTRIES \<and> (\<forall>k'. hash_lookup H h k' = Some i \<longrightarrow> k' = k))"

lemma positions_create: "hash_laws H \<Longrightarrow> hash_create H n f = Some h \<Longrightarrow> positions_ok H h"
  by (simp add: positions_ok_def hash_laws_def)

lemma positions_add:
  assumes "hash_laws H" and "hash_add_key H h k = Some (h', i)" and "i < L3FWD_HASH_ENTRIES" and "positions_ok H h"
  shows "positions_ok H h'"
proof -
  have "hash_lookup H h' = (hash_lookup H h)(k := Some i)" "\<And>k'. k' \<noteq> k \<Longrightarrow> hash_lookup H h k' \<noteq> Some i"
    using assms(1,2) by (auto simp: hash_laws_def)
  then show ?thesis using assms(3,4) by (auto simp: positions_ok_def)
qed

lemma add_flow_positions:
  assumes "hash_laws H"
  shows "add_flow4 H r T = Some T' \<Longrightarrow> positions_ok H (em_h4 T) \<Longrightarrow> positions_ok H (em_h4 T')"
    and "add_flow6 H q T = Some T' \<Longrightarrow> positions_ok H (em_h6 T) \<Longrightarrow> positions_ok H (em_h6 T')"
  by (auto simp: add_flow4_def add_flow6_def case_prod_beta not_le split: option.splits if_splits
      intro: positions_add [OF assms])

lemma fold_add_positions:
  assumes "hash_laws H"
  shows "fold_option (add_flow4 H) rs T = Some T' \<Longrightarrow> positions_ok H (em_h4 T) \<Longrightarrow> positions_ok H (em_h4 T')"
    and "fold_option (add_flow6 H) qs T = Some T' \<Longrightarrow> positions_ok H (em_h6 T) \<Longrightarrow> positions_ok H (em_h6 T')"
  by (induction rs arbitrary: T) (auto split: option.splits dest: add_flow_positions(1) [OF assms],
    induction qs arbitrary: T, auto split: option.splits dest: add_flow_positions(2) [OF assms])

text \<open>A table holds no more keys than its array has elements.\<close>

lemma positions_card:
  assumes "positions_ok H h" and "\<And>k. k \<in> K \<Longrightarrow> hash_lookup H h k \<noteq> None"
  shows "card K \<le> L3FWD_HASH_ENTRIES"
proof -
  have "inj_on (\<lambda>k. the (hash_lookup H h k)) K"
  proof (rule inj_onI)
    fix k k' assume k: "k \<in> K" "k' \<in> K" and e: "the (hash_lookup H h k) = the (hash_lookup H h k')"
    obtain i where "hash_lookup H h k = Some i" using assms(2) [OF k(1)] by blast
    moreover obtain j where "hash_lookup H h k' = Some j" using assms(2) [OF k(2)] by blast
    ultimately show "k = k'" using assms(1) e unfolding positions_ok_def by auto
  qed
  moreover have "(\<lambda>k. the (hash_lookup H h k)) ` K \<subseteq> {..<L3FWD_HASH_ENTRIES}"
  proof (rule image_subsetI)
    fix k assume "k \<in> K"
    then obtain i where "hash_lookup H h k = Some i" using assms(2) by blast
    then show "the (hash_lookup H h k) \<in> {..<L3FWD_HASH_ENTRIES}" using assms(1) unfolding positions_ok_def by auto
  qed
  ultimately show ?thesis using card_inj_on_le [of _ K "{..<L3FWD_HASH_ENTRIES}"] by fastforce
qed

lemma represents_keys: "represents H h out m \<Longrightarrow> m k \<noteq> None \<Longrightarrow> hash_lookup H h k \<noteq> None"
  unfolding represents_def by (metis option.map_disc_iff)

lemma setup_hash_tables:
  assumes "hash_laws H" and "setup_hash H crc ip4 n ipv6 T = Some T'"
  shows "positions_ok H (em_h4 T')" and "positions_ok H (em_h6 T')"
    and "r \<in> set (flows4 ip4 n ipv6) \<Longrightarrow> hash_lookup H (em_h4 T') (convert_ipv4_5tuple (fst r)) \<noteq> None"
    and "q \<in> set (flows6 n ipv6) \<Longrightarrow> hash_lookup H (em_h6 T') (convert_ipv6_5tuple (fst q)) \<noteq> None"
proof -
  obtain h4 h6 T0 where c: "hash_create H L3FWD_HASH_ENTRIES (ipv4_hash_crc crc) = Some h4"
      "hash_create H L3FWD_HASH_ENTRIES (ipv6_hash_crc crc) = Some h6"
    and T0: "T0 = T\<lparr>em_h4 := h4, em_h6 := h6\<rparr>"
    and f: "ipv6 = 0 \<and> fold_option (add_flow4 H) (flows4 ip4 n ipv6) (set_mask4 T0) = Some T'
      \<or> ipv6 \<noteq> 0 \<and> fold_option (add_flow6 H) (flows6 n ipv6) (set_masks6 T0) = Some T'"
    using setup_hash_cases [OF assms(2)] .
  let ?T4 = "set_mask4 T0" and ?T6 = "set_masks6 T0"
  have e: "positions_ok H (em_h4 ?T4)" "positions_ok H (em_h6 ?T4)" "positions_ok H (em_h4 ?T6)" "positions_ok H (em_h6 ?T6)"
    using positions_create [OF assms(1)] c by (simp_all add: T0 set_mask4_def set_masks6_def)
  have r: "represents H (em_h4 ?T4) out Map.empty" "represents H (em_h6 ?T6) out Map.empty" for out
    using represents_create [OF assms(1)] c by (simp_all add: T0 set_mask4_def set_masks6_def)
  have k: "fold (\<lambda>(k, p) m. m(g k \<mapsto> p)) rs Map.empty (g (fst r)) \<noteq> None" if "r \<in> set rs"
    for g :: "'x \<Rightarrow> bytes" and rs :: "('x \<times> u8) list" and r
  proof -
    have "g (fst r) \<in> fst ` set (rev (map (apfst g) rs))" using that by force
    then show ?thesis unfolding fold_map_upd empty_map_add by (simp add: map_of_eq_None_iff)
  qed
  show "positions_ok H (em_h4 T')" "positions_ok H (em_h6 T')"
    using f e fold_add_positions [OF assms(1)] fold_add_flow4 [OF assms(1) _ r(1)] fold_add_flow6 [OF assms(1) _ r(2)] by metis+
  show "hash_lookup H (em_h4 T') (convert_ipv4_5tuple (fst r)) \<noteq> None" if r4: "r \<in> set (flows4 ip4 n ipv6)"
  proof -
    have "ipv6 = 0" using r4 by (simp add: flows4_def split: if_splits)
    then have "fold_option (add_flow4 H) (flows4 ip4 n ipv6) (set_mask4 T0) = Some T'" using f by simp
    from represents_keys [OF conjunct1 [OF fold_add_flow4 [OF assms(1) this r(1)]] k [OF r4]] show ?thesis .
  qed
  show "hash_lookup H (em_h6 T') (convert_ipv6_5tuple (fst q)) \<noteq> None" if q6: "q \<in> set (flows6 n ipv6)"
  proof -
    have "ipv6 \<noteq> 0" using q6 by (simp add: flows6_def split: if_splits)
    then have "fold_option (add_flow6 H) (flows6 n ipv6) (set_masks6 T0) = Some T'" using f by simp
    from represents_keys [OF conjunct1 [OF fold_add_flow6 [OF assms(1) this r(2)]] k [OF q6]] show ?thesis .
  qed
qed

section \<open>The generated flows\<close>

lemma of_nat_u8_eq: "(of_nat x :: u8) = of_nat y \<longleftrightarrow> x mod 256 = y mod 256"
  by (simp add: word_unat_eq_iff unsigned_of_nat take_bit_eq_mod)

lemma flow_bytes_inject:
  assumes "i < 2 ^ 26" and "j < 2 ^ 26" and m: "i mod 4 = j mod 4" and "flow_bytes i = flow_bytes j"
  shows "i = j"
proof -
  define x y where "x = i div 4" and "y = j div 4"
  have e: "x mod 256 = y mod 256" "x div 256 mod 256 = y div 256 mod 256" "x div 65536 mod 256 = y div 65536 mod 256"
    using assms(4) by (simp_all add: flow_bytes_def of_nat_u8_eq NUMBER_PORT_USED_def BYTE_VALUE_MAX_def x_def y_def)
  have "x div 65536 < 256" "y div 65536 < 256" using assms(1,2) by (simp_all add: x_def y_def)
  then have h: "x div 65536 = y div 65536" using e(3) by simp
  have "z = z mod 256 + 256 * (z div 256 mod 256 + 256 * (z div 65536))" for z :: nat
    using div_mult2_eq [of z 256 256] mod_mult_div_eq [of "z div 256" 256] mod_mult_div_eq [of z 256] by simp
  then have "x = y" using e(1,2) h by metis
  then show ?thesis using m unfolding x_def y_def by (metis div_mult_mod_eq)
qed

lemma routes_dst_byte:
  assumes "ip4_law ip4" and "i < 4" and "j < 4"
    and "ip4 ([101, 201, 111, 211] ! i) c b a = ip4 ([101, 201, 111, 211] ! j) c' b' a'"
  shows "i = j \<and> (a, b, c) = (a', b', c')"
proof -
  have "[101, 201, 111, 211 :: u8] ! i = [101, 201, 111, 211] ! j" "(a, b, c) = (a', b', c')"
    using assms(1,4) by (auto simp: ip4_law_def)
  moreover have "distinct [101, 201, 111, 211 :: u8]" by simp
  ultimately show ?thesis using assms(2,3) by (simp add: nth_eq_iff_index_eq)
qed

lemma ip_dst_many4: "ip_dst (fst (many_flow4 ip4 i)) =
    (case flow_bytes i of (a, b, c) \<Rightarrow> ip4 ([101, 201, 111, 211] ! (i mod 4)) c b a)"
  by (simp add: many_flow4_def NUMBER_PORT_USED_def case_prod_beta Let_def)

lemma many_flow4_inject:
  assumes "ip4_law ip4" and "i < 2 ^ 26" and "j < 2 ^ 26" and "fst (many_flow4 ip4 i) = fst (many_flow4 ip4 j)"
  shows "i = j"
proof -
  obtain a b c a' b' c' where f: "flow_bytes i = (a, b, c)" "flow_bytes j = (a', b', c')" by (metis prod_cases3)
  have "ip_dst (fst (many_flow4 ip4 i)) = ip_dst (fst (many_flow4 ip4 j))" using assms(4) by simp
  then have "i mod 4 = j mod 4 \<and> (a, b, c) = (a', b', c')"
    unfolding ip_dst_many4 f prod.case by (intro routes_dst_byte [OF assms(1)]) simp_all
  then show ?thesis using flow_bytes_inject [OF assms(2,3)] f by simp
qed

lemma less_4_cases: "n < 4 \<Longrightarrow> n = 0 \<or> n = 1 \<or> n = 2 \<or> n = (3 :: nat)"
  by auto

lemma snd_many_flow: "snd (many_flow4 ip4 i) = of_nat (i mod 4)" "snd (many_flow6 i) = of_nat (i mod 4)"
  using less_4_cases [of "i mod 4"]
  by (auto simp: many_flow4_def many_flow6_def NUMBER_PORT_USED_def ipv4_l3fwd_em_route_array_def
      ipv6_l3fwd_em_route_array_def case_prod_beta Let_def)

lemma ip_dst6_many6: "ip_dst6 (fst (many_flow6 i)) =
    (case flow_bytes i of (a, b, c) \<Rightarrow> (v6_dst ([0x80, 0x90, 0xa0, 0xb0] ! (i mod 4)))[13 := c, 14 := b, 15 := a])"
  using less_4_cases [of "i mod 4"]
  by (auto simp: many_flow6_def NUMBER_PORT_USED_def ipv6_l3fwd_em_route_array_def case_prod_beta Let_def)

lemma many_flow6_inject:
  assumes "i < 2 ^ 26" and "j < 2 ^ 26" and "fst (many_flow6 i) = fst (many_flow6 j)"
  shows "i = j"
proof -
  obtain a b c a' b' c' where f: "flow_bytes i = (a, b, c)" "flow_bytes j = (a', b', c')" by (metis prod_cases3)
  have e: "ip_dst6 (fst (many_flow6 i)) = ip_dst6 (fst (many_flow6 j))" using assms(3) by simp
  then have "[0x80, 0x90, 0xa0, 0xb0 :: u8] ! (i mod 4) = [0x80, 0x90, 0xa0, 0xb0] ! (j mod 4)" "(a, b, c) = (a', b', c')"
    unfolding ip_dst6_many6 f prod.case by (simp_all add: v6_dst_def)
  moreover have "distinct [0x80, 0x90, 0xa0, 0xb0 :: u8]" by simp
  ultimately have "i mod 4 = j mod 4" by (simp add: nth_eq_iff_index_eq)
  then show ?thesis using flow_bytes_inject [OF assms(1,2)] f \<open>(a, b, c) = (a', b', c')\<close> by simp
qed

lemma setup_hash_capacity:
  assumes "hash_laws H" and "setup_hash H crc ip4 n ipv6 T = Some T'" and "n \<noteq> HASH_ENTRY_NUMBER_DEFAULT" and "ip4_law ip4"
  shows "unat n \<le> L3FWD_HASH_ENTRIES"
proof -
  note t = setup_hash_tables [OF assms(1,2)]
  let ?m = "min (unat n) (2 ^ 26)"
  have "?m \<le> L3FWD_HASH_ENTRIES"
  proof (cases "ipv6 = 0")
    case True
    let ?K = "(\<lambda>i. convert_ipv4_5tuple (fst (many_flow4 ip4 i))) ` {..<?m}"
    have "card ?K = ?m"
      using many_flow4_inject [OF assms(4)] by (subst card_image) (auto simp: inj_on_def convert_ipv4_inject)
    moreover have "card ?K \<le> L3FWD_HASH_ENTRIES"
      by (rule positions_card [OF t(1)], erule imageE, simp only:, rule t(3)) (use True assms(3) in \<open>simp add: flows4_def\<close>)
    ultimately show ?thesis by simp
  next
    case False
    let ?K = "(\<lambda>i. convert_ipv6_5tuple (fst (many_flow6 i))) ` {..<?m}"
    have "wf_flow6 (fst (many_flow6 i))" if "i < ?m" for i
      using wf_routes6 [of n ipv6] that False assms(3) by (simp add: flows6_def)
    then have "card ?K = ?m"
      using many_flow6_inject by (subst card_image) (auto simp: inj_on_def convert_ipv6_inject)
    moreover have "card ?K \<le> L3FWD_HASH_ENTRIES"
      by (rule positions_card [OF t(2)], erule imageE, simp only:, rule t(4)) (use False assms(3) in \<open>simp add: flows6_def\<close>)
    ultimately show ?thesis by simp
  qed
  then show ?thesis by (simp add: L3FWD_HASH_ENTRIES_def min_def split: if_splits)
qed

lemma map_of_rev_map:
  assumes "\<And>i j. i < n \<Longrightarrow> j < n \<Longrightarrow> fst (f i) = fst (f j) \<Longrightarrow> i = j" and "i < n"
  shows "map_of (rev (map f [0..<n])) (fst (f i)) = Some (snd (f i))"
proof -
  have "inj_on (fst \<circ> f) {..<n}" using assms(1) by (auto simp: inj_on_def)
  then have "distinct (map fst (rev (map f [0..<n])))"
    by (simp add: rev_map [symmetric] distinct_map atLeast_upt [symmetric] lessThan_atLeast0)
  moreover have "(fst (f i), snd (f i)) \<in> set (rev (map f [0..<n]))" using assms(2) by simp
  ultimately show ?thesis by simp
qed

section \<open>Properties\<close>

text \<open>C10: Exact match is a lookup of the five-tuple: after \<^verbatim>\<open>setup_hash\<close> the port of a packet,
  found with masked vector loads in a hash of byte strings and an array indexed by its positions,
  is the port configured for the addresses, ports and protocol in the header, or the port the
  packet came from; the table of the other IP version answers nothing.  What lies behind the
  packet has no influence.\<close>

theorem setup_hash_refines:
  assumes "hash_laws H" and "setup_hash H crc ip4 n ipv6 T = Some T'"
  shows "(24 \<le> length ip \<longrightarrow> em_get_ipv4_dst_port H junk T' ip portid =
      (case map_of (rev (flows4 ip4 n ipv6)) (flow4 ip) of None \<Rightarrow> portid | Some p \<Rightarrow> p))
    \<and> (44 \<le> length ip \<longrightarrow> em_get_ipv6_dst_port H junk T' ip portid =
      (case map_of (rev (flows6 n ipv6)) (flow6 ip) of None \<Rightarrow> portid | Some p \<Rightarrow> p))"
  using setup_hash_lookup [OF assms, of ip junk portid] by blast

text \<open>A hash that keeps the laws: the list of the keys; the position of a key is its index, and the
  number of keys is limited.\<close>

definition key_index :: "bytes list \<Rightarrow> bytes \<Rightarrow> nat option" where
  "key_index h k = (if k \<in> set h then Some (length (takeWhile (\<lambda>x. x \<noteq> k) h)) else None)"

definition sample_hash :: "bytes list hash_lib" where
  "sample_hash = \<lparr>hash_create = (\<lambda>n f. Some []),
     hash_add_key = (\<lambda>h k. case key_index h k of Some i \<Rightarrow> Some (h, i)
       | None \<Rightarrow> if length h < 1024 then Some (h @ [k], length h) else None),
     hash_lookup = key_index, hash_lookup_bulk = (\<lambda>h. map (key_index h))\<rparr>"

lemma key_index_nth: "key_index h k = Some i \<Longrightarrow> i < length h \<and> h ! i = k"
proof -
  assume a: "key_index h k = Some i"
  then have i: "i = length (takeWhile (\<lambda>x. x \<noteq> k) h)" and k: "k \<in> set h" by (auto simp: key_index_def split: if_splits)
  have "k \<in> set xs \<Longrightarrow> length (takeWhile (\<lambda>x. x \<noteq> k) xs) < length xs" for xs by (induction xs) auto
  with i k have "i < length h" by simp
  moreover have "h ! i = k" using nth_length_takeWhile [of "\<lambda>x. x \<noteq> k" h] i \<open>i < length h\<close> by blast
  ultimately show ?thesis by blast
qed

lemma key_index_append: "key_index (h @ [k]) k' = (if k' \<in> set h then key_index h k' else if k' = k then Some (length h) else None)"
  by (auto simp: key_index_def takeWhile_append)

lemma sample_hash_laws: "hash_laws sample_hash"
proof -
  have "hash_lookup sample_hash h' = (hash_lookup sample_hash h)(k := Some i) \<and> (\<forall>k'. k' \<noteq> k \<longrightarrow> hash_lookup sample_hash h k' \<noteq> Some i)"
    if add: "hash_add_key sample_hash h k = Some (h', i)" for h k h' i
  proof (cases "key_index h k")
    case None
    then have r: "h' = h @ [k]" "i = length h" using add by (simp_all add: sample_hash_def split: if_splits)
    have "k \<notin> set h" using None by (auto simp: key_index_def split: if_splits)
    then have "key_index (h @ [k]) = (key_index h)(k := Some (length h))"
      by (intro ext) (simp add: key_index_append, simp add: key_index_def)
    moreover have "key_index h k' \<noteq> Some (length h)" for k' using key_index_nth [of h k' "length h"] by auto
    ultimately show ?thesis by (simp add: r sample_hash_def)
  next
    case (Some j)
    then have r: "h' = h" "i = j" using add by (simp_all add: sample_hash_def)
    have "(key_index h)(k := Some j) = key_index h" using Some by (rule fun_upd_idem)
    moreover have "key_index h k' \<noteq> Some j" if "k' \<noteq> k" for k'
      using key_index_nth [of h k' j] key_index_nth [OF Some] that by auto
    ultimately show ?thesis by (simp add: r sample_hash_def)
  qed
  moreover have "hash_create sample_hash n f = Some h \<longrightarrow> hash_lookup sample_hash h k = None" for n f h k
    by (auto simp: sample_hash_def key_index_def)
  moreover have "hash_lookup_bulk sample_hash h ks = map (hash_lookup sample_hash h) ks" for h ks
    by (simp add: sample_hash_def)
  ultimately show ?thesis unfolding hash_laws_def by blast
qed

definition blank_tables :: "bytes list em_tables" where
  "blank_tables = \<lparr>em_h4 = [], em_h6 = [], ipv4_l3fwd_out_if = (\<lambda>i. 0), ipv6_l3fwd_out_if = (\<lambda>i. 0),
     mask0 = replicate 16 0, mask1 = replicate 16 0, mask2 = replicate 16 0\<rparr>"

text \<open>An IPv4 header and the ports of the third configured flow.\<close>

definition sample_ip :: bytes where
  "sample_ip = [0x45, 0, 0, 40, 7, 7, 0, 0, 64, 6, 9, 9] @ [100, 30, 0, 1] @ [111, 0, 0, 0] @ [0, 11] @ [0, 101]"

lemma sample_add_key:
  assumes "length h < 1024"
  shows "\<exists>h' i. hash_add_key sample_hash h k = Some (h', i) \<and> length h' \<le> Suc (length h) \<and> i < L3FWD_HASH_ENTRIES"
proof (cases "key_index h k")
  case (Some i)
  then show ?thesis using key_index_nth [OF Some] assms by (simp add: sample_hash_def L3FWD_HASH_ENTRIES_def)
qed (use assms in \<open>simp add: sample_hash_def L3FWD_HASH_ENTRIES_def\<close>)

lemma sample_hash_total4:
  "length (em_h4 T) + length rs \<le> 1024 \<Longrightarrow> \<exists>T'. fold_option (add_flow4 sample_hash) rs T = Some T'"
proof (induction rs arbitrary: T)
  case (Cons r rs)
  have "length (em_h4 T) < 1024" using Cons.prems by simp
  from sample_add_key [OF this, of "convert_ipv4_5tuple (fst r)"] obtain h i where
    h: "hash_add_key sample_hash (em_h4 T) (convert_ipv4_5tuple (fst r)) = Some (h, i)" "length h \<le> Suc (length (em_h4 T))"
    "i < L3FWD_HASH_ENTRIES" by blast
  then show ?case
    using Cons.IH [of "T\<lparr>em_h4 := h, ipv4_l3fwd_out_if := (ipv4_l3fwd_out_if T)(i := snd r)\<rparr>"] Cons.prems
    by (simp add: add_flow4_def case_prod_beta)
qed simp

lemma sample_hash_total6:
  "length (em_h6 T) + length rs \<le> 1024 \<Longrightarrow> \<exists>T'. fold_option (add_flow6 sample_hash) rs T = Some T'"
proof (induction rs arbitrary: T)
  case (Cons r rs)
  have "length (em_h6 T) < 1024" using Cons.prems by simp
  from sample_add_key [OF this, of "convert_ipv6_5tuple (fst r)"] obtain h i where
    h: "hash_add_key sample_hash (em_h6 T) (convert_ipv6_5tuple (fst r)) = Some (h, i)" "length h \<le> Suc (length (em_h6 T))"
    "i < L3FWD_HASH_ENTRIES" by blast
  then show ?case
    using Cons.IH [of "T\<lparr>em_h6 := h, ipv6_l3fwd_out_if := (ipv6_l3fwd_out_if T)(i := snd r)\<rparr>"] Cons.prems
    by (simp add: add_flow6_def case_prod_beta)
qed simp

lemma sample_setup_hash:
  assumes "unat n \<le> 1024"
  shows "\<exists>T'. setup_hash sample_hash crc ip4 n ipv6 blank_tables = Some T'"
proof -
  have "hash_create sample_hash m f = Some []" for m f by (simp add: sample_hash_def)
  moreover have "length (ipv4_l3fwd_em_route_array ip4) \<le> 1024" "length ipv6_l3fwd_em_route_array \<le> 1024"
    by (simp_all add: ipv4_l3fwd_em_route_array_def ipv6_l3fwd_em_route_array_def)
  ultimately show ?thesis using assms
    by (simp add: setup_hash_def populate_ipv4_few_flow_into_table_def populate_ipv6_few_flow_into_table_def
        populate_ipv4_many_flow_into_table_def populate_ipv6_many_flow_into_table_def fold_option_map sample_hash_total4 sample_hash_total6
        set_mask4_def set_masks6_def Let_def)
qed

theorem setup_hash_refines_witness:
  "\<exists>T'. setup_hash sample_hash (\<lambda>a b. a XOR b) sample_ip4 4 0 blank_tables = Some T'
    \<and> em_get_ipv4_dst_port sample_hash (\<lambda>i. 9) T' sample_ip 7 = 2"
proof -
  obtain T' where T': "setup_hash sample_hash (\<lambda>a b. a XOR b) sample_ip4 4 0 blank_tables = Some T'"
    using sample_setup_hash [of 4 "\<lambda>a b. a XOR b" sample_ip4 0] by auto
  have "map_of (rev (flows4 sample_ip4 4 0)) (flow4 sample_ip) = Some 2" "24 \<le> length sample_ip" by code_simp+
  with setup_hash_refines [OF sample_hash_laws T', of sample_ip "\<lambda>i. 9" 7] T' show ?thesis by simp
qed

text \<open>C28: The generated flows fit the tables and do not collide.  The hash and the arrays of ports have 1024 entries:
  when the tables are filled without an error and without a write behind an array, at most 1024 flows were
  asked for, every position a lookup can answer lies inside the arrays, and every flow \<open>i\<close>, for
  either version of IP, is forwarded to its port \<open>i mod 4\<close>.\<close>

theorem many_flows_forwarded:
  assumes "hash_laws H" and "setup_hash H crc ip4 n ipv6 T = Some T'" and "n \<noteq> HASH_ENTRY_NUMBER_DEFAULT"
    and "ip4_law ip4"
  shows "unat n \<le> L3FWD_HASH_ENTRIES
    \<and> (\<forall>k j. hash_lookup H (em_h4 T') k = Some j \<or> hash_lookup H (em_h6 T') k = Some j \<longrightarrow> j < L3FWD_HASH_ENTRIES)
    \<and> (\<forall>i<unat n.
        (ipv6 = 0 \<and> 24 \<le> length ip \<and> flow4 ip = fst (many_flow4 ip4 i) \<longrightarrow>
          em_get_ipv4_dst_port H junk T' ip portid = of_nat (i mod 4))
      \<and> (ipv6 \<noteq> 0 \<and> 44 \<le> length ip \<and> flow6 ip = fst (many_flow6 i) \<longrightarrow>
          em_get_ipv6_dst_port H junk T' ip portid = of_nat (i mod 4)))"
proof -
  have n: "unat n \<le> L3FWD_HASH_ENTRIES" by (rule setup_hash_capacity [OF assms])
  have lt: "i < 2 ^ 26" if "i < unat n" for i using that n by (simp add: L3FWD_HASH_ENTRIES_def)
  have m4: "map_of (rev (map (many_flow4 ip4) [0..<unat n])) (fst (many_flow4 ip4 i)) = Some (of_nat (i mod 4))" if "i < unat n" for i
    unfolding snd_many_flow(1) [symmetric, of i ip4] using that lt many_flow4_inject [OF assms(4)]
    by (intro map_of_rev_map) auto
  have m6: "map_of (rev (map many_flow6 [0..<unat n])) (fst (many_flow6 i)) = Some (of_nat (i mod 4))" if "i < unat n" for i
    unfolding snd_many_flow(2) [symmetric, of i] using that lt many_flow6_inject
    by (intro map_of_rev_map) auto
  note setup_hash_lookup [OF assms(1,2), of ip junk portid]
  with m4 m6 n assms(3) setup_hash_tables(1,2) [OF assms(1,2)] show ?thesis
    by (auto simp: flows4_def flows6_def positions_ok_def)
qed

theorem many_flows_forwarded_witness:
  "\<exists>T'. setup_hash sample_hash (\<lambda>a b. a XOR b) sample_ip4 1000 0 blank_tables = Some T'
    \<and> em_get_ipv4_dst_port sample_hash (\<lambda>i. 9) T' (sample_ip[18 := 0, 19 := 1]) 7 = 2"
proof -
  obtain T' where T': "setup_hash sample_hash (\<lambda>a b. a XOR b) sample_ip4 1000 0 blank_tables = Some T'"
    using sample_setup_hash [of 1000 "\<lambda>a b. a XOR b" sample_ip4 0] by auto
  have f: "flow4 (sample_ip[18 := 0, 19 := 1]) = fst (many_flow4 sample_ip4 6)"
  proof -
    have "flow_bytes 6 = (1, 0, 0)" by (simp add: flow_bytes_def NUMBER_PORT_USED_def BYTE_VALUE_MAX_def)
    then have "many_flow4 sample_ip4 6 = (\<lparr>ip_dst = sample_ip4 111 0 0 1, ip_src = sample_ip4 100 30 0 1, port_dst = 101,
        port_src = 11, proto = IPPROTO_TCP\<rparr>, 2)"
      by (simp add: many_flow4_def NUMBER_PORT_USED_def ipv4_l3fwd_em_route_array_def)
    moreover have "flow4 (sample_ip[18 := 0, 19 := 1]) = \<lparr>ip_dst = sample_ip4 111 0 0 1, ip_src = sample_ip4 100 30 0 1,
        port_dst = 101, port_src = 11, proto = IPPROTO_TCP\<rparr>"
      by code_simp
    ultimately show ?thesis by simp
  qed
  have c: "(1000 :: u32) \<noteq> HASH_ENTRY_NUMBER_DEFAULT" "6 < unat (1000 :: u32)"
    by (simp_all add: HASH_ENTRY_NUMBER_DEFAULT_def)
  have "24 \<le> length (sample_ip[18 := 0, 19 := 1])" by code_simp
  with many_flows_forwarded [OF sample_hash_laws T' c(1) sample_ip4_law, of "sample_ip[18 := 0, 19 := 1]" "\<lambda>i. 9" 7,
      THEN conjunct2, THEN conjunct2, THEN spec, THEN mp, OF c(2)] f T'
  show ?thesis by simp
qed

end
