(* ===== verification/Bit_Reverse.thy ===== *)
theory Bit_Reverse
  imports Prelude
begin

text \<open>
  The bit reversal of \<^verbatim>\<open>enc_lib/ff3/ff_lib.h\<close>: the 256-entry table the macros
  \<^verbatim>\<open>R2\<close>, \<^verbatim>\<open>R4\<close>, \<^verbatim>\<open>R6\<close> expand to, \<^verbatim>\<open>bit_reverse32\<close>, which looks the four bytes of a
  word up in it, and \<^verbatim>\<open>bit_reverse_m\<close>, which reverses the low \<open>m\<close> bits.  The lemmas
  reduce both to single bits.
\<close>

section \<open>The table and the lookups\<close>

definition R2 :: "nat \<Rightarrow> nat list" where
  "R2 n = [n, n + 2 * 64, n + 1 * 64, n + 3 * 64]"

definition R4 :: "nat \<Rightarrow> nat list" where
  "R4 n = R2 n @ R2 (n + 2 * 16) @ R2 (n + 1 * 16) @ R2 (n + 3 * 16)"

definition R6 :: "nat \<Rightarrow> nat list" where
  "R6 n = R4 n @ R4 (n + 2 * 4) @ R4 (n + 1 * 4) @ R4 (n + 3 * 4)"

definition BitReverseTable256 :: "u8 list" where
  "BitReverseTable256 = map of_nat (R6 0 @ R6 2 @ R6 1 @ R6 3)"

definition bit_reverse32 :: "u32 \<Rightarrow> u32" where
  "bit_reverse32 v =
     push_bit 24 (ucast (BitReverseTable256 ! unat (v AND 0xff)))
     OR push_bit 16 (ucast (BitReverseTable256 ! unat (drop_bit 8 v AND 0xff)))
     OR push_bit 8 (ucast (BitReverseTable256 ! unat (drop_bit 16 v AND 0xff)))
     OR ucast (BitReverseTable256 ! unat (drop_bit 24 v AND 0xff))"

definition bit_reverse_m :: "u32 \<Rightarrow> nat \<Rightarrow> u32" where
  "bit_reverse_m v m = drop_bit (32 - m) (bit_reverse32 v)"

section \<open>The table reverses a byte\<close>

lemma length_BitReverseTable256: "length BitReverseTable256 = 256"
  by (simp add: BitReverseTable256_def R6_def R4_def R2_def)

text \<open>The reversal of a byte as a number, the last bit first.\<close>

definition rev8 :: "nat \<Rightarrow> nat" where
  "rev8 i = (i mod 2) * 128 + (i div 2 mod 2) * 64 + (i div 4 mod 2) * 32 + (i div 8 mod 2) * 16
     + (i div 16 mod 2) * 8 + (i div 32 mod 2) * 4 + (i div 64 mod 2) * 2 + (i div 128 mod 2)"

lemma rev8_evaluated:
  "list_all (\<lambda>r. rev8 (r + 4) = rev8 r + 32 \<and> rev8 (r + 8) = rev8 r + 16 \<and> rev8 (r + 12) = rev8 r + 48)
     (0 # 1 # [2..<4])"
  "list_all (\<lambda>r. rev8 (r + 16) = rev8 r + 8 \<and> rev8 (r + 32) = rev8 r + 4 \<and> rev8 (r + 48) = rev8 r + 12)
     (0 # 1 # [2..<16])"
  "list_all (\<lambda>r. rev8 (r + 64) = rev8 r + 2 \<and> rev8 (r + 128) = rev8 r + 1 \<and> rev8 (r + 192) = rev8 r + 3)
     (0 # 1 # [2..<64])"
  by (simp_all add: rev8_def)

lemma rev8_blocks:
  "r < 4 \<Longrightarrow> rev8 (r + 4) = rev8 r + 32 \<and> rev8 (r + 8) = rev8 r + 16 \<and> rev8 (r + 12) = rev8 r + 48"
  "r < 16 \<Longrightarrow> rev8 (r + 16) = rev8 r + 8 \<and> rev8 (r + 32) = rev8 r + 4 \<and> rev8 (r + 48) = rev8 r + 12"
  "r < 64 \<Longrightarrow> rev8 (r + 64) = rev8 r + 2 \<and> rev8 (r + 128) = rev8 r + 1 \<and> rev8 (r + 192) = rev8 r + 3"
proof -
  have "r \<in> set (0 # 1 # [2..<n])" if "r < n" for n using that by (cases "r < 2") auto
  then show "r < 4 \<Longrightarrow> rev8 (r + 4) = rev8 r + 32 \<and> rev8 (r + 8) = rev8 r + 16 \<and> rev8 (r + 12) = rev8 r + 48"
    and "r < 16 \<Longrightarrow> rev8 (r + 16) = rev8 r + 8 \<and> rev8 (r + 32) = rev8 r + 4 \<and> rev8 (r + 48) = rev8 r + 12"
    and "r < 64 \<Longrightarrow> rev8 (r + 64) = rev8 r + 2 \<and> rev8 (r + 128) = rev8 r + 1 \<and> rev8 (r + 192) = rev8 r + 3"
    using rev8_evaluated unfolding list_all_iff by blast+
qed

lemma upt_blocks:
  "[0..<4 * n] = [0..<n] @ map (\<lambda>r. r + n) [0..<n] @ map (\<lambda>r. r + 2 * n) [0..<n] @ map (\<lambda>r. r + 3 * n) [0..<n]"
  using upt_add_eq_append [of 0 n "3 * n"] upt_add_eq_append [of n "2 * n" "2 * n"]
    upt_add_eq_append [of "2 * n" "3 * n" n]
  by (simp add: map_add_upt mult_2 [symmetric])

lemma R2_rev8: "R2 n = map (\<lambda>r. rev8 r + n) [0..<4]"
  by (simp add: R2_def rev8_def upt_rec)

lemma map_rev8_shift:
  assumes "\<And>r. r < k \<Longrightarrow> rev8 (r + d) = rev8 r + e"
  shows "map (\<lambda>r. rev8 r + n) (map (\<lambda>r. r + d) [0..<k]) = map (\<lambda>r. rev8 r + (n + e)) [0..<k]"
  using assms by (auto simp: ac_simps)

lemma rev8_quarters:
  assumes "\<And>r. r < k \<Longrightarrow> rev8 (r + k) = rev8 r + 2 * e \<and> rev8 (r + 2 * k) = rev8 r + e
    \<and> rev8 (r + 3 * k) = rev8 r + 3 * e"
  shows "map (\<lambda>r. rev8 r + n) [0..<4 * k] =
    map (\<lambda>r. rev8 r + n) [0..<k] @ map (\<lambda>r. rev8 r + (n + 2 * e)) [0..<k]
    @ map (\<lambda>r. rev8 r + (n + 1 * e)) [0..<k] @ map (\<lambda>r. rev8 r + (n + 3 * e)) [0..<k]"
  unfolding upt_blocks map_append using assms by (simp only: map_rev8_shift mult_1)

lemma R4_rev8: "R4 n = map (\<lambda>r. rev8 r + n) [0..<16]"
  using rev8_quarters [of 4 16 n] rev8_blocks(1) unfolding R4_def R2_rev8 by simp

lemma R6_rev8: "R6 n = map (\<lambda>r. rev8 r + n) [0..<64]"
  using rev8_quarters [of 16 4 n] rev8_blocks(2) unfolding R6_def R4_rev8 by simp

lemma table_eq_rev8: "R6 0 @ R6 2 @ R6 1 @ R6 3 = map rev8 [0..<256]"
  using rev8_quarters [of 64 1 0] rev8_blocks(3) unfolding R6_rev8 by simp

lemma nth_table: "i < 256 \<Longrightarrow> BitReverseTable256 ! i = of_nat (rev8 i)"
  unfolding BitReverseTable256_def table_eq_rev8 by simp

lemma rev8_horner: "rev8 i = horner_sum of_bool 2 (map (\<lambda>k. bit i (7 - k)) [0, 1, 2, 3, 4, 5, 6, 7])"
  unfolding rev8_def mod_2_eq_odd by (simp add: bit_iff_odd add.assoc del: of_bool_eq_iff split del: split_of_bool)

lemma bit_table:
  assumes "k < 8"
  shows "bit (BitReverseTable256 ! unat (b :: u8)) k \<longleftrightarrow> bit b (7 - k)"
proof -
  have "unat b < 256" using unsigned_less [where 'a = nat, of b] by simp
  then have "BitReverseTable256 ! unat b = of_nat (rev8 (unat b))" by (rule nth_table)
  moreover have "bit (rev8 (unat b)) k \<longleftrightarrow> bit (unat b) (7 - k)"
  proof -
    have "[0, 1, 2, 3, 4, 5, 6, 7 :: nat] ! k = k"
      using assms by (auto simp: less_Suc_eq numeral_eq_Suc)
    then show ?thesis
      unfolding rev8_horner using assms by (simp add: bit_horner_sum_bit_iff del: list.map)
  qed
  ultimately show ?thesis using assms by (simp add: bit_simps)
qed

lemma and_ff_eq_ucast: "(v :: u32) AND 0xff = ucast (ucast v :: u8)"
proof -
  have "(0xff :: u32) = mask 8" by (simp add: mask_eq_exp_minus_1)
  then have "v AND 0xff = take_bit 8 v" by (simp only: take_bit_eq_mask)
  also have "\<dots> = ucast (ucast v :: u8)" by (rule bit_word_eqI) (auto simp: bit_simps)
  finally show ?thesis .
qed

lemma bit_table_and_ff:
  "k < 8 \<Longrightarrow> bit (BitReverseTable256 ! unat ((v :: u32) AND 0xff)) k \<longleftrightarrow> bit v (7 - k)"
proof -
  assume k: "k < 8"
  have "unat (v AND 0xff) = unat (ucast v :: u8)"
    by (simp add: and_ff_eq_ucast unsigned_ucast_eq unsigned_take_bit_eq)
  moreover have "7 - k < 8" by simp
  ultimately show ?thesis using k by (simp add: bit_table bit_ucast_iff del: diff_less_mono2)
qed

section \<open>The word operations, bit by bit\<close>

lemma bit_bit_reverse32:
  assumes "n < 32"
  shows "bit (bit_reverse32 v) n \<longleftrightarrow> bit v (31 - n)"
proof -
  have *: "bit (BitReverseTable256 ! unat (x AND 0xff)) k \<longleftrightarrow> k < 8 \<and> bit x (7 - k)" for x :: u32 and k
    using bit_table_and_ff [of k x] bit_imp_le_length [of "BitReverseTable256 ! unat (x AND 0xff)" k]
    by auto
  have low: "bit (BitReverseTable256 ! unat (drop_bit j v AND 0xff)) (n - (24 - j)) \<longleftrightarrow>
      n < 32 - j \<and> bit v (31 - n)" if "24 - j \<le> n" "j \<le> 24" for j
  proof (cases "n < 32 - j")
    case True
    then have "j + (7 - (n - (24 - j))) = 31 - n" using that by linarith
    with True that show ?thesis by (auto simp: * bit_drop_bit_eq add.commute)
  next
    case False
    with that show ?thesis by (auto simp: *)
  qed
  consider "n < 8" | "8 \<le> n" "n < 16" | "16 \<le> n" "n < 24" | "24 \<le> n" "n < 32"
    using assms by linarith
  then show ?thesis
    unfolding bit_reverse32_def
    using low [of 0] low [of 8] low [of 16] low [of 24]
    by cases (auto simp: bit_or_iff bit_push_bit_iff bit_ucast_iff)
qed

lemma bit_bit_reverse_m:
  "m \<le> 32 \<Longrightarrow> bit (bit_reverse_m v m) n \<longleftrightarrow> n < m \<and> bit v (m - 1 - n)"
proof -
  assume m: "m \<le> 32"
  show ?thesis
  proof (cases "n < m")
    case True
    then have "31 - (32 - m + n) = m - 1 - n" and "32 - m + n < 32" using m by linarith+
    then show ?thesis using True
      by (simp add: bit_reverse_m_def bit_drop_bit_eq bit_bit_reverse32)
  next
    case False
    then have "\<not> bit (bit_reverse32 v) (32 - m + n)"
      using m bit_imp_le_length [of "bit_reverse32 v" "32 - m + n"] by auto
    with False show ?thesis by (simp add: bit_reverse_m_def bit_drop_bit_eq)
  qed
qed

lemma bit_reverse_m_take_bit:
  "m \<le> 32 \<Longrightarrow> bit_reverse_m (take_bit m v) m = bit_reverse_m v m"
  by (rule bit_word_eqI) (auto simp: bit_bit_reverse_m bit_take_bit_iff)

lemma take_bit_bit_reverse_m [simp]:
  "m \<le> 32 \<Longrightarrow> take_bit m (bit_reverse_m v m) = bit_reverse_m v m"
  by (rule bit_word_eqI) (auto simp: bit_bit_reverse_m bit_take_bit_iff)

lemma bit_reverse_m_twice:
  "m \<le> 32 \<Longrightarrow> bit_reverse_m (bit_reverse_m v m) m = take_bit m v"
  by (rule bit_word_eqI) (auto simp: bit_bit_reverse_m bit_take_bit_iff)

end
