(* ===== verification/Cipher.thy ===== *)
theory Cipher
  imports Prelude
begin

text \<open>
  The interface between the address translator and the ciphers of \<^verbatim>\<open>enc_lib\<close>: an
  encryption that is undone by a decryption on a set of messages.  The NAT relies on
  nothing else of FF3, RC5 or ChaCha20.
\<close>

locale block_cipher =
  fixes msgs :: "'m set"
    and enc :: "'m \<Rightarrow> 'm"
    and dec :: "'m \<Rightarrow> 'm"
  assumes enc_closed: "x \<in> msgs \<Longrightarrow> enc x \<in> msgs"
    and dec_closed: "x \<in> msgs \<Longrightarrow> dec x \<in> msgs"
    and dec_enc: "x \<in> msgs \<Longrightarrow> dec (enc x) = x"
    and enc_dec: "x \<in> msgs \<Longrightarrow> enc (dec x) = x"
begin

lemma enc_inject: "x \<in> msgs \<Longrightarrow> y \<in> msgs \<Longrightarrow> enc x = enc y \<longleftrightarrow> x = y"
  by (metis dec_enc)

lemma bij_enc: "bij_betw enc msgs msgs"
  by (rule bij_betw_byWitness [where f' = dec]) (auto simp: enc_closed dec_closed dec_enc enc_dec)

lemma bij_dec: "bij_betw dec msgs msgs"
  by (rule bij_betw_byWitness [where f' = enc]) (auto simp: enc_closed dec_closed dec_enc enc_dec)

end

text \<open>A Feistel-like cipher is a list of rounds, each undone by its inverse round; the
  decryption runs the inverse rounds backwards.  The state space may change from round to
  round, as the two halves of an odd-length block swap places.\<close>

locale round_cipher =
  fixes ok :: "nat \<Rightarrow> 's \<Rightarrow> bool"
    and rnd :: "nat \<Rightarrow> 's \<Rightarrow> 's"
    and inv_rnd :: "nat \<Rightarrow> 's \<Rightarrow> 's"
  assumes rnd_ok: "ok i s \<Longrightarrow> ok (Suc i) (rnd i s)"
    and inv_rnd_ok: "ok (Suc i) s \<Longrightarrow> ok i (inv_rnd i s)"
    and inv_rnd_rnd: "ok i s \<Longrightarrow> inv_rnd i (rnd i s) = s"
    and rnd_inv_rnd: "ok (Suc i) s \<Longrightarrow> rnd i (inv_rnd i s) = s"
begin

lemma rounds_ok: "ok 0 s \<Longrightarrow> ok n (fold rnd [0..<n] s)"
  by (induction n) (auto simp: rnd_ok)

lemma inv_rounds_ok: "ok n s \<Longrightarrow> ok 0 (fold inv_rnd (rev [0..<n]) s)"
  by (induction n arbitrary: s) (auto simp: inv_rnd_ok)

lemma inv_rounds_rounds: "ok 0 s \<Longrightarrow> fold inv_rnd (rev [0..<n]) (fold rnd [0..<n] s) = s"
  by (induction n) (auto simp: inv_rnd_rnd rounds_ok)

lemma rounds_inv_rounds: "ok n s \<Longrightarrow> fold rnd [0..<n] (fold inv_rnd (rev [0..<n]) s) = s"
  by (induction n arbitrary: s) (auto simp: rnd_inv_rnd inv_rnd_ok)

lemma rounds_block_cipher:
  "block_cipher {s. ok 0 s} (\<lambda>s. fold rnd [0..<n] s) (\<lambda>s. fold inv_rnd (rev [0..<n]) s)"
  if "\<And>s. ok n s \<longleftrightarrow> ok 0 s"
  using that by unfold_locales (metis mem_Collect_eq rounds_ok inv_rounds_ok inv_rounds_rounds rounds_inv_rounds)+

end

end
