(* ===== verification/Ff3.thy ===== *)
theory Ff3
  imports Bit_Reverse Cipher
begin

text \<open>
  The FF3 cipher of \<^verbatim>\<open>enc_lib/ff3/ff3.c\<close>.  \<^verbatim>\<open>CBCMAC\<close> is AES-NI assembly; it is the
  parameter \<open>cbcmac\<close>, called with the round keys, the block count and the block as the
  code calls it, and returns the 16 bytes it leaves in \<^verbatim>\<open>P\<close>.  A return of \<open>-1\<close> is
  \<open>None\<close>; otherwise the result is the 8 bytes written through the output pointer.
\<close>

type_synonym cbcmac = "bytes \<Rightarrow> nat \<Rightarrow> bytes \<Rightarrow> bytes"

section \<open>The code\<close>

definition NUM_ROUNDS :: nat where
  "NUM_ROUNDS = 8"

text \<open>Steps 1 to 3: the lengths \<open>u\<close>, \<open>v\<close> of the halves, and the halves reversed.\<close>

definition ff3_split :: "bytes \<Rightarrow> nat \<Rightarrow> u32 \<times> u32" where
  "ff3_split pt len =
     (let v = len div 2; u = len - v;
          A = ucast (drop_bit v (load 8 pt 0 :: u64)) :: u32;
          B = drop_bit (32 - v) (push_bit (32 - v) (load 4 pt 0 :: u32))
      in (bit_reverse_m A u, bit_reverse_m B v))"

text \<open>Step 4i: the length and the tweak half of round \<open>i\<close>.\<close>

definition ff3_choose :: "nat \<Rightarrow> nat \<Rightarrow> bytes \<Rightarrow> nat \<Rightarrow> nat \<times> u32" where
  "ff3_choose u v tweak i =
     (if even i then (u, load 4 tweak 0) else (v, load 4 tweak 4))"

text \<open>Step 4ii: the block \<open>T\<close> with the tweak and the round number (the first four
  bytes), before the half is copied in.\<close>

definition ff3_block :: "u32 \<Rightarrow> nat \<Rightarrow> bytes" where
  "ff3_block W i =
     (let T = store (replicate 16 0) 0 (le_bytes 4 (bswap32 W))
      in T[3 := T ! 3 XOR of_nat i])"

definition ff3_encrypt_round ::
  "cbcmac \<Rightarrow> bytes \<Rightarrow> bytes \<Rightarrow> nat \<Rightarrow> nat \<Rightarrow> nat \<Rightarrow> u32 \<times> u32 \<Rightarrow> u32 \<times> u32" where
  "ff3_encrypt_round cbcmac rk tweak u v i = (\<lambda>(A, B).
     let (m, W) = ff3_choose u v tweak i;
         T = store (ff3_block W i) 12 (le_bytes 4 (bswap32 B));
         P = cbcmac rk 1 T;
         y = load 8 P 0 :: u64;
         c = ucast ((y + ucast A) AND (push_bit m 1 - 1))
     in (B, c))"

definition ff3_join :: "nat \<Rightarrow> u32 \<times> u32 \<Rightarrow> bytes" where
  "ff3_join len = (\<lambda>(A, B).
     let v = len div 2; u = len - v
     in le_bytes 8 (push_bit v (ucast (bit_reverse_m A u) :: u64) OR ucast (bit_reverse_m B v)))"

definition ff3_encrypt :: "cbcmac \<Rightarrow> bytes \<Rightarrow> nat \<Rightarrow> bytes \<Rightarrow> bytes \<Rightarrow> bytes option" where
  "ff3_encrypt cbcmac pt len tweak rk =
     (if 48 < len then None
      else let v = len div 2; u = len - v
           in Some (ff3_join len
                (fold (ff3_encrypt_round cbcmac rk tweak u v) [0..<NUM_ROUNDS] (ff3_split pt len))))"

text \<open>The decryption carries \<open>P\<close>: its rounds copy the half into \<open>P\<close>, not into \<open>T\<close>, so
  the cipher input does not hold it, and \<^verbatim>\<open>CBCMAC\<close> then overwrites \<open>P\<close>.\<close>

definition ff3_decrypt_round ::
  "cbcmac \<Rightarrow> bytes \<Rightarrow> bytes \<Rightarrow> nat \<Rightarrow> nat \<Rightarrow> nat \<Rightarrow> u32 \<times> u32 \<times> bytes \<Rightarrow> u32 \<times> u32 \<times> bytes" where
  "ff3_decrypt_round cbcmac rk tweak u v i = (\<lambda>(A, B, P).
     let (m, W) = ff3_choose u v tweak i;
         T = ff3_block W i;
         P = store P 12 (le_bytes 4 (bswap32 A));
         P = cbcmac rk 1 T;
         y = load 8 P 0 :: u64;
         c = ucast ((ucast B - y) AND (push_bit m 1 - 1))
     in (c, A, P))"

definition ff3_decrypt :: "cbcmac \<Rightarrow> bytes \<Rightarrow> bytes \<Rightarrow> nat \<Rightarrow> bytes \<Rightarrow> bytes \<Rightarrow> bytes option" where
  "ff3_decrypt cbcmac P ct len tweak rk =
     (if 48 < len then None
      else let v = len div 2; u = len - v;
               (A, B) = ff3_split ct len;
               (A, B, P) = fold (ff3_decrypt_round cbcmac rk tweak u v) (rev [0..<NUM_ROUNDS]) (A, B, P)
           in Some (ff3_join len (A, B)))"

section \<open>Splitting and joining, bit by bit\<close>

lemma bit_load_4_8:
  "8 \<le> length pt \<Longrightarrow> bit (load 4 pt 0 :: u32) k \<longleftrightarrow> k < 32 \<and> bit (load 8 pt 0 :: u64) k"
  by (auto simp: bit_load)

lemma bit_ff3_split:
  assumes "len \<le> 48" and "8 \<le> length pt" and "ff3_split pt len = (A, B)"
  shows "bit A k \<longleftrightarrow> k < len - len div 2 \<and> bit (load 8 pt 0 :: u64) (len - 1 - k)"
    and "bit B k \<longleftrightarrow> k < len div 2 \<and> bit (load 8 pt 0 :: u64) (len div 2 - 1 - k)"
proof -
  have "len - len div 2 \<le> 24" and "len div 2 \<le> 24" using assms(1) by linarith+
  moreover have "len div 2 + (len - len div 2 - 1 - k) = len - 1 - k" if "k < len - len div 2"
    using that by linarith
  ultimately show "bit A k \<longleftrightarrow> k < len - len div 2 \<and> bit (load 8 pt 0 :: u64) (len - 1 - k)"
    and "bit B k \<longleftrightarrow> k < len div 2 \<and> bit (load 8 pt 0 :: u64) (len div 2 - 1 - k)"
    using assms(2,3)
    by (auto simp: ff3_split_def Let_def bit_bit_reverse_m bit_ucast_iff bit_drop_bit_eq
        bit_push_bit_iff bit_load_4_8)
qed

lemma bit_ff3_join:
  assumes "len \<le> 48"
  shows "bit (load 8 (ff3_join len (A, B)) 0 :: u64) n \<longleftrightarrow>
    (if n < len div 2 then bit B (len div 2 - 1 - n) else n < len \<and> bit A (len - 1 - n))"
proof -
  have "len - len div 2 \<le> 24" and "len div 2 \<le> 24" using assms by linarith+
  moreover have "len - len div 2 - 1 - (n - len div 2) = len - 1 - n" if "len div 2 \<le> n" "n < len"
    using that by linarith
  ultimately show ?thesis
    by (auto simp: ff3_join_def Let_def load_le_bytes bit_or_iff bit_push_bit_iff bit_ucast_iff
        bit_bit_reverse_m)
qed

lemma length_ff3_join [simp]: "length (ff3_join len AB) = 8"
  by (simp add: ff3_join_def Let_def split: prod.split)

text \<open>\<open>halves\<close> holds of a state whose halves have the lengths they have before round \<open>i\<close>.\<close>

definition ff3_halves :: "nat \<Rightarrow> nat \<Rightarrow> nat \<Rightarrow> u32 \<times> u32 \<Rightarrow> bool" where
  "ff3_halves u v i = (\<lambda>(A, B).
     if even i then take_bit u A = A \<and> take_bit v B = B
     else take_bit v A = A \<and> take_bit u B = B)"

lemma ff3_halves_split:
  assumes "len \<le> 48" and "8 \<le> length pt"
  shows "ff3_halves (len - len div 2) (len div 2) 0 (ff3_split pt len)"
proof (cases "ff3_split pt len")
  case (Pair A B)
  with bit_ff3_split [OF assms Pair] show ?thesis
    by (simp add: ff3_halves_def take_bit_eq_iff_bits)
qed

lemma ff3_split_join:
  assumes "len \<le> 48" and "ff3_halves (len - len div 2) (len div 2) 0 AB"
  shows "ff3_split (ff3_join len AB) len = AB"
proof -
  obtain A B where AB: "AB = (A, B)" by fastforce
  obtain A' B' where s: "ff3_split (ff3_join len (A, B)) len = (A', B')" by fastforce
  have "8 \<le> length (ff3_join len (A, B))" by simp
  note bits = bit_ff3_split [OF assms(1) this s]
  have A: "\<not> bit A k" if "len - len div 2 \<le> k" for k
    using assms(2) that by (simp add: AB ff3_halves_def take_bit_eq_iff_bits)
  have B: "\<not> bit B k" if "len div 2 \<le> k" for k
    using assms(2) that by (simp add: AB ff3_halves_def take_bit_eq_iff_bits)
  have "A' = A"
  proof (rule bit_word_eqI)
    fix k
    show "bit A' k \<longleftrightarrow> bit A k" using A [of k] assms(1)
      by (cases "k < len - len div 2") (auto simp: bits bit_ff3_join)
  qed
  moreover have "B' = B"
  proof (rule bit_word_eqI)
    fix k
    show "bit B' k \<longleftrightarrow> bit B k" using B [of k] assms(1)
      by (cases "k < len div 2") (auto simp: bits bit_ff3_join)
  qed
  ultimately show ?thesis using s AB by simp
qed

lemma ff3_join_split:
  assumes "len \<le> 48" and "8 \<le> length pt"
  shows "load 8 (ff3_join len (ff3_split pt len)) 0 = take_bit len (load 8 pt 0 :: u64)"
proof -
  obtain A B where s: "ff3_split pt len = (A, B)" by fastforce
  show ?thesis
    unfolding s
    by (rule bit_word_eqI)
      (auto simp: bit_ff3_join [OF assms(1)] bit_ff3_split [OF assms s] bit_take_bit_iff)
qed

section \<open>Encryption is a permutation of the blocks\<close>

text \<open>The round function: the low 64 bits of the cipher output, as it enters a half.\<close>

definition ff3_mac :: "cbcmac \<Rightarrow> bytes \<Rightarrow> bytes \<Rightarrow> nat \<Rightarrow> u32 \<Rightarrow> u32" where
  "ff3_mac cbcmac rk tweak i X =
     ucast (load 8 (cbcmac rk 1
       (store (ff3_block (snd (ff3_choose 0 0 tweak i)) i) 12 (le_bytes 4 (bswap32 X)))) 0 :: u64)"

text \<open>The proof that the rounds permute the blocks needs what undoes a round.  It is a function of
  the proof, no function of the code; what the code calls decryption is \<open>ff3_decrypt\<close>.\<close>

definition ff3_undo_round ::
  "cbcmac \<Rightarrow> bytes \<Rightarrow> bytes \<Rightarrow> nat \<Rightarrow> nat \<Rightarrow> nat \<Rightarrow> u32 \<times> u32 \<Rightarrow> u32 \<times> u32" where
  "ff3_undo_round cbcmac rk tweak u v i = (\<lambda>(A, B).
     (take_bit (fst (ff3_choose u v tweak i)) (B - ff3_mac cbcmac rk tweak i A), A))"

lemma take_bit_ucast_64_32:
  "m \<le> 32 \<Longrightarrow> (ucast (take_bit m (x :: u64)) :: u32) = take_bit m (ucast x)"
  by (rule bit_word_eqI) (auto simp: bit_simps)

lemma ucast_32_64_32: "(ucast (ucast (x :: u32) :: u64) :: u32) = x"
  by (rule bit_word_eqI) (auto simp: bit_simps)

lemma snd_ff3_choose: "snd (ff3_choose u v tweak i) = snd (ff3_choose 0 0 tweak i)"
  by (simp add: ff3_choose_def)

lemma fst_ff3_choose: "fst (ff3_choose u v tweak i) = (if even i then u else v)"
  by (simp add: ff3_choose_def)

lemma ff3_encrypt_round_eq:
  assumes "u \<le> 32" and "v \<le> 32"
  shows "ff3_encrypt_round cbcmac rk tweak u v i (A, B) =
    (B, take_bit (if even i then u else v) (ff3_mac cbcmac rk tweak i B + A))"
proof -
  obtain m W where c: "ff3_choose u v tweak i = (m, W)" by fastforce
  have "m = (if even i then u else v)" and "W = snd (ff3_choose 0 0 tweak i)"
    using fst_ff3_choose [of u v tweak i] snd_ff3_choose [of u v tweak i] c by simp_all
  with c assms show ?thesis
    by (auto simp: ff3_encrypt_round_def ff3_mac_def Let_def mask_and_word take_bit_ucast_64_32
        ucast_plus_down ucast_32_64_32)
qed

lemma take_bit_add_diff:
  "take_bit m (A :: 'a::len word) = A \<Longrightarrow> take_bit m (take_bit m (Y + A) - Y) = A"
  "take_bit m (A :: 'a::len word) = A \<Longrightarrow> take_bit m (Y + take_bit m (A - Y)) = A"
  by (simp_all add: take_bit_minus_left take_bit_plus_right)

lemma ff3_round_cipher:
  assumes "u \<le> 32" and "v \<le> 32"
  shows "round_cipher (ff3_halves u v) (ff3_encrypt_round cbcmac rk tweak u v)
    (ff3_undo_round cbcmac rk tweak u v)"
proof (unfold_locales; clarify)
  fix i A B
  assume ok: "ff3_halves u v i (A, B)"
  then show "ff3_halves u v (Suc i) (ff3_encrypt_round cbcmac rk tweak u v i (A, B))"
    using assms by (auto simp: ff3_halves_def ff3_encrypt_round_eq)
  show "ff3_undo_round cbcmac rk tweak u v i (ff3_encrypt_round cbcmac rk tweak u v i (A, B)) = (A, B)"
    using assms ok
    by (auto simp: ff3_halves_def ff3_encrypt_round_eq ff3_undo_round_def fst_ff3_choose
        take_bit_add_diff split: if_splits)
next
  fix i A B
  assume ok: "ff3_halves u v (Suc i) (A, B)"
  then show "ff3_halves u v i (ff3_undo_round cbcmac rk tweak u v i (A, B))"
    by (auto simp: ff3_halves_def ff3_undo_round_def fst_ff3_choose)
  show "ff3_encrypt_round cbcmac rk tweak u v i (ff3_undo_round cbcmac rk tweak u v i (A, B)) = (A, B)"
    using assms ok
    by (auto simp: ff3_halves_def ff3_encrypt_round_eq ff3_undo_round_def fst_ff3_choose
        take_bit_add_diff split: if_splits)
qed

definition ff3_blocks :: "nat \<Rightarrow> u64 set" where
  "ff3_blocks len = {w. take_bit len w = w}"

definition ff3_enc_word :: "cbcmac \<Rightarrow> bytes \<Rightarrow> bytes \<Rightarrow> nat \<Rightarrow> u64 \<Rightarrow> u64" where
  "ff3_enc_word cbcmac tweak rk len w = load 8 (the (ff3_encrypt cbcmac (le_bytes 8 w) len tweak rk)) 0"

definition ff3_undo_word :: "cbcmac \<Rightarrow> bytes \<Rightarrow> bytes \<Rightarrow> nat \<Rightarrow> u64 \<Rightarrow> u64" where
  "ff3_undo_word cbcmac tweak rk len w =
     load 8 (ff3_join len (fold (ff3_undo_round cbcmac rk tweak (len - len div 2) (len div 2)) (rev [0..<NUM_ROUNDS])
       (ff3_split (le_bytes 8 w) len))) 0"

lemma ff3_join_in_blocks:
  assumes "len \<le> 48" shows "load 8 (ff3_join len AB) 0 \<in> ff3_blocks len"
proof -
  obtain A B where "AB = (A, B)" by fastforce
  then show ?thesis
    by (auto simp: ff3_blocks_def take_bit_eq_iff_bits bit_ff3_join [OF assms])
qed

lemma ff3_block_cipher:
  assumes "len \<le> 48"
  shows "block_cipher (ff3_blocks len) (ff3_enc_word cbcmac tweak rk len) (ff3_undo_word cbcmac tweak rk len)"
proof -
  define v u where "v = len div 2" and "u = len - v"
  have "u \<le> 32" and "v \<le> 32" using assms unfolding u_def v_def by linarith+
  note rc = ff3_round_cipher [OF this, of cbcmac rk tweak]
  have even: "ff3_halves u v NUM_ROUNDS s \<longleftrightarrow> ff3_halves u v 0 s" for s
    by (simp add: ff3_halves_def NUM_ROUNDS_def)
  let ?S = "\<lambda>w. ff3_split (le_bytes 8 (w :: u64)) len"
  let ?J = "\<lambda>s. load 8 (ff3_join len s) 0 :: u64"
  let ?E = "fold (ff3_encrypt_round cbcmac rk tweak u v) [0..<NUM_ROUNDS]"
  let ?D = "fold (ff3_undo_round cbcmac rk tweak u v) (rev [0..<NUM_ROUNDS])"
  have enc: "ff3_enc_word cbcmac tweak rk len w = ?J (?E (?S w))" for w
    using assms by (simp add: ff3_enc_word_def ff3_encrypt_def Let_def u_def v_def)
  have dec: "ff3_undo_word cbcmac tweak rk len w = ?J (?D (?S w))" for w
    by (simp add: ff3_undo_word_def u_def v_def)
  have ok: "ff3_halves u v 0 (?S w)" for w
    using ff3_halves_split [OF assms, of "le_bytes 8 w"] by (simp add: u_def v_def)
  have le: "le_bytes 8 (?J s) = ff3_join len s" for s
    by (simp add: load_def le_bytes_le_word)
  have SJ: "?S (?J s) = s" if "ff3_halves u v 0 s" for s
    unfolding le using that assms by (simp add: ff3_split_join u_def v_def)
  have JS: "?J (?S w) = w" if "w \<in> ff3_blocks len" for w
    using ff3_join_split [OF assms, of "le_bytes 8 w"] that by (simp add: ff3_blocks_def load_le_bytes)
  have E: "ff3_halves u v 0 (?E s)" and D: "ff3_halves u v 0 (?D s)"
    and DE: "?D (?E s) = s" and ED: "?E (?D s) = s" if "ff3_halves u v 0 s" for s
    using that round_cipher.rounds_ok [OF rc that, of NUM_ROUNDS]
      round_cipher.inv_rounds_ok [OF rc, of NUM_ROUNDS s]
      round_cipher.inv_rounds_rounds [OF rc that] round_cipher.rounds_inv_rounds [OF rc, of NUM_ROUNDS s]
    by (simp_all add: even)
  show ?thesis
    by unfold_locales (simp_all add: enc dec ff3_join_in_blocks [OF assms] SJ JS ok E D DE ED)
qed

text \<open>The two interfaces hold of the block length the NAT uses, 26 host bits and 16 port bits.\<close>

interpretation ff3_rounds: round_cipher "ff3_halves 21 21" "ff3_encrypt_round cbcmac rk tweak 21 21"
  "ff3_undo_round cbcmac rk tweak 21 21" for cbcmac rk tweak
  by (rule ff3_round_cipher) simp_all

interpretation ff3_42: block_cipher "ff3_blocks 42" "ff3_enc_word cbcmac tweak rk 42"
  "ff3_undo_word cbcmac tweak rk 42" for cbcmac tweak rk
  by (rule ff3_block_cipher) simp

section \<open>What the decryption computes\<close>

text \<open>The cipher output of a round whose block holds no half, and the sum over the rounds that
  act on one half.\<close>

definition ff3_dry_mac :: "cbcmac \<Rightarrow> bytes \<Rightarrow> bytes \<Rightarrow> nat \<Rightarrow> u32" where
  "ff3_dry_mac cbcmac rk tweak i =
     ucast (load 8 (cbcmac rk 1 (ff3_block (snd (ff3_choose 0 0 tweak i)) i)) 0 :: u64)"

definition ff3_pad :: "cbcmac \<Rightarrow> bytes \<Rightarrow> bytes \<Rightarrow> nat list \<Rightarrow> u32" where
  "ff3_pad cbcmac rk tweak rs = sum_list (map (ff3_dry_mac cbcmac rk tweak) rs)"

lemma ff3_decrypt_round_eq:
  assumes "u \<le> 32" and "v \<le> 32"
  shows "ff3_decrypt_round cbcmac rk tweak u v i (A, B, P) =
    (take_bit (if even i then u else v) (B - ff3_dry_mac cbcmac rk tweak i), A,
     cbcmac rk 1 (ff3_block (snd (ff3_choose 0 0 tweak i)) i))"
proof -
  obtain m W where c: "ff3_choose u v tweak i = (m, W)" by fastforce
  have "m = (if even i then u else v)" and "W = snd (ff3_choose 0 0 tweak i)"
    using fst_ff3_choose [of u v tweak i] snd_ff3_choose [of u v tweak i] c by simp_all
  with c assms show ?thesis
    by (auto simp: ff3_decrypt_round_def ff3_dry_mac_def Let_def mask_and_word take_bit_ucast_64_32
        ucast_minus_down ucast_32_64_32)
qed

lemma rev_upt_8: "rev [0..<8] = [7, 6, 5, 4, 3, 2, 1, 0 :: nat]"
  by (simp add: upt_rec)

lemma ff3_split_zero: "len \<le> 48 \<Longrightarrow> ff3_split (replicate 8 0) len = (0, 0)"
proof -
  assume len: "len \<le> 48"
  obtain A B where s: "ff3_split (replicate 8 0) len = (A, B)" by fastforce
  have "\<not> bit (load 8 (replicate 8 0) 0 :: u64) k" for k by (simp add: bit_load)
  with bit_ff3_split [OF len _ s] have "A = 0" and "B = 0" by (simp_all add: bit_eq_iff)
  with s show ?thesis by simp
qed

lemma ff3_decrypt_eq:
  assumes "len \<le> 48" and "ff3_split ct len = (A, B)"
  shows "ff3_decrypt cbcmac P ct len tweak rk =
    Some (ff3_join len
      (take_bit (len - len div 2) (A - ff3_pad cbcmac rk tweak [0, 2, 4, 6]),
       take_bit (len div 2) (B - ff3_pad cbcmac rk tweak [1, 3, 5, 7])))"
proof -
  define v u where "v = len div 2" and "u = len - v"
  have uv: "u \<le> 32" "v \<le> 32" using assms unfolding u_def v_def by linarith+
  let ?y = "ff3_dry_mac cbcmac rk tweak"
  have "\<exists>P'. fold (ff3_decrypt_round cbcmac rk tweak u v) (rev [0..<NUM_ROUNDS]) (A, B, P) =
    (take_bit u (take_bit u (take_bit u (take_bit u (A - ?y 6) - ?y 4) - ?y 2) - ?y 0),
     take_bit v (take_bit v (take_bit v (take_bit v (B - ?y 7) - ?y 5) - ?y 3) - ?y 1), P')"
    unfolding NUM_ROUNDS_def rev_upt_8 by (simp add: ff3_decrypt_round_eq [OF uv])
  then show ?thesis
    using assms
    by (auto simp: ff3_decrypt_def Let_def u_def v_def take_bit_minus_left ff3_pad_def algebra_simps)
qed

lemma ff3_split_cong:
  assumes "len \<le> 48" and "8 \<le> length pt" and "8 \<le> length pt'"
    and "take_bit len (load 8 pt 0 :: u64) = take_bit len (load 8 pt' 0)"
  shows "ff3_split pt len = ff3_split pt' len"
proof -
  obtain A B A' B' where s: "ff3_split pt len = (A, B)" "ff3_split pt' len = (A', B')" by fastforce
  have low: "bit (load 8 pt 0 :: u64) k \<longleftrightarrow> bit (load 8 pt' 0 :: u64) k" if "k < len" for k
    using assms(4) that by (metis bit_take_bit_iff)
  have "A = A'" and "B = B'"
    by (rule bit_word_eqI, use low in \<open>auto simp: bit_ff3_split [OF assms(1,2) s(1)]
        bit_ff3_split [OF assms(1,3) s(2)]\<close>)+
  then show ?thesis by (simp add: s)
qed

lemma ff3_encrypt_cong:
  assumes "len \<le> 48" and "8 \<le> length pt" and "8 \<le> length pt'"
    and "take_bit len (load 8 pt 0 :: u64) = take_bit len (load 8 pt' 0)"
  shows "ff3_encrypt cbcmac pt len tweak rk = ff3_encrypt cbcmac pt' len tweak rk
    \<and> (\<exists>ct. ff3_encrypt cbcmac pt len tweak rk = Some ct \<and> length ct = 8
        \<and> take_bit len (load 8 ct 0 :: u64) = load 8 ct 0)"
  using assms(1) ff3_join_in_blocks [OF assms(1)] ff3_split_cong [OF assms]
  by (auto simp: ff3_encrypt_def Let_def ff3_blocks_def)

section \<open>Properties\<close>

text \<open>C34: For every MAC, tweak and key schedule, FF3 encryption of blocks of 2 to 48 bits is a
  permutation of these blocks (each block has exactly one pre-image), although the MAC need not
  be invertible.\<close>

theorem ff3_encrypt_permutes:
  assumes "2 \<le> len" and "len \<le> 48"
  shows "bij_betw (\<lambda>w. load 8 (the (ff3_encrypt cbcmac (le_bytes 8 w) len tweak rk)) 0)
    {w :: u64. take_bit len w = w} {w :: u64. take_bit len w = w}"
  using block_cipher.bij_enc [OF ff3_block_cipher [OF assms(2), of cbcmac tweak rk]]
  unfolding ff3_blocks_def ff3_enc_word_def .

theorem ff3_encrypt_permutes_witness:
  "bij_betw (\<lambda>w. load 8 (the (ff3_encrypt (\<lambda>rk n T. rev T) (le_bytes 8 w) 42 (replicate 8 1) [])) 0)
    {w :: u64. take_bit 42 w = w} {w :: u64. take_bit 42 w = w}"
  by (rule ff3_encrypt_permutes) simp_all

text \<open>The encryption reads only the \<open>len\<close> low bits of the buffer and leaves the bits above
  them zero in its result, so the uninitialised field \<^verbatim>\<open>rem\<close> of \<^verbatim>\<open>ff3_msg\<close> does not
  reach the ciphertext.\<close>

theorem ff3_encrypt_low_bits:
  assumes "len \<le> 48" and "8 \<le> length pt" and "8 \<le> length pt'"
    and "take_bit len (load 8 pt 0 :: u64) = take_bit len (load 8 pt' 0)"
  shows "ff3_encrypt cbcmac pt len tweak rk = ff3_encrypt cbcmac pt' len tweak rk
    \<and> (\<exists>ct. ff3_encrypt cbcmac pt len tweak rk = Some ct \<and> length ct = 8
        \<and> take_bit len (load 8 ct 0 :: u64) = load 8 ct 0)"
  using assms by (rule ff3_encrypt_cong)

theorem ff3_encrypt_low_bits_witness:
  "ff3_encrypt (\<lambda>rk n T. rev T) (le_bytes 8 (7 :: u64)) 3 (replicate 8 1) []
     = ff3_encrypt (\<lambda>rk n T. rev T) (le_bytes 8 (15 :: u64)) 3 (replicate 8 1) []"
proof -
  have "take_bit 3 (load 8 (le_bytes 8 (7 :: u64)) 0 :: u64) = take_bit 3 (load 8 (le_bytes 8 (15 :: u64)) 0)"
    by (simp add: load_le_bytes)
  with ff3_encrypt_low_bits [of 3 "le_bytes 8 (7 :: u64)" "le_bytes 8 (15 :: u64)"]
  show ?thesis by simp
qed

text \<open>The decryption translates the two reversed halves of the ciphertext by constants that
  depend on the key, the tweak and the MAC but not on the ciphertext: its rounds copy the half
  into the output buffer of the MAC instead of its input block.\<close>

theorem ff3_decrypt_translates:
  assumes "len \<le> 48" and "ff3_split ct len = (A, B)"
  shows "ff3_decrypt cbcmac P ct len tweak rk =
    Some (ff3_join len
      (take_bit (len - len div 2) (A - ff3_pad cbcmac rk tweak [0, 2, 4, 6]),
       take_bit (len div 2) (B - ff3_pad cbcmac rk tweak [1, 3, 5, 7])))"
  using assms by (rule ff3_decrypt_eq)

theorem ff3_decrypt_translates_witness:
  "ff3_decrypt (\<lambda>rk n T. rev T) [] (replicate 8 0) 42 (replicate 8 1) [] =
    Some (ff3_join 42
      (take_bit 21 (0 - ff3_pad (\<lambda>rk n T. rev T) [] (replicate 8 1) [0, 2, 4, 6]),
       take_bit 21 (0 - ff3_pad (\<lambda>rk n T. rev T) [] (replicate 8 1) [1, 3, 5, 7])))"
  using ff3_decrypt_translates [OF _ ff3_split_zero [of 42]] by simp

end
