(* ===== verification/Rc5.thy ===== *)
theory Rc5
  imports Cipher
begin

text \<open>
  The 32-bit block cipher RC5-16/20 of \<^verbatim>\<open>enc_lib/rc5.h\<close> and the whitened wrappers
  \<^verbatim>\<open>nat_encrypt_rc5\<close>, \<^verbatim>\<open>nat_decrypt_rc5\<close> of \<^verbatim>\<open>enc_lib/nat_enc.h\<close>.  The C
  expressions are computed in \<^verbatim>\<open>int\<close> and cut to 16 bits on assignment or by
  \<^verbatim>\<open>RC5_16_MASK\<close>; the model computes on 16-bit words, where a shift by 16 gives 0
  as the cut does.
\<close>

section \<open>The code\<close>

definition ROTATE_l16 :: "u16 \<Rightarrow> u16 \<Rightarrow> u16" where
  "ROTATE_l16 a n = push_bit (unat (n AND 0xf)) a OR drop_bit (16 - unat (n AND 0xf)) a"

definition ROTATE_r16 :: "u16 \<Rightarrow> u16 \<Rightarrow> u16" where
  "ROTATE_r16 a n = push_bit (16 - unat (n AND 0xf)) a OR drop_bit (unat (n AND 0xf)) a"

definition E_RC5_16 :: "u16 list \<Rightarrow> nat \<Rightarrow> u16 \<times> u16 \<Rightarrow> u16 \<times> u16" where
  "E_RC5_16 s n = (\<lambda>(a, b).
     let a = a XOR b;
         a = ROTATE_l16 a b;
         a = a + s ! n;
         b = b XOR a;
         b = ROTATE_l16 b a;
         b = b + s ! (n + 1)
     in (a, b))"

definition D_RC5_16 :: "u16 list \<Rightarrow> nat \<Rightarrow> u16 \<times> u16 \<Rightarrow> u16 \<times> u16" where
  "D_RC5_16 s n = (\<lambda>(a, b).
     let b = b - s ! (n + 1);
         b = ROTATE_r16 b a;
         b = b XOR a;
         a = a - s ! n;
         a = ROTATE_r16 a b;
         a = a XOR b
     in (a, b))"

text \<open>The twenty unrolled rounds use the key words 2, 4, ..., 40.\<close>

definition RC5_16_encrypt :: "u16 list \<Rightarrow> u16 \<times> u16 \<Rightarrow> u16 \<times> u16" where
  "RC5_16_encrypt s = (\<lambda>(d0, d1).
     fold (\<lambda>i. E_RC5_16 s (2 * i + 2)) [0..<20] (d0 + s ! 0, d1 + s ! 1))"

definition RC5_16_decrypt :: "u16 list \<Rightarrow> u16 \<times> u16 \<Rightarrow> u16 \<times> u16" where
  "RC5_16_decrypt s = (\<lambda>(d0, d1).
     let (a, b) = fold (\<lambda>i. D_RC5_16 s (2 * i + 2)) (rev [0..<20]) (d0, d1)
     in (a - s ! 0, b - s ! 1))"

text \<open>\<^verbatim>\<open>(uint16_t *)&val\<close>: the two halves of a 32-bit object, the low one first.\<close>

definition halves16 :: "u32 \<Rightarrow> u16 \<times> u16" where
  "halves16 w = (ucast w, ucast (drop_bit 16 w))"

definition join16 :: "u16 \<times> u16 \<Rightarrow> u32" where
  "join16 = (\<lambda>(a, b). ucast a OR push_bit 16 (ucast b))"

definition nat_encrypt_rc5 :: "u32 \<Rightarrow> u16 list \<Rightarrow> bytes \<Rightarrow> u32" where
  "nat_encrypt_rc5 pt key hash =
     (let ptr32 = load 4 hash 0;
          val = pt XOR ptr32;
          val = join16 (RC5_16_encrypt key (halves16 val))
      in val XOR ptr32)"

definition nat_decrypt_rc5 :: "u32 \<Rightarrow> u16 list \<Rightarrow> bytes \<Rightarrow> u32" where
  "nat_decrypt_rc5 ct key hash =
     (let ptr32 = load 4 hash 0;
          val = ct XOR ptr32;
          val = join16 (RC5_16_decrypt key (halves16 val))
      in val XOR ptr32)"

section \<open>Decryption undoes encryption\<close>

lemma unat_and_15: "unat (n AND 0xf :: u16) < 16"
  using unat_take_bit_less [of 4 n] mask_and_word(2) [of n 4] by simp

lemma ROTATE_l16_rotl: "ROTATE_l16 a n = word_rotl (unat (n AND 0xf)) a"
  using shifts_word_rotl [of "unat (n AND 0xf)" a] unat_and_15 [of n] by (simp add: ROTATE_l16_def)

lemma ROTATE_r16_rotr: "ROTATE_r16 a n = word_rotr (unat (n AND 0xf)) a"
  using shifts_word_rotr [of "unat (n AND 0xf)" a] unat_and_15 [of n] by (simp add: ROTATE_r16_def)

interpretation rc5_rounds: round_cipher "\<lambda>i s. True" "\<lambda>i. E_RC5_16 s (2 * i + 2)" "\<lambda>i. D_RC5_16 s (2 * i + 2)"
  for s
  by unfold_locales
    (auto simp: E_RC5_16_def D_RC5_16_def Let_def ROTATE_l16_rotl ROTATE_r16_rotr xor.assoc)

lemma join16_halves16 [simp]: "join16 (halves16 w) = w"
  by (rule bit_word_eqI) (auto simp: join16_def halves16_def bit_simps)

lemma halves16_join16 [simp]: "halves16 (join16 p) = p"
proof -
  obtain a b where "p = (a, b)" by fastforce
  moreover have "ucast (ucast a OR push_bit 16 (ucast b) :: u32) = a" for a b :: u16
    by (rule bit_word_eqI) (auto simp: bit_simps)
  moreover have "ucast (drop_bit 16 (ucast a OR push_bit 16 (ucast b) :: u32)) = b" for a b :: u16
    by (rule bit_word_eqI) (auto simp: bit_simps dest: bit_imp_le_length)
  ultimately show ?thesis by (simp add: join16_def halves16_def)
qed

lemma RC5_16_decrypt_encrypt [simp]: "RC5_16_decrypt s (RC5_16_encrypt s d) = d"
proof -
  obtain d0 d1 where d: "d = (d0, d1)" by fastforce
  show ?thesis
    using rc5_rounds.inv_rounds_rounds [of s 20 "(d0 + s ! 0, d1 + s ! 1)"]
    by (auto simp: d RC5_16_encrypt_def RC5_16_decrypt_def split: prod.split)
qed

lemma RC5_16_encrypt_decrypt [simp]: "RC5_16_encrypt s (RC5_16_decrypt s d) = d"
proof -
  obtain a b where d: "fold (\<lambda>i. D_RC5_16 s (2 * i + 2)) (rev [0..<20]) d = (a, b)" by fastforce
  then have "RC5_16_decrypt s d = (a - s ! 0, b - s ! 1)"
    by (cases d) (simp add: RC5_16_decrypt_def)
  with rc5_rounds.rounds_inv_rounds [of s 20 d] d show ?thesis
    by (simp add: RC5_16_encrypt_def)
qed

interpretation rc5_nat: block_cipher UNIV "\<lambda>w. nat_encrypt_rc5 w key hash" "\<lambda>w. nat_decrypt_rc5 w key hash"
  for key hash
  by unfold_locales (simp_all add: nat_encrypt_rc5_def nat_decrypt_rc5_def Let_def xor.assoc)

text \<open>C37: For every expanded key and every hash, the RC5 branch of the NAT decrypts what it
  encrypted and encrypts what it decrypted, so both are permutations of the 32-bit words.\<close>

theorem nat_rc5_roundtrip:
  "nat_decrypt_rc5 (nat_encrypt_rc5 w key hash) key hash = w
   \<and> nat_encrypt_rc5 (nat_decrypt_rc5 w key hash) key hash = w
   \<and> bij (\<lambda>w. nat_encrypt_rc5 w key hash)"
  using rc5_nat.dec_enc rc5_nat.enc_dec rc5_nat.bij_enc by simp

end
