(* ===== verification/Chacha.thy ===== *)
theory Chacha
  imports Cipher
begin

text \<open>
  The ChaCha20 stream cipher of \<^verbatim>\<open>enc_lib/chacha20/chacha.c\<close>.  The context
  \<^verbatim>\<open>ECRYPT_ctx\<close> is its array \<^verbatim>\<open>input\<close> of sixteen words.  The code restores the
  block counter (words 12 and 13) before it returns, so a second call starts on the same
  key stream.
\<close>

type_synonym ECRYPT_ctx = "u32 list"

section \<open>The code\<close>

definition ROTATE :: "u32 \<Rightarrow> nat \<Rightarrow> u32" where
  "ROTATE v c = push_bit c v OR drop_bit (32 - c) v"

definition QUARTERROUND :: "nat \<Rightarrow> nat \<Rightarrow> nat \<Rightarrow> nat \<Rightarrow> u32 list \<Rightarrow> u32 list" where
  "QUARTERROUND a b c d x =
     (let x = x[a := x ! a + x ! b]; x = x[d := ROTATE (x ! d XOR x ! a) 16];
          x = x[c := x ! c + x ! d]; x = x[b := ROTATE (x ! b XOR x ! c) 12];
          x = x[a := x ! a + x ! b]; x = x[d := ROTATE (x ! d XOR x ! a) 8];
          x = x[c := x ! c + x ! d]; x = x[b := ROTATE (x ! b XOR x ! c) 7]
      in x)"

definition doubleround :: "u32 list \<Rightarrow> u32 list" where
  "doubleround x =
     (let x = QUARTERROUND 0 4 8 12 x;
          x = QUARTERROUND 1 5 9 13 x;
          x = QUARTERROUND 2 6 10 14 x;
          x = QUARTERROUND 3 7 11 15 x;
          x = QUARTERROUND 0 5 10 15 x;
          x = QUARTERROUND 1 6 11 12 x;
          x = QUARTERROUND 2 7 8 13 x;
          x = QUARTERROUND 3 4 9 14 x
      in x)"

definition salsa20_wordtobyte :: "u32 list \<Rightarrow> bytes" where
  "salsa20_wordtobyte input =
     (let x = (doubleround ^^ 10) (map (\<lambda>i. input ! i) [0..<16]);
          x = map (\<lambda>i. x ! i + input ! i) [0..<16]
      in concat (map (le_bytes 4) x))"

definition sigma :: bytes where
  "sigma = [0x65, 0x78, 0x70, 0x61, 0x6e, 0x64, 0x20, 0x33, 0x32, 0x2d, 0x62, 0x79, 0x74, 0x65, 0x20, 0x6b]"

definition tau :: bytes where
  "tau = [0x65, 0x78, 0x70, 0x61, 0x6e, 0x64, 0x20, 0x31, 0x36, 0x2d, 0x62, 0x79, 0x74, 0x65, 0x20, 0x6b]"

definition ECRYPT_keysetup :: "ECRYPT_ctx \<Rightarrow> bytes \<Rightarrow> nat \<Rightarrow> nat \<Rightarrow> ECRYPT_ctx" where
  "ECRYPT_keysetup x k kbits ivbits =
     (let x = x[4 := load 4 k 0, 5 := load 4 k 4, 6 := load 4 k 8, 7 := load 4 k 12];
          (k, constants) = (if kbits = 256 then (drop 16 k, sigma) else (k, tau));
          x = x[8 := load 4 k 0, 9 := load 4 k 4, 10 := load 4 k 8, 11 := load 4 k 12]
      in x[0 := load 4 constants 0, 1 := load 4 constants 4,
           2 := load 4 constants 8, 3 := load 4 constants 12])"

definition ECRYPT_ivsetup :: "ECRYPT_ctx \<Rightarrow> bytes \<Rightarrow> ECRYPT_ctx" where
  "ECRYPT_ivsetup x iv = x[12 := 0, 13 := 0, 14 := load 4 iv 0, 15 := load 4 iv 4]"

text \<open>The counter step of the loop body.\<close>

definition next_counter :: "ECRYPT_ctx \<Rightarrow> ECRYPT_ctx" where
  "next_counter x =
     (let x = x[12 := x ! 12 + 1]
      in if x ! 12 = 0 then x[13 := x ! 13 + 1] else x)"

text \<open>The endless loop with its return when at most 64 bytes are left; \<open>x12\<close>, \<open>x13\<close>
  are the saved counter words.\<close>

function encrypt_loop :: "ECRYPT_ctx \<Rightarrow> u32 \<Rightarrow> u32 \<Rightarrow> bytes \<Rightarrow> nat \<Rightarrow> ECRYPT_ctx \<times> bytes" where
  "encrypt_loop x x12 x13 m bytes =
     (let out = salsa20_wordtobyte x;
          x = next_counter x
      in if bytes \<le> 64
         then (x[12 := x12, 13 := x13], map (\<lambda>i. m ! i XOR out ! i) [0..<bytes])
         else let c = map (\<lambda>i. m ! i XOR out ! i) [0..<64];
                  (x, cs) = encrypt_loop x x12 x13 (drop 64 m) (bytes - 64)
              in (x, c @ cs))"
  by pat_completeness auto
termination by (relation "measure (\<lambda>(x, x12, x13, m, bytes). bytes)") auto

declare encrypt_loop.simps [simp del]

definition ECRYPT_encrypt_bytes :: "ECRYPT_ctx \<Rightarrow> bytes \<Rightarrow> nat \<Rightarrow> ECRYPT_ctx \<times> bytes" where
  "ECRYPT_encrypt_bytes x m bytes =
     (if bytes = 0 then (x, []) else encrypt_loop x (x ! 12) (x ! 13) m bytes)"

definition ECRYPT_decrypt_bytes :: "ECRYPT_ctx \<Rightarrow> bytes \<Rightarrow> nat \<Rightarrow> ECRYPT_ctx \<times> bytes" where
  "ECRYPT_decrypt_bytes x c bytes = ECRYPT_encrypt_bytes x c bytes"

definition ECRYPT_keystream_bytes :: "ECRYPT_ctx \<Rightarrow> nat \<Rightarrow> ECRYPT_ctx \<times> bytes" where
  "ECRYPT_keystream_bytes x bytes = ECRYPT_encrypt_bytes x (replicate bytes 0) bytes"

section \<open>The key stream\<close>

lemma length_QUARTERROUND [simp]: "length (QUARTERROUND a b c d x) = length x"
  by (simp add: QUARTERROUND_def Let_def)

lemma length_doubleround [simp]: "length (doubleround x) = length x"
  by (simp add: doubleround_def Let_def)

lemma length_doubleround_pow [simp]: "length ((doubleround ^^ n) x) = length x"
  by (induction n) simp_all

lemma length_salsa20_wordtobyte [simp]: "length (salsa20_wordtobyte x) = 64"
  by (simp add: salsa20_wordtobyte_def Let_def length_concat comp_def sum_list_triv)

lemma length_next_counter [simp]: "length (next_counter x) = length x"
  by (simp add: next_counter_def Let_def)

text \<open>The key stream as a function of the context alone: block \<open>j\<close> is the output block of
  the context whose counter was stepped \<open>j\<close> times.\<close>

definition keystream :: "ECRYPT_ctx \<Rightarrow> nat \<Rightarrow> u8" where
  "keystream x i = salsa20_wordtobyte ((next_counter ^^ (i div 64)) x) ! (i mod 64)"

lemma keystream_shift: "keystream x (64 + i) = keystream (next_counter x) i"
proof -
  have "(64 + i) div 64 = Suc (i div 64)" by simp
  then show ?thesis by (simp add: keystream_def funpow_Suc_right del: funpow.simps)
qed

lemma keystream_first: "i < 64 \<Longrightarrow> keystream x i = salsa20_wordtobyte x ! i"
  by (simp add: keystream_def)

lemma next_counter_restored: "(next_counter x)[12 := a, 13 := b] = x[12 := a, 13 := b]"
  by (simp add: next_counter_def Let_def list_update_swap [of 13 12])

lemma encrypt_loop_eq:
  assumes "bytes \<le> length m"
  shows "encrypt_loop x x12 x13 m bytes =
    (x[12 := x12, 13 := x13], map (\<lambda>i. m ! i XOR keystream x i) [0..<bytes])"
  using assms
proof (induction x x12 x13 m bytes rule: encrypt_loop.induct)
  case (1 x x12 x13 m bytes)
  show ?case
  proof (cases "bytes \<le> 64")
    case True
    then show ?thesis
      by (subst encrypt_loop.simps) (simp add: Let_def next_counter_restored keystream_first)
  next
    case False
    then have IH: "encrypt_loop (next_counter x) x12 x13 (drop 64 m) (bytes - 64) =
      (x[12 := x12, 13 := x13], map (\<lambda>i. drop 64 m ! i XOR keystream (next_counter x) i) [0..<bytes - 64])"
      using 1 by (simp add: next_counter_restored)
    have "[0..<bytes] = [0..<64] @ map (\<lambda>i. 64 + i) [0..<bytes - 64]"
      using upt_add_eq_append [of 0 64 "bytes - 64"] False
      by (simp add: map_add_upt add.commute [of 64])
    then have "map (\<lambda>i. m ! i XOR keystream x i) [0..<bytes] =
      map (\<lambda>i. m ! i XOR salsa20_wordtobyte x ! i) [0..<64]
      @ map (\<lambda>i. drop 64 m ! i XOR keystream (next_counter x) i) [0..<bytes - 64]"
      using 1(2) by (simp add: keystream_shift keystream_first)
    with False IH show ?thesis
      by (subst encrypt_loop.simps) (simp add: Let_def)
  qed
qed

lemma ECRYPT_encrypt_bytes_eq:
  assumes "bytes \<le> length m"
  shows "ECRYPT_encrypt_bytes x m bytes = (x, map (\<lambda>i. m ! i XOR keystream x i) [0..<bytes])"
  using assms by (simp add: ECRYPT_encrypt_bytes_def encrypt_loop_eq)

interpretation chacha: block_cipher "{m. length m = n}"
  "\<lambda>m. snd (ECRYPT_encrypt_bytes x m n)" "\<lambda>m. snd (ECRYPT_decrypt_bytes x m n)" for x n
  by unfold_locales
    (auto simp: ECRYPT_decrypt_bytes_def ECRYPT_encrypt_bytes_eq xor.assoc intro: nth_equalityI)

section \<open>Properties\<close>

text \<open>C38: Encrypting leaves the context as it was (the counter is restored) and combines the
  message with a key stream that depends on the context alone and that
  \<^verbatim>\<open>ECRYPT_keystream_bytes\<close> writes; decrypting the result gives the message back.\<close>

theorem ECRYPT_roundtrip:
  assumes "length m = n"
  shows "ECRYPT_encrypt_bytes x m n
      = (x, map2 (XOR) m (snd (ECRYPT_keystream_bytes x n)))
    \<and> ECRYPT_decrypt_bytes x (snd (ECRYPT_encrypt_bytes x m n)) n = (x, m)"
proof
  show "ECRYPT_encrypt_bytes x m n = (x, map2 (XOR) m (snd (ECRYPT_keystream_bytes x n)))"
    using assms
    by (auto simp: ECRYPT_encrypt_bytes_eq ECRYPT_keystream_bytes_def intro!: nth_equalityI)
  show "ECRYPT_decrypt_bytes x (snd (ECRYPT_encrypt_bytes x m n)) n = (x, m)"
    using chacha.dec_enc [of m n x] assms
    by (auto simp: ECRYPT_encrypt_bytes_eq ECRYPT_decrypt_bytes_def)
qed

theorem ECRYPT_roundtrip_witness:
  "ECRYPT_decrypt_bytes (replicate 16 0) (snd (ECRYPT_encrypt_bytes (replicate 16 0) [1, 2, 3] 3)) 3
   = (replicate 16 0, [1, 2, 3])"
  by (rule conjunct2 [OF ECRYPT_roundtrip]) simp

text \<open>After \<^verbatim>\<open>ECRYPT_keysetup\<close> and \<^verbatim>\<open>ECRYPT_ivsetup\<close> the context depends only on the
  constants, the key and the IV: no word of the old context is left.\<close>

theorem ECRYPT_setup_determines_context:
  assumes "length x = 16"
  shows "ECRYPT_ivsetup (ECRYPT_keysetup x k kbits ivbits) iv =
    map (load 4 (if kbits = 256 then sigma else tau)) [0, 4, 8, 12]
    @ map (load 4 k) [0, 4, 8, 12]
    @ map (load 4 k) (if kbits = 256 then [16, 20, 24, 28] else [0, 4, 8, 12])
    @ [0, 0, load 4 iv 0, load 4 iv 4]"
proof -
  obtain x0 x1 x2 x3 x4 x5 x6 x7 x8 x9 x10 x11 x12 x13 x14 x15 where
    "x = [x0, x1, x2, x3, x4, x5, x6, x7, x8, x9, x10, x11, x12, x13, x14, x15]"
    using assms by (auto simp: numeral_eq_Suc length_Suc_conv)
  then show ?thesis
    by (simp add: ECRYPT_ivsetup_def ECRYPT_keysetup_def load_def add.commute)
qed

theorem ECRYPT_setup_determines_context_witness:
  "ECRYPT_ivsetup (ECRYPT_keysetup (replicate 16 7) (replicate 32 1) 256 32) (replicate 8 2) =
   ECRYPT_ivsetup (ECRYPT_keysetup (replicate 16 0) (replicate 32 1) 256 32) (replicate 8 2)"
  using ECRYPT_setup_determines_context [of "replicate 16 7"]
    ECRYPT_setup_determines_context [of "replicate 16 0"] by simp

end
