(* ===== verification/Aesni.thy ===== *)
theory Aesni
  imports Prelude
begin

text \<open>
  Aligned allocation and key set-up: \<^verbatim>\<open>malloc_aligned\<close>, \<^verbatim>\<open>free_aligned\<close>,
  \<^verbatim>\<open>aes_assembly_init\<close> of \<^verbatim>\<open>enc_lib/ff3/lib/aesni.c\<close> and \<^verbatim>\<open>init_key\<close>,
  \<^verbatim>\<open>destroy_key\<close> of \<^verbatim>\<open>enc_lib/ff3/ff_lib.h\<close>.  The heap is byte memory
  addressed by 64-bit words and the table of live \<^verbatim>\<open>malloc\<close> blocks with their sizes;
  a run that is undefined in C (freeing what was not allocated, writing through a null
  pointer) is \<open>None\<close>.  The address \<^verbatim>\<open>malloc\<close> picks is the argument \<open>malloc\<close>,
  0 when it fails.  Sizes are computed in 64 bits and wrap around.  The AES-NI routine \<^verbatim>\<open>ExpandKey128\<close> is the argument \<open>expand\<close>.
\<close>

record heap =
  mem :: "u64 \<Rightarrow> u8"
  blocks :: "u64 \<rightharpoonup> nat"

section \<open>The code\<close>

definition write_mem :: "heap \<Rightarrow> u64 \<Rightarrow> bytes \<Rightarrow> heap" where
  "write_mem h a ys = h\<lparr>mem := fold (\<lambda>(i, y) m. m(a + of_nat i := y)) (enumerate 0 ys) (mem h)\<rparr>"

definition read64 :: "heap \<Rightarrow> u64 \<Rightarrow> u64" where
  "read64 h a = le_word (map (\<lambda>i. mem h (a + of_nat i)) [0..<8])"

definition libc_malloc :: "(heap \<Rightarrow> nat \<Rightarrow> u64) \<Rightarrow> nat \<Rightarrow> heap \<Rightarrow> u64 \<times> heap" where
  "libc_malloc malloc n h =
     (let p = malloc h n in if p = 0 then (0, h) else (p, h\<lparr>blocks := (blocks h)(p \<mapsto> n)\<rparr>))"

definition libc_free :: "u64 \<Rightarrow> heap \<Rightarrow> heap option" where
  "libc_free p h =
     (if p = 0 then Some h
      else if blocks h p = None then None
      else Some (h\<lparr>blocks := (blocks h)(p := None)\<rparr>))"

text \<open>Both sizes are \<^verbatim>\<open>size_t\<close>, and nothing checks that the sum fits.\<close>

definition malloc_aligned :: "(heap \<Rightarrow> nat \<Rightarrow> u64) \<Rightarrow> u64 \<Rightarrow> u64 \<Rightarrow> heap \<Rightarrow> u64 \<times> heap" where
  "malloc_aligned malloc alignment bytes h =
     (let total_size = bytes + 2 * alignment + 8;
          (data, h) = libc_malloc malloc (unat total_size) h
      in if data \<noteq> 0 then
           let data_start = data;
               data = data + 8;
               offset = alignment - (data mod alignment);
               data = data + offset
           in (data, write_mem h (data - 8) (le_bytes 8 data_start))
         else (data, h))"

definition free_aligned :: "u64 \<Rightarrow> heap \<Rightarrow> heap option" where
  "free_aligned raw_data h =
     (if raw_data \<noteq> 0 then libc_free (read64 h (raw_data - 8)) h else Some h)"

text \<open>\<^verbatim>\<open>sizeof (10*16*sizeof (char))\<close> is the size of a \<^verbatim>\<open>size_t\<close>, so the
  \<^verbatim>\<open>memset\<close> clears 8 bytes.  With a null key nothing is returned, which is
  undefined for the caller.\<close>

definition aes_assembly_init ::
  "(heap \<Rightarrow> nat \<Rightarrow> u64) \<Rightarrow> (bytes \<Rightarrow> bytes) \<Rightarrow> bytes option \<Rightarrow> heap \<Rightarrow> (u64 \<times> heap) option" where
  "aes_assembly_init malloc expand enc_key h =
     (case enc_key of
        None \<Rightarrow> None
      | Some key \<Rightarrow>
          let (roundkey, h) = malloc_aligned malloc 16 (10 * 16 * 1) h
          in if roundkey = 0 then None
             else let h = write_mem h roundkey (replicate 8 0);
                      h = write_mem h roundkey (expand key)
                  in Some (roundkey, h))"

record keystruct =
  iv :: u64
  roundkey :: u64

definition init_key ::
  "(heap \<Rightarrow> nat \<Rightarrow> u64) \<Rightarrow> (bytes \<Rightarrow> bytes) \<Rightarrow> keystruct \<Rightarrow> bytes option \<Rightarrow> heap \<Rightarrow> (keystruct \<times> heap) option" where
  "init_key malloc expand rk key h =
     (case aes_assembly_init malloc expand key h of
        None \<Rightarrow> None
      | Some (p, h) \<Rightarrow> Some (rk\<lparr>roundkey := p\<rparr>, h))"

definition destroy_key :: "keystruct \<Rightarrow> heap \<Rightarrow> heap option" where
  "destroy_key rk h = free_aligned (roundkey rk) h"

section \<open>Memory\<close>

lemma blocks_write_mem [simp]: "blocks (write_mem h a ys) = blocks h"
  by (simp add: write_mem_def)

lemma mem_write_mem:
  assumes "length ys \<le> 2 ^ 64"
  shows "mem (write_mem h a ys) b =
    (if unat (b - a) < length ys then ys ! unat (b - a) else mem h b)"
proof -
  have "fold (\<lambda>(i, y) m. m(a + of_nat i := y)) (enumerate 0 ys) f b =
    (if unat (b - a) < length ys then ys ! unat (b - a) else f b)" for f :: "u64 \<Rightarrow> u8"
    using assms
  proof (induction ys rule: rev_induct)
    case Nil
    then show ?case by simp
  next
    case (snoc y ys)
    then have n: "unat (of_nat (length ys) :: u64) = length ys"
      by (simp add: unat_of_nat_eq)
    have "b = a + of_nat (length ys) \<longleftrightarrow> b - a = of_nat (length ys)"
      by (auto simp: algebra_simps)
    also have "\<dots> \<longleftrightarrow> unat (b - a) = length ys" by (metis n word_unat_eq_iff)
    finally have "b = a + of_nat (length ys) \<longleftrightarrow> unat (b - a) = length ys" .
    with snoc show ?case by (auto simp: enumerate_append_eq nth_append less_Suc_eq)
  qed
  then show ?thesis by (simp add: write_mem_def)
qed

lemma read64_write_same: "read64 (write_mem h a (le_bytes 8 w)) a = w"
proof -
  have "map (\<lambda>i. mem (write_mem h a (le_bytes 8 w)) (a + of_nat i)) [0..<8] = le_bytes 8 w"
    by (rule nth_equalityI) (auto simp: mem_write_mem unat_of_nat_eq)
  then show ?thesis unfolding read64_def by (simp add: le_word_le_bytes)
qed

text \<open>A write of \<open>ys\<close> at \<open>a\<close> leaves the eight bytes below \<open>a\<close> when it does not wrap around.\<close>

lemma read64_write_above:
  assumes "length ys \<le> 2 ^ 64 - 8"
  shows "read64 (write_mem h a ys) (a - 8) = read64 h (a - 8)"
proof -
  have "\<not> unat (a - 8 + of_nat i - a) < length ys" if "i < 8" for i
  proof -
    have "a - 8 + of_nat i - a = - of_nat (8 - i)" using that by (simp add: of_nat_diff)
    moreover have "unat (of_nat (8 - i) :: u64) = 8 - i" by (simp add: unat_of_nat_eq)
    moreover have "of_nat (8 - i) \<noteq> (0 :: u64)" using that calculation(2) by (metis unat_0 zero_less_diff less_numeral_extra(3))
    ultimately have "unat (a - 8 + of_nat i - a) = 2 ^ 64 - (8 - i)" by (simp only: unat_uminus if_False) simp
    then show ?thesis using assms by simp
  qed
  then have "map (\<lambda>i. mem (write_mem h a ys) (a - 8 + of_nat i)) [0..<8] =
    map (\<lambda>i. mem h (a - 8 + of_nat i)) [0..<8]"
    using assms by (auto simp: mem_write_mem)
  then show ?thesis unfolding read64_def by (simp only:)
qed

section \<open>Properties\<close>

text \<open>What \<^verbatim>\<open>malloc\<close> guarantees: a fresh block that does not wrap around the address
  space.\<close>

definition malloc_fresh :: "(heap \<Rightarrow> nat \<Rightarrow> u64) \<Rightarrow> heap \<Rightarrow> nat \<Rightarrow> bool" where
  "malloc_fresh malloc h n \<longleftrightarrow> malloc h n \<noteq> 0 \<longrightarrow>
     blocks h (malloc h n) = None \<and> unat (malloc h n) + n < 2 ^ 64"

lemma unat_plus_no_wrap: "unat (x :: u64) + unat y < 2 ^ 64 \<Longrightarrow> unat (x + y) = unat x + unat y"
  using unat_add_lem [of x y] by simp

lemma aligned_position:
  assumes "unat (d :: u64) + unat al < 2 ^ 64" and "0 < al"
  shows "unat (d + (al - d mod al)) = unat d + (unat al - unat d mod unat al)"
proof -
  have "unat d mod unat al < unat al" using assms(2) by (simp add: unat_gt_0)
  then have "unat (al - d mod al) = unat al - unat d mod unat al"
    by (simp add: unat_sub_if' unat_mod)
  then show ?thesis using assms(1) by (simp add: unat_plus_no_wrap)
qed

text \<open>The size that is asked for, when the sum of the sizes fits.\<close>

definition aligned_size :: "u64 \<Rightarrow> u64 \<Rightarrow> nat" where
  "aligned_size bytes al = unat bytes + 2 * unat al + 8"

lemma aligned_size_word: "unat (bytes + 2 * al + 8) = aligned_size bytes al mod 2 ^ 64"
proof -
  have "bytes + 2 * al + 8 = of_nat (aligned_size bytes al)" by (simp add: aligned_size_def)
  then show ?thesis by (simp only: unsigned_of_nat take_bit_eq_mod) simp
qed

lemma malloc_aligned_eq:
  assumes "aligned_size bytes al < 2 ^ 64" and "malloc h (aligned_size bytes al) = p" and "p \<noteq> 0"
    and "malloc_fresh malloc h (aligned_size bytes al)" and "0 < al"
  obtains p' h' where "malloc_aligned malloc al bytes h = (p', h')"
    and "unat p' = unat p + 8 + (unat al - (unat p + 8) mod unat al)" and "read64 h' (p' - 8) = p"
    and "blocks h' = (blocks h)(p \<mapsto> aligned_size bytes al)"
proof -
  let ?h = "h\<lparr>blocks := (blocks h)(p \<mapsto> aligned_size bytes al)\<rparr>"
  let ?q = "p + 8 + (al - (p + 8) mod al)"
  have n: "unat (bytes + 2 * al + 8) = aligned_size bytes al" using assms(1) by (simp only: aligned_size_word mod_less)
  have "unat p + aligned_size bytes al < 2 ^ 64" using assms(2-4) by (simp add: malloc_fresh_def)
  then have p8: "unat (p + 8) = unat p + 8" and "unat (p + 8) + unat al < 2 ^ 64"
    using unat_plus_no_wrap [of p 8] by (simp_all add: aligned_size_def)
  with aligned_position [OF _ assms(5), of "p + 8"]
  have "unat ?q = unat p + 8 + (unat al - (unat p + 8) mod unat al)" by simp
  moreover have "malloc_aligned malloc al bytes h = (?q, write_mem ?h (?q - 8) (le_bytes 8 p))"
    unfolding malloc_aligned_def Let_def n using assms(2,3) by (simp add: libc_malloc_def)
  moreover have "read64 (write_mem ?h (?q - 8) (le_bytes 8 p)) (?q - 8) = p"
    by (rule read64_write_same)
  ultimately show ?thesis using that by simp
qed

lemma malloc_aligned_block:
  assumes "malloc h (unat (bytes + 2 * al + 8)) = p" and "p \<noteq> 0"
  shows "blocks (snd (malloc_aligned malloc al bytes h)) p = Some (unat (bytes + 2 * al + 8))"
  using assms by (simp add: malloc_aligned_def libc_malloc_def Let_def)

text \<open>C40: \<^verbatim>\<open>malloc_aligned\<close> gives aligned memory exactly when the size it asks for does not
  overflow.  When \<^verbatim>\<open>malloc\<close> succeeds and the requested bytes, twice the alignment and the eight bytes
  of book-keeping fit a \<^verbatim>\<open>size_t\<close>, the result is a multiple of the alignment, the requested bytes and the
  eight bytes below them lie in the block that was allocated, and after any writes into the
  requested bytes \<^verbatim>\<open>free_aligned\<close> frees exactly that block.  When the sum wraps around (and twice
  the alignment alone does not), the block that was allocated is smaller than the bytes requested, which the
  code does not notice.\<close>

theorem malloc_aligned_free_aligned:
  assumes "malloc_fresh malloc h (unat (bytes + 2 * al + 8))"
    and "malloc h (unat (bytes + 2 * al + 8)) = p" and "p \<noteq> 0" and "0 < al" and "2 * unat al + 8 < 2 ^ 64"
    and "malloc_aligned malloc al bytes h = (p', h')"
    and "length ys \<le> unat bytes"
  shows "if unat bytes + 2 * unat al + 8 < 2 ^ 64
    then unat al dvd unat p'
      \<and> unat p + 8 < unat p' \<and> unat p' + unat bytes + unat al \<le> unat p + (unat bytes + 2 * unat al + 8)
      \<and> (\<exists>h''. free_aligned p' (write_mem h' p' ys) = Some h'' \<and> blocks h'' = blocks h)
    else \<exists>n. blocks h' p = Some n \<and> n < unat bytes"
proof (cases "aligned_size bytes al < 2 ^ 64")
  case True
  then have n: "unat (bytes + 2 * al + 8) = aligned_size bytes al" by (simp only: aligned_size_word mod_less)
  have fresh: "blocks h p = None" and no_wrap: "unat p + aligned_size bytes al < 2 ^ 64"
    using assms(1-3) by (simp_all add: malloc_fresh_def n)
  from malloc_aligned_eq [where malloc = malloc and h = h and p = p, OF True assms(2) [unfolded n] assms(3) assms(1) [unfolded n] assms(4)] assms(6)
  have u: "unat p' = unat p + 8 + (unat al - (unat p + 8) mod unat al)"
    and r: "read64 h' (p' - 8) = p" and b: "blocks h' = (blocks h)(p \<mapsto> aligned_size bytes al)"
    by auto
  have m: "(unat p + 8) mod unat al < unat al" using assms(4) by (simp add: unat_gt_0)
  have "unat al dvd unat p'"
  proof -
    have "unat p' = (unat p + 8) div unat al * unat al + unat al"
      using u m div_mult_mod_eq [of "unat p + 8" "unat al"] by linarith
    then show ?thesis by simp
  qed
  moreover have lo: "unat p + 8 < unat p'" and "unat p' + unat bytes + unat al \<le> unat p + (unat bytes + 2 * unat al + 8)"
    using u m by linarith+
  moreover have "length ys \<le> 2 ^ 64 - 8" using assms(7) True by (simp add: aligned_size_def)
  then have "read64 (write_mem h' p' ys) (p' - 8) = p" using r by (simp add: read64_write_above)
  moreover have "p' \<noteq> 0" using lo by (metis unat_0 not_less_zero)
  ultimately show ?thesis
    using True assms(3) b fresh by (auto simp: free_aligned_def libc_free_def aligned_size_def)
next
  case False
  have "unat bytes < 2 ^ 64" using unsigned_less [where 'a = nat, of bytes] by simp
  then have "aligned_size bytes al mod 2 ^ 64 = aligned_size bytes al - 2 ^ 64"
    using False assms(5) by (intro mod_nat_eqI) (simp_all add: aligned_size_def)
  then have "unat (bytes + 2 * al + 8) < unat bytes"
    unfolding aligned_size_word using False assms(5) by (simp add: aligned_size_def)
  then show ?thesis
    using False malloc_aligned_block [where malloc = malloc and h = h and bytes = bytes and al = al and p = p, OF assms(2,3)] assms(6) by (simp add: aligned_size_def)
qed

theorem malloc_aligned_free_aligned_witness:
  "(16 :: nat) dvd unat (fst (malloc_aligned (\<lambda>h n. 4104) 16 160 \<lparr>mem = \<lambda>a. 0, blocks = Map.empty\<rparr>))
   \<and> (\<exists>n. blocks (snd (malloc_aligned (\<lambda>h n. 4104) 16 (- 8) \<lparr>mem = \<lambda>a. 0, blocks = Map.empty\<rparr>)) 4104 = Some n
       \<and> n < unat (- 8 :: u64))"
proof -
  let ?h = "\<lparr>mem = \<lambda>a. 0 :: u8, blocks = Map.empty\<rparr>"
  obtain p' h' where m: "malloc_aligned (\<lambda>h n. 4104) 16 160 ?h = (p', h')" by fastforce
  obtain q' g' where n: "malloc_aligned (\<lambda>h n. 4104) 16 (- 8) ?h = (q', g')" by fastforce
  have f: "malloc_fresh (\<lambda>h n. 4104) ?h (unat (160 + 2 * 16 + 8 :: u64))"
    "malloc_fresh (\<lambda>h n. 4104) ?h (unat (- 8 + 2 * 16 + 8 :: u64))"
    by (simp_all add: malloc_fresh_def)
  have "(16 :: nat) dvd unat p'"
    using malloc_aligned_free_aligned [OF f(1) refl _ _ _ m, of "[]"] by simp
  moreover have "\<exists>n. blocks g' 4104 = Some n \<and> n < unat (- 8 :: u64)"
    using malloc_aligned_free_aligned [OF f(2) refl _ _ _ n, of "[]"] by (simp add: unat_uminus)
  ultimately show ?thesis by (simp add: m n)
qed

text \<open>\<^verbatim>\<open>aes_assembly_init\<close> requests 160 bytes, but the assembly writes the eleven round
  keys of AES-128, 176 bytes.  They still lie inside the block \<^verbatim>\<open>malloc\<close> returned (which
  has 200 bytes), because \<^verbatim>\<open>malloc\<close> returns multiples of 16; and \<^verbatim>\<open>destroy_key\<close>
  gives exactly this block back.\<close>

theorem init_key_destroy_key:
  assumes "malloc_fresh malloc h 200" and "malloc h 200 \<noteq> 0" and "16 dvd unat (malloc h 200)"
    and "length (expand key) = 176"
  shows "\<exists>rk' h' h''. init_key malloc expand rk (Some key) h = Some (rk', h')
    \<and> 16 dvd unat (roundkey rk')
    \<and> unat (malloc h 200) \<le> unat (roundkey rk')
    \<and> unat (roundkey rk') + length (expand key) \<le> unat (malloc h 200) + the (blocks h' (malloc h 200))
    \<and> (\<forall>i<176. mem h' (roundkey rk' + of_nat i) = expand key ! i)
    \<and> destroy_key rk' h' = Some h'' \<and> blocks h'' = blocks h"
proof -
  let ?p = "malloc h 200"
  have fresh: "blocks h ?p = None" and "unat ?p + 200 < 2 ^ 64"
    using assms(1,2) by (simp_all add: malloc_fresh_def)
  obtain p' h' where m: "malloc_aligned malloc 16 160 h = (p', h')"
    and u: "unat p' = unat ?p + 8 + (16 - (unat ?p + 8) mod 16)"
    and r: "read64 h' (p' - 8) = ?p" and b: "blocks h' = (blocks h)(?p \<mapsto> 200)"
    using malloc_aligned_eq [of 160 16 malloc h ?p] assms(1,2) by (auto simp: aligned_size_def)
  have "(unat ?p + 8) mod 16 = 8" using assms(3) by (auto elim!: dvdE)
  with u have u': "unat p' = unat ?p + 16" by simp
  then have "p' \<noteq> 0" by (metis unat_0 add_is_0 zero_neq_numeral)
  let ?h = "write_mem (write_mem h' p' (replicate 8 0)) p' (expand key)"
  have "init_key malloc expand rk (Some key) h = Some (rk\<lparr>roundkey := p'\<rparr>, ?h)"
    using m \<open>p' \<noteq> 0\<close> by (simp add: init_key_def aes_assembly_init_def Let_def)
  moreover have "mem ?h (p' + of_nat i) = expand key ! i" if "i < 176" for i
    using that assms(4) by (simp add: mem_write_mem unat_of_nat_eq)
  moreover have "read64 ?h (p' - 8) = ?p"
    using r assms(4) by (simp add: read64_write_above)
  then have "destroy_key (rk\<lparr>roundkey := p'\<rparr>) ?h = Some (?h\<lparr>blocks := (blocks h')(?p := None)\<rparr>)"
    using \<open>p' \<noteq> 0\<close> assms(2) b by (simp add: destroy_key_def free_aligned_def libc_free_def)
  moreover have "(blocks h')(?p := None) = blocks h" using b fresh by auto
  ultimately show ?thesis using assms(3,4) u' b by simp
qed

theorem init_key_destroy_key_witness:
  "\<exists>rk' h' h''. init_key (\<lambda>h n. 4096) (\<lambda>k. replicate 176 1) \<lparr>iv = 0, roundkey = 0\<rparr> (Some [])
      \<lparr>mem = \<lambda>a. 0, blocks = Map.empty\<rparr> = Some (rk', h')
    \<and> destroy_key rk' h' = Some h'' \<and> blocks h'' = Map.empty"
  using init_key_destroy_key [of "\<lambda>h n. 4096" "\<lparr>mem = \<lambda>a. 0, blocks = Map.empty\<rparr>"
      "\<lambda>k. replicate 176 1" "[]" "\<lparr>iv = 0, roundkey = 0\<rparr>"]
  by (auto simp: malloc_fresh_def)

end
