(* ===== verification/C_Strings.thy ===== *)
theory C_Strings
  imports Prelude "HOL-Library.Char_ord"
begin

text \<open>
  The C library functions the program calls on strings.  A C string is the list of its
  characters before the terminating zero.
\<close>

definition isdigit :: "char \<Rightarrow> bool" where
  "isdigit c \<longleftrightarrow> CHR ''0'' \<le> c \<and> c \<le> CHR ''9''"

definition digit_value :: "char \<Rightarrow> nat" where
  "digit_value c = of_char c - 48"

definition isspace :: "char \<Rightarrow> bool" where
  "isspace c \<longleftrightarrow> c = CHR '' '' \<or> (CHR 0x09 \<le> c \<and> c \<le> CHR 0x0D)"

definition dec_value :: "string \<Rightarrow> nat" where
  "dec_value s = fold (\<lambda>c n. n * 10 + digit_value c) (takeWhile isdigit s) 0"

text \<open>\<^verbatim>\<open>atoi\<close>: white space, a sign, digits; what follows is ignored, and without digits
  the value is 0.  (The value is not cut to 32 bits; the callers cut it further.)\<close>

definition atoi :: "string \<Rightarrow> int" where
  "atoi s = (case dropWhile isspace s of
       [] \<Rightarrow> 0
     | c # cs \<Rightarrow> if c = CHR ''-'' then - int (dec_value cs)
                else if c = CHR ''+'' then int (dec_value cs)
                else int (dec_value (c # cs)))"

text \<open>\<^verbatim>\<open>pos = strstr (s, "x"); *pos = 0\<close>: the part before the first \<open>c\<close> and
  the part after it; \<open>None\<close> when \<open>c\<close> does not occur (a null pointer in C).\<close>

definition split_at :: "char \<Rightarrow> string \<Rightarrow> (string \<times> string) option" where
  "split_at c s = (if c \<in> set s
     then Some (takeWhile (\<lambda>x. x \<noteq> c) s, tl (dropWhile (\<lambda>x. x \<noteq> c) s)) else None)"

lemma split_at_append [simp]: "c \<notin> set s \<Longrightarrow> split_at c (s @ c # r) = Some (s, r)"
  by (auto simp: split_at_def takeWhile_append dropWhile_append)

section \<open>Decimal notation\<close>

text \<open>What \<^verbatim>\<open>printf ("%u")\<close> writes, to state what the parsers read.\<close>

definition digit_char :: "nat \<Rightarrow> char" where
  "digit_char d = char_of (48 + d)"

fun show_dec :: "nat \<Rightarrow> string" where
  "show_dec n = (if n < 10 then [digit_char n] else show_dec (n div 10) @ [digit_char (n mod 10)])"

declare show_dec.simps [simp del]

lemma of_char_digit_char: "d < 10 \<Longrightarrow> (of_char (digit_char d) :: nat) = 48 + d"
  by (simp add: digit_char_def of_char_of)

lemma digit_value_digit_char [simp]: "d < 10 \<Longrightarrow> digit_value (digit_char d) = d"
  by (simp add: digit_value_def of_char_digit_char)

lemma isdigit_iff: "isdigit c \<longleftrightarrow> 48 \<le> (of_char c :: nat) \<and> (of_char c :: nat) \<le> 57"
  by (simp add: isdigit_def less_eq_char_def)

lemma isdigit_digit_char [simp]: "d < 10 \<Longrightarrow> isdigit (digit_char d)"
  by (simp add: isdigit_iff of_char_digit_char)

lemma isdigit_show_dec: "c \<in> set (show_dec n) \<Longrightarrow> isdigit c"
  by (induction n rule: show_dec.induct) (subst (asm) (2) show_dec.simps, auto split: if_splits)

lemma show_dec_not_Nil [simp]: "show_dec n \<noteq> []"
  by (subst show_dec.simps) simp

lemma fold_show_dec: "fold (\<lambda>c n. n * 10 + digit_value c) (show_dec n) 0 = n"
proof (induction n rule: show_dec.induct)
  case (1 n)
  then show ?case by (subst show_dec.simps) auto
qed

lemma dec_value_show_dec [simp]:
  "r = [] \<or> \<not> isdigit (hd r) \<Longrightarrow> dec_value (show_dec n @ r) = n"
proof -
  assume "r = [] \<or> \<not> isdigit (hd r)"
  then have "takeWhile isdigit (show_dec n @ r) = show_dec n"
    using isdigit_show_dec by (subst takeWhile_append2) (auto simp: takeWhile_eq_Nil_iff)
  then show ?thesis by (simp add: dec_value_def fold_show_dec)
qed

lemma isdigit_not_special:
  "isdigit c \<Longrightarrow> \<not> isspace c" "isdigit c \<Longrightarrow> c \<noteq> CHR ''-''" "isdigit c \<Longrightarrow> c \<noteq> CHR ''+''"
  "isdigit c \<Longrightarrow> c \<noteq> CHR ''.''" "isdigit c \<Longrightarrow> c \<noteq> CHR ''/''" "isdigit c \<Longrightarrow> c \<noteq> CHR '',''"
  "isdigit c \<Longrightarrow> c \<noteq> CHR ''(''" "isdigit c \<Longrightarrow> c \<noteq> CHR '')''" "isdigit c \<Longrightarrow> c \<noteq> CHR '':''"
  by (auto simp: isdigit_iff isspace_def less_eq_char_def)

lemma atoi_show_dec [simp]:
  "r = [] \<or> \<not> isdigit (hd r) \<Longrightarrow> atoi (show_dec n @ r) = int n"
proof -
  assume r: "r = [] \<or> \<not> isdigit (hd r)"
  obtain c cs where s: "show_dec n = c # cs" by (cases "show_dec n") auto
  then have "isdigit c" using isdigit_show_dec [of c n] by simp
  then have "dropWhile isspace (show_dec n @ r) = c # (cs @ r)" and "c \<noteq> CHR ''-''" "c \<noteq> CHR ''+''"
    using s isdigit_not_special by auto
  moreover have "dec_value (c # cs @ r) = n" using dec_value_show_dec [OF r, of n] s by simp
  ultimately show ?thesis by (simp add: atoi_def)
qed

lemma atoi_show_dec' [simp]: "atoi (show_dec n) = int n"
  using atoi_show_dec [of "[]" n] by simp

lemma not_in_show_dec: "\<not> isdigit c \<Longrightarrow> c \<notin> set (show_dec n)"
  using isdigit_show_dec by blast

end
