(* ===== verification/Prefix_Table.thy ===== *)
theory Prefix_Table
  imports C_Strings "HOL-Library.Signed_Division"
begin

text \<open>
  The address tables of \<^verbatim>\<open>nat.c\<close>: \<^verbatim>\<open>load_rtbl\<close> reads the rows of a route file
  (prefix, first index) into the two arrays; \<^verbatim>\<open>idx_to_ip\<close> and \<^verbatim>\<open>ip_to_idx\<close>
  translate between the dense index the cipher permutes and the public address.  The arrays
  are functions, zero where nothing was written (\<^verbatim>\<open>rte_zmalloc\<close>); the \<^verbatim>\<open>int32_t\<close>
  values are integers.  The while loop of \<^verbatim>\<open>idx_to_ip\<close> may run forever, so it is a
  \<open>partial_function\<close>.
\<close>

section \<open>The code\<close>

record prefix_table =
  prev_prefix :: int
  next_prefix :: int
  index :: int

definition zero_prefix :: prefix_table where
  "zero_prefix = \<lparr>prev_prefix = 0, next_prefix = 0, index = 0\<rparr>"

text \<open>\<^verbatim>\<open>struct nat_table\<close>, with the globals \<^verbatim>\<open>MAX_IDX\<close> and \<^verbatim>\<open>MAX_PREFIX\<close>.\<close>

record nat_table =
  prefix_tbl :: "int \<Rightarrow> prefix_table"
  idx_tbl :: "int \<Rightarrow> int"
  MAX_IDX :: int
  MAX_PREFIX :: int

text \<open>The variables of \<^verbatim>\<open>load_rtbl\<close> that live across rows.\<close>

record load_state =
  tab :: "int \<Rightarrow> prefix_table"
  idx_table :: "int \<Rightarrow> int"
  cur_mask :: nat
  cur_idx :: int
  cur_p :: int
  prev_pos :: int
  prev_p :: int
  prev_idx :: int
  next_prefix_ptr :: "int option"

definition IPv4 :: "u8 \<Rightarrow> u8 \<Rightarrow> u8 \<Rightarrow> u8 \<Rightarrow> u32" where
  "IPv4 a b c d = push_bit 24 (ucast a) + push_bit 16 (ucast b) + push_bit 8 (ucast c) + ucast d"

text \<open>The text of a prefix; \<open>None\<close> where \<^verbatim>\<open>strstr\<close> returns a null pointer that the code
  then writes through.\<close>

definition parse_prefix :: "string \<Rightarrow> (nat \<times> u32) option" where
  "parse_prefix prefix =
     (case split_at (CHR ''/'') prefix of None \<Rightarrow> None
      | Some (ptr, m) \<Rightarrow>
     (case split_at (CHR ''.'') ptr of None \<Rightarrow> None
      | Some (a, ptr) \<Rightarrow>
     (case split_at (CHR ''.'') ptr of None \<Rightarrow> None
      | Some (b, ptr) \<Rightarrow>
     (case split_at (CHR ''.'') ptr of None \<Rightarrow> None
      | Some (c, ptr) \<Rightarrow>
        Some (nat (atoi m mod 256),
              IPv4 (of_int (atoi a)) (of_int (atoi b)) (of_int (atoi c)) (of_int (atoi ptr)))))))"

definition prefix_key :: "nat \<Rightarrow> u32 \<Rightarrow> int option" where
  "prefix_key plen addr =
     (if plen = 8 then Some (uint (drop_bit 24 addr))
      else if plen = 16 then Some (uint (drop_bit 16 addr))
      else if plen = 24 then Some (uint (drop_bit 8 addr))
      else None)"

definition update_idx_table :: "int \<Rightarrow> int \<Rightarrow> int \<Rightarrow> (int \<Rightarrow> int) \<Rightarrow> int \<Rightarrow> int" where
  "update_idx_table idx last_idx p it =
     (if idx = 0 then it(0 := p)
      else if idx sdiv (65536 * 256) \<noteq> last_idx sdiv (65536 * 256) then it(idx sdiv (65536 * 256) := p)
      else if idx sdiv 65536 \<noteq> last_idx sdiv 65536 then it(idx sdiv 65536 := p)
      else it)"

text \<open>The three writes to the prefix table: the pending \<^verbatim>\<open>next_prefix\<close> of the row before,
  the gap between the two rows, the new row.\<close>

definition update_prefix_table :: "int \<Rightarrow> int \<Rightarrow> load_state \<Rightarrow> int \<Rightarrow> prefix_table" where
  "update_prefix_table p idx s =
     (let tb = (case next_prefix_ptr s of
                  Some q \<Rightarrow> (tab s)(q := (tab s q)\<lparr>next_prefix := p\<rparr>)
                | None \<Rightarrow> tab s);
          tb = (\<lambda>i. if prev_pos s \<le> i \<and> i < p
                    then \<lparr>prev_prefix = prev_p s, next_prefix = p, index = prev_idx s\<rparr> else tb i)
      in tb(p := (tb p)\<lparr>prev_prefix := p, index := idx\<rparr>))"

definition load_row :: "nat \<times> u32 \<times> int \<Rightarrow> load_state \<Rightarrow> load_state" where
  "load_row = (\<lambda>(plen, addr, idx) s.
     let s = s\<lparr>cur_mask := plen, cur_idx := idx\<rparr>
     in case prefix_key plen addr of
          None \<Rightarrow> s
        | Some p \<Rightarrow>
            s\<lparr>cur_p := p,
              idx_table := update_idx_table idx (prev_idx s) p (idx_table s),
              tab := update_prefix_table p idx s,
              next_prefix_ptr := Some p,
              prev_idx := idx,
              prev_p := p,
              prev_pos := p + 1\<rparr>)"

definition load_init :: load_state where
  "load_init = \<lparr>tab = \<lambda>_. zero_prefix, idx_table = \<lambda>_. 0, cur_mask = 32, cur_idx = 0, cur_p = -1,
     prev_pos = 1, prev_p = -1, prev_idx = -1, next_prefix_ptr = None\<rparr>"

definition load_finish :: "load_state \<Rightarrow> nat_table" where
  "load_finish s =
     (let p = cur_p s;
          tb = (tab s)(p := (tab s p)\<lparr>next_prefix := p + 1\<rparr>);
          tb = tb(p + 1 := (tb (p + 1))\<lparr>index := index (tb p) + 2 ^ (32 - cur_mask s)\<rparr>)
      in \<lparr>prefix_tbl = tb, idx_tbl = idx_table s,
          MAX_IDX = cur_idx s + 2 ^ (32 - cur_mask s), MAX_PREFIX = p + 1\<rparr>)"

definition load_rows :: "(nat \<times> u32 \<times> int) list \<Rightarrow> nat_table" where
  "load_rows rows = load_finish (fold load_row rows load_init)"

text \<open>\<^verbatim>\<open>load_rtbl\<close> on the words and numbers \<^verbatim>\<open>fscanf\<close> reads.  A file without a usable
  row makes the code write \<^verbatim>\<open>t[-1]\<close>.\<close>

definition load_rtbl :: "(string \<times> int) list \<Rightarrow> nat_table option" where
  "load_rtbl file =
     (case those (map (\<lambda>(s, idx). map_option (\<lambda>(m, a). (m, a, idx)) (parse_prefix s)) file) of
        None \<Rightarrow> None
      | Some rows \<Rightarrow> if cur_p (fold load_row rows load_init) = -1 then None else Some (load_rows rows))"

partial_function (option) idx_walk :: "(int \<Rightarrow> prefix_table) \<Rightarrow> int \<Rightarrow> int \<Rightarrow> int option" where
  [code]: "idx_walk tb idx prefix =
     (if index (tb (next_prefix (tb prefix))) \<le> idx
      then idx_walk tb idx (next_prefix (tb prefix))
      else Some prefix)"

definition idx_to_ip :: "nat_table \<Rightarrow> int \<Rightarrow> u32 option" where
  "idx_to_ip nt idx =
     (let tb = prefix_tbl nt; it = idx_tbl nt;
          prefix = it (idx div 2 ^ 24)
      in if prefix < 256
         then Some (bswap32 (push_bit 24 (of_int prefix) OR (of_int idx AND 0xffffff)))
         else
      let prefix = it (idx div 2 ^ 16)
      in if prefix < 65536
         then Some (bswap32 (push_bit 16 (of_int prefix) OR (of_int idx AND 0xffff)))
         else
      (case idx_walk tb idx prefix of
         None \<Rightarrow> None
       | Some prefix \<Rightarrow> Some (bswap32 (push_bit 8 (of_int prefix) OR (of_int idx AND 0xff)))))"

definition ip_to_idx :: "nat_table \<Rightarrow> u32 \<Rightarrow> int" where
  "ip_to_idx nt addr =
     (let tb = prefix_tbl nt;
          addr = bswap32 addr;
          p24 = uint (drop_bit 8 addr); h24 = uint (addr AND 0xff)
      in if p24 < MAX_PREFIX nt \<and> prev_prefix (tb p24) = p24 then index (tb p24) + h24
         else
      let p16 = uint (drop_bit 16 addr); h16 = uint (addr AND 0xffff)
      in if prev_prefix (tb p16) = p16 then index (tb p16) + h16
         else
      let p8 = uint (drop_bit 24 addr); h8 = uint (addr AND 0xffffff)
      in if prev_prefix (tb p8) = p8 then index (tb p8) + h8
         else 0)"

section \<open>Route files the two translations agree on\<close>

type_synonym row = "nat \<times> u32 \<times> int"

definition row_len :: "row \<Rightarrow> nat" where "row_len r = fst r"
definition row_idx :: "row \<Rightarrow> int" where "row_idx r = snd (snd r)"
definition row_key :: "row \<Rightarrow> int" where "row_key r = the (prefix_key (row_len r) (fst (snd r)))"
definition row_size :: "row \<Rightarrow> int" where "row_size r = 2 ^ (32 - row_len r)"

fun contiguous :: "int \<Rightarrow> row list \<Rightarrow> bool" where
  "contiguous i [] = True"
| "contiguous i (r # rs) = (row_idx r = i \<and> contiguous (i + row_size r) rs)"

definition rows_total :: "row list \<Rightarrow> int" where
  "rows_total rs = sum_list (map row_size rs)"

definition sound_rows :: "row list \<Rightarrow> bool" where
  "sound_rows rs \<longleftrightarrow> list_all (\<lambda>r. row_len r \<in> {8, 16, 24} \<and> 0 < row_key r) rs
     \<and> sorted_wrt (<) (map row_key rs) \<and> contiguous 0 rs"

text \<open>Only /8 prefixes, or at most \<open>2 ^ 24\<close> addresses in /16 and /24 prefixes that start at
  a multiple of their size and do not overlap.\<close>

definition only_8 :: "row list \<Rightarrow> bool" where
  "only_8 rs \<longleftrightarrow> list_all (\<lambda>r. row_len r = 8) rs \<and> rows_total rs < 2 ^ 31"

definition small_16_24 :: "row list \<Rightarrow> bool" where
  "small_16_24 rs \<longleftrightarrow>
     list_all (\<lambda>r. (row_len r = 16 \<and> 256 \<le> row_key r \<or> row_len r = 24 \<and> 65536 \<le> row_key r \<and> row_key r < 2 ^ 24 - 1)
       \<and> row_idx r mod row_size r = 0) rs
     \<and> list_all (\<lambda>r. list_all (\<lambda>q. row_len r = 16 \<and> row_len q = 24 \<longrightarrow> row_key q div 256 \<noteq> row_key r) rs) rs
     \<and> rows_total rs \<le> 2 ^ 24"

definition good_rows :: "row list \<Rightarrow> bool" where
  "good_rows rs \<longleftrightarrow> rs \<noteq> [] \<and> sound_rows rs \<and> (only_8 rs \<or> small_16_24 rs)"

lemma prefix_key_row: "row_len r \<in> {8, 16, 24} \<Longrightarrow> prefix_key (row_len r) (fst (snd r)) = Some (row_key r)"
  by (auto simp: prefix_key_def row_key_def)

lemma row_size_pos [simp]: "0 < row_size r"
  by (simp add: row_size_def)

lemma contiguous_append:
  "contiguous i (rs @ qs) \<longleftrightarrow> contiguous i rs \<and> contiguous (i + rows_total rs) qs"
  by (induction rs arbitrary: i) (auto simp: rows_total_def algebra_simps)

lemma rows_total_append [simp]: "rows_total (rs @ qs) = rows_total rs + rows_total qs"
  by (simp add: rows_total_def)

lemma rows_total_nonneg: "0 \<le> rows_total rs"
  unfolding rows_total_def by (rule sum_list_nonneg) (auto simp: less_imp_le)

lemma contiguous_nth:
  "contiguous 0 rs \<Longrightarrow> k < length rs \<Longrightarrow> row_idx (rs ! k) = rows_total (take k rs)"
  by (metis Cons_nth_drop_Suc add_0 append_take_drop_id contiguous.simps(2) contiguous_append)

lemma rows_total_take_Suc: "k < length rs \<Longrightarrow> rows_total (take (Suc k) rs) = rows_total (take k rs) + row_size (rs ! k)"
  by (simp add: take_Suc_conv_app_nth rows_total_def)

lemma sound_rows_snoc:
  "sound_rows (rs @ [r]) \<longleftrightarrow> sound_rows rs \<and> row_len r \<in> {8, 16, 24} \<and> 0 < row_key r
     \<and> (\<forall>q\<in>set rs. row_key q < row_key r) \<and> row_idx r = rows_total rs"
  by (auto simp: sound_rows_def contiguous_append sorted_wrt_append list_all_iff)

section \<open>The prefix table after loading\<close>

lemma update_prefix_table_eq:
  assumes "prev_pos s \<le> p" and "\<And>q. next_prefix_ptr s = Some q \<Longrightarrow> q < prev_pos s"
  shows "update_prefix_table p idx s i =
    (if i = p then (tab s p)\<lparr>prev_prefix := p, index := idx\<rparr>
     else if prev_pos s \<le> i \<and> i < p
       then \<lparr>prev_prefix = prev_p s, next_prefix = p, index = prev_idx s\<rparr>
     else if next_prefix_ptr s = Some i then (tab s i)\<lparr>next_prefix := p\<rparr>
     else tab s i)"
  using assms by (auto simp: update_prefix_table_def Let_def split: option.splits)

definition loaded :: "row list \<Rightarrow> load_state \<Rightarrow> bool" where
  "loaded rs s \<longleftrightarrow>
     (if rs = [] then prev_pos s = 1 \<and> prev_p s = -1 \<and> prev_idx s = -1 \<and> next_prefix_ptr s = None
      else prev_pos s = row_key (last rs) + 1 \<and> prev_p s = row_key (last rs)
        \<and> prev_idx s = row_idx (last rs) \<and> next_prefix_ptr s = Some (row_key (last rs))
        \<and> cur_p s = row_key (last rs) \<and> cur_mask s = row_len (last rs) \<and> cur_idx s = row_idx (last rs))
   \<and> (\<forall>k<length rs. prev_prefix (tab s (row_key (rs ! k))) = row_key (rs ! k)
        \<and> index (tab s (row_key (rs ! k))) = row_idx (rs ! k))
   \<and> (\<forall>k. Suc k < length rs \<longrightarrow> next_prefix (tab s (row_key (rs ! k))) = row_key (rs ! Suc k))
   \<and> (\<forall>i. 0 < i \<and> i \<notin> row_key ` set rs \<longrightarrow> prev_prefix (tab s i) \<noteq> i)
   \<and> (\<forall>i. i \<le> 0 \<or> prev_pos s \<le> i \<longrightarrow> tab s i = zero_prefix)"

lemma update_prefix_table_other_fields:
  "update_prefix_table p idx (s\<lparr>cur_mask := m, cur_idx := j\<rparr>) = update_prefix_table p idx s"
  by (simp add: update_prefix_table_def Let_def cong: if_cong option.case_cong)

lemma load_row_eq:
  "row_len r \<in> {8, 16, 24} \<Longrightarrow> load_row r s =
    s\<lparr>cur_mask := row_len r, cur_idx := row_idx r, cur_p := row_key r,
      idx_table := update_idx_table (row_idx r) (prev_idx s) (row_key r) (idx_table s),
      tab := update_prefix_table (row_key r) (row_idx r) s,
      next_prefix_ptr := Some (row_key r), prev_idx := row_idx r, prev_p := row_key r,
      prev_pos := row_key r + 1\<rparr>"
  using prefix_key_row [of r]
  by (auto simp: load_row_def Let_def row_len_def row_idx_def update_prefix_table_other_fields split: prod.splits)

lemma loaded_row:
  assumes s: "loaded rs s" and rows: "sound_rows (rs @ [r])"
  shows "loaded (rs @ [r]) (load_row r s)"
proof -
  let ?p = "row_key r"
  have len: "row_len r \<in> {8, 16, 24}" and pos: "0 < ?p" and old: "sound_rows rs"
    and less: "\<And>q. q \<in> set rs \<Longrightarrow> row_key q < ?p"
    using rows by (auto simp: sound_rows_snoc)
  have lastkey: "row_key q \<le> row_key (last rs)" if "q \<in> set rs" for q
  proof -
    obtain qs q' where "rs = qs @ [q']" using \<open>q \<in> set rs\<close> by (cases rs rule: rev_cases) auto
    with old that show ?thesis by (auto simp: sound_rows_snoc less_imp_le)
  qed
  have gap: "prev_pos s \<le> ?p" using s less [of "last rs"] pos by (auto simp: loaded_def split: if_splits)
  have keys: "row_key q < prev_pos s" "row_key q \<noteq> ?p" if "q \<in> set rs" for q
    using that s lastkey [OF that] less [OF that] by (auto simp: loaded_def split: if_splits)
  have ptr: "q < prev_pos s" if "next_prefix_ptr s = Some q" for q
    using that s by (auto simp: loaded_def split: if_splits)
  note T = update_prefix_table_eq [OF gap ptr, of "row_idx r", simplified]
  have mem: "rs ! k \<in> set rs" if "k < length rs" for k using that by simp
  have inj: "row_key (rs ! k) = row_key (last rs) \<longleftrightarrow> Suc k = length rs" if k: "k < length rs" for k
  proof -
    obtain qs q where qs: "rs = qs @ [q]" using k by (cases rs rule: rev_cases) auto
    then have "row_key (rs ! k) < row_key q" if "k < length qs" using old that
      by (auto simp: sound_rows_snoc nth_append)
    with k qs show ?thesis by (cases "k < length qs") (auto simp: nth_append)
  qed
  let ?s = "load_row r s"
  have tab: "tab ?s i = (if i = ?p then (tab s ?p)\<lparr>prev_prefix := ?p, index := row_idx r\<rparr>
     else if prev_pos s \<le> i \<and> i < ?p
       then \<lparr>prev_prefix = prev_p s, next_prefix = ?p, index = prev_idx s\<rparr>
     else if next_prefix_ptr s = Some i then (tab s i)\<lparr>next_prefix := ?p\<rparr>
     else tab s i)" for i
    using T [of i] by (simp add: load_row_eq [OF len])
  have oldtab: "tab ?s (row_key (rs ! k)) =
    (if Suc k = length rs then (tab s (row_key (rs ! k)))\<lparr>next_prefix := ?p\<rparr> else tab s (row_key (rs ! k)))"
    if k: "k < length rs" for k
  proof -
    have "next_prefix_ptr s = Some (row_key (last rs))" using s k by (auto simp: loaded_def split: if_splits)
    then show ?thesis using keys [OF mem [OF k]] inj [OF k] by (auto simp: tab)
  qed
  have "prev_prefix (tab ?s (row_key ((rs @ [r]) ! k))) = row_key ((rs @ [r]) ! k)
        \<and> index (tab ?s (row_key ((rs @ [r]) ! k))) = row_idx ((rs @ [r]) ! k)" if "k < Suc (length rs)" for k
  proof (cases "k < length rs")
    case True
    then show ?thesis using s by (auto simp: nth_append oldtab loaded_def)
  next
    case False
    with that have "k = length rs" by simp
    then show ?thesis by (simp add: nth_append tab)
  qed
  moreover have "next_prefix (tab ?s (row_key ((rs @ [r]) ! k))) = row_key ((rs @ [r]) ! Suc k)"
    if "k < length rs" for k
    using that s by (cases "Suc k = length rs") (auto simp: nth_append oldtab loaded_def)
  moreover have "prev_prefix (tab ?s i) \<noteq> i" if "0 < i" "i \<noteq> ?p" "i \<notin> row_key ` set rs" for i
  proof -
    have "prev_p s < prev_pos s" using s by (auto simp: loaded_def split: if_splits)
    moreover have "prev_prefix (tab s i) \<noteq> i" using s that by (auto simp: loaded_def)
    ultimately show ?thesis using that by (auto simp: tab)
  qed
  moreover have "tab ?s i = zero_prefix" if "i \<le> 0 \<or> ?p + 1 \<le> i" for i
  proof -
    have "1 \<le> prev_pos s" and "\<And>q. next_prefix_ptr s = Some q \<Longrightarrow> 0 < q \<and> q < prev_pos s"
      using s old by (cases rs rule: rev_cases; auto simp: loaded_def sound_rows_snoc)+
    then show ?thesis using s that pos gap by (auto simp: tab loaded_def)
  qed
  ultimately show ?thesis
    by (auto simp: loaded_def load_row_eq [OF len])
qed

lemma loaded_rows: "sound_rows rs \<Longrightarrow> loaded rs (fold load_row rs load_init)"
proof (induction rs rule: rev_induct)
  case Nil
  show ?case by (auto simp: loaded_def load_init_def zero_prefix_def)
next
  case (snoc r rs)
  then show ?case using loaded_row [of rs _ r] by (simp add: sound_rows_snoc)
qed

text \<open>The finished table.\<close>

lemma load_rows_eq:
  assumes "rs \<noteq> []" and "sound_rows rs"
  defines "nt \<equiv> load_rows rs" and "p \<equiv> row_key (last rs)"
  shows MAX_IDX_load_rows: "MAX_IDX nt = rows_total rs"
    and MAX_PREFIX_load_rows: "MAX_PREFIX nt = p + 1"
    and row_load_rows: "\<And>k. k < length rs \<Longrightarrow> prev_prefix (prefix_tbl nt (row_key (rs ! k))) = row_key (rs ! k)
        \<and> index (prefix_tbl nt (row_key (rs ! k))) = row_idx (rs ! k)"
    and next_load_rows: "\<And>k. k < length rs \<Longrightarrow> next_prefix (prefix_tbl nt (row_key (rs ! k)))
        = (if Suc k = length rs then p + 1 else row_key (rs ! Suc k))"
    and end_load_rows: "index (prefix_tbl nt (p + 1)) = rows_total rs"
      "next_prefix (prefix_tbl nt (p + 1)) = 0" "prefix_tbl nt 0 = zero_prefix"
    and gap_load_rows: "\<And>i. 0 < i \<Longrightarrow> i \<notin> row_key ` set rs \<Longrightarrow> prev_prefix (prefix_tbl nt i) \<noteq> i"
    and idx_tbl_load_rows: "idx_tbl nt = idx_table (fold load_row rs load_init)"
proof -
  define s where "s = fold load_row rs load_init"
  have s: "loaded rs s" unfolding s_def using assms(2) by (rule loaded_rows)
  obtain qs q where qs: "rs = qs @ [q]" using assms(1) by (cases rs rule: rev_cases) auto
  have rows: "sound_rows qs" "row_len q \<in> {8, 16, 24}" "0 < row_key q" "row_idx q = rows_total qs"
    "\<And>x. x \<in> set qs \<Longrightarrow> row_key x < row_key q"
    using assms(2) by (auto simp: qs sound_rows_snoc)
  have c: "cur_p s = p" "cur_mask s = row_len q" "cur_idx s = row_idx q" "prev_pos s = p + 1" "0 < p"
    using s rows(3) by (simp_all add: loaded_def qs p_def)
  have z: "tab s (p + 1) = zero_prefix" "tab s 0 = zero_prefix"
    using s c(4) by (auto simp: loaded_def)
  have tbl: "prefix_tbl nt i = (if i = p + 1 then zero_prefix\<lparr>index := rows_total rs\<rparr>
      else if i = p then (tab s p)\<lparr>next_prefix := p + 1\<rparr> else tab s i)" for i
  proof -
    have "index (tab s p) = row_idx q"
      using s by (auto simp: loaded_def qs p_def nth_append dest: spec [where x = "length qs"])
    moreover have "rows_total rs = row_idx q + 2 ^ (32 - row_len q)"
      by (simp add: qs rows(4) rows_total_def row_size_def)
    ultimately show ?thesis
      by (simp add: nt_def load_rows_def load_finish_def Let_def s_def [symmetric] c z)
  qed
  show "MAX_IDX nt = rows_total rs" and "MAX_PREFIX nt = p + 1" and "idx_tbl nt = idx_table s"
    by (simp_all add: nt_def load_rows_def load_finish_def Let_def s_def [symmetric] c)
      (simp add: qs rows(4) rows_total_def row_size_def)
  show "index (prefix_tbl nt (p + 1)) = rows_total rs"
      "next_prefix (prefix_tbl nt (p + 1)) = 0" "prefix_tbl nt 0 = zero_prefix"
    using c(5) z by (simp_all add: tbl zero_prefix_def)
  have key: "row_key (rs ! k) \<le> p" "row_key (rs ! k) = p \<longleftrightarrow> Suc k = length rs" if "k < length rs" for k
  proof -
    have "row_key (rs ! k) < p" if "k < length qs"
      using rows(5) [of "qs ! k"] that by (simp add: qs nth_append p_def)
    moreover have "row_key (rs ! k) = p" if "k = length qs" using that by (simp add: qs p_def)
    ultimately show "row_key (rs ! k) \<le> p" "row_key (rs ! k) = p \<longleftrightarrow> Suc k = length rs"
      using that by (auto simp: qs less_Suc_eq)
  qed
  show "prev_prefix (prefix_tbl nt (row_key (rs ! k))) = row_key (rs ! k)
      \<and> index (prefix_tbl nt (row_key (rs ! k))) = row_idx (rs ! k)" if "k < length rs" for k
  proof -
    have "prev_prefix (tab s (row_key (rs ! k))) = row_key (rs ! k)
      \<and> index (tab s (row_key (rs ! k))) = row_idx (rs ! k)" using s that by (simp add: loaded_def)
    then show ?thesis using key(1) [OF that] by (auto simp: tbl)
  qed
  show "next_prefix (prefix_tbl nt (row_key (rs ! k))) = (if Suc k = length rs then p + 1 else row_key (rs ! Suc k))"
    if "k < length rs" for k
    using key [OF that] s that by (auto simp: tbl loaded_def)
  show "prev_prefix (prefix_tbl nt i) \<noteq> i" if "0 < i" "i \<notin> row_key ` set rs" for i
    using s that c(5) by (auto simp: tbl loaded_def zero_prefix_def)
qed

lemma sdiv_nonneg: "0 \<le> a \<Longrightarrow> 0 < b \<Longrightarrow> a sdiv b = a div b" for a b :: int
  by (cases "a = 0") (simp_all add: signed_divide_int_def)

lemma idx_table_only_8:
  assumes "sound_rows rs" and "list_all (\<lambda>r. row_len r = 8) rs"
  shows "rows_total rs = int (length rs) * 2 ^ 24
    \<and> (\<forall>k<length rs. row_idx (rs ! k) = int k * 2 ^ 24
        \<and> idx_table (fold load_row rs load_init) (int k) = row_key (rs ! k))"
  using assms
proof (induction rs rule: rev_induct)
  case Nil
  show ?case by (simp add: rows_total_def)
next
  case (snoc r rs)
  let ?n = "int (length rs)"
  have rs: "sound_rows rs" "row_len r = 8" "row_len r \<in> {8, 16, 24}" "row_idx r = ?n * 2 ^ 24"
    using snoc by (auto simp: sound_rows_snoc)
  define s where "s = fold load_row rs load_init"
  have s: "loaded rs s" unfolding s_def by (rule loaded_rows [OF rs(1)])
  have prev: "prev_idx s = (if rs = [] then -1 else (?n - 1) * 2 ^ 24)"
  proof (cases "rs = []")
    case True
    then show ?thesis using s by (simp add: loaded_def)
  next
    case False
    then have "prev_idx s = row_idx (rs ! (length rs - 1))" using s by (simp add: loaded_def last_conv_nth)
    also have "\<dots> = int (length rs - 1) * 2 ^ 24" using snoc rs False by simp
    also have "int (length rs - 1) = ?n - 1" using False by (cases rs) auto
    finally show ?thesis using False by simp
  qed
  have old: "prev_idx s sdiv (65536 * 256) \<noteq> ?n" if "rs \<noteq> []"
  proof -
    have "0 < ?n" using that by simp
    then have "(?n - 1) * 2 ^ 24 sdiv (65536 * 256) = (?n - 1) * 2 ^ 24 div (65536 * 256)"
      by (intro sdiv_nonneg) (simp_all add: Suc_le_eq)
    then show ?thesis using prev that by simp
  qed
  have "row_idx r sdiv (65536 * 256) = ?n" by (simp add: rs(4) sdiv_nonneg)
  then have "idx_table (load_row r s) = (idx_table s)(?n := row_key r)"
    using old by (auto simp: load_row_eq [OF rs(3)] update_idx_table_def rs(4))
  then show ?case
    using snoc rs by (auto simp: s_def [symmetric] nth_append less_Suc_eq rows_total_def row_size_def algebra_simps)
qed

lemma row_idx_bounds:
  "sound_rows rs \<Longrightarrow> q \<in> set rs \<Longrightarrow> 0 \<le> row_idx q \<and> row_idx q + row_size q \<le> rows_total rs"
proof (induction rs rule: rev_induct)
  case Nil
  then show ?case by simp
next
  case (snoc r rs)
  have "rows_total (rs @ [r]) = rows_total rs + row_size r" by (simp add: rows_total_def)
  with snoc rows_total_nonneg [of rs] row_size_pos [of r] show ?case
    by (auto simp: sound_rows_snoc simp del: row_size_pos rows_total_append)
qed

lemma row_idx_le_last: "sound_rows rs \<Longrightarrow> q \<in> set rs \<Longrightarrow> row_idx q \<le> row_idx (last rs)"
proof (cases rs rule: rev_cases)
  case (snoc qs q')
  moreover assume "sound_rows rs" "q \<in> set rs"
  ultimately show ?thesis using row_idx_bounds [of qs q] row_size_pos [of q]
    by (auto simp: sound_rows_snoc simp del: row_size_pos)
qed simp

lemma idx_table_small:
  assumes "sound_rows rs" and "rows_total rs \<le> 2 ^ 24"
  shows "\<forall>r\<in>set rs. row_idx r mod 65536 = 0 \<longrightarrow>
    idx_table (fold load_row rs load_init) (row_idx r div 65536) = row_key r"
  using assms
proof (induction rs rule: rev_induct)
  case Nil
  show ?case by simp
next
  case (snoc r rs)
  have tot: "rows_total (rs @ [r]) = rows_total rs + row_size r" by (simp add: rows_total_def)
  have rs: "sound_rows rs" "row_len r \<in> {8, 16, 24}" "row_idx r = rows_total rs" "rows_total rs < 2 ^ 24"
    using snoc(2,3) row_size_pos [of r] unfolding tot by (auto simp: sound_rows_snoc simp del: row_size_pos)
  define s where "s = fold load_row rs load_init"
  have s: "loaded rs s" unfolding s_def by (rule loaded_rows [OF rs(1)])
  have prev: "0 \<le> prev_idx s" "prev_idx s < row_idx r" if "rs \<noteq> []"
    using that s row_idx_bounds [OF rs(1), of "last rs"] row_size_pos [of "last rs"] rs(3)
    by (auto simp: loaded_def simp del: row_size_pos)
  have it: "idx_table (load_row r s) = (if rs = [] \<or> row_idx r div 65536 \<noteq> prev_idx s div 65536
      then (idx_table s)(row_idx r div 65536 := row_key r) else idx_table s)"
  proof (cases "rs = []")
    case True
    then show ?thesis using rs(3) by (simp add: load_row_eq [OF rs(2)] update_idx_table_def rows_total_def)
  next
    case False
    with prev rs(3,4) show ?thesis
      by (auto simp: load_row_eq [OF rs(2)] update_idx_table_def sdiv_nonneg div_pos_pos_trivial)
  qed
  have le: "row_idx q div 65536 \<le> prev_idx s div 65536" if "q \<in> set rs" for q
    using that s row_idx_le_last [OF rs(1) that] by (intro zdiv_mono1) (auto simp: loaded_def split: if_splits)
  have new: "row_idx r div 65536 > prev_idx s div 65536" if "rs \<noteq> []" "row_idx r mod 65536 = 0"
    using prev [OF that(1)] that(2) by (auto simp: elim!: dvdE dest!: mod_0_imp_dvd)
  have "idx_table (load_row r s) (row_idx q div 65536) = row_key q"
    if "q \<in> set rs" "row_idx q mod 65536 = 0" for q
  proof -
    have "idx_table s (row_idx q div 65536) = row_key q"
      using snoc(1) [OF rs(1) less_imp_le [OF rs(4)]] that by (simp add: s_def)
    moreover have "prev_idx s div 65536 \<le> row_idx r div 65536"
      using prev length_pos_if_in_set [OF that(1)] by (intro zdiv_mono1) auto
    ultimately show ?thesis using that(1) le [OF that(1)] by (auto simp: it)
  qed
  moreover have "idx_table (load_row r s) (row_idx r div 65536) = row_key r" if "row_idx r mod 65536 = 0"
    using new that by (auto simp: it)
  ultimately show ?case by (simp add: s_def [symmetric])
qed

section \<open>The two translations agree\<close>

lemma uint_of_int_u32: "0 \<le> n \<Longrightarrow> n < 2 ^ 32 \<Longrightarrow> uint (of_int n :: u32) = n"
  by (simp add: unsigned_of_int take_bit_int_eq_self)

lemma compose_address:
  assumes "0 \<le> p" and "p < 2 ^ (32 - s)" and "s \<le> 32"
  shows "uint (push_bit s (of_int p) OR (of_int i AND mask s) :: u32) = p * 2 ^ s + i mod 2 ^ s"
proof -
  define n where "n = p * 2 ^ s + i mod 2 ^ s"
  have "(p + 1) * 2 ^ s \<le> 2 ^ (32 - s) * 2 ^ s" using assms(2) by (intro mult_right_mono) auto
  also have "\<dots> = 2 ^ 32" using assms(3) by (simp flip: power_add)
  finally have "p * 2 ^ s + 2 ^ s \<le> 2 ^ 32" by (simp add: algebra_simps)
  moreover have "i mod 2 ^ s < 2 ^ s" by (rule pos_mod_bound) simp
  ultimately have "n < 2 ^ 32" unfolding n_def by linarith
  moreover have "0 \<le> n" using assms(1) by (simp add: n_def)
  moreover have "push_bit s (of_int p) OR (of_int i AND mask s) = (of_int n :: u32)"
  proof -
    have "n = concat_bit s i p"
      by (simp add: n_def concat_bit_eq take_bit_eq_mod push_bit_eq_mult)
    also have "of_int (concat_bit s i p) = push_bit s (of_int p) OR (of_int i AND mask s :: u32)"
      by (rule bit_word_eqI) (auto simp: bit_simps bit_concat_bit_iff)
    finally show ?thesis by simp
  qed
  ultimately show ?thesis using uint_of_int_u32 [of n] by (simp only: n_def [symmetric])
qed

lemma split_address:
  assumes "uint (a :: u32) = p * 2 ^ s + h" and "0 \<le> h" and "h < 2 ^ s"
  shows "uint (drop_bit s a) = p" and "uint (a AND mask s) = h"
proof -
  have "uint (drop_bit s a) = uint a div 2 ^ s"
    using take_bit_int_eq_self [of "uint a" 32] unsigned_less [where 'a = int, of a]
    by (subst unsigned_drop_bit_eq) (simp add: drop_bit_eq_div)
  then show "uint (drop_bit s a) = p" using assms by simp
  show "uint (a AND mask s) = h"
  proof -
    have "uint (a AND mask s) = take_bit s (uint a)"
      by (simp only: take_bit_eq_mask [symmetric] unsigned_take_bit_eq)
    then show ?thesis using assms by (simp add: take_bit_eq_mod)
  qed
qed

lemma low_masks: "(0xff :: u32) = mask 8" "(0xffff :: u32) = mask 16" "(0xffffff :: u32) = mask 24"
  by (simp_all add: mask_eq_exp_minus_1)

text \<open>The walk stops at the row that holds the index, whichever earlier row it starts from.\<close>

lemma idx_walk_row:
  assumes rs: "rs \<noteq> []" "sound_rows rs"
    and j: "j < length rs" "row_idx (rs ! j) \<le> idx" "idx < row_idx (rs ! j) + row_size (rs ! j)"
  shows "k \<le> j \<Longrightarrow> idx_walk (prefix_tbl (load_rows rs)) idx (row_key (rs ! k)) = Some (row_key (rs ! j))"
proof (induction "j - k" arbitrary: k)
  case 0
  then have "k = j" by simp
  have "idx < index (prefix_tbl (load_rows rs) (next_prefix (prefix_tbl (load_rows rs) (row_key (rs ! j)))))"
  proof (cases "Suc j = length rs")
    case True
    then have "rs ! j = last rs" using rs(1) by (metis diff_Suc_1 last_conv_nth)
    moreover have "rows_total rs = row_idx (rs ! j) + row_size (rs ! j)"
      using rows_total_take_Suc [OF j(1)] True contiguous_nth [OF _ j(1)] rs(2) by (simp add: sound_rows_def)
    ultimately show ?thesis using True j next_load_rows [OF rs j(1)] end_load_rows(1) [OF rs] by simp
  next
    case False
    then have "row_idx (rs ! Suc j) = row_idx (rs ! j) + row_size (rs ! j)"
      using rows_total_take_Suc [OF j(1)] contiguous_nth [of rs] rs(2) j(1) by (simp add: sound_rows_def)
    then show ?thesis using False j next_load_rows [OF rs j(1)] row_load_rows [OF rs, of "Suc j"] by simp
  qed
  then show ?case using \<open>k = j\<close> by (simp add: idx_walk.simps)
next
  case (Suc m)
  then have "Suc k \<le> j" and k: "k < length rs" "Suc k < length rs" using j(1) by simp_all
  have "row_idx (rs ! Suc k) \<le> row_idx (rs ! j)"
  proof -
    have "take j rs = take (Suc k) rs @ take (j - Suc k) (drop (Suc k) rs)"
      using \<open>Suc k \<le> j\<close> by (metis le_add_diff_inverse take_add)
    then show ?thesis
      using contiguous_nth [of rs] rs(2) j(1) k(2) rows_total_nonneg by (simp add: sound_rows_def)
  qed
  moreover have "idx_walk (prefix_tbl (load_rows rs)) idx (row_key (rs ! Suc k)) = Some (row_key (rs ! j))"
    using Suc \<open>Suc k \<le> j\<close> by simp
  ultimately show ?case
    using k j(2) next_load_rows [OF rs k(1)] row_load_rows [OF rs k(2)]
    by (subst idx_walk.simps) simp
qed

text \<open>Every index below the total lies in exactly one row.\<close>

lemma row_of_idx:
  assumes "sound_rows rs" and "0 \<le> idx" and "idx < rows_total rs"
  obtains j where "j < length rs" and "row_idx (rs ! j) \<le> idx" and "idx < row_idx (rs ! j) + row_size (rs ! j)"
proof -
  have "\<exists>j<length rs. row_idx (rs ! j) \<le> idx \<and> idx < row_idx (rs ! j) + row_size (rs ! j)"
    using assms
  proof (induction rs rule: rev_induct)
    case Nil
    then show ?case by (simp add: rows_total_def)
  next
    case (snoc r rs)
    have tot: "rows_total (rs @ [r]) = rows_total rs + row_size r" by (simp add: rows_total_def)
    show ?case
    proof (cases "idx < rows_total rs")
      case True
      with snoc obtain j where "j < length rs" "row_idx (rs ! j) \<le> idx" "idx < row_idx (rs ! j) + row_size (rs ! j)"
        by (auto simp: sound_rows_snoc)
      then show ?thesis by (intro exI [of _ j]) (simp add: nth_append)
    next
      case False
      with snoc(2,4) tot show ?thesis
        by (intro exI [of _ "length rs"]) (simp add: nth_append sound_rows_snoc)
    qed
  qed
  with that show ?thesis by blast
qed

lemma row_key_bounds:
  "row_len r = 8 \<Longrightarrow> row_key r < 256" "row_len r = 16 \<Longrightarrow> row_key r < 65536"
  "row_len r = 24 \<Longrightarrow> row_key r < 2 ^ 24"
proof -
  have "uint (drop_bit n a) < 2 ^ (32 - n)" if "n \<le> 32" for n and a :: u32
  proof -
    have "bit (drop_bit n a) k \<Longrightarrow> k < 32 - n" for k
      using bit_imp_le_length [of a "n + k"] by (simp add: bit_drop_bit_eq less_diff_conv add.commute)
    then have "take_bit (32 - n) (drop_bit n a) = drop_bit n a"
      by (simp add: take_bit_eq_iff_bits) (metis not_less)
    then have "uint (drop_bit n a) = take_bit (32 - n) (uint (drop_bit n a))"
      by (metis unsigned_take_bit_eq)
    then show ?thesis by (metis take_bit_int_less_exp)
  qed
  from this [of 24] this [of 16] this [of 8] show
    "row_len r = 8 \<Longrightarrow> row_key r < 256" "row_len r = 16 \<Longrightarrow> row_key r < 65536"
    "row_len r = 24 \<Longrightarrow> row_key r < 2 ^ 24"
    by (simp_all add: row_key_def prefix_key_def)
qed

lemma row_start:
  assumes "0 < s" and "i mod s = 0" and "x mod s = 0" and "i \<le> x" and "x < i + (s :: int)"
  shows "i = x"
proof -
  obtain a b where "i = s * a" "x = s * b" using assms(2,3) by (metis mod_0_imp_dvd dvdE)
  with assms(4,5) have "s * a \<le> s * b" and "s * b < s * (a + 1)" by (simp_all add: algebra_simps)
  with assms(1) have "a = b" by (simp only: mult_le_cancel_left_pos mult_less_cancel_left_pos)
  with \<open>i = s * a\<close> \<open>x = s * b\<close> show ?thesis by simp
qed

lemma rows_in_order:
  assumes "sound_rows rs" and "k < length rs" "j < length rs"
    and "row_idx (rs ! k) \<le> idx" and "idx < row_idx (rs ! j) + row_size (rs ! j)"
  shows "k \<le> j" and "row_key (rs ! k) \<le> row_key (rs ! j)"
proof -
  show "k \<le> j"
  proof (rule ccontr)
    assume "\<not> k \<le> j"
    then have "take k rs = take (Suc j) rs @ take (k - Suc j) (drop (Suc j) rs)"
      by (metis le_add_diff_inverse take_add not_less_eq_eq)
    then have "rows_total (take (Suc j) rs) \<le> rows_total (take k rs)"
      by (simp add: rows_total_nonneg)
    with assms contiguous_nth [of rs] rows_total_take_Suc [OF assms(3)] show False
      by (simp add: sound_rows_def)
  qed
  then show "row_key (rs ! k) \<le> row_key (rs ! j)"
    using assms(1-3) by (cases "k = j") (auto simp: sound_rows_def sorted_wrt_iff_nth_less less_imp_le)
qed

text \<open>The public address of an index: the prefix of its row and the offset in it.\<close>

lemma idx_to_ip_8:
  assumes "rs \<noteq> []" "sound_rows rs" "only_8 rs" and j: "j < length rs"
    and i: "row_idx (rs ! j) \<le> idx" "idx < row_idx (rs ! j) + row_size (rs ! j)"
  obtains a where "idx_to_ip (load_rows rs) idx = Some (bswap32 a)"
    and "uint a = row_key (rs ! j) * 2 ^ 24 + (idx - row_idx (rs ! j))"
proof
  have len: "row_len (rs ! j) = 8" using assms(3) j by (simp add: only_8_def list_all_iff)
  have idx: "row_idx (rs ! j) = int j * 2 ^ 24"
    and it: "idx_tbl (load_rows rs) (int j) = row_key (rs ! j)"
    using idx_table_only_8 [OF assms(2)] assms(3) j idx_tbl_load_rows [OF assms(1,2)]
    by (auto simp: only_8_def)
  have "idx div 2 ^ 24 = int j" and m: "idx mod 2 ^ 24 = idx - row_idx (rs ! j)"
    using i by (auto simp: idx len row_size_def div_pos_pos_trivial intro: int_div_pos_eq int_mod_pos_eq)
  with it row_key_bounds(1) [OF len]
  show "idx_to_ip (load_rows rs) idx =
    Some (bswap32 (push_bit 24 (of_int (row_key (rs ! j))) OR (of_int idx AND mask 24)))"
    unfolding low_masks [symmetric] by (simp add: idx_to_ip_def)
  have "0 < row_key (rs ! j)" using assms(2) j by (simp add: sound_rows_def list_all_iff)
  then show "uint (push_bit 24 (of_int (row_key (rs ! j))) OR (of_int idx AND mask 24) :: u32) =
    row_key (rs ! j) * 2 ^ 24 + (idx - row_idx (rs ! j))"
    using compose_address [of "row_key (rs ! j)" 24 idx] row_key_bounds(1) [OF len] m by simp
qed

lemma small_row:
  assumes "small_16_24 rs" and "r \<in> set rs"
  shows "row_len r = 16 \<and> 256 \<le> row_key r \<and> row_key r < 65536 \<and> row_size r = 65536
    \<or> row_len r = 24 \<and> 65536 \<le> row_key r \<and> row_key r < 2 ^ 24 \<and> row_size r = 256"
    and "row_idx r mod row_size r = 0"
  using assms row_key_bounds [of r] by (auto simp: small_16_24_def list_all_iff row_size_def)

text \<open>A block of 65536 indexes starts with a row, and \<^verbatim>\<open>idx_tbl\<close> names this row.\<close>

lemma block_start:
  assumes rs: "rs \<noteq> []" "sound_rows rs" and small: "small_16_24 rs"
    and idx: "0 \<le> idx" "idx div 65536 * 65536 < rows_total rs" "idx < 2 ^ 24"
  obtains k where "k < length rs" and "row_idx (rs ! k) = idx div 65536 * 65536"
    and "idx_tbl (load_rows rs) (idx div 2 ^ 16) = row_key (rs ! k)"
    and "256 \<le> idx_tbl (load_rows rs) (idx div 2 ^ 24)"
proof -
  let ?it = "idx_tbl (load_rows rs)" and ?b = "idx div 65536 * 65536"
  have total: "rows_total rs \<le> 2 ^ 24" using small by (simp add: small_16_24_def)
  have it: "?it (row_idx r div 65536) = row_key r" if "r \<in> set rs" "row_idx r mod 65536 = 0" for r
    using idx_table_small [OF rs(2) total] that idx_tbl_load_rows [OF rs] by simp
  have "row_idx (rs ! 0) = 0" using contiguous_nth [of rs 0] rs by (simp add: sound_rows_def rows_total_def)
  then have it0: "256 \<le> ?it (idx div 2 ^ 24)"
    using it [of "rs ! 0"] small_row [OF small, of "rs ! 0"] rs(1) idx
    by (auto simp: div_pos_pos_trivial)
  have "0 \<le> ?b" using idx(1) by simp
  then obtain k where k: "k < length rs" "row_idx (rs ! k) \<le> ?b" "?b < row_idx (rs ! k) + row_size (rs ! k)"
    using row_of_idx [OF rs(2) _ idx(2)] by blast
  note smallk = small_row [OF small nth_mem [OF k(1)]]
  have "row_size (rs ! k) dvd 65536" using smallk(1) by auto
  then have "?b mod row_size (rs ! k) = 0" by (simp only: dvd_mult dvd_imp_mod_0)
  with row_size_pos smallk(2) have start: "row_idx (rs ! k) = ?b"
    by (rule row_start) (rule k)+
  then have "?it (idx div 2 ^ 16) = row_key (rs ! k)" using it [OF nth_mem [OF k(1)]] by simp
  with k(1) start it0 that show ?thesis by blast
qed

lemma idx_to_ip_small:
  assumes rs: "rs \<noteq> []" "sound_rows rs" and small: "small_16_24 rs" and j: "j < length rs"
    and i: "row_idx (rs ! j) \<le> idx" "idx < row_idx (rs ! j) + row_size (rs ! j)"
  obtains a where "idx_to_ip (load_rows rs) idx = Some (bswap32 a)"
    and "uint a = row_key (rs ! j) * row_size (rs ! j) + (idx - row_idx (rs ! j))"
proof -
  let ?it = "idx_tbl (load_rows rs)" and ?b = "idx div 65536 * 65536"
  have idx: "0 \<le> idx" "idx < rows_total rs" "idx < 2 ^ 24"
    using row_idx_bounds [OF rs(2), of "rs ! j"] i j small by (auto simp: small_16_24_def)
  have b: "?b \<le> idx" "idx < ?b + 65536"
    using pos_mod_bound [of 65536 idx] pos_mod_sign [of 65536 idx] by (simp_all add: minus_mod_eq_div_mult [symmetric])
  have "?b < rows_total rs" using b idx by linarith
  then obtain k where k: "k < length rs" and start: "row_idx (rs ! k) = ?b"
    and itk: "?it (idx div 2 ^ 16) = row_key (rs ! k)" and it0: "256 \<le> ?it (idx div 2 ^ 24)"
    using block_start [OF rs small idx(1) _ idx(3)] by metis
  note smallk = small_row [OF small nth_mem [OF k]]
  have "row_idx (rs ! k) \<le> idx" using start b by simp
  note kj = rows_in_order [OF rs(2) k j this i(2)]
  show ?thesis
  proof (cases "row_len (rs ! k) = 16")
    case True
    then have size: "row_key (rs ! k) < 65536" "row_size (rs ! k) = 65536" "0 \<le> row_key (rs ! k)"
      using smallk(1) by auto
    have "j = k"
      using rows_in_order(1) [OF rs(2) j k i(1)] start size(2) b(2) kj(1) by simp
    moreover have "idx mod 65536 = idx - row_idx (rs ! k)"
      using start by (simp add: minus_div_mult_eq_mod)
    ultimately show ?thesis
      using it0 itk size that [of "push_bit 16 (of_int (row_key (rs ! k))) OR (of_int idx AND mask 16)"]
        compose_address [of "row_key (rs ! k)" 16 idx]
      unfolding low_masks [symmetric] by (simp add: idx_to_ip_def Let_def)
  next
    case False
    then have "65536 \<le> row_key (rs ! k)" using smallk(1) by auto
    with kj(2) small_row [OF small nth_mem [OF j]]
    have size: "row_key (rs ! j) < 2 ^ 24" "row_size (rs ! j) = 256" "0 \<le> row_key (rs ! j)"
      "row_idx (rs ! j) mod 256 = 0" by auto
    have "idx mod 256 = idx - row_idx (rs ! j)"
      using i size(2,4) by (intro int_mod_pos_eq [of _ _ "row_idx (rs ! j) div 256"]) (auto simp: minus_mod_eq_mult_div [symmetric])
    then show ?thesis
      using it0 itk \<open>65536 \<le> row_key (rs ! k)\<close> size idx_walk_row [OF rs j i kj(1)]
        that [of "push_bit 8 (of_int (row_key (rs ! j))) OR (of_int idx AND mask 8)"]
        compose_address [of "row_key (rs ! j)" 8 idx]
      unfolding low_masks [symmetric] by (simp add: idx_to_ip_def Let_def)
  qed
qed

lemma ip_to_idx_row:
  assumes rs: "rs \<noteq> []" "sound_rows rs" "only_8 rs \<or> small_16_24 rs" and j: "j < length rs"
    and a: "uint (a :: u32) = row_key (rs ! j) * row_size (rs ! j) + h" and h: "0 \<le> h" "h < row_size (rs ! j)"
  shows "ip_to_idx (load_rows rs) (bswap32 a) = row_idx (rs ! j) + h"
proof -
  let ?t = "prefix_tbl (load_rows rs)" and ?p = "row_key (rs ! j)"
  note row = row_load_rows [OF rs(1,2) j] and gap = gap_load_rows [OF rs(1,2)]
  have p: "0 < ?p" "?p \<le> row_key (last rs)"
  proof -
    show "0 < ?p" using rs(2) j by (simp add: sound_rows_def list_all_iff)
    have "rs ! (length rs - 1) = last rs" using rs(1) by (simp add: last_conv_nth)
    moreover have "?p < row_key (rs ! (length rs - 1))" if "j < length rs - 1"
      using rs(2) j that by (auto simp: sound_rows_def sorted_wrt_iff_nth_less)
    moreover have "j = length rs - 1 \<or> j < length rs - 1" using j by linarith
    ultimately show "?p \<le> row_key (last rs)" by auto
  qed
  note split = split_address [where a = a]
  consider (8) "only_8 rs" | (16) "small_16_24 rs" "row_len (rs ! j) = 16" "row_size (rs ! j) = 65536"
    | (24) "small_16_24 rs" "row_size (rs ! j) = 256"
    using rs(3) small_row(1) [of rs "rs ! j"] j by auto
  then show ?thesis
  proof cases
    case 8
    then have key: "row_key r < 256" if "r \<in> set rs" for r
      using that row_key_bounds(1) by (simp add: only_8_def list_all_iff)
    have "row_len (rs ! j) = 8" using 8 j by (simp add: only_8_def list_all_iff)
    then have size: "row_size (rs ! j) = 2 ^ 24" by (simp add: row_size_def)
    have p24: "uint (drop_bit 8 a) = ?p * 65536 + h div 256" and p16: "uint (drop_bit 16 a) = ?p * 256 + h div 65536"
      using a size split(1) [of "?p * 65536 + h div 256" 8 "h mod 256"]
        split(1) [of "?p * 256 + h div 65536" 16 "h mod 65536"] by (simp_all add: algebra_simps)
    have "256 \<le> ?p * 256 + h div 65536" "256 \<le> ?p * 65536 + h div 256"
      using p(1) h(1) pos_imp_zdiv_nonneg_iff [of 65536 h] pos_imp_zdiv_nonneg_iff [of 256 h] by linarith+
    moreover have "prev_prefix (?t (?p * 256 + h div 65536)) \<noteq> ?p * 256 + h div 65536"
      using calculation(1) key by (intro gap) force+
    moreover have "row_key (last rs) < 256" using key rs(1) by simp
    moreover have "uint (drop_bit 24 a) = ?p" "uint (a AND mask 24) = h"
      using split [of ?p 24 h] a h size by simp_all
    ultimately show ?thesis
      using row p24 p16 MAX_PREFIX_load_rows [OF rs(1,2)]
      unfolding ip_to_idx_def low_masks by (simp add: Let_def)
  next
    case 16
    have p24: "uint (drop_bit 8 a) = ?p * 256 + h div 256"
      using a 16 split(1) [of "?p * 256 + h div 256" 8 "h mod 256"] by (simp add: algebra_simps)
    have hd: "0 \<le> h div 256" "h div 256 < 256" using h 16 by auto
    have "?p * 256 + h div 256 \<notin> row_key ` set rs"
    proof
      assume "?p * 256 + h div 256 \<in> row_key ` set rs"
      then obtain q where q: "q \<in> set rs" "row_key q = ?p * 256 + h div 256" by auto
      moreover have "65536 \<le> ?p * 256" using 16 small_row(1) [OF 16(1) nth_mem [OF j]] by auto
      ultimately have "row_len q = 24" using small_row(1) [OF 16(1) q(1)] hd by auto
      moreover have "row_key q div 256 = ?p" using q(2) hd by simp
      ultimately show False using 16 q(1) j by (auto simp: small_16_24_def list_all_iff)
    qed
    then have "prev_prefix (?t (?p * 256 + h div 256)) \<noteq> ?p * 256 + h div 256"
      using p(1) hd by (intro gap) auto
    moreover have "uint (drop_bit 16 a) = ?p" "uint (a AND mask 16) = h"
      using split [of ?p 16 h] a h 16 by simp_all
    ultimately show ?thesis
      using row p24 unfolding ip_to_idx_def low_masks by (simp add: Let_def)
  next
    case 24
    have "uint (drop_bit 8 a) = ?p" "uint (a AND mask 8) = h"
      using split [of ?p 8 h] a h 24 by simp_all
    then show ?thesis
      using row p(2) MAX_PREFIX_load_rows [OF rs(1,2)]
      unfolding ip_to_idx_def low_masks by (simp add: Let_def)
  qed
qed

text \<open>The interface of the table: below the limit every index has an address, and the address
  gives the index back.\<close>

locale addr_table =
  fixes to_ip :: "int \<Rightarrow> u32 option"
    and to_idx :: "u32 \<Rightarrow> int"
    and limit :: int
  assumes to_idx_to_ip: "0 \<le> idx \<Longrightarrow> idx < limit \<Longrightarrow> \<exists>a. to_ip idx = Some a \<and> to_idx a = idx"
begin

lemma to_ip_inj:
  "0 \<le> i \<Longrightarrow> i < limit \<Longrightarrow> 0 \<le> j \<Longrightarrow> j < limit \<Longrightarrow> to_ip i = to_ip j \<Longrightarrow> i = j"
  by (metis to_idx_to_ip option.inject)

lemma to_ip_returns: "0 \<le> idx \<Longrightarrow> idx < limit \<Longrightarrow> to_ip idx \<noteq> None"
  using to_idx_to_ip by force

end

lemma good_rows_roundtrip:
  assumes "good_rows rs" and "0 \<le> idx" and "idx < rows_total rs"
  shows "\<exists>a. idx_to_ip (load_rows rs) idx = Some a \<and> ip_to_idx (load_rows rs) a = idx"
proof -
  have rs: "rs \<noteq> []" "sound_rows rs" "only_8 rs \<or> small_16_24 rs" using assms(1) by (auto simp: good_rows_def)
  obtain j where j: "j < length rs"
    and i: "row_idx (rs ! j) \<le> idx" "idx < row_idx (rs ! j) + row_size (rs ! j)"
    using row_of_idx [OF rs(2) assms(2,3)] by blast
  obtain a where "idx_to_ip (load_rows rs) idx = Some (bswap32 a)"
    and "uint a = row_key (rs ! j) * row_size (rs ! j) + (idx - row_idx (rs ! j))"
    using rs(3)
  proof
    assume "only_8 rs"
    moreover from this have "row_size (rs ! j) = 2 ^ 24" using j by (simp add: only_8_def list_all_iff row_size_def)
    ultimately show ?thesis using idx_to_ip_8 [OF rs(1,2) _ j i] that by metis
  next
    assume "small_16_24 rs"
    then show ?thesis using idx_to_ip_small [OF rs(1,2) _ j i] that by metis
  qed
  with ip_to_idx_row [OF rs j, of a "idx - row_idx (rs ! j)"] i show ?thesis by simp
qed

interpretation rtbl: addr_table "idx_to_ip (load_rows rs)" "ip_to_idx (load_rows rs)"
  "if good_rows rs then rows_total rs else 0" for rs
  by unfold_locales (use good_rows_roundtrip in \<open>auto split: if_splits\<close>)

section \<open>Indexes outside the table\<close>

text \<open>A walk inside a set of entries whose successors stay in it at or below the index never
  returns.\<close>

lemma idx_walk_stuck:
  assumes stuck: "\<And>x. x \<in> S \<Longrightarrow> next_prefix (tb x) \<in> S \<and> index (tb (next_prefix (tb x))) \<le> idx"
    and "x \<in> S"
  shows "idx_walk tb idx x = None"
proof (rule ccontr)
  assume "idx_walk tb idx x \<noteq> None"
  then obtain y where "idx_walk tb idx x = Some y" by blast
  moreover have "\<not> ((\<forall>x\<in>S. next_prefix (tb x) \<in> S \<and> index (tb (next_prefix (tb x))) \<le> idx) \<and> x \<in> S)"
    if "idx_walk tb idx x = Some y" for tb idx x and y :: int
  proof (rule idx_walk.raw_induct [where P = "\<lambda>tb idx x y.
      \<not> ((\<forall>x\<in>S. next_prefix (tb x) \<in> S \<and> index (tb (next_prefix (tb x))) \<le> idx) \<and> x \<in> S)", OF _ that])
    fix walk and tb :: "int \<Rightarrow> prefix_table" and idx x y :: int
    assume IH: "\<And>tb idx x y. walk tb idx x = Some y \<Longrightarrow>
        \<not> ((\<forall>x\<in>S. next_prefix (tb x) \<in> S \<and> index (tb (next_prefix (tb x))) \<le> idx) \<and> x \<in> S)"
      and step: "(if index (tb (next_prefix (tb x))) \<le> idx then walk tb idx (next_prefix (tb x)) else Some x) = Some y"
    show "\<not> ((\<forall>x\<in>S. next_prefix (tb x) \<in> S \<and> index (tb (next_prefix (tb x))) \<le> idx) \<and> x \<in> S)"
    proof
      assume st: "(\<forall>x\<in>S. next_prefix (tb x) \<in> S \<and> index (tb (next_prefix (tb x))) \<le> idx) \<and> x \<in> S"
      then have "index (tb (next_prefix (tb x))) \<le> idx" and "next_prefix (tb x) \<in> S" by auto
      with step IH [of tb idx "next_prefix (tb x)" y] st show False by simp
    qed
  qed
  ultimately show False using assms by blast
qed

lemma idx_to_ip_beyond:
  assumes rs: "rs \<noteq> []" "sound_rows rs" and small: "small_16_24 rs" and last: "row_len (last rs) = 24"
    and idx: "rows_total rs \<le> idx" "idx div 65536 = row_idx (last rs) div 65536"
  shows "idx_to_ip (load_rows rs) idx = None"
proof -
  let ?t = "prefix_tbl (load_rows rs)" and ?p = "row_key (last rs)"
  have lastset: "last rs \<in> set rs" using rs(1) by simp
  note lastrow = row_idx_bounds [OF rs(2) lastset]
  have "row_size (last rs) = 256" using small_row [OF small lastset] last by auto
  have "row_idx (last rs) < 2 ^ 24" using lastrow small row_size_pos [of "last rs"]
    by (auto simp: small_16_24_def simp del: row_size_pos)
  then have "idx < 2 ^ 24"
  proof -
    have "row_idx (last rs) div 65536 < 256" using \<open>row_idx (last rs) < 2 ^ 24\<close> by auto
    with idx(2) show ?thesis by auto
  qed
  have b: "idx div 65536 * 65536 \<le> row_idx (last rs)"
    using idx(2) pos_mod_sign [of 65536 "row_idx (last rs)"] by (simp add: minus_mod_eq_div_mult [symmetric])
  then have "idx div 65536 * 65536 < rows_total rs" "0 \<le> idx"
    using lastrow row_size_pos [of "last rs"] idx(1) rows_total_nonneg [of rs] by linarith+
  then obtain k where k: "k < length rs" "row_idx (rs ! k) = idx div 65536 * 65536"
    "idx_tbl (load_rows rs) (idx div 2 ^ 16) = row_key (rs ! k)" "256 \<le> idx_tbl (load_rows rs) (idx div 2 ^ 24)"
    using block_start [OF rs small _ _ \<open>idx < 2 ^ 24\<close>] by metis
  have "65536 \<le> row_key (rs ! k)"
  proof (rule ccontr)
    assume "\<not> ?thesis"
    then have sz: "row_size (rs ! k) = 65536" and "rs ! k \<noteq> last rs"
      using small_row(1) [OF small nth_mem [OF k(1)]] last by auto
    then have "k < length rs - 1" using k(1) rs(1) by (metis Suc_pred' last_conv_nth length_greater_0_conv less_Suc_eq)
    then have "row_idx (rs ! k) + row_size (rs ! k) \<le> row_idx (last rs)"
      using rows_in_order(1) [OF rs(2) _ k(1), of "length rs - 1" "row_idx (last rs)"] rs(1)
      by (force simp: last_conv_nth)
    then show False
      using sz k(2) idx(2) pos_mod_bound [of 65536 "row_idx (last rs)"]
      by (simp add: minus_mod_eq_div_mult [symmetric])
  qed
  moreover have "idx_walk ?t idx (row_key (rs ! k)) = None"
  proof (rule idx_walk_stuck)
    fix x assume "x \<in> row_key ` set rs \<union> {?p + 1, 0}"
    moreover have "next_prefix (?t (row_key (rs ! m))) \<in> row_key ` set rs \<union> {?p + 1, 0}
        \<and> index (?t (next_prefix (?t (row_key (rs ! m))))) \<le> idx" if m: "m < length rs" for m
      using next_load_rows [OF rs m] row_load_rows [OF rs, of "Suc m"] end_load_rows [OF rs] idx(1)
        row_idx_bounds [OF rs(2), of "rs ! Suc m"] row_size_pos [of "rs ! Suc m"] m
      by (cases "Suc m = length rs") (auto simp del: row_size_pos)
    moreover have "index (?t 0) \<le> idx" "next_prefix (?t 0) = 0"
      using end_load_rows(3) [OF rs] \<open>0 \<le> idx\<close> by (simp_all add: zero_prefix_def)
    moreover have "\<exists>m<length rs. x = row_key (rs ! m)" if "x \<in> row_key ` set rs"
      using that by (metis in_set_conv_nth image_iff)
    moreover have "index (?t (next_prefix (?t (?p + 1)))) \<le> idx" "next_prefix (?t (?p + 1)) = 0"
      using calculation(3) end_load_rows(2) [OF rs] by simp_all
    ultimately show "next_prefix (?t x) \<in> row_key ` set rs \<union> {?p + 1, 0} \<and> index (?t (next_prefix (?t x))) \<le> idx"
      by (elim UnE) (blast, force)
  qed (use k(1) in auto)
  ultimately show ?thesis using k(3,4) by (simp add: idx_to_ip_def Let_def)
qed

section \<open>Tables of more than \<open>2 ^ 24\<close> addresses in /16 prefixes\<close>

lemma all_16_idx:
  assumes "contiguous 0 rs" and "list_all (\<lambda>r. row_len r = 16) rs" and "k < length rs"
  shows "row_idx (rs ! k) = int k * 65536"
proof -
  have "rows_total qs = int (length qs) * 65536" if "list_all (\<lambda>r. row_len r = 16) qs" for qs
    using that by (induction qs) (auto simp: rows_total_def row_size_def)
  moreover have "list_all (\<lambda>r. row_len r = 16) (take k rs)"
    using assms(2) by (auto simp: list_all_iff dest: in_set_takeD)
  ultimately show ?thesis using contiguous_nth [OF assms(1,3)] assms(3) by simp
qed

lemma update_idx_table_blocks:
  assumes "0 < n" and "m \<noteq> n"
  shows "update_idx_table (int n * 65536) (int m * 65536) p it =
    it((if n div 256 \<noteq> m div 256 then int (n div 256) else int n) := p)"
proof -
  have d: "int k * 65536 sdiv (65536 * 256) = int (k div 256)" "int k * 65536 sdiv 65536 = int k" for k
    by (simp_all add: sdiv_nonneg zdiv_int)
  show ?thesis unfolding update_idx_table_def d using assms by simp
qed

lemma idx_table_all_16:
  assumes "sound_rows rs" and "list_all (\<lambda>r. row_len r = 16) rs" and "length rs \<le> 32768"
  defines "it \<equiv> idx_table (fold load_row rs load_init)"
  shows "(rs \<noteq> [] \<longrightarrow> it 0 = row_key (rs ! 0)) \<and> it 256 = 0
    \<and> it 1 = (if 256 < length rs then row_key (rs ! 256) else if 1 < length rs then row_key (rs ! 1) else 0)"
  using assms(1-3) unfolding it_def
proof (induction rs rule: rev_induct)
  case Nil
  show ?case by (simp add: load_init_def)
next
  case (snoc r rs)
  let ?n = "length rs"
  have c: "contiguous 0 (rs @ [r])" using snoc(2) by (simp add: sound_rows_def)
  have rs: "sound_rows rs" "row_len r \<in> {8, 16, 24}" "row_idx r = int ?n * 65536"
    using snoc(2) all_16_idx [OF c snoc(3), of ?n] by (auto simp: sound_rows_snoc nth_append)
  define s where "s = fold load_row rs load_init"
  have s: "loaded rs s" unfolding s_def by (rule loaded_rows [OF rs(1)])
  have prev: "prev_idx s = int (?n - 1) * 65536" if "rs \<noteq> []"
    using s that all_16_idx [OF c snoc(3), of "?n - 1"] by (simp add: loaded_def last_conv_nth nth_append)
  have "idx_table (load_row r s) = (idx_table s)
    ((if rs \<noteq> [] \<and> ?n div 256 \<noteq> (?n - 1) div 256 then int (?n div 256) else int ?n) := row_key r)"
  proof (cases "rs = []")
    case True
    then show ?thesis unfolding load_row_eq [OF rs(2)] update_idx_table_def rs(3) by simp
  next
    case False
    then have n: "0 < ?n" "?n - 1 \<noteq> ?n" by (cases rs; simp)+
    have "idx_table (load_row r s) = update_idx_table (row_idx r) (prev_idx s) (row_key r) (idx_table s)"
      by (simp add: load_row_eq [OF rs(2)])
    also have "\<dots> = (idx_table s)((if ?n div 256 \<noteq> (?n - 1) div 256 then int (?n div 256) else int ?n) := row_key r)"
      unfolding rs(3) prev [OF False] by (rule update_idx_table_blocks [OF n])
    finally show ?thesis using False by simp
  qed
  moreover have "rs \<noteq> [] \<Longrightarrow> ?n div 256 \<noteq> (?n - 1) div 256 \<longleftrightarrow> ?n mod 256 = 0"
    using div_mult_mod_eq [of ?n 256] by (cases rs rule: rev_cases) (auto simp: div_Suc mod_Suc)
  moreover have "?n < 32768" using snoc(4) by simp
  ultimately show ?case
    using snoc(1) [OF rs(1)] snoc(3,4)
    by (auto simp: s_def [symmetric] nth_append not_less le_Suc_eq split: if_splits)
qed

section \<open>Properties\<close>

text \<open>C35: After \<^verbatim>\<open>load_rtbl\<close> read a route file whose rows are sorted, numbered without gaps
  from 0 and either all /8 (below \<open>2 ^ 31\<close> addresses) or aligned, non-overlapping /16 and /24
  prefixes of at most \<open>2 ^ 24\<close> addresses, \<^verbatim>\<open>idx_to_ip\<close> returns for every index below
  \<^verbatim>\<open>MAX_IDX\<close>, different indexes get different addresses, and \<^verbatim>\<open>ip_to_idx\<close> maps the
  address back.\<close>

theorem idx_to_ip_roundtrip:
  assumes "good_rows rs" and "0 \<le> idx" and "idx < MAX_IDX (load_rows rs)"
  shows "\<exists>a. idx_to_ip (load_rows rs) idx = Some a \<and> ip_to_idx (load_rows rs) a = idx
    \<and> (\<forall>idx'\<in>{0..<MAX_IDX (load_rows rs)}. idx_to_ip (load_rows rs) idx' = Some a \<longrightarrow> idx' = idx)"
proof -
  have "MAX_IDX (load_rows rs) = rows_total rs"
    using MAX_IDX_load_rows assms(1) by (simp add: good_rows_def)
  with assms have lim: "idx < (if good_rows rs then rows_total rs else 0)"
    "\<And>i. i \<in> {0..<MAX_IDX (load_rows rs)} \<Longrightarrow> 0 \<le> i \<and> i < (if good_rows rs then rows_total rs else 0)"
    by auto
  from rtbl.to_idx_to_ip [OF assms(2) lim(1)] obtain a
    where a: "idx_to_ip (load_rows rs) idx = Some a" "ip_to_idx (load_rows rs) a = idx" by blast
  have "idx' = idx" if "idx' \<in> {0..<MAX_IDX (load_rows rs)}" "idx_to_ip (load_rows rs) idx' = Some a" for idx'
    using rtbl.to_ip_inj [of idx' rs idx] lim that a(1) assms(2) by simp
  with a show ?thesis by blast
qed

text \<open>\<^verbatim>\<open>load_rtbl\<close> reads a prefix written in the usual notation as the address of its
  four numbers and its length.\<close>

theorem parse_prefix_dotted:
  assumes "a < 256" and "b < 256" and "c < 256" and "d < 256" and "m < 256"
  shows "parse_prefix (show_dec a @ ''.'' @ show_dec b @ ''.'' @ show_dec c @ ''.'' @ show_dec d @ ''/'' @ show_dec m)
    = Some (m, IPv4 (of_nat a) (of_nat b) (of_nat c) (of_nat d))"
proof -
  have dot: "\<not> isdigit (CHR ''.'')" and slash: "\<not> isdigit (CHR ''/'')"
    using isdigit_not_special(4,5) by blast+
  let ?abcd = "show_dec a @ CHR ''.'' # show_dec b @ CHR ''.'' # show_dec c @ CHR ''.'' # show_dec d"
  have "CHR ''/'' \<notin> set ?abcd" using not_in_show_dec [OF slash] by auto
  then have "split_at (CHR ''/'') (?abcd @ CHR ''/'' # show_dec m) = Some (?abcd, show_dec m)"
    by (rule split_at_append)
  then show ?thesis
    using not_in_show_dec [OF dot] assms(5) by (simp add: parse_prefix_def)
qed

theorem parse_prefix_dotted_witness:
  "parse_prefix (show_dec 10 @ ''.'' @ show_dec 1 @ ''.'' @ show_dec 0 @ ''.'' @ show_dec 0 @ ''/'' @ show_dec 16)
    = Some (16, IPv4 10 1 0 0)"
  using parse_prefix_dotted [of 10 1 0 0 16] by simp

definition sample_rows :: "row list" where
  "sample_rows = [(16, 0x0B010000, 0), (24, 0xC0000100, 65536), (24, 0xC0000300, 65792)]"

lemma sample_rows_good: "good_rows sample_rows" "rows_total sample_rows = 66048"
proof -
  have k: "row_key (16, 0x0B010000, 0) = 2817" "row_key (24, 0xC0000100, 65536) = 12582913"
    "row_key (24, 0xC0000300, 65792) = 12582915"
    by (simp_all add: row_key_def row_len_def prefix_key_def)
  then show "good_rows sample_rows" "rows_total sample_rows = 66048"
    by (simp_all add: good_rows_def sample_rows_def sound_rows_def small_16_24_def only_8_def k
        row_len_def row_idx_def row_size_def rows_total_def)
qed

theorem idx_to_ip_roundtrip_witness:
  "\<exists>a. idx_to_ip (load_rows sample_rows) 65793 = Some a \<and> ip_to_idx (load_rows sample_rows) a = 65793"
proof -
  have "MAX_IDX (load_rows sample_rows) = 66048"
    using MAX_IDX_load_rows [of sample_rows] sample_rows_good by (simp add: good_rows_def)
  with idx_to_ip_roundtrip [of sample_rows 65793] sample_rows_good show ?thesis by auto
qed

text \<open>C39: The comment of \<^verbatim>\<open>idx_to_ip\<close> says an index larger than \<^verbatim>\<open>MAX_IDX\<close> loops
  forever.  For a table that ends with a /24 row this holds of every index from
  \<^verbatim>\<open>MAX_IDX\<close> on (not only above it) up to the end of the block of 65536 indexes the
  last row lies in.\<close>

theorem idx_to_ip_diverges:
  assumes "good_rows rs" and "small_16_24 rs" and "row_len (last rs) = 24"
    and "MAX_IDX (load_rows rs) \<le> idx" and "idx div 65536 = row_idx (last rs) div 65536"
  shows "idx_to_ip (load_rows rs) idx = None"
  using assms idx_to_ip_beyond [of rs idx] MAX_IDX_load_rows [of rs] by (simp add: good_rows_def)

theorem idx_to_ip_diverges_witness: "idx_to_ip (load_rows sample_rows) 66048 = None"
proof -
  have "MAX_IDX (load_rows sample_rows) = 66048"
    using MAX_IDX_load_rows [of sample_rows] sample_rows_good by (simp add: good_rows_def)
  moreover have "small_16_24 sample_rows"
    using sample_rows_good(1) by (auto simp: good_rows_def only_8_def sample_rows_def row_len_def)
  ultimately show ?thesis
    using idx_to_ip_diverges [of sample_rows 66048] sample_rows_good
    by (simp add: sample_rows_def row_len_def row_idx_def)
qed

text \<open>With more than 256 rows, all /16, the entry of \<^verbatim>\<open>idx_tbl\<close> for index 65536 is
  overwritten by the first row of the next \<open>2 ^ 24\<close> indexes, because \<^verbatim>\<open>load_rtbl\<close> uses the
  same array for both granularities, and the entry for index \<open>2 ^ 24\<close> is skipped: index 65536
  gets an address of row 256 instead of row 1, and index \<open>2 ^ 24\<close> gets 0.0.0.0.\<close>

theorem idx_tbl_clobbered:
  assumes "sound_rows rs" and "list_all (\<lambda>r. row_len r = 16 \<and> 256 \<le> row_key r) rs"
    and "256 < length rs" and "length rs \<le> 32768"
  shows "idx_to_ip (load_rows rs) 65536 = Some (bswap32 (push_bit 16 (of_int (row_key (rs ! 256)))))
    \<and> row_idx (rs ! 256) = 2 ^ 24 \<and> row_idx (rs ! 1) = 65536
    \<and> idx_to_ip (load_rows rs) (2 ^ 24) = Some 0"
proof -
  have len: "list_all (\<lambda>r. row_len r = 16) rs" and ne: "rs \<noteq> []" and c: "contiguous 0 rs"
    using assms(1-3) by (auto simp: list_all_iff sound_rows_def)
  have key: "256 \<le> row_key (rs ! k)" "row_key (rs ! k) < 65536" if "k < length rs" for k
    using assms(2) that row_key_bounds(2) [of "rs ! k"] by (simp_all add: list_all_iff)
  have it: "idx_tbl (load_rows rs) 0 = row_key (rs ! 0)" "idx_tbl (load_rows rs) 1 = row_key (rs ! 256)"
    "idx_tbl (load_rows rs) 256 = 0"
    using idx_table_all_16 [OF assms(1) len assms(4)] assms(3) ne idx_tbl_load_rows [OF ne assms(1)] by auto
  have "idx_to_ip (load_rows rs) 65536 = Some (bswap32 (push_bit 16 (of_int (row_key (rs ! 256)))))"
    using it key(1) [of 0] key(2) [of 256] assms(3) ne by (simp add: idx_to_ip_def)
  moreover have "idx_to_ip (load_rows rs) (2 ^ 24) = Some (bswap32 0)"
    using it key(1) [of 256] assms(3) by (simp add: idx_to_ip_def)
  moreover have "bswap32 0 = 0" by (simp add: bswap32_def le_bytes_def numeral_eq_Suc)
  ultimately show ?thesis
    using all_16_idx [OF c len, of 1] all_16_idx [OF c len, of 256] assms(3) by simp
qed

definition many_16 :: "nat \<Rightarrow> row list" where
  "many_16 n = map (\<lambda>k. (16, of_nat ((256 + k) * 65536), int k * 65536)) [0..<n]"

lemma many_16_sound:
  "n \<le> 1024 \<Longrightarrow> sound_rows (many_16 n) \<and> list_all (\<lambda>r. row_len r = 16 \<and> 256 \<le> row_key r) (many_16 n)
    \<and> (\<forall>r\<in>set (many_16 n). row_key r < 256 + int n) \<and> rows_total (many_16 n) = int n * 65536"
proof (induction n)
  case 0
  show ?case by (simp add: many_16_def sound_rows_def rows_total_def)
next
  case (Suc n)
  let ?r = "(16, of_nat ((256 + n) * 65536), int n * 65536) :: row"
  have "unat (of_nat ((256 + n) * 65536) :: u32) = (256 + n) * 65536"
    using Suc(2) by (intro unat_of_nat_eq) simp
  then have "uint (of_nat ((256 + n) * 65536) :: u32) = (256 + int n) * 2 ^ 16 + 0" by (simp add: uint_nat)
  from split_address(1) [OF this] have "row_key ?r = 256 + int n"
    by (simp add: row_key_def row_len_def prefix_key_def)
  moreover have "many_16 (Suc n) = many_16 n @ [?r]" by (simp add: many_16_def)
  ultimately show ?case
    using Suc by (auto simp: sound_rows_snoc row_len_def row_idx_def rows_total_def row_size_def)
qed

theorem idx_tbl_clobbered_witness: "idx_to_ip (load_rows (many_16 300)) (2 ^ 24) = Some 0"
  using idx_tbl_clobbered [of "many_16 300"] many_16_sound [of 300] by (simp add: many_16_def)

end
