(* ===== verification/Nat_Packet.thy ===== *)
theory Nat_Packet
  imports Ff3 Rc5 Chacha Aesni Prefix_Table
begin

text \<open>
  The packet translation of \<^verbatim>\<open>nat.c\<close> as it is configured (\<^verbatim>\<open>CRYPTO_ALG FF3\<close>,
  26 host bits, no checksums): \<^verbatim>\<open>process_outgoing_pkt\<close> and \<^verbatim>\<open>process_incoming_pkt\<close>
  on the bytes of an IPv4 header without options and the ports behind it.  The result is
  \<open>None\<close> when \<^verbatim>\<open>idx_to_ip\<close> does not return.  The bitfield \<^verbatim>\<open>rem\<close> of
  \<^verbatim>\<open>ff3_msg\<close> is never written; its contents are the argument \<open>rem\<close>.
\<close>

section \<open>The code\<close>

definition NUM_ADDR :: nat where "NUM_ADDR = 26"
definition BLOCK_LEN :: nat where "BLOCK_LEN = NUM_ADDR + 16"
definition HOST_MASK :: u32 where "HOST_MASK = push_bit NUM_ADDR 1 - 1"

definition tweak :: bytes where "tweak = replicate 8 0"

text \<open>\<^verbatim>\<open>struct ff3_msg\<close>: 16 bits of port, \<^verbatim>\<open>NUM_ADDR\<close> bits of host, the rest.\<close>

definition ff3_msg :: "u16 \<Rightarrow> u32 \<Rightarrow> u64 \<Rightarrow> u64" where
  "ff3_msg port host rem =
     ucast port OR push_bit 16 (take_bit NUM_ADDR (ucast host)) OR push_bit (16 + NUM_ADDR) rem"

definition msg_port :: "u64 \<Rightarrow> u16" where
  "msg_port w = ucast w"

definition msg_host :: "u64 \<Rightarrow> u32" where
  "msg_host w = ucast (take_bit NUM_ADDR (drop_bit 16 w))"

text \<open>\<^verbatim>\<open>struct ipv4_5tuple_host\<close> laid over the packet at \<^verbatim>\<open>time_to_live\<close>, byte 8.\<close>

definition tuple_saddr :: "bytes \<Rightarrow> u32" where "tuple_saddr p = load 4 p (8 + 4)"
definition tuple_daddr :: "bytes \<Rightarrow> u32" where "tuple_daddr p = load 4 p (8 + 8)"
definition tuple_sport :: "bytes \<Rightarrow> u16" where "tuple_sport p = load 2 p (8 + 12)"
definition tuple_dport :: "bytes \<Rightarrow> u16" where "tuple_dport p = load 2 p (8 + 14)"

definition outgoing_block :: "bytes \<Rightarrow> u64 \<Rightarrow> u64" where
  "outgoing_block p rem =
     (let port = tuple_sport p; host = bswap32 (tuple_saddr p) AND HOST_MASK;
          port = port XOR tuple_dport p;
          host = host XOR (bswap32 (tuple_daddr p) AND HOST_MASK)
      in ff3_msg port host rem)"

definition process_outgoing_pkt :: "cbcmac \<Rightarrow> bytes \<Rightarrow> u64 \<Rightarrow> nat_table \<Rightarrow> bytes \<Rightarrow> bytes option" where
  "process_outgoing_pkt cbcmac rk rem t p =
     (case ff3_encrypt cbcmac (le_bytes 8 (outgoing_block p rem)) BLOCK_LEN tweak rk of
        None \<Rightarrow> None
      | Some out \<Rightarrow>
          let output = load 8 out 0; idx = uint (msg_host output);
              p = store p (8 + 12) (le_bytes 2 (msg_port output))
          in case idx_to_ip t idx of
               None \<Rightarrow> None
             | Some a \<Rightarrow> Some (store p (8 + 4) (le_bytes 4 a)))"

text \<open>\<open>P\<close> is the uninitialised array of \<^verbatim>\<open>ff3_decrypt\<close>.\<close>

definition process_incoming_pkt ::
  "cbcmac \<Rightarrow> bytes \<Rightarrow> bytes \<Rightarrow> u64 \<Rightarrow> nat_table \<Rightarrow> bytes \<Rightarrow> bytes option" where
  "process_incoming_pkt cbcmac rk P rem t p =
     (let idx = of_int (ip_to_idx t (tuple_daddr p));
          input = ff3_msg (tuple_dport p) idx rem
      in case ff3_decrypt cbcmac P (le_bytes 8 input) BLOCK_LEN tweak rk of
           None \<Rightarrow> None
         | Some out \<Rightarrow>
             let output = load 8 out 0;
                 port = msg_port output XOR tuple_sport p;
                 host = msg_host output XOR (bswap32 (tuple_saddr p) AND HOST_MASK);
                 p = store p (8 + 8) (le_bytes 4 (bswap32 (0x0A000000 OR host)))
             in Some (store p (8 + 14) (le_bytes 2 port)))"

section \<open>The message block\<close>

lemma HOST_MASK_mask: "HOST_MASK = mask 26"
  by (simp add: HOST_MASK_def NUM_ADDR_def mask_eq_exp_minus_1)

lemma and_HOST_MASK: "w AND HOST_MASK = take_bit 26 w"
  by (simp add: HOST_MASK_mask take_bit_eq_mask)

lemma BLOCK_LEN_42: "BLOCK_LEN = 42"
  by (simp add: BLOCK_LEN_def NUM_ADDR_def)

lemma bit_ff3_msg:
  "bit (ff3_msg port host rem) n \<longleftrightarrow>
     (if n < 16 then bit port n else if n < 42 then bit host (n - 16) else n < 64 \<and> bit rem (n - 42))"
  by (auto simp: ff3_msg_def NUM_ADDR_def bit_simps dest: bit_imp_le_length)

lemma bit_msg_port: "bit (msg_port w) n \<longleftrightarrow> n < 16 \<and> bit w n"
  by (auto simp: msg_port_def bit_simps)

lemma bit_msg_host: "bit (msg_host w) n \<longleftrightarrow> n < 26 \<and> bit w (16 + n)"
  by (auto simp: msg_host_def NUM_ADDR_def bit_simps)

lemma msg_port_ff3_msg [simp]: "msg_port (ff3_msg port host rem) = port"
  by (rule bit_word_eqI) (auto simp: bit_msg_port bit_ff3_msg)

lemma msg_host_ff3_msg [simp]: "msg_host (ff3_msg port host rem) = take_bit 26 host"
  by (rule bit_word_eqI) (auto simp: bit_msg_host bit_ff3_msg bit_take_bit_iff)

lemma ff3_msg_in_blocks: "take_bit 42 (ff3_msg port host rem) \<in> ff3_blocks 42"
  by (simp add: ff3_blocks_def)

lemma take_bit_ff3_msg: "take_bit 42 (ff3_msg port host rem) = ff3_msg port host 0"
  by (rule bit_word_eqI) (auto simp: bit_ff3_msg bit_take_bit_iff)

lemma ff3_msg_split: "w \<in> ff3_blocks 42 \<Longrightarrow> ff3_msg (msg_port w) (msg_host w) 0 = w"
  by (rule bit_word_eqI)
    (auto simp: bit_ff3_msg bit_msg_port bit_msg_host ff3_blocks_def take_bit_eq_iff_bits)

lemma msg_host_take_bit [simp]: "take_bit 26 (msg_host w) = msg_host w"
  by (rule bit_word_eqI) (auto simp: bit_msg_host bit_take_bit_iff)

lemma uint_msg_host: "0 \<le> uint (msg_host w)" "uint (msg_host w) < 2 ^ 26"
proof -
  have "uint (msg_host w) = take_bit 26 (uint (msg_host w))"
    by (metis msg_host_take_bit unsigned_take_bit_eq)
  then show "uint (msg_host w) < 2 ^ 26" by (metis take_bit_int_less_exp)
qed simp

lemma msg_eqI: "w \<in> ff3_blocks 42 \<Longrightarrow> w' \<in> ff3_blocks 42 \<Longrightarrow> msg_port w = msg_port w' \<Longrightarrow>
    msg_host w = msg_host w' \<Longrightarrow> w = w'"
  by (metis ff3_msg_split)

section \<open>Translating with a cipher and an address table\<close>

text \<open>What the two directions need of the cipher and the table together.\<close>

locale nat_codec =
  cipher: block_cipher msgs enc dec + tbl: addr_table to_ip to_idx limit
  for msgs :: "u64 set" and enc dec :: "u64 \<Rightarrow> u64"
    and to_ip :: "int \<Rightarrow> u32 option" and to_idx :: "u32 \<Rightarrow> int" and limit :: int +
  assumes msgs_blocks: "msgs \<subseteq> ff3_blocks 42"
begin

lemma host_in_table:
  assumes "2 ^ 26 \<le> limit"
  obtains a where "to_ip (uint (msg_host w)) = Some a" and "to_idx a = uint (msg_host w)"
  using tbl.to_idx_to_ip [of "uint (msg_host w)"] uint_msg_host [of w] assms by auto

lemma translation_inj:
  assumes "2 ^ 26 \<le> limit" and "x \<in> msgs" and "y \<in> msgs"
    and "to_ip (uint (msg_host (enc x))) = to_ip (uint (msg_host (enc y)))"
    and "msg_port (enc x) = msg_port (enc y)"
  shows "x = y"
proof -
  have "uint (msg_host (enc x)) = uint (msg_host (enc y))"
    using tbl.to_ip_inj assms(1,4) uint_msg_host [of "enc x"] uint_msg_host [of "enc y"] by force
  then have "msg_host (enc x) = msg_host (enc y)" by (simp add: word_uint_eq_iff)
  then have "enc x = enc y"
    using assms(2,3,5) cipher.enc_closed msgs_blocks by (intro msg_eqI) auto
  with assms(2,3) show ?thesis by (simp add: cipher.enc_inject)
qed

text \<open>The message that comes back with the translated address and port is the encrypted one.\<close>

lemma message_back:
  assumes "2 ^ 26 \<le> limit" and "x \<in> msgs" and "to_ip (uint (msg_host (enc x))) = Some a"
  shows "ff3_msg (msg_port (enc x)) (of_int (to_idx a)) 0 = enc x"
proof -
  obtain a' where "to_ip (uint (msg_host (enc x))) = Some a'" and "to_idx a' = uint (msg_host (enc x))"
    by (rule host_in_table [OF assms(1)])
  with assms(3) have "of_int (to_idx a) = msg_host (enc x)" by simp
  moreover have "enc x \<in> ff3_blocks 42" using assms(2) cipher.enc_closed msgs_blocks by auto
  ultimately show ?thesis by (simp add: ff3_msg_split)
qed

end

interpretation ff3_nat: nat_codec "ff3_blocks 42"
  "ff3_enc_word cbcmac tweak rk 42" "ff3_undo_word cbcmac tweak rk 42"
  "idx_to_ip (load_rows rs)" "ip_to_idx (load_rows rs)" "if good_rows rs then rows_total rs else 0"
  for cbcmac rk rs
  by unfold_locales simp

section \<open>The packet operations\<close>

abbreviation enc_block :: "cbcmac \<Rightarrow> bytes \<Rightarrow> u64 \<Rightarrow> u64" where
  "enc_block cbcmac rk \<equiv> ff3_enc_word cbcmac tweak rk 42"

lemma outgoing_block_take: "take_bit 42 (outgoing_block p rem) = outgoing_block p 0"
  by (simp add: outgoing_block_def Let_def take_bit_ff3_msg)

lemma outgoing_block_in: "outgoing_block p 0 \<in> ff3_blocks 42"
  using outgoing_block_take [of p 0] by (simp add: ff3_blocks_def)

lemma ff3_encrypt_block:
  "ff3_encrypt cbcmac (le_bytes 8 w) 42 tweak rk
     = Some (le_bytes 8 (enc_block cbcmac rk (take_bit 42 w)))"
proof -
  have "ff3_encrypt cbcmac (le_bytes 8 w) 42 tweak rk = ff3_encrypt cbcmac (le_bytes 8 (take_bit 42 w)) 42 tweak rk"
    using ff3_encrypt_cong [of 42 "le_bytes 8 w" "le_bytes 8 (take_bit 42 w)"]
    by (simp add: load_le_bytes)
  moreover obtain ct where "ff3_encrypt cbcmac (le_bytes 8 (take_bit 42 w)) 42 tweak rk = Some ct" "length ct = 8"
    using ff3_encrypt_cong [of 42 "le_bytes 8 (take_bit 42 w)" "le_bytes 8 (take_bit 42 w)" cbcmac tweak rk] by auto
  ultimately show ?thesis
    by (simp add: ff3_enc_word_def load_def le_bytes_le_word)
qed

lemma process_outgoing_pkt_eq:
  "process_outgoing_pkt cbcmac rk rem t p =
    map_option (\<lambda>a. store (store p 20 (le_bytes 2 (msg_port (enc_block cbcmac rk (outgoing_block p 0))))) 12 (le_bytes 4 a))
      (idx_to_ip t (uint (msg_host (enc_block cbcmac rk (outgoing_block p 0)))))"
  by (simp add: process_outgoing_pkt_def BLOCK_LEN_42 ff3_encrypt_block outgoing_block_take Let_def
      load_le_bytes split: option.split)

lemma tuple_of_outgoing:
  assumes "24 \<le> length p" and "p' = store (store p 20 (le_bytes 2 sp)) 12 (le_bytes 4 a)"
  shows "tuple_sport p' = sp" and "tuple_saddr p' = a" and "tuple_daddr p' = tuple_daddr p"
    and "tuple_dport p' = tuple_dport p"
  using assms
  by (simp_all add: tuple_sport_def tuple_saddr_def tuple_daddr_def tuple_dport_def layout_simps)

section \<open>Properties\<close>

text \<open>An outgoing packet keeps its length and every byte except the source address (bytes
  12 to 15) and the source port (bytes 20 and 21); these become the address of the encrypted host
  index and the encrypted port, whatever the unused bits of the message hold.\<close>

theorem process_outgoing_frame:
  assumes "24 \<le> length p" and "process_outgoing_pkt cbcmac rk rem t p = Some p'"
  shows "length p' = length p
    \<and> (\<forall>i<length p. i \<notin> {12..<16} \<union> {20..<22} \<longrightarrow> p' ! i = p ! i)
    \<and> (let w = ff3_enc_word cbcmac tweak rk 42 (outgoing_block p 0)
       in idx_to_ip t (uint (msg_host w)) = Some (tuple_saddr p') \<and> tuple_sport p' = msg_port w)"
proof -
  from assms(2) obtain a where a: "idx_to_ip t (uint (msg_host (enc_block cbcmac rk (outgoing_block p 0)))) = Some a"
    and p': "p' = store (store p 20 (le_bytes 2 (msg_port (enc_block cbcmac rk (outgoing_block p 0))))) 12 (le_bytes 4 a)"
    by (auto simp: process_outgoing_pkt_eq)
  have "length p' = length p" using assms(1) by (simp add: p')
  moreover have "p' ! i = p ! i" if "i < length p" "i \<notin> {12..<16} \<union> {20..<22}" for i
    using assms(1) that by (auto simp: p' nth_store)
  ultimately show ?thesis
    using a tuple_of_outgoing [OF assms(1) p'] by (auto simp: Let_def)
qed

theorem process_outgoing_frame_witness:
  "\<exists>p'. process_outgoing_pkt (\<lambda>rk n T. rev T) [] 0 \<lparr>prefix_tbl = \<lambda>_. zero_prefix, idx_tbl = \<lambda>_. 1, MAX_IDX = 0, MAX_PREFIX = 0\<rparr>
      (replicate 24 7) = Some p' \<and> length p' = 24 \<and> p' ! 16 = 7"
proof -
  let ?t = "\<lparr>prefix_tbl = \<lambda>_. zero_prefix, idx_tbl = \<lambda>_. 1, MAX_IDX = 0, MAX_PREFIX = 0\<rparr>"
  have "\<exists>a. idx_to_ip ?t i = Some a" for i by (simp add: idx_to_ip_def)
  then have "\<exists>p'. process_outgoing_pkt (\<lambda>rk n T. rev T) [] 0 ?t (replicate 24 7) = Some p'"
    unfolding process_outgoing_pkt_eq by (metis option.simps(9))
  then obtain p' where "process_outgoing_pkt (\<lambda>rk n T. rev T) [] 0 ?t (replicate 24 7) = Some p'" by blast
  with process_outgoing_frame [OF _ this] show ?thesis by auto
qed

text \<open>C32: With a good table of at least \<open>2 ^ 26\<close> addresses every outgoing packet is translated,
  and two packets to the same remote address and port get the same source address and port only
  if their source ports and the 26 host bits of their source addresses agree: no two flows are
  merged.\<close>

theorem process_outgoing_injective:
  assumes "good_rows rs" and "2 ^ 26 \<le> MAX_IDX (load_rows rs)"
    and "24 \<le> length p" and "24 \<le> length q"
    and "tuple_daddr p = tuple_daddr q" and "tuple_dport p = tuple_dport q"
  shows "\<exists>p' q'. process_outgoing_pkt cbcmac rk rem (load_rows rs) p = Some p'
    \<and> process_outgoing_pkt cbcmac rk rem' (load_rows rs) q = Some q'
    \<and> (tuple_saddr p' = tuple_saddr q' \<and> tuple_sport p' = tuple_sport q' \<longleftrightarrow>
        tuple_sport p = tuple_sport q
        \<and> take_bit 26 (bswap32 (tuple_saddr p)) = take_bit 26 (bswap32 (tuple_saddr q)))"
proof -
  let ?e = "\<lambda>x. enc_block cbcmac rk (outgoing_block x 0)"
  have lim: "2 ^ 26 \<le> (if good_rows rs then rows_total rs else 0)"
    using assms(1,2) MAX_IDX_load_rows [of rs] by (simp add: good_rows_def)
  obtain a b where a: "idx_to_ip (load_rows rs) (uint (msg_host (?e p))) = Some a"
    and b: "idx_to_ip (load_rows rs) (uint (msg_host (?e q))) = Some b"
    using ff3_nat.host_in_table [OF lim] by metis
  define p' where "p' = store (store p 20 (le_bytes 2 (msg_port (?e p)))) 12 (le_bytes 4 a)"
  define q' where "q' = store (store q 20 (le_bytes 2 (msg_port (?e q)))) 12 (le_bytes 4 b)"
  have same: "outgoing_block p 0 = outgoing_block q 0 \<longleftrightarrow> tuple_sport p = tuple_sport q
      \<and> take_bit 26 (bswap32 (tuple_saddr p)) = take_bit 26 (bswap32 (tuple_saddr q))"
  proof -
    have "outgoing_block p 0 = outgoing_block q 0 \<longleftrightarrow>
      msg_port (outgoing_block p 0) = msg_port (outgoing_block q 0)
      \<and> msg_host (outgoing_block p 0) = msg_host (outgoing_block q 0)"
      using msg_eqI [OF outgoing_block_in outgoing_block_in] by metis
    then show ?thesis
      using assms(5,6) by (simp add: outgoing_block_def Let_def and_HOST_MASK)
  qed
  have "a = b \<and> msg_port (?e p) = msg_port (?e q) \<longleftrightarrow> outgoing_block p 0 = outgoing_block q 0"
    using ff3_nat.translation_inj [OF lim outgoing_block_in outgoing_block_in, of cbcmac rk p q] a b by auto
  with same tuple_of_outgoing [OF assms(3) p'_def] tuple_of_outgoing [OF assms(4) q'_def]
  have "tuple_saddr p' = tuple_saddr q' \<and> tuple_sport p' = tuple_sport q' \<longleftrightarrow>
        tuple_sport p = tuple_sport q
        \<and> take_bit 26 (bswap32 (tuple_saddr p)) = take_bit 26 (bswap32 (tuple_saddr q))" by simp
  then show ?thesis using a b by (simp add: process_outgoing_pkt_eq p'_def q'_def)
qed

definition sample_8 :: "row list" where
  "sample_8 = [(8, 0x0B000000, 0), (8, 0x0C000000, 0x1000000), (8, 0x0D000000, 0x2000000), (8, 0x0E000000, 0x3000000)]"

lemma sample_8_good: "good_rows sample_8" "MAX_IDX (load_rows sample_8) = 2 ^ 26"
proof -
  have k: "row_key (8, 0x0B000000, 0) = 11" "row_key (8, 0x0C000000, 0x1000000) = 12"
    "row_key (8, 0x0D000000, 0x2000000) = 13" "row_key (8, 0x0E000000, 0x3000000) = 14"
    by (simp_all add: row_key_def row_len_def prefix_key_def)
  show "good_rows sample_8"
    by (simp_all add: good_rows_def sample_8_def sound_rows_def only_8_def k row_len_def row_idx_def
        row_size_def rows_total_def)
  then show "MAX_IDX (load_rows sample_8) = 2 ^ 26"
    using MAX_IDX_load_rows [of sample_8]
    by (simp add: good_rows_def sample_8_def row_len_def row_size_def rows_total_def)
qed

theorem process_outgoing_injective_witness:
  "\<exists>p' q'. process_outgoing_pkt (\<lambda>rk n T. rev T) [] 0 (load_rows sample_8) (replicate 24 0) = Some p'
    \<and> process_outgoing_pkt (\<lambda>rk n T. rev T) [] 9 (load_rows sample_8) ((replicate 24 0)[20 := 1]) = Some q'
    \<and> (tuple_saddr p', tuple_sport p') \<noteq> (tuple_saddr q', tuple_sport q')"
proof -
  let ?p = "replicate 24 0 :: bytes" and ?q = "(replicate 24 0)[20 := 1] :: bytes"
  have "tuple_daddr ?p = tuple_daddr ?q" "tuple_dport ?p = tuple_dport ?q" "tuple_sport ?p \<noteq> tuple_sport ?q"
    by (simp_all add: tuple_daddr_def tuple_dport_def tuple_sport_def load_def numeral_eq_Suc)
  with process_outgoing_injective [of sample_8 ?p ?q "\<lambda>rk n T. rev T" "[]" 0 9] sample_8_good
  show ?thesis by auto
qed

text \<open>The reply to a translated packet: the remote side answers to the translated source.\<close>

definition is_reply :: "bytes \<Rightarrow> bytes \<Rightarrow> bool" where
  "is_reply p r \<longleftrightarrow> 24 \<le> length r \<and> tuple_saddr r = tuple_daddr p \<and> tuple_sport r = tuple_dport p
     \<and> tuple_daddr r = tuple_saddr p \<and> tuple_dport r = tuple_sport p"

lemma tuple_of_incoming:
  assumes "24 \<le> length p" and "p' = store (store p 16 (le_bytes 4 a)) 22 (le_bytes 2 dp)"
  shows "tuple_dport p' = dp" and "tuple_daddr p' = a" and "tuple_saddr p' = tuple_saddr p"
    and "tuple_sport p' = tuple_sport p"
  using assms
  by (simp_all add: tuple_sport_def tuple_saddr_def tuple_daddr_def tuple_dport_def layout_simps)

text \<open>The address 10.0.0.0 covers bit 25 of the host.\<close>

lemma inside_host:
  assumes "drop_bit 24 (s :: u32) = 10" and "take_bit 26 h = h"
  shows "0x0A000000 OR h = s \<longleftrightarrow> (\<forall>k<25. bit h k \<longleftrightarrow> bit s k)"
proof -
  have c: "(0x0A000000 :: u32) = push_bit 25 1 OR push_bit 27 1" "(10 :: u32) = push_bit 1 1 OR push_bit 3 1" by simp_all
  have t: "bit (0x0A000000 :: u32) k \<longleftrightarrow> k = 25 \<or> k = 27" for k
    by (simp only: c(1) bit_or_iff bit_push_bit_iff bit_1_iff) auto
  have hi: "bit s k \<longleftrightarrow> k = 25 \<or> k = 27" if "24 \<le> k" for k
  proof -
    have "bit s k \<longleftrightarrow> bit (drop_bit 24 s) (k - 24)" using that by (simp add: bit_drop_bit_eq)
    also have "\<dots> \<longleftrightarrow> k = 25 \<or> k = 27" using that by (simp only: assms(1) c(2) bit_or_iff bit_push_bit_iff bit_1_iff) auto
    finally show ?thesis .
  qed
  have h: "\<not> bit h k" if "26 \<le> k" for k using assms(2) that by (metis bit_take_bit_iff not_le)
  show ?thesis
  proof
    assume "0x0A000000 OR h = s"
    then have "bit s k \<longleftrightarrow> bit (0x0A000000 :: u32) k \<or> bit h k" for k by (auto simp: bit_or_iff)
    then show "\<forall>k<25. bit h k \<longleftrightarrow> bit s k" using t by auto
  next
    assume a: "\<forall>k<25. bit h k \<longleftrightarrow> bit s k"
    show "0x0A000000 OR h = s"
    proof (rule bit_word_eqI)
      fix k
      show "bit (0x0A000000 OR h) k \<longleftrightarrow> bit s k"
        using a t [of k] hi [of k] h [of k] by (cases "k < 25"; cases "k = 25") (auto simp: bit_or_iff)
    qed
  qed
qed

lemma incoming_decrypts:
  fixes i :: u64
  assumes "ff3_split (le_bytes 8 (take_bit 42 i)) 42 = (A, B)"
  shows "ff3_decrypt cbcmac P (le_bytes 8 i) 42 tweak rk =
    Some (ff3_join 42 (take_bit 21 (A - ff3_pad cbcmac rk tweak [0, 2, 4, 6]), take_bit 21 (B - ff3_pad cbcmac rk tweak [1, 3, 5, 7])))"
proof -
  have "ff3_split (le_bytes 8 i) 42 = ff3_split (le_bytes 8 (take_bit 42 i)) 42" by (rule ff3_split_cong) (simp_all add: load_le_bytes)
  then show ?thesis using ff3_decrypt_eq [of 42 "le_bytes 8 i" A B cbcmac P tweak rk] assms by simp
qed

text \<open>The halves of a block against its bits; the top bit of the block is the lowest of the first half.\<close>

lemma block_bits_halves:
  assumes "ff3_split (le_bytes 8 w) 42 = (A, B)" and "take_bit 21 X = X" and "take_bit 21 Y = Y"
  shows "(\<forall>k<41. bit (load 8 (ff3_join 42 (X, Y)) 0 :: u64) k \<longleftrightarrow> bit (w :: u64) k) \<longleftrightarrow> drop_bit 1 X = drop_bit 1 A \<and> Y = B"
proof -
  have A: "bit A k \<longleftrightarrow> k < 21 \<and> bit w (41 - k)" and B: "bit B k \<longleftrightarrow> k < 21 \<and> bit w (20 - k)" for k
    using bit_ff3_split [OF _ _ assms(1), of k] by (simp_all add: load_le_bytes)
  have XY: "bit X k \<Longrightarrow> k < 21" "bit Y k \<Longrightarrow> k < 21" for k
    using assms(2,3) by (metis bit_take_bit_iff)+
  have d: "bit (load 8 (ff3_join 42 (X, Y)) 0 :: u64) k \<longleftrightarrow> (if k < 21 then bit Y (20 - k) else k < 42 \<and> bit X (41 - k))" for k
    by (simp add: bit_ff3_join)
  show ?thesis
  proof
    assume a: "\<forall>k<41. bit (load 8 (ff3_join 42 (X, Y)) 0 :: u64) k \<longleftrightarrow> bit w k"
    have "bit Y k \<longleftrightarrow> bit B k" for k
    proof (cases "k < 21")
      case True
      have "20 - k < 41" "20 - k < 21" "20 - (20 - k) = k" using True by simp_all
      then show ?thesis using a [rule_format, of "20 - k"] True by (simp add: d B)
    qed (use XY B in auto)
    moreover have "bit X (Suc k) \<longleftrightarrow> bit A (Suc k)" for k
    proof (cases "Suc k < 21")
      case True
      have "41 - Suc k < 41" "\<not> 41 - Suc k < 21" "41 - Suc k < 42" "41 - (41 - Suc k) = Suc k" using True by simp_all
      then show ?thesis using a [rule_format, of "41 - Suc k"] True unfolding d A by simp
    qed (use XY(1) [of "Suc k"] A [of "Suc k"] in auto)
    ultimately show "drop_bit 1 X = drop_bit 1 A \<and> Y = B" by (simp add: bit_eq_iff bit_drop_bit_eq)
  next
    assume a: "drop_bit 1 X = drop_bit 1 A \<and> Y = B"
    have "bit X (Suc k) \<longleftrightarrow> bit A (Suc k)" for k
      using arg_cong [OF conjunct1 [OF a], of "\<lambda>z. bit z k"] by (simp add: bit_drop_bit_eq)
    then have x: "bit X (41 - k) \<longleftrightarrow> bit A (41 - k)" if "k < 41" for k
      using that by (metis Suc_diff_Suc)
    show "\<forall>k<41. bit (load 8 (ff3_join 42 (X, Y)) 0 :: u64) k \<longleftrightarrow> bit w k"
    proof (intro allI impI)
      fix k :: nat assume k: "k < 41"
      show "bit (load 8 (ff3_join 42 (X, Y)) 0 :: u64) k \<longleftrightarrow> bit w k"
      proof (cases "k < 21")
        case True
        then have "20 - (20 - k) = k" "20 - k < 21" by simp_all
        then show ?thesis unfolding d using True conjunct2 [OF a] B [of "20 - k"] by simp
      next
        case False
        then have "41 - (41 - k) = k" "41 - k < 21" using k by simp_all
        then show ?thesis unfolding d using False x [OF k] A [of "41 - k"] k by simp
      qed
    qed
  qed
qed

lemma shift_all: "(\<forall>k<25. P (16 + k)) \<longleftrightarrow> (\<forall>k<41. 16 \<le> k \<longrightarrow> P (k :: nat))"
proof
  assume a: "\<forall>k<25. P (16 + k)"
  show "\<forall>k<41. 16 \<le> k \<longrightarrow> P k"
  proof (intro allI impI)
    fix k :: nat assume "k < 41" "16 \<le> k"
    then have "k - 16 < 25" "16 + (k - 16) = k" by simp_all
    with a show "P k" by metis
  qed
qed auto

lemma join_all: "(\<forall>k<41. 16 \<le> k \<longrightarrow> P k) \<and> (\<forall>k<16. P k) \<longleftrightarrow> (\<forall>k<41. P (k :: nat))"
proof
  assume a: "(\<forall>k<41. 16 \<le> k \<longrightarrow> P k) \<and> (\<forall>k<16. P k)"
  show "\<forall>k<41. P k"
  proof (intro allI impI)
    fix k :: nat assume "k < 41"
    then show "P k" using a by (cases "16 \<le> k") auto
  qed
qed auto

text \<open>C33: Whatever the MAC, the incoming direction delivers a reply to its inside host only by
  coincidence.  The decryption does not apply the cipher to the other half of the block, so it subtracts from the
  two (reversed) halves of the encrypted message two constants that depend on the key and the tweak
  alone.  For an inside host in 10.0.0.0/8 and a good table of at least \<open>2 ^ 26\<close> addresses, the
  reply to a translated packet is translated to some inside host, and this is the host and
  the port the packet came from exactly when the encryption happens to have added these constants to the halves of
  the message, up to the bit of the host that the prefix covers.\<close>

theorem process_incoming_delivers:
  assumes "good_rows rs" and "2 ^ 26 \<le> MAX_IDX (load_rows rs)"
    and "24 \<le> length p" and "drop_bit 24 (bswap32 (tuple_saddr p)) = 10"
    and "process_outgoing_pkt cbcmac rk rem (load_rows rs) p = Some p'" and "is_reply p' r"
    and "ff3_split (le_bytes 8 (outgoing_block p 0)) 42 = (A, B)"
    and "ff3_split (the (ff3_encrypt cbcmac (le_bytes 8 (outgoing_block p 0)) 42 tweak rk)) 42 = (A', B')"
  shows "\<exists>r'. process_incoming_pkt cbcmac rk P rem' (load_rows rs) r = Some r'
    \<and> tuple_saddr r' = tuple_daddr p \<and> tuple_sport r' = tuple_dport p
    \<and> (tuple_daddr r' = tuple_saddr p \<and> tuple_dport r' = tuple_sport p \<longleftrightarrow>
        drop_bit 1 (take_bit 21 (A' - ff3_pad cbcmac rk tweak [0, 2, 4, 6])) = drop_bit 1 A
        \<and> take_bit 21 (B' - ff3_pad cbcmac rk tweak [1, 3, 5, 7]) = B)"
proof -
  let ?w = "outgoing_block p 0"
  let ?e = "enc_block cbcmac rk ?w"
  let ?X = "take_bit 21 (A' - ff3_pad cbcmac rk tweak [0, 2, 4, 6])" and ?Y = "take_bit 21 (B' - ff3_pad cbcmac rk tweak [1, 3, 5, 7])"
  have lim: "2 ^ 26 \<le> (if good_rows rs then rows_total rs else 0)"
    using assms(1,2) MAX_IDX_load_rows [of rs] by (simp add: good_rows_def)
  from assms(5) obtain a where a: "idx_to_ip (load_rows rs) (uint (msg_host ?e)) = Some a"
    and p': "p' = store (store p 20 (le_bytes 2 (msg_port ?e))) 12 (le_bytes 4 a)"
    by (auto simp: process_outgoing_pkt_eq)
  note t = tuple_of_outgoing [OF assms(3) p']
  have r: "tuple_daddr r = a" "tuple_dport r = msg_port ?e" "tuple_saddr r = tuple_daddr p"
    "tuple_sport r = tuple_dport p" "24 \<le> length r"
    using assms(6) by (simp_all add: is_reply_def t)
  let ?i = "ff3_msg (tuple_dport r) (of_int (ip_to_idx (load_rows rs) (tuple_daddr r))) rem'"
  have i: "take_bit 42 ?i = ?e"
    unfolding r take_bit_ff3_msg by (rule ff3_nat.message_back [OF lim outgoing_block_in a])
  have "the (ff3_encrypt cbcmac (le_bytes 8 ?w) 42 tweak rk) = le_bytes 8 ?e"
    using ff3_encrypt_block [of cbcmac ?w rk] outgoing_block_in [of p] by (simp add: ff3_blocks_def)
  then have "ff3_split (le_bytes 8 (take_bit 42 ?i)) 42 = (A', B')" using assms(8) by (simp add: i)
  note dec = incoming_decrypts [OF this, of cbcmac P rk]
  define d :: u64 where "d = load 8 (ff3_join 42 (?X, ?Y)) 0"
  define x s where "x = bswap32 (tuple_daddr p)" and "s = bswap32 (tuple_saddr p)"
  define h where "h = msg_host d XOR take_bit 26 x"
  define r' where "r' = store (store r 16 (le_bytes 4 (bswap32 (0x0A000000 OR h)))) 22 (le_bytes 2 (msg_port d XOR tuple_dport p))"
  have in_eq: "process_incoming_pkt cbcmac rk P rem' (load_rows rs) r = Some r'"
    using dec by (simp add: process_incoming_pkt_def BLOCK_LEN_42 Let_def and_HOST_MASK r(3,4) r'_def h_def d_def x_def)
  note f = tuple_of_incoming [OF r(5) r'_def]
  have w: "bit ?w k \<longleftrightarrow> (if k < 16 then bit (tuple_sport p XOR tuple_dport p) k
      else k < 42 \<and> (bit s (k - 16) \<noteq> bit x (k - 16)))" for k
    by (auto simp: outgoing_block_def Let_def bit_ff3_msg and_HOST_MASK bit_xor_iff bit_take_bit_iff s_def x_def)
  have port: "msg_port d XOR tuple_dport p = tuple_sport p \<longleftrightarrow> (\<forall>k<16. bit d k \<longleftrightarrow> bit ?w k)"
  proof -
    have "msg_port d XOR tuple_dport p = tuple_sport p \<longleftrightarrow> msg_port d = tuple_sport p XOR tuple_dport p"
      by (metis xor.assoc xor_self_eq xor.right_neutral)
    also have "\<dots> \<longleftrightarrow> (\<forall>k<16. bit d k \<longleftrightarrow> bit ?w k)"
      by (auto simp: bit_eq_iff bit_msg_port w dest: bit_imp_le_length)
    finally show ?thesis .
  qed
  have "bswap32 (0x0A000000 OR h) = tuple_saddr p \<longleftrightarrow> 0x0A000000 OR h = s" by (metis s_def bswap32_bswap32)
  also have "\<dots> \<longleftrightarrow> (\<forall>k<25. bit h k \<longleftrightarrow> bit s k)"
    by (rule inside_host) (simp_all add: assms(4) s_def h_def take_bit_xor)
  also have "\<dots> \<longleftrightarrow> (\<forall>k<25. bit d (16 + k) \<longleftrightarrow> bit ?w (16 + k))"
    by (auto simp: h_def w bit_xor_iff bit_msg_host bit_take_bit_iff)
  also have "\<dots> \<longleftrightarrow> (\<forall>k<41. 16 \<le> k \<longrightarrow> (bit d k \<longleftrightarrow> bit ?w k))"
    by (rule shift_all)
  finally have host: "bswap32 (0x0A000000 OR h) = tuple_saddr p \<longleftrightarrow> (\<forall>k<41. 16 \<le> k \<longrightarrow> (bit d k \<longleftrightarrow> bit ?w k))" .
  have "tuple_daddr r' = tuple_saddr p \<and> tuple_dport r' = tuple_sport p \<longleftrightarrow> (\<forall>k<41. bit d k \<longleftrightarrow> bit ?w k)"
    unfolding f(1,2) port host by (rule join_all)
  also have "\<dots> \<longleftrightarrow> drop_bit 1 ?X = drop_bit 1 A \<and> ?Y = B"
    unfolding d_def by (rule block_bits_halves [OF assms(7)]) simp_all
  finally show ?thesis using in_eq f(3,4) r(3,4) by auto
qed

definition reply_of :: "bytes \<Rightarrow> bytes" where
  "reply_of p = store (store (store (store p 12 (le_bytes 4 (tuple_daddr p))) 16 (le_bytes 4 (tuple_saddr p)))
     20 (le_bytes 2 (tuple_dport p))) 22 (le_bytes 2 (tuple_sport p))"

lemma is_reply_reply_of: "24 \<le> length p \<Longrightarrow> is_reply p (reply_of p)"
  by (simp add: is_reply_def reply_of_def layout_simps
      tuple_saddr_def [of "store _ _ _"] tuple_sport_def [of "store _ _ _"]
      tuple_daddr_def [of "store _ _ _"] tuple_dport_def [of "store _ _ _"])

lemma sample_outgoing:
  obtains p' where "process_outgoing_pkt cbcmac rk rem (load_rows sample_8) p = Some p'"
proof -
  have "2 ^ 26 \<le> (if good_rows sample_8 then rows_total sample_8 else 0)"
    using sample_8_good MAX_IDX_load_rows [of sample_8] by (simp add: good_rows_def)
  then obtain a where "idx_to_ip (load_rows sample_8) (uint (msg_host (enc_block cbcmac rk (outgoing_block p 0)))) = Some a"
    by (rule ff3_nat.host_in_table)
  with that show ?thesis by (simp add: process_outgoing_pkt_eq)
qed

lemma length_outgoing:
  "24 \<le> length p \<Longrightarrow> process_outgoing_pkt cbcmac rk rem t p = Some p' \<Longrightarrow> length p' = length p"
  by (auto simp: process_outgoing_pkt_eq)

definition sample_packet :: bytes where
  "sample_packet = (replicate 24 0)[12 := 10]"

lemma sample_packet_fields:
  "length sample_packet = 24" "drop_bit 24 (bswap32 (tuple_saddr sample_packet)) = 10"
  by code_simp+

lemma sample_halves:
  "ff3_split (le_bytes 8 (outgoing_block sample_packet 0)) 42 = (1, 0)"
  "ff3_split (the (ff3_encrypt (\<lambda>rk n T. rev T) (le_bytes 8 (outgoing_block sample_packet 0)) 42 tweak [])) 42 = (13, 21)"
  "ff3_pad (\<lambda>rk n T. rev T) [] tweak [0, 2, 4, 6] = 0"
  by code_simp+

theorem process_incoming_delivers_witness:
  "\<exists>p' r'. process_outgoing_pkt (\<lambda>rk n T. rev T) [] 0 (load_rows sample_8) sample_packet = Some p'
    \<and> process_incoming_pkt (\<lambda>rk n T. rev T) [] (replicate 16 0) 5 (load_rows sample_8) (reply_of p') = Some r'
    \<and> \<not> (tuple_daddr r' = tuple_saddr sample_packet \<and> tuple_dport r' = tuple_sport sample_packet)"
proof -
  obtain p' where p': "process_outgoing_pkt (\<lambda>rk n T. rev T) [] 0 (load_rows sample_8) sample_packet = Some p'"
    by (rule sample_outgoing)
  from length_outgoing [OF _ this] have "length p' = 24" by (simp add: sample_packet_fields(1))
  then have rep: "is_reply p' (reply_of p')" by (simp add: is_reply_reply_of)
  have ne: "drop_bit 1 (take_bit 21 (13 - 0)) \<noteq> drop_bit 1 (1 :: u32)" by simp
  have "2 ^ 26 \<le> MAX_IDX (load_rows sample_8)" "24 \<le> length sample_packet"
    by (simp_all add: sample_8_good(2) sample_packet_fields(1))
  from process_incoming_delivers [OF sample_8_good(1) this sample_packet_fields(2) p' rep sample_halves(1,2),
      of "replicate 16 0" 5] ne p' show ?thesis unfolding sample_halves(3) by blast
qed

end
