(* ===== verification/L3fwd_Em.thy ===== *)
theory L3fwd_Em
  imports L3fwd_Em_Key Nat_Packet
begin

text \<open>
  Exact match forwarding with the address translation: the three handlers of a burst,
  \<^verbatim>\<open>l3fwd_em_hlm_sse.h\<close> (the one that is compiled in), \<^verbatim>\<open>l3fwd_em_sse.h\<close> and
  \<^verbatim>\<open>l3fwd_em.h\<close>, the packet types and the main loop of \<^verbatim>\<open>l3fwd_em.c\<close>.  The first
  and the third translate IPv4 packets with \<^verbatim>\<open>process_outgoing_pkt\<close> before they look up the
  port; \<open>None\<close> is a translation that does not return.
\<close>

section \<open>What the code is given\<close>

record em_types = ptype_consts +
  RTE_PTYPE_L3_MASK :: u32
  RTE_PTYPE_L3_IPV4_EXT :: u32
  RTE_PTYPE_L3_IPV6_EXT :: u32
  RTE_PTYPE_L4_TCP :: u32
  RTE_PTYPE_L4_UDP :: u32

text \<open>The layer-3 types lie under their mask and the layer-4 types beside it, and the macro for IPv4 tells
  the two versions apart.\<close>

definition em_types_ok :: "em_types \<Rightarrow> bool" where
  "em_types_ok c \<longleftrightarrow> (\<forall>t. t AND RTE_PTYPE_L3_MASK c = RTE_PTYPE_L3_IPV4 c \<longrightarrow> RTE_ETH_IS_IPV4_HDR c t)
     \<and> (\<forall>t. t AND RTE_PTYPE_L3_MASK c = RTE_PTYPE_L3_IPV6 c \<longrightarrow> \<not> RTE_ETH_IS_IPV4_HDR c t)
     \<and> RTE_PTYPE_L3_IPV4 c AND RTE_PTYPE_L3_MASK c = RTE_PTYPE_L3_IPV4 c
     \<and> RTE_PTYPE_L3_IPV4_EXT c AND RTE_PTYPE_L3_MASK c = RTE_PTYPE_L3_IPV4_EXT c
     \<and> (\<forall>l4\<in>{RTE_PTYPE_L4_TCP c, RTE_PTYPE_L4_UDP c}. l4 AND RTE_PTYPE_L3_MASK c = 0 \<and> l4 \<noteq> 0)"

record 'h em_conf = port_conf +
  em_ptypes :: em_types
  em_hash :: "'h hash_lib"
  em_tabs :: "'h em_tables"
  em_junk :: "nat \<Rightarrow> u8"
  em_cbcmac :: cbcmac
  em_rk :: bytes
  em_rem :: u64
  em_nat :: nat_table

section \<open>One packet\<close>

definition tcp_or_udp :: "em_types \<Rightarrow> u32 \<Rightarrow> bool" where
  "tcp_or_udp c t \<longleftrightarrow> t AND (RTE_PTYPE_L4_TCP c OR RTE_PTYPE_L4_UDP c) \<noteq> 0"

definition is_flow4 :: "em_types \<Rightarrow> u32 \<Rightarrow> bool" where
  "is_flow4 c t \<longleftrightarrow> tcp_or_udp c t \<and> t AND RTE_PTYPE_L3_MASK c = RTE_PTYPE_L3_IPV4 c"

definition is_flow6 :: "em_types \<Rightarrow> u32 \<Rightarrow> bool" where
  "is_flow6 c t \<longleftrightarrow> tcp_or_udp c t \<and> t AND RTE_PTYPE_L3_MASK c = RTE_PTYPE_L3_IPV6 c"

text \<open>\<^verbatim>\<open>process_outgoing_pkt\<close> on the IPv4 header of the packet, in place.\<close>

definition nat_outgoing :: "'h em_conf \<Rightarrow> mbuf \<Rightarrow> mbuf option" where
  "nat_outgoing q m =
     map_option (\<lambda>ip. m\<lparr>pdata := take 14 (pdata m) @ ip\<rparr>)
       (process_outgoing_pkt (em_cbcmac q) (em_rk q) (em_rem q) (em_nat q) (drop 14 (pdata m)))"

definition em_port4 :: "'h em_conf \<Rightarrow> mbuf \<Rightarrow> u8 \<Rightarrow> u8" where
  "em_port4 q m portid =
     (let next_hop = em_get_ipv4_dst_port (em_hash q) (em_junk q) (em_tabs q) (drop 14 (pdata m)) portid
      in checked_port q next_hop portid)"

definition em_port6 :: "'h em_conf \<Rightarrow> mbuf \<Rightarrow> u8 \<Rightarrow> u8" where
  "em_port6 q m portid =
     (let next_hop = em_get_ipv6_dst_port (em_hash q) (em_junk q) (em_tabs q) (drop 14 (pdata m)) portid
      in checked_port q next_hop portid)"

text \<open>\<^verbatim>\<open>em_get_dst_port\<close> of \<^verbatim>\<open>l3fwd_em_hlm_sse.h\<close> and of
  \<^verbatim>\<open>l3fwd_em_sse.h\<close>.\<close>

definition em_get_dst_port :: "'h em_conf \<Rightarrow> mbuf \<Rightarrow> u8 \<Rightarrow> (mbuf \<times> u16) option" where
  "em_get_dst_port q pkt portid =
     (if is_flow4 (em_ptypes q) (packet_type pkt)
      then map_option (\<lambda>pkt. (pkt, ucast (em_port4 q pkt portid))) (nat_outgoing q pkt)
      else if is_flow6 (em_ptypes q) (packet_type pkt) then Some (pkt, ucast (em_port6 q pkt portid))
      else Some (pkt, ucast portid))"

definition em_get_dst_port_seq :: "'h em_conf \<Rightarrow> mbuf \<Rightarrow> u8 \<Rightarrow> u16" where
  "em_get_dst_port_seq q pkt portid =
     (if is_flow4 (em_ptypes q) (packet_type pkt) then ucast (em_port4 q pkt portid)
      else if is_flow6 (em_ptypes q) (packet_type pkt) then ucast (em_port6 q pkt portid)
      else ucast portid)"

section \<open>Eight packets\<close>

definition checked_port16 :: "'h em_conf \<Rightarrow> u8 \<Rightarrow> u16 \<Rightarrow> u16" where
  "checked_port16 q portid d =
     (if RTE_MAX_ETHPORTS \<le> unat d \<or> enabled_port_mask q AND push_bit (unat d) 1 = 0 then ucast portid else d)"

definition em_get_dst_port_ipv4x8 :: "'h em_conf \<Rightarrow> mbuf list \<Rightarrow> u8 \<Rightarrow> u16 list" where
  "em_get_dst_port_ipv4x8 q m portid =
     (let data = map (\<lambda>i. load_xmm (em_junk q) (drop 14 (pdata (m ! i))) 8) [0..<8];
          key = map (\<lambda>d. map2 (AND) d (mask0 (em_tabs q))) data;
          ret = hash_lookup_bulk (em_hash q) (em_h4 (em_tabs q)) key;
          dst_port = map (\<lambda>r. case r of None \<Rightarrow> ucast portid | Some i \<Rightarrow> ucast (ipv4_l3fwd_out_if (em_tabs q) i)) ret
      in map (checked_port16 q portid) dst_port)"

definition get_ipv6_5tuple :: "(nat \<Rightarrow> u8) \<Rightarrow> mbuf \<Rightarrow> bytes \<Rightarrow> bytes \<Rightarrow> bytes" where
  "get_ipv6_5tuple junk m0 m1 m2 =
     (let tmpdata0 = load_xmm junk (drop 14 (pdata m0)) 4;
          tmpdata1 = load_xmm junk (drop 14 (pdata m0)) (4 + 16);
          tmpdata2 = load_xmm junk (drop 14 (pdata m0)) (4 + 16 + 16)
      in map2 (AND) tmpdata0 m1 @ tmpdata1 @ map2 (AND) tmpdata2 m2)"

definition em_get_dst_port_ipv6x8 :: "'h em_conf \<Rightarrow> mbuf list \<Rightarrow> u8 \<Rightarrow> u16 list" where
  "em_get_dst_port_ipv6x8 q m portid =
     (let key = map (\<lambda>i. get_ipv6_5tuple (em_junk q) (m ! i) (mask1 (em_tabs q)) (mask2 (em_tabs q))) [0..<8];
          ret = hash_lookup_bulk (em_hash q) (em_h6 (em_tabs q)) key;
          dst_port = map (\<lambda>r. case r of None \<Rightarrow> ucast portid | Some i \<Rightarrow> ucast (ipv6_l3fwd_out_if (em_tabs q) i)) ret
      in map (checked_port16 q portid) dst_port)"

section \<open>A burst\<close>

text \<open>The state of the classification is the array of packets, which the translation changes, with
  the array of their ports.  The common packet type of a group of eight is computed and not used.\<close>

definition classify_at :: "'h em_conf \<Rightarrow> u8 \<Rightarrow> nat \<Rightarrow> mbuf list \<times> u16 list \<Rightarrow> (mbuf list \<times> u16 list) option" where
  "classify_at q portid j = (\<lambda>(pkts, dst_port).
     map_option (\<lambda>(m, d). (pkts[j := m], dst_port[j := d])) (em_get_dst_port q (pkts ! j) portid))"

definition em_classify :: "'h em_conf \<Rightarrow> u8 \<Rightarrow> mbuf list \<Rightarrow> u16 list \<Rightarrow> (mbuf list \<times> u16 list) option" where
  "em_classify q portid pkts dst_port =
     (let nb_rx = length pkts; n = nb_rx - nb_rx mod 8
      in case fold_option (\<lambda>i. fold_option (classify_at q portid) [8 * i..<8 * i + 8]) [0..<n div 8] (pkts, dst_port) of
           None \<Rightarrow> None
         | Some st \<Rightarrow> fold_option (classify_at q portid) [n..<nb_rx] st)"

definition l3fwd_em_send_packets :: "mbuf tx_driver \<Rightarrow> 'h em_conf \<Rightarrow> (nat \<Rightarrow> u16) \<Rightarrow> (nat \<Rightarrow> mbuf) \<Rightarrow>
    nat list \<Rightarrow> u16 list \<Rightarrow> mbuf handler" where
  "l3fwd_em_send_packets tx q pad junk pnum dst_port portid pkts s =
     (case em_classify q portid pkts dst_port of
        None \<Rightarrow> None
      | Some (pkts, dst_port) \<Rightarrow>
          send_packets_multi tx (RTE_ETH_IS_IPV4_HDR (em_ptypes q)) (val_eth q) pad junk pnum (zip pkts dst_port) s)"

definition l3fwd_em_send_packets_seq :: "mbuf tx_driver \<Rightarrow> 'h em_conf \<Rightarrow> (nat \<Rightarrow> u16) \<Rightarrow> (nat \<Rightarrow> mbuf) \<Rightarrow>
    nat list \<Rightarrow> u16 list \<Rightarrow> mbuf handler" where
  "l3fwd_em_send_packets_seq tx q pad junk pnum dst_port portid pkts s =
     (let dst_port = fold (\<lambda>j d. d[j := em_get_dst_port_seq q (pkts ! j) portid]) [0..<length pkts] dst_port
      in send_packets_multi tx (RTE_ETH_IS_IPV4_HDR (em_ptypes q)) (val_eth q) pad junk pnum (zip pkts dst_port) s)"

section \<open>The scalar handler\<close>

definition l3fwd_em_simple_forward :: "mbuf tx_driver \<Rightarrow> 'h em_conf \<Rightarrow> u8 \<Rightarrow> mbuf \<Rightarrow> mbuf fwd_state \<Rightarrow> mbuf fwd_state option" where
  "l3fwd_em_simple_forward tx q portid m s =
     (if is_flow4 (em_ptypes q) (packet_type m) then
        if is_valid_ipv4_pkt (pdata m) 14 (length (pdata m)) < 0 then Some (s\<lparr>freed := freed s @ [m]\<rparr>)
        else (case nat_outgoing q m of
            None \<Rightarrow> None
          | Some m \<Rightarrow>
              let dst_port = em_port4 q m portid;
                  p = dec_ttl (pdata m) 14;
                  p = set_macs q dst_port p
              in Some (send_single_packet tx (m\<lparr>pdata := p\<rparr>) (unat dst_port) s))
      else if is_flow6 (em_ptypes q) (packet_type m) then
        let dst_port = em_port6 q m portid;
            p = set_macs q dst_port (pdata m)
        in Some (send_single_packet tx (m\<lparr>pdata := p\<rparr>) (unat dst_port) s)
      else Some (s\<lparr>freed := freed s @ [m]\<rparr>))"

definition l3fwd_em_no_opt_send_packets :: "mbuf tx_driver \<Rightarrow> 'h em_conf \<Rightarrow> mbuf handler" where
  "l3fwd_em_no_opt_send_packets tx q portid pkts s =
     (let k = length pkts - PREFETCH_OFFSET
      in case fold_option (l3fwd_em_simple_forward tx q portid) (take k pkts) s of
           None \<Rightarrow> None
         | Some s \<Rightarrow> fold_option (l3fwd_em_simple_forward tx q portid) (drop k pkts) s)"

section \<open>Packet types\<close>

definition em_check_ptype :: "em_types \<Rightarrow> u32 list \<Rightarrow> int" where
  "em_check_ptype c supported =
     (let has = (\<lambda>t. if t \<in> set supported then 1 else 0 :: int)
      in if supported = [] then 0
         else if has (RTE_PTYPE_L3_IPV4_EXT c) = 0 \<or> has (RTE_PTYPE_L3_IPV6_EXT c) = 0 then 0
         else if has (RTE_PTYPE_L4_TCP c) \<noteq> 0 \<and> has (RTE_PTYPE_L4_UDP c) \<noteq> 0 then 1 else 0)"

text \<open>Both tests are for IPv4.\<close>

definition em_parse_ptype :: "em_types \<Rightarrow> mbuf \<Rightarrow> mbuf" where
  "em_parse_ptype c m =
     (let ether_type = load 2 (pdata m) 12
      in m\<lparr>packet_type :=
        (if ether_type = bswap16 ETHER_TYPE_IPv4 then
           let hdr_len = unat (version_ihl (pdata m) 14 AND 0x0f) * 4
           in if hdr_len = 20
              then RTE_PTYPE_L3_IPV4 c OR
                (if pdata m ! (14 + 9) = IPPROTO_TCP then RTE_PTYPE_L4_TCP c
                 else if pdata m ! (14 + 9) = IPPROTO_UDP then RTE_PTYPE_L4_UDP c else 0)
              else RTE_PTYPE_L3_IPV4_EXT c
         else if ether_type = bswap16 ETHER_TYPE_IPv4 then
           if pdata m ! (14 + 6) = IPPROTO_TCP then RTE_PTYPE_L3_IPV6 c OR RTE_PTYPE_L4_TCP c
           else if pdata m ! (14 + 6) = IPPROTO_UDP then RTE_PTYPE_L3_IPV6 c OR RTE_PTYPE_L4_UDP c
           else RTE_PTYPE_L3_IPV6_EXT_UNKNOWN c
         else 0)\<rparr>)"

definition em_cb_parse_ptype :: "em_types \<Rightarrow> mbuf list \<Rightarrow> mbuf list" where
  "em_cb_parse_ptype c pkts = map (em_parse_ptype c) pkts"

section \<open>The main loop\<close>

definition em_main_loop :: "mbuf tx_driver \<Rightarrow> 'h em_conf \<Rightarrow> (nat \<Rightarrow> u16) \<Rightarrow> (nat \<Rightarrow> mbuf) \<Rightarrow> nat list \<Rightarrow> u16 list \<Rightarrow>
    u16 list \<Rightarrow> u64 \<Rightarrow> nat \<Rightarrow> mbuf turn list \<Rightarrow> mbuf fwd_state \<Rightarrow> mbuf fwd_state option" where
  "em_main_loop tx q pad junk pnum dst_port tx_port_id =
     fwd_loop tx tx_port_id (l3fwd_em_send_packets tx q pad junk pnum dst_port)"

definition em_main_loop_seq :: "mbuf tx_driver \<Rightarrow> 'h em_conf \<Rightarrow> (nat \<Rightarrow> u16) \<Rightarrow> (nat \<Rightarrow> mbuf) \<Rightarrow> nat list \<Rightarrow> u16 list \<Rightarrow>
    u16 list \<Rightarrow> u64 \<Rightarrow> nat \<Rightarrow> mbuf turn list \<Rightarrow> mbuf fwd_state \<Rightarrow> mbuf fwd_state option" where
  "em_main_loop_seq tx q pad junk pnum dst_port tx_port_id =
     fwd_loop tx tx_port_id (l3fwd_em_send_packets_seq tx q pad junk pnum dst_port)"

definition em_main_loop_no_opt :: "mbuf tx_driver \<Rightarrow> 'h em_conf \<Rightarrow>
    u16 list \<Rightarrow> u64 \<Rightarrow> nat \<Rightarrow> mbuf turn list \<Rightarrow> mbuf fwd_state \<Rightarrow> mbuf fwd_state option" where
  "em_main_loop_no_opt tx q tx_port_id = fwd_loop tx tx_port_id (l3fwd_em_no_opt_send_packets tx q)"

section \<open>The routines for eight packets\<close>

lemma checked_port16_u8: "checked_port16 q portid (ucast d) = ucast (checked_port q d portid)"
  by (simp add: checked_port16_def checked_port_def)

lemma map_nth_8: "length m = 8 \<Longrightarrow> map (\<lambda>i. f (m ! i)) [0..<8] = map f m"
  using map_nth [of m] by (metis (no_types, lifting) comp_apply list.map_comp map_eq_conv)

lemma checked_answer:
  "checked_port16 q portid (case r of None \<Rightarrow> ucast portid | Some i \<Rightarrow> ucast (out i)) =
   ucast (checked_port q (case r of None \<Rightarrow> portid | Some i \<Rightarrow> out i) portid)"
  by (simp add: checked_port16_u8 split: option.split)

lemma em_get_dst_port_x8_eq:
  assumes "hash_laws (em_hash q)" and "length m = 8"
  shows "em_get_dst_port_ipv4x8 q m portid = map (\<lambda>p. ucast (em_port4 q p portid)) m"
    and "em_get_dst_port_ipv6x8 q m portid = map (\<lambda>p. ucast (em_port6 q p portid)) m"
proof -
  have bulk: "hash_lookup_bulk (em_hash q) h ks = map (hash_lookup (em_hash q) h) ks" for h ks
    using assms(1) by (simp add: hash_laws_def)
  show "em_get_dst_port_ipv4x8 q m portid = map (\<lambda>p. ucast (em_port4 q p portid)) m"
    unfolding map_nth_8 [OF assms(2), symmetric] em_get_dst_port_ipv4x8_def Let_def bulk list.map_comp
    by (rule map_cong) (simp_all add: checked_answer em_port4_def em_get_ipv4_dst_port_def ipv4_key_def em_mask_key_def)
  show "em_get_dst_port_ipv6x8 q m portid = map (\<lambda>p. ucast (em_port6 q p portid)) m"
    unfolding map_nth_8 [OF assms(2), symmetric] em_get_dst_port_ipv6x8_def Let_def bulk list.map_comp
    by (rule map_cong) (simp_all add: checked_answer em_port6_def em_get_ipv6_dst_port_def ipv6_key_def em_mask_key_def
        get_ipv6_5tuple_def Let_def)
qed

section \<open>The classification of a burst\<close>

lemma fold_option_blocks:
  "fold_option (\<lambda>i. fold_option f [8 * i..<8 * i + 8]) [0..<m] s = fold_option f [0..<8 * m] s"
proof (induction m)
  case (Suc m)
  have "[0..<8 * Suc m] = [0..<8 * m] @ [8 * m..<8 * m + 8]"
    using upt_add_eq_append [of 0 "8 * m" 8] by (simp add: add.commute)
  moreover have "fold_option (\<lambda>i. fold_option f [8 * i..<8 * i + 8]) [0..<Suc m] s =
      (case fold_option (\<lambda>i. fold_option f [8 * i..<8 * i + 8]) [0..<m] s of None \<Rightarrow> None
       | Some s \<Rightarrow> fold_option f [8 * m..<8 * m + 8] s)"
    by (simp only: upt_Suc le0 if_True fold_option_snoc)
  ultimately show ?case using Suc by (simp only: fold_option_append)
qed simp

lemma em_classify_fold:
  "em_classify q portid pkts dst_port = fold_option (classify_at q portid) [0..<length pkts] (pkts, dst_port)"
proof -
  define n where "n = length pkts - length pkts mod 8"
  have n: "8 * (n div 8) = n" "n \<le> length pkts" unfolding n_def minus_mod_eq_mult_div by simp_all
  have "[0..<length pkts] = [0..<n] @ [n..<length pkts]" using n(2) by (metis le0 le_add_diff_inverse upt_add_eq_append)
  then show ?thesis
    unfolding em_classify_def Let_def n_def [symmetric] fold_option_blocks n(1) by (simp add: fold_option_append)
qed

text \<open>What the classification makes of a packet when its translation returns.\<close>

definition em_classified :: "'h em_conf \<Rightarrow> u8 \<Rightarrow> mbuf \<Rightarrow> mbuf \<times> u16" where
  "em_classified q portid m = the (em_get_dst_port q m portid)"

lemma list_update_mapped:
  "j < length xs \<Longrightarrow> j < length ys \<Longrightarrow>
   (map f (take j xs) @ drop j ys)[j := f (xs ! j)] = map f (take (Suc j) xs) @ drop (Suc j) ys"
  by (simp add: list_update_append take_Suc_conv_app_nth Cons_nth_drop_Suc [symmetric])

lemma em_classify_prefix:
  assumes "\<forall>m\<in>set (take j pkts). em_get_dst_port q m portid \<noteq> None" and "length pkts \<le> length dst_port" and "j \<le> length pkts"
  shows "fold_option (classify_at q portid) [0..<j] (pkts, dst_port) =
    Some (map (\<lambda>m. fst (em_classified q portid m)) (take j pkts) @ drop j pkts,
      map (\<lambda>m. snd (em_classified q portid m)) (take j pkts) @ drop j dst_port)"
  using assms(1,3)
proof (induction j)
  case (Suc j)
  let ?f = "\<lambda>m. fst (em_classified q portid m)" and ?g = "\<lambda>m. snd (em_classified q portid m)"
  have j: "j < length pkts" "j < length dst_port" using Suc.prems assms(2) by simp_all
  have t: "set (take (Suc j) pkts) = insert (pkts ! j) (set (take j pkts))" using j(1) by (simp add: take_Suc_conv_app_nth)
  then have c: "em_get_dst_port q (pkts ! j) portid = Some (em_classified q portid (pkts ! j))"
    using Suc.prems(1) by (simp add: em_classified_def)
  have n: "(map ?f (take j pkts) @ drop j pkts) ! j = pkts ! j" using j by (simp add: nth_append)
  have "\<forall>m\<in>set (take j pkts). em_get_dst_port q m portid \<noteq> None" "j \<le> length pkts" using Suc.prems t by simp_all
  note IH = Suc.IH [OF this]
  have "fold_option (classify_at q portid) [0..<Suc j] (pkts, dst_port) =
      classify_at q portid j (map ?f (take j pkts) @ drop j pkts, map ?g (take j pkts) @ drop j dst_port)"
    unfolding upt_Suc_append [OF le0] fold_option_append IH by (simp split: option.split)
  also have "\<dots> = Some ((map ?f (take j pkts) @ drop j pkts)[j := ?f (pkts ! j)],
      (map ?g (take j pkts) @ drop j dst_port)[j := ?g (pkts ! j)])"
    by (simp only: classify_at_def prod.case n c option.map case_prod_beta fst_conv snd_conv)
  also have "\<dots> = Some (map ?f (take (Suc j) pkts) @ drop (Suc j) pkts, map ?g (take (Suc j) pkts) @ drop (Suc j) dst_port)"
    by (simp only: list_update_mapped [OF j(1,1), of ?f] list_update_mapped [OF j, of ?g])
  finally show ?case .
qed simp

lemma em_classify_eq:
  assumes "\<forall>m\<in>set pkts. em_get_dst_port q m portid \<noteq> None" and "length pkts \<le> length dst_port"
  shows "em_classify q portid pkts dst_port =
    Some (map (\<lambda>m. fst (em_classified q portid m)) pkts,
      map (\<lambda>m. snd (em_classified q portid m)) pkts @ drop (length pkts) dst_port)"
  using em_classify_prefix [of "length pkts" pkts q portid dst_port] assms by (simp add: em_classify_fold)

text \<open>A packet whose translation does not return stops the burst.\<close>

lemma em_classify_stuck:
  assumes "m \<in> set pkts" and "em_get_dst_port q m portid = None" and "length pkts \<le> length dst_port"
  shows "em_classify q portid pkts dst_port = None"
proof -
  define n where "n = length (takeWhile (\<lambda>m. em_get_dst_port q m portid \<noteq> None) pkts)"
  have "n \<noteq> length pkts"
  proof
    assume "n = length pkts"
    then have "takeWhile (\<lambda>m. em_get_dst_port q m portid \<noteq> None) pkts = pkts" unfolding n_def by (metis takeWhile_eq_take take_all_iff order_refl)
    then show False unfolding takeWhile_eq_all_conv using assms(1,2) by blast
  qed
  then have n: "n < length pkts" using length_takeWhile_le [of "\<lambda>m. em_get_dst_port q m portid \<noteq> None" pkts] unfolding n_def by linarith
  have s: "em_get_dst_port q (pkts ! n) portid = None" using nth_length_takeWhile [of "\<lambda>m. em_get_dst_port q m portid \<noteq> None" pkts] n unfolding n_def by blast
  have "\<forall>m\<in>set (take n pkts). em_get_dst_port q m portid \<noteq> None"
    unfolding n_def takeWhile_eq_take [symmetric] by (auto dest: set_takeWhileD)
  note p = em_classify_prefix [OF this assms(3) less_imp_le [OF n]]
  have "[0..<length pkts] = [0..<n] @ n # [Suc n..<length pkts]"
    using n by (metis append_Cons append_Nil le0 le_add_diff_inverse less_imp_le upt_add_eq_append upt_conv_Cons)
  then show ?thesis
    using p s n by (simp add: em_classify_fold fold_option_append classify_at_def nth_append)
qed

section \<open>The translation inside the frame\<close>

definition nat_word :: "'h em_conf \<Rightarrow> bytes \<Rightarrow> u64" where
  "nat_word q p = enc_block (em_cbcmac q) (em_rk q) (outgoing_block (drop 14 p) 0)"

lemma append_store: "n + k + length ys \<le> length p \<Longrightarrow> take n p @ store (drop n p) k ys = store p (n + k) ys"
  by (intro nth_equalityI) (auto simp: nth_store nth_append)

lemma nat_outgoing_eq:
  assumes "38 \<le> length (pdata m)"
  shows "nat_outgoing q m = map_option
    (\<lambda>a. m\<lparr>pdata := store (store (pdata m) 34 (le_bytes 2 (msg_port (nat_word q (pdata m))))) 26 (le_bytes 4 a)\<rparr>)
    (idx_to_ip (em_nat q) (uint (msg_host (nat_word q (pdata m)))))"
proof -
  let ?sp = "le_bytes 2 (msg_port (nat_word q (pdata m)))" and ?p = "pdata m"
  have "take 14 ?p @ store (store (drop 14 ?p) 20 ?sp) 12 (le_bytes 4 a) = store (store ?p 34 ?sp) 26 (le_bytes 4 a)" for a :: u32
  proof -
    have "store (drop 14 ?p) 20 ?sp = drop 14 (store ?p 34 ?sp)"
      using assms by (intro nth_equalityI) (auto simp: nth_store)
    moreover have "take 14 ?p = take 14 (store ?p 34 ?sp)" using assms by (intro nth_equalityI) (auto simp: nth_store)
    ultimately show ?thesis using append_store [of 14 12 "le_bytes 4 a" "store ?p 34 ?sp"] assms by simp
  qed
  then show ?thesis
    unfolding nat_outgoing_def process_outgoing_pkt_eq nat_word_def [symmetric] option.map_comp comp_def by simp
qed

lemma nat_outgoing_keeps:
  assumes "38 \<le> length (pdata m)" and "nat_outgoing q m = Some m'"
  shows "length (pdata m') = length (pdata m)" and "packet_type m' = packet_type m"
    and "is_valid_ipv4_pkt (pdata m') 14 n = is_valid_ipv4_pkt (pdata m) 14 n"
proof -
  obtain a :: u32 where m': "m' = m\<lparr>pdata := store (store (pdata m) 34 (le_bytes 2 (msg_port (nat_word q (pdata m))))) 26 (le_bytes 4 a)\<rparr>"
    using assms(2) unfolding nat_outgoing_eq [OF assms(1)] map_option_eq_Some by blast
  show "length (pdata m') = length (pdata m)" "packet_type m' = packet_type m" using assms(1) by (simp_all add: m')
  have "pdata m' ! 14 = pdata m ! 14" using assms(1) by (simp add: m' nth_store)
  moreover have "total_length (pdata m') 14 = total_length (pdata m) 14"
    using assms(1) by (simp add: m' total_length_def layout_simps)
  ultimately show "is_valid_ipv4_pkt (pdata m') 14 n = is_valid_ipv4_pkt (pdata m) 14 n"
    by (simp add: is_valid_ipv4_pkt_def version_ihl_def)
qed

text \<open>The translation of a packet returns when \<^verbatim>\<open>idx_to_ip\<close> does on its encrypted index; other packets are not
  translated.\<close>

definition translates :: "'h em_conf \<Rightarrow> mbuf \<Rightarrow> bool" where
  "translates q m \<longleftrightarrow> (is_flow4 (em_ptypes q) (packet_type m) \<longrightarrow>
     idx_to_ip (em_nat q) (uint (msg_host (nat_word q (pdata m)))) \<noteq> None)"

lemma nat_outgoing_returns: "nat_outgoing q m \<noteq> None \<longleftrightarrow> idx_to_ip (em_nat q) (uint (msg_host (nat_word q (pdata m)))) \<noteq> None"
  by (simp add: nat_outgoing_def process_outgoing_pkt_eq nat_word_def)

lemma em_get_dst_port_returns: "em_get_dst_port q m portid \<noteq> None \<longleftrightarrow> translates q m"
  using nat_outgoing_returns [of q m] by (simp add: em_get_dst_port_def translates_def)

text \<open>With a good table of at least \<open>2 ^ 26\<close> addresses the translation always returns.\<close>

definition nat_ready :: "'h em_conf \<Rightarrow> row list \<Rightarrow> bool" where
  "nat_ready q rs \<longleftrightarrow> em_nat q = load_rows rs \<and> good_rows rs \<and> 2 ^ 26 \<le> MAX_IDX (load_rows rs)"

lemma nat_ready_translates:
  assumes "nat_ready q rs"
  shows "translates q m"
proof -
  have lim: "2 ^ 26 \<le> (if good_rows rs then rows_total rs else 0)"
    using assms MAX_IDX_load_rows [of rs] by (simp add: nat_ready_def good_rows_def)
  obtain a where "idx_to_ip (load_rows rs) (uint (msg_host (enc_block (em_cbcmac q) (em_rk q) (outgoing_block (drop 14 (pdata m)) 0)))) = Some a"
    using ff3_nat.host_in_table [OF lim] by metis
  then show ?thesis using assms by (simp add: translates_def nat_word_def nat_ready_def)
qed

lemma em_classified_cases:
  assumes "translates q m"
  obtains (flow4) m' where "is_flow4 (em_ptypes q) (packet_type m)" "nat_outgoing q m = Some m'"
      "em_classified q portid m = (m', ucast (em_port4 q m' portid))"
  | (flow6) "\<not> is_flow4 (em_ptypes q) (packet_type m)" "is_flow6 (em_ptypes q) (packet_type m)"
      "em_classified q portid m = (m, ucast (em_port6 q m portid))"
  | (other) "\<not> is_flow4 (em_ptypes q) (packet_type m)" "\<not> is_flow6 (em_ptypes q) (packet_type m)"
      "em_classified q portid m = (m, ucast portid)"
proof (cases "is_flow4 (em_ptypes q) (packet_type m)")
  case True
  then obtain m' where "nat_outgoing q m = Some m'" using nat_outgoing_returns [of q m] assms unfolding translates_def by blast
  with True show ?thesis by (intro flow4) (simp_all add: em_classified_def em_get_dst_port_def)
next
  case False
  then show ?thesis using flow6 other by (cases "is_flow6 (em_ptypes q) (packet_type m)")
    (simp_all add: em_classified_def em_get_dst_port_def)
qed

lemma em_classified_fields:
  assumes "translates q m" and "38 \<le> length (pdata m)"
  shows "length (pdata (fst (em_classified q portid m))) = length (pdata m)"
    and "packet_type (fst (em_classified q portid m)) = packet_type m"
    and "\<exists>d :: u8. snd (em_classified q portid m) = ucast d"
  using em_classified_cases [OF assms(1), of portid] nat_outgoing_keeps(1,2) [OF assms(2)]
  by (metis fst_conv snd_conv)+

section \<open>The handlers account for every packet\<close>

definition em_result :: "'h em_conf \<Rightarrow> u8 \<Rightarrow> mbuf \<Rightarrow> mbuf \<times> u16" where
  "em_result q portid m = process_packet (RTE_ETH_IS_IPV4_HDR (em_ptypes q)) (val_eth q) (em_classified q portid m)"

definition em_burst_fits :: "'h em_conf \<Rightarrow> u16 list \<Rightarrow> nat list \<Rightarrow> mbuf list \<Rightarrow> bool" where
  "em_burst_fits q dst_port pnum pkts \<longleftrightarrow> macs_ok q \<and> (\<forall>m\<in>set pkts. 38 \<le> length (pdata m))
     \<and> length pkts \<le> MAX_PKT_BURST \<and> length dst_port = MAX_PKT_BURST \<and> length pnum = MAX_PKT_BURST + 1"

definition em_burst_ok :: "'h em_conf \<Rightarrow> row list \<Rightarrow> u16 list \<Rightarrow> nat list \<Rightarrow> mbuf list \<Rightarrow> bool" where
  "em_burst_ok q rs dst_port pnum pkts \<longleftrightarrow> nat_ready q rs \<and> macs_ok q \<and> (\<forall>m\<in>set pkts. 38 \<le> length (pdata m))
     \<and> length pkts \<le> MAX_PKT_BURST \<and> length dst_port = MAX_PKT_BURST \<and> length pnum = MAX_PKT_BURST + 1"

lemma em_burst_ok_fits: "em_burst_ok q rs dst_port pnum pkts \<Longrightarrow>
    em_burst_fits q dst_port pnum pkts \<and> (\<forall>m\<in>set pkts. translates q m)"
  using nat_ready_translates by (auto simp: em_burst_ok_def em_burst_fits_def)

lemma l3fwd_em_send_packets_eq:
  assumes "em_burst_fits q dst_port pnum pkts" and "\<forall>m\<in>set pkts. translates q m"
  shows "l3fwd_em_send_packets tx q pad junk pnum dst_port portid pkts s =
    Some (send_runs tx junk (map (em_result q portid) pkts) 0 s)"
proof -
  have q: "macs_ok q" and p: "\<forall>m\<in>set pkts. 38 \<le> length (pdata m)"
    and n: "length pkts \<le> MAX_PKT_BURST" "length dst_port = MAX_PKT_BURST" "length pnum = MAX_PKT_BURST + 1"
    using assms(1) by (simp_all add: em_burst_fits_def)
  let ?b = "map (em_classified q portid) pkts"
  have c: "em_classify q portid pkts dst_port = Some (map (\<lambda>m. fst (em_classified q portid m)) pkts,
      map (\<lambda>m. snd (em_classified q portid m)) pkts @ drop (length pkts) dst_port)"
    by (rule em_classify_eq) (use em_get_dst_port_returns assms(2) in blast, use n in simp)
  have z: "zip (map (\<lambda>m. fst (em_classified q portid m)) pkts)
      (map (\<lambda>m. snd (em_classified q portid m)) pkts @ drop (length pkts) dst_port) = ?b"
    by (intro nth_equalityI) (simp_all add: nth_append)
  have "ready (val_eth q) (em_classified q portid m)" if "m \<in> set pkts" for m
  proof -
    have l: "38 \<le> length (pdata m)" and t: "translates q m" using p assms(2) that by blast+
    obtain d :: u8 where "snd (em_classified q portid m) = ucast d" using em_classified_fields(3) [OF t l] by blast
    then show ?thesis
      using em_classified_fields(1) [OF t l] l val_eth_length [OF q] unsigned_less [where 'a = nat, of d]
      by (simp add: ready_def)
  qed
  then have "list_all (ready (val_eth q)) ?b" by (simp add: list_all_iff)
  moreover have "map (em_result q portid) pkts = map (process_packet (RTE_ETH_IS_IPV4_HDR (em_ptypes q)) (val_eth q)) ?b"
    by (simp add: em_result_def)
  ultimately show ?thesis
    using send_packets_multi_eq [of "val_eth q" ?b pnum tx "RTE_ETH_IS_IPV4_HDR (em_ptypes q)" pad junk s] n
    by (simp only: l3fwd_em_send_packets_def c option.case prod.case z length_map)
qed

interpretation em_hlm: burst_handler tx "l3fwd_em_send_packets tx q pad junk pnum dst_port"
  "\<lambda>portid pkts. em_burst_fits q dst_port pnum pkts \<and> (\<forall>m\<in>set pkts. translates q m)" "\<lambda>portid pkts. map (\<lambda>m. fst (em_result q portid m)) pkts"
  for tx q pad junk pnum dst_port
proof unfold_locales
  fix s :: "mbuf fwd_state" and portid and pkts :: "mbuf list"
  assume a: "driver_ok tx" "tx_ok s" "em_burst_fits q dst_port pnum pkts \<and> (\<forall>m\<in>set pkts. translates q m)"
  let ?b = "map (em_result q portid) pkts"
  have "tx_ok (send_runs tx junk ?b 0 s) \<and> tx_total (send_runs tx junk ?b 0 s) = tx_total s + mset (drop 0 (map fst ?b))"
    using a by (intro send_runs_total) (simp_all add: em_burst_fits_def)
  then show "\<exists>s'. l3fwd_em_send_packets tx q pad junk pnum dst_port portid pkts s = Some s' \<and> tx_ok s'
      \<and> tx_total s' = tx_total s + mset (map (\<lambda>m. fst (em_result q portid m)) pkts)"
    using l3fwd_em_send_packets_eq [OF conjunct1 [OF a(3)] conjunct2 [OF a(3)]] by (simp add: comp_def)
qed simp

text \<open>The sequential handler, which does not translate.\<close>

definition em_result_seq :: "'h em_conf \<Rightarrow> u8 \<Rightarrow> mbuf \<Rightarrow> mbuf \<times> u16" where
  "em_result_seq q portid m =
     process_packet (RTE_ETH_IS_IPV4_HDR (em_ptypes q)) (val_eth q) (m, em_get_dst_port_seq q m portid)"

lemma l3fwd_em_send_packets_seq_eq:
  assumes "em_burst_fits q dst_port pnum pkts"
  shows "l3fwd_em_send_packets_seq tx q pad junk pnum dst_port portid pkts s =
    Some (send_runs tx junk (map (em_result_seq q portid) pkts) 0 s)"
proof -
  have q: "macs_ok q" and p: "\<forall>m\<in>set pkts. 38 \<le> length (pdata m)"
    and n: "length pkts \<le> length dst_port" "length pkts < length pnum"
    using assms by (simp_all add: em_burst_fits_def)
  let ?b = "map (\<lambda>m. (m, em_get_dst_port_seq q m portid)) pkts"
  let ?d = "fold (\<lambda>j d. d[j := em_get_dst_port_seq q (pkts ! j) portid]) [0..<length pkts] dst_port"
  have "?d ! j = em_get_dst_port_seq q (pkts ! j) portid" if "j < length pkts" for j
    using fold_list_update(2) [of "[0..<length pkts]" dst_port j "\<lambda>j. em_get_dst_port_seq q (pkts ! j) portid"] that n by auto
  then have z: "zip pkts ?d = ?b" using n by (intro nth_equalityI) (simp_all add: fold_list_update(1))
  have "unat (em_get_dst_port_seq q m portid) < 256" for m
  proof -
    have "unat (ucast d :: u16) < 256" for d :: u8 using unsigned_less [where 'a = nat, of d] by simp
    then show ?thesis by (simp add: em_get_dst_port_seq_def)
  qed
  then have "list_all (ready (val_eth q)) ?b"
    using p val_eth_length [OF q] by (fastforce simp: list_all_iff ready_def)
  moreover have "map (em_result_seq q portid) pkts = map (process_packet (RTE_ETH_IS_IPV4_HDR (em_ptypes q)) (val_eth q)) ?b"
    by (simp add: em_result_seq_def)
  ultimately show ?thesis
    using send_packets_multi_eq [of "val_eth q" ?b pnum tx "RTE_ETH_IS_IPV4_HDR (em_ptypes q)" pad junk s] n(2)
    by (simp only: l3fwd_em_send_packets_seq_def Let_def z length_map)
qed

interpretation em_seq: burst_handler tx "l3fwd_em_send_packets_seq tx q pad junk pnum dst_port"
  "\<lambda>portid. em_burst_fits q dst_port pnum" "\<lambda>portid pkts. map (\<lambda>m. fst (em_result_seq q portid m)) pkts"
  for tx q pad junk pnum dst_port
proof unfold_locales
  fix s :: "mbuf fwd_state" and portid and pkts :: "mbuf list"
  assume a: "driver_ok tx" "tx_ok s" "em_burst_fits q dst_port pnum pkts"
  let ?b = "map (em_result_seq q portid) pkts"
  have "tx_ok (send_runs tx junk ?b 0 s) \<and> tx_total (send_runs tx junk ?b 0 s) = tx_total s + mset (drop 0 (map fst ?b))"
    using a by (intro send_runs_total) (simp_all add: em_burst_fits_def)
  then show "\<exists>s'. l3fwd_em_send_packets_seq tx q pad junk pnum dst_port portid pkts s = Some s' \<and> tx_ok s'
      \<and> tx_total s' = tx_total s + mset (map (\<lambda>m. fst (em_result_seq q portid m)) pkts)"
    using l3fwd_em_send_packets_seq_eq [OF a(3)] by (simp add: comp_def)
qed simp

section \<open>The scalar handler\<close>

lemma em_simple_forward_process:
  assumes nat: "translates q m" and macs: "macs_ok q" and types: "em_types_ok (em_ptypes q)" and l: "38 \<le> length (pdata m)"
    and r: "em_result q portid m = (m', d)"
    and ip: "is_flow4 (em_ptypes q) (packet_type m) \<or> is_flow6 (em_ptypes q) (packet_type m)"
  shows "l3fwd_em_simple_forward tx q portid m s =
    Some (if d = BAD_PORT then s\<lparr>freed := freed s @ [m]\<rparr> else send_single_packet tx m' (unat d) s)"
proof (rule em_classified_cases [OF nat, of portid])
  fix m1 assume f: "is_flow4 (em_ptypes q) (packet_type m)" "nat_outgoing q m = Some m1"
    "em_classified q portid m = (m1, ucast (em_port4 q m1 portid))"
  note k = nat_outgoing_keeps [OF l f(2)]
  have "packet_type m AND RTE_PTYPE_L3_MASK (em_ptypes q) = RTE_PTYPE_L3_IPV4 (em_ptypes q)"
    using f(1) by (simp add: is_flow4_def)
  then have four: "RTE_ETH_IS_IPV4_HDR (em_ptypes q) (packet_type m1)"
    using types unfolding k(2) em_types_ok_def by blast
  have l1: "34 \<le> length (pdata m1)" "16 \<le> length (dec_ttl (pdata m1) 14)" using l k(1) by simp_all
  have r': "m' = m1\<lparr>pdata := set_macs q (em_port4 q m1 portid) (dec_ttl (pdata m1) 14)\<rparr>"
    "d = (if is_valid_ipv4_pkt (pdata m) 14 (length (pdata m)) = 0 then ucast (em_port4 q m1 portid) else BAD_PORT)"
    using r process_packet_v4 [where ?is4.0 = "RTE_ETH_IS_IPV4_HDR (em_ptypes q)", OF four l1(1) not_BAD_PORT [of "em_port4 q m1 portid"], of "val_eth q"]
      set_macs_blend [OF macs l1(2), of "em_port4 q m1 portid"] l1(1)
    unfolding em_result_def f(3) k(1) k(3) by (auto simp: take_dec_ttl [OF l1(1)])
  show ?thesis
    unfolding l3fwd_em_simple_forward_def if_P [OF f(1)] is_valid_ipv4_pkt_sign f(2) option.case Let_def r'
    using not_BAD_PORT [of "em_port4 q m1 portid"] by simp
next
  assume f: "\<not> is_flow4 (em_ptypes q) (packet_type m)" "is_flow6 (em_ptypes q) (packet_type m)"
    "em_classified q portid m = (m, ucast (em_port6 q m portid))"
  have "packet_type m AND RTE_PTYPE_L3_MASK (em_ptypes q) = RTE_PTYPE_L3_IPV6 (em_ptypes q)"
    using f(2) by (simp add: is_flow6_def)
  then have six: "\<not> RTE_ETH_IS_IPV4_HDR (em_ptypes q) (packet_type m)" using types unfolding em_types_ok_def by blast
  have r': "m' = m\<lparr>pdata := set_macs q (em_port6 q m portid) (pdata m)\<rparr>" "d = ucast (em_port6 q m portid)"
    using r process_packet_other [where ?is4.0 = "RTE_ETH_IS_IPV4_HDR (em_ptypes q)", OF six, of "val_eth q" "ucast (em_port6 q m portid)"]
      set_macs_blend [OF macs, of "pdata m" "em_port6 q m portid"] l
    unfolding em_result_def f(3) by auto
  show ?thesis
    unfolding l3fwd_em_simple_forward_def if_not_P [OF f(1)] if_P [OF f(2)] Let_def r'
    using not_BAD_PORT [of "em_port6 q m portid"] by simp
qed (use ip in blast)

text \<open>What the scalar handler makes of a packet.\<close>

definition em_simple_result :: "'h em_conf \<Rightarrow> u8 \<Rightarrow> mbuf \<Rightarrow> mbuf" where
  "em_simple_result q portid m =
     (if (if is_flow4 (em_ptypes q) (packet_type m) then \<not> is_valid_ipv4_pkt (pdata m) 14 (length (pdata m)) < 0
          else is_flow6 (em_ptypes q) (packet_type m))
         \<and> snd (em_result q portid m) \<noteq> BAD_PORT
      then fst (em_result q portid m) else m)"

text \<open>The scalar handler translates after it has checked the header.\<close>

definition translates_valid :: "'h em_conf \<Rightarrow> mbuf \<Rightarrow> bool" where
  "translates_valid q m \<longleftrightarrow> is_valid_ipv4_pkt (pdata m) 14 (length (pdata m)) < 0 \<or> translates q m"

lemma em_simple_forward_accounts:
  assumes d: "driver_ok tx" and s: "tx_ok s" and q: "macs_ok q" "em_types_ok (em_ptypes q)"
    and l: "38 \<le> length (pdata m)" and v: "translates_valid q m"
  shows "\<exists>s'. l3fwd_em_simple_forward tx q portid m s = Some s' \<and> tx_ok s'
    \<and> tx_total s' = tx_total s + mset [em_simple_result q portid m]"
proof (cases "if is_flow4 (em_ptypes q) (packet_type m) then \<not> is_valid_ipv4_pkt (pdata m) 14 (length (pdata m)) < 0
    else is_flow6 (em_ptypes q) (packet_type m)")
  case True
  then have ip: "is_flow4 (em_ptypes q) (packet_type m) \<or> is_flow6 (em_ptypes q) (packet_type m)" by (simp split: if_splits)
  have t: "translates q m" using v True by (auto simp: translates_valid_def translates_def split: if_splits)
  obtain m' d where r: "em_result q portid m = (m', d)" by fastforce
  note f = em_simple_forward_process [OF t q l r ip, of tx s]
  have c: "em_simple_result q portid m = (if d = BAD_PORT then m else m')" using True r by (simp add: em_simple_result_def)
  show ?thesis
  proof (cases "d = BAD_PORT")
    case True
    then show ?thesis unfolding f c using free_one [OF s] by simp
  next
    case False
    obtain p :: u8 where "snd (em_classified q portid m) = ucast p" using em_classified_fields(3) [OF t l] by blast
    moreover have "d = snd (em_classified q portid m)"
      using r False snd_process [of "RTE_ETH_IS_IPV4_HDR (em_ptypes q)" "val_eth q" "fst (em_classified q portid m)"]
      unfolding em_result_def by (metis prod.collapse snd_conv)
    ultimately have "unat d < 256" using unsigned_less [where 'a = nat, of p] by simp
    with False show ?thesis unfolding f c using send_single_step [OF d s] by simp
  qed
next
  case False
  then have "em_simple_result q portid m = m" by (simp add: em_simple_result_def)
  moreover have "l3fwd_em_simple_forward tx q portid m s = Some (s\<lparr>freed := freed s @ [m]\<rparr>)"
    using False by (auto simp: l3fwd_em_simple_forward_def split: if_splits)
  ultimately show ?thesis using free_one [OF s] by simp
qed

lemma em_simple_forward_stuck: "\<not> translates_valid q m \<Longrightarrow> l3fwd_em_simple_forward tx q portid m s = None"
  using nat_outgoing_returns [of q m]
  by (auto simp: l3fwd_em_simple_forward_def translates_valid_def translates_def)

lemma em_no_opt_eq: "l3fwd_em_no_opt_send_packets tx q portid pkts s = fold_option (l3fwd_em_simple_forward tx q portid) pkts s"
  using fold_option_append [of "l3fwd_em_simple_forward tx q portid" "take (length pkts - PREFETCH_OFFSET) pkts"
      "drop (length pkts - PREFETCH_OFFSET) pkts"]
  by (simp add: l3fwd_em_no_opt_send_packets_def Let_def)

interpretation em_no_opt: burst_handler tx "l3fwd_em_no_opt_send_packets tx q"
  "\<lambda>portid pkts. macs_ok q \<and> em_types_ok (em_ptypes q) \<and> (\<forall>m\<in>set pkts. 38 \<le> length (pdata m)) \<and> (\<forall>m\<in>set pkts. translates_valid q m)"
  "\<lambda>portid. map (em_simple_result q portid)"
  for tx q
proof unfold_locales
  fix s :: "mbuf fwd_state" and portid and pkts :: "mbuf list"
  assume a: "driver_ok tx" "tx_ok s"
    "macs_ok q \<and> em_types_ok (em_ptypes q) \<and> (\<forall>m\<in>set pkts. 38 \<le> length (pdata m)) \<and> (\<forall>m\<in>set pkts. translates_valid q m)"
  have "\<exists>s'. fold_option (l3fwd_em_simple_forward tx q portid) pkts s = Some s' \<and> tx_ok s'
      \<and> tx_total s' = tx_total s + mset (concat (map (\<lambda>m. [em_simple_result q portid m]) pkts))"
    using a(2) by (rule fold_option_sink [rotated]) (use em_simple_forward_accounts [OF a(1)] a(3) in blast)
  then show "\<exists>s'. l3fwd_em_no_opt_send_packets tx q portid pkts s = Some s' \<and> tx_ok s'
      \<and> tx_total s' = tx_total s + mset (map (em_simple_result q portid) pkts)"
    by (simp add: em_no_opt_eq)
qed simp

text \<open>The ports stay inside the arrays of the core.\<close>

lemma checked_port_bound: "unat portid < RTE_MAX_ETHPORTS \<Longrightarrow> unat (checked_port q d portid) < RTE_MAX_ETHPORTS"
  by (simp add: checked_port_def)

lemma em_ports_bounded:
  assumes "unat portid < RTE_MAX_ETHPORTS"
  shows "translates q m \<Longrightarrow> unat (snd (em_classified q portid m)) < RTE_MAX_ETHPORTS"
    and "unat (em_get_dst_port_seq q m portid) < RTE_MAX_ETHPORTS"
proof -
  have p: "unat (em_port4 q x portid) < RTE_MAX_ETHPORTS" "unat (em_port6 q x portid) < RTE_MAX_ETHPORTS" for x
    using checked_port_bound [OF assms] by (simp_all add: em_port4_def em_port6_def Let_def)
  show "unat (snd (em_classified q portid m)) < RTE_MAX_ETHPORTS" if "translates q m"
    by (rule em_classified_cases [OF that, of portid]) (use p assms in simp_all)
  show "unat (em_get_dst_port_seq q m portid) < RTE_MAX_ETHPORTS" using p assms by (simp add: em_get_dst_port_seq_def)
qed

section \<open>Packets that stop the loop\<close>

text \<open>A burst whose handler never returns stops the loop.\<close>

lemma fwd_loop_stuck:
  assumes "e \<in> set es" and "(portid, pkts) \<in> set (bursts e)" and "pkts \<noteq> []" and "\<And>s. handle portid pkts s = None" and "0 < n"
  shows "fwd_loop tx ids handle hz n es s = None"
proof -
  have "poll_queue handle (portid, pkts) s = None" for s using assms(3,4) by (simp add: poll_queue_def)
  then have "fold_option (poll_queue handle) (bursts e) s = None" for s by (rule fold_option_undefined [OF assms(2)])
  then have "fwd_turn tx ids handle hz e st = None" for st by (simp add: fwd_turn_def case_prod_beta Let_def)
  then have "fold_option (fwd_turn tx ids handle hz) es st = None" for st by (rule fold_option_undefined [OF assms(1)])
  then show ?thesis using assms(5) by (simp add: fwd_loop_def)
qed

lemma em_send_packets_stuck:
  assumes "m \<in> set pkts" and "\<not> translates q m" and "length pkts \<le> length dst_port"
  shows "l3fwd_em_send_packets tx q pad junk pnum dst_port portid pkts s = None"
proof -
  have "em_get_dst_port q m portid = None" using em_get_dst_port_returns [of q m portid] assms(2) by blast
  from em_classify_stuck [OF assms(1) this assms(3)] show ?thesis by (simp add: l3fwd_em_send_packets_def)
qed

lemma em_no_opt_stuck:
  assumes "m \<in> set pkts" and "\<not> translates_valid q m"
  shows "l3fwd_em_no_opt_send_packets tx q portid pkts s = None"
  unfolding em_no_opt_eq by (rule fold_option_undefined [OF assms(1)]) (rule em_simple_forward_stuck [OF assms(2)])

section \<open>Properties\<close>

definition sample_em_types :: em_types where
  "sample_em_types = \<lparr>RTE_ETH_IS_IPV4_HDR = \<lambda>t. t AND 0x10 \<noteq> 0, RTE_ETH_IS_IPV6_HDR = \<lambda>t. t AND 0x40 \<noteq> 0,
     RTE_PTYPE_L3_IPV4 = 0x10, RTE_PTYPE_L3_IPV6 = 0x40,
     RTE_PTYPE_L3_IPV4_EXT_UNKNOWN = 0x90, RTE_PTYPE_L3_IPV6_EXT_UNKNOWN = 0xe0,
     RTE_PTYPE_L3_MASK = 0xf0, RTE_PTYPE_L3_IPV4_EXT = 0x30, RTE_PTYPE_L3_IPV6_EXT = 0xc0,
     RTE_PTYPE_L4_TCP = 0x100, RTE_PTYPE_L4_UDP = 0x200\<rparr>"

lemma sample_em_types_ok: "em_types_ok sample_em_types"
proof -
  have m: "t AND 0x10 = (t AND 0xf0) AND 0x10" for t :: u32 by (simp add: and.assoc)
  have "t AND 0x10 \<noteq> 0" if "t AND 0xf0 = 0x10" for t :: u32 using that by (subst m) simp
  moreover have "t AND 0x10 = 0" if "t AND 0xf0 = 0x40" for t :: u32 using that by (subst m) simp
  ultimately show ?thesis by (simp add: em_types_ok_def sample_em_types_def)
qed

definition sample_em :: "bytes list em_conf" where
  "sample_em = \<lparr>enabled_port_mask = 0xff, dest_eth_addr = (\<lambda>p. 2), ports_eth_addr = (\<lambda>p. replicate 6 1),
     val_eth = (\<lambda>p. le_bytes 6 (2 :: u64) @ replicate 10 1), em_ptypes = sample_em_types, em_hash = sample_hash,
     em_tabs = the (setup_hash sample_hash (\<lambda>a b. a XOR b) sample_ip4 4 0 blank_tables), em_junk = (\<lambda>i. 9),
     em_cbcmac = (\<lambda>rk n T. rev T), em_rk = [], em_rem = 0, em_nat = load_rows sample_8\<rparr>"

lemma sample_em_ok: "nat_ready sample_em sample_8" "macs_ok sample_em" "em_types_ok (em_ptypes sample_em)"
proof -
  show "nat_ready sample_em sample_8" using sample_8_good by (simp add: nat_ready_def sample_em_def)
  have "take 12 (le_bytes 6 (2 :: u64) @ replicate 10 1) = take 6 (le_bytes 8 (2 :: u64)) @ replicate 6 1"
    by (simp add: le_bytes_def upt_rec)
  then show "macs_ok sample_em" by (simp add: macs_ok_def sample_em_def)
  show "em_types_ok (em_ptypes sample_em)" using sample_em_types_ok by (simp add: sample_em_def)
qed

text \<open>A packet of the third configured flow.\<close>

definition sample_em_pkt :: mbuf where
  "sample_em_pkt = \<lparr>pdata = replicate 12 1 @ [8, 0] @ sample_ip @ replicate 16 0, packet_type = 0x110\<rparr>"

lemma sample_em_pkt_facts: "length (pdata sample_em_pkt) = 54" "is_flow4 sample_em_types (packet_type sample_em_pkt)"
  "is_valid_ipv4_pkt (pdata sample_em_pkt) 14 54 = 0" "time_to_live (pdata sample_em_pkt) 14 \<noteq> 0"
  "hdr_checksum (pdata sample_em_pkt) 14 \<noteq> - 1"
  by code_simp+

lemma em_types_fields: "em_ptypes sample_em = sample_em_types"
  by (simp add: sample_em_def)

lemma sample_em_burst: "em_burst_ok sample_em sample_8 (replicate 32 9) (replicate 33 5) (replicate 7 sample_em_pkt)"
  by (simp add: em_burst_ok_def sample_em_ok sample_em_pkt_facts MAX_PKT_BURST_def)

text \<open>C3: Exact match forwarding accounts for every packet exactly as long as \<^verbatim>\<open>idx_to_ip\<close> returns.  For bursts
  of at most 32 packets with their IP header and ports, from ports below 32, the loop of the vector handler
  returns after any number of turns, with the transmit buffers within their bounds and every packet
  received on a wire, freed, or in a buffer, if \<^verbatim>\<open>idx_to_ip\<close> answers the encrypted index of every TCP or
  UDP packet over IPv4, and otherwise it never returns; the loop of the scalar handler needs the
  answer for packets with a valid header only, and the loop of the sequential handler, which does
  not translate, always returns.  Packets only go to ports below 32.  The table decides: one with good rows for at least
  \<open>2 ^ 26\<close> addresses, which are rows of /8, answers every index; a smaller table that ends in a
  /24 row answers no index from its number of addresses on, and the code accepts it
  without a check.\<close>

theorem em_main_loop_conserves:
  assumes "driver_ok tx" and "tx_ok s" and "0 < n_rx_queue" and "em_types_ok (em_ptypes q)"
    and "\<forall>p\<in>set tx_port_id. unat p < RTE_MAX_ETHPORTS"
    and "\<forall>e\<in>set es. turn_good (\<lambda>portid pkts. unat portid < RTE_MAX_ETHPORTS \<and> em_burst_fits q dst_port pnum pkts) e"
  shows "(if \<forall>e\<in>set es. turn_good (\<lambda>portid pkts. \<forall>m\<in>set pkts. translates q m) e
      then \<exists>s'. em_main_loop tx q pad junk pnum dst_port tx_port_id hz n_rx_queue es s = Some s' \<and> tx_ok s'
        \<and> tx_total s' = tx_total s + mset (concat (map (turn_pkts (\<lambda>portid. map (\<lambda>m. fst (em_result q portid m)))) es))
      else em_main_loop tx q pad junk pnum dst_port tx_port_id hz n_rx_queue es s = None)
    \<and> (\<exists>s'. em_main_loop_seq tx q pad junk pnum dst_port tx_port_id hz n_rx_queue es s = Some s' \<and> tx_ok s'
        \<and> tx_total s' = tx_total s + mset (concat (map (turn_pkts (\<lambda>portid. map (\<lambda>m. fst (em_result_seq q portid m)))) es)))
    \<and> (if \<forall>e\<in>set es. turn_good (\<lambda>portid pkts. \<forall>m\<in>set pkts. translates_valid q m) e
      then \<exists>s'. em_main_loop_no_opt tx q tx_port_id hz n_rx_queue es s = Some s' \<and> tx_ok s'
        \<and> tx_total s' = tx_total s + mset (concat (map (turn_pkts (\<lambda>portid. map (em_simple_result q portid))) es))
      else em_main_loop_no_opt tx q tx_port_id hz n_rx_queue es s = None)
    \<and> (\<forall>m portid. unat portid < RTE_MAX_ETHPORTS \<and> translates q m \<longrightarrow>
        unat (snd (em_classified q portid m)) < RTE_MAX_ETHPORTS \<and> unat (em_get_dst_port_seq q m portid) < RTE_MAX_ETHPORTS)
    \<and> (nat_ready q rs \<longrightarrow> (\<forall>m. translates q m \<and> translates_valid q m))"
proof -
  let ?G = "\<lambda>P e. turn_good (\<lambda>portid pkts. em_burst_fits q dst_port pnum pkts \<and> (\<forall>m\<in>set pkts. P m)) e"
  have fits: "em_burst_fits q dst_port pnum pkts" if "e \<in> set es" "(portid, pkts) \<in> set (bursts e)" for e portid pkts
    using assms(6) that by (fastforce simp: turn_good_def list_all_iff)
  have bad: "\<exists>e portid pkts m. e \<in> set es \<and> (portid, pkts) \<in> set (bursts e) \<and> m \<in> set pkts \<and> \<not> P m"
    if "\<not> (\<forall>e\<in>set es. turn_good (\<lambda>portid pkts. \<forall>m\<in>set pkts. P m) e)" for P
    using that by (fastforce simp: turn_good_def list_all_iff)
  have good: "\<forall>e\<in>set es. ?G P e" if "\<forall>e\<in>set es. turn_good (\<lambda>portid pkts. \<forall>m\<in>set pkts. P m) e" for P
    using that fits by (fastforce simp: turn_good_def list_all_iff)
  have 1: "if \<forall>e\<in>set es. turn_good (\<lambda>portid pkts. \<forall>m\<in>set pkts. translates q m) e
      then \<exists>s'. em_main_loop tx q pad junk pnum dst_port tx_port_id hz n_rx_queue es s = Some s' \<and> tx_ok s'
        \<and> tx_total s' = tx_total s + mset (concat (map (turn_pkts (\<lambda>portid. map (\<lambda>m. fst (em_result q portid m)))) es))
      else em_main_loop tx q pad junk pnum dst_port tx_port_id hz n_rx_queue es s = None"
  proof (cases "\<forall>e\<in>set es. turn_good (\<lambda>portid pkts. \<forall>m\<in>set pkts. translates q m) e")
    case True
    from em_hlm.loop_accounts [OF assms(1,2) good [OF True] assms(3)] True show ?thesis by (simp add: em_main_loop_def)
  next
    case False
    from bad [OF this] obtain e portid pkts m where
      m: "e \<in> set es" "(portid, pkts) \<in> set (bursts e)" "m \<in> set pkts" "\<not> translates q m" by blast
    have "length pkts \<le> length dst_port" using fits [OF m(1,2)] by (simp add: em_burst_fits_def)
    note st = em_send_packets_stuck [OF m(3,4) this]
    have "em_main_loop tx q pad junk pnum dst_port tx_port_id hz n_rx_queue es s = None"
      unfolding em_main_loop_def by (rule fwd_loop_stuck [OF m(1,2) _ _ assms(3)]) (use m(3) st in auto)
    then show ?thesis using False by (simp only: if_False)
  qed
  have f: "\<forall>e\<in>set es. turn_good (\<lambda>portid. em_burst_fits q dst_port pnum) e" using assms(6) by (auto simp: turn_good_def list_all_iff)
  have 2: "\<exists>s'. em_main_loop_seq tx q pad junk pnum dst_port tx_port_id hz n_rx_queue es s = Some s' \<and> tx_ok s'
      \<and> tx_total s' = tx_total s + mset (concat (map (turn_pkts (\<lambda>portid. map (\<lambda>m. fst (em_result_seq q portid m)))) es))"
    unfolding em_main_loop_seq_def by (rule em_seq.loop_accounts [OF assms(1,2) f assms(3)])
  have 3: "if \<forall>e\<in>set es. turn_good (\<lambda>portid pkts. \<forall>m\<in>set pkts. translates_valid q m) e
      then \<exists>s'. em_main_loop_no_opt tx q tx_port_id hz n_rx_queue es s = Some s' \<and> tx_ok s'
        \<and> tx_total s' = tx_total s + mset (concat (map (turn_pkts (\<lambda>portid. map (em_simple_result q portid))) es))
      else em_main_loop_no_opt tx q tx_port_id hz n_rx_queue es s = None"
  proof (cases "\<forall>e\<in>set es. turn_good (\<lambda>portid pkts. \<forall>m\<in>set pkts. translates_valid q m) e")
    case True
    have "\<forall>e\<in>set es. turn_good (\<lambda>portid pkts. macs_ok q \<and> em_types_ok (em_ptypes q) \<and> (\<forall>m\<in>set pkts. 38 \<le> length (pdata m))
        \<and> (\<forall>m\<in>set pkts. translates_valid q m)) e"
      using good [OF True] assms(4) by (auto simp: turn_good_def list_all_iff em_burst_fits_def)
    from em_no_opt.loop_accounts [OF assms(1,2) this assms(3)] True show ?thesis by (simp add: em_main_loop_no_opt_def)
  next
    case False
    from bad [OF this] obtain e portid pkts m where
      m: "e \<in> set es" "(portid, pkts) \<in> set (bursts e)" "m \<in> set pkts" "\<not> translates_valid q m" by blast
    note st = em_no_opt_stuck [OF m(3,4)]
    have "em_main_loop_no_opt tx q tx_port_id hz n_rx_queue es s = None"
      unfolding em_main_loop_no_opt_def by (rule fwd_loop_stuck [OF m(1,2) _ _ assms(3)]) (use m(3) st in auto)
    then show ?thesis using False by (simp only: if_False)
  qed
  have "nat_ready q rs \<longrightarrow> (\<forall>m. translates q m \<and> translates_valid q m)"
    using nat_ready_translates by (auto simp: translates_valid_def)
  moreover have "\<forall>m portid. unat portid < RTE_MAX_ETHPORTS \<and> translates q m \<longrightarrow>
      unat (snd (em_classified q portid m)) < RTE_MAX_ETHPORTS \<and> unat (em_get_dst_port_seq q m portid) < RTE_MAX_ETHPORTS"
    using em_ports_bounded by blast
  ultimately show ?thesis using 1 2 3 by (intro conjI)
qed

theorem em_main_loop_conserves_witness:
  "\<exists>s'. em_main_loop (\<lambda>h port q ms. 0) sample_em (\<lambda>i. 7) (\<lambda>i. sample_em_pkt) (replicate 33 5) (replicate 32 9) [0, 1]
      1000000 2 [\<lparr>cur_tsc = 5000, bursts = [(3, replicate 7 sample_em_pkt)]\<rparr>] (empty_fwd sample_em_pkt) = Some s'
    \<and> size (tx_total s') = 7"
proof -
  let ?es = "[\<lparr>cur_tsc = 5000, bursts = [(3 :: u8, replicate 7 sample_em_pkt)]\<rparr>]"
  have d: "driver_ok (\<lambda>h port q (ms :: mbuf list). 0)" by (simp add: driver_ok_def)
  note b = em_burst_ok_fits [OF sample_em_burst]
  have p: "\<forall>p\<in>set [0, 1 :: u16]. unat p < RTE_MAX_ETHPORTS" by (simp add: RTE_MAX_ETHPORTS_def)
  have g: "\<forall>e\<in>set ?es. turn_good (\<lambda>portid pkts. unat portid < RTE_MAX_ETHPORTS \<and> em_burst_fits sample_em (replicate 32 9) (replicate 33 5) pkts) e"
    using b by (simp add: turn_good_def RTE_MAX_ETHPORTS_def)
  have t: "\<forall>e\<in>set ?es. turn_good (\<lambda>portid pkts. \<forall>m\<in>set pkts. translates sample_em m) e" using b by (simp add: turn_good_def)
  note c = em_main_loop_conserves [OF d, of "empty_fwd sample_em_pkt" 2, OF empty_fwd_ok(1) _ sample_em_ok(3) p g,
      of "\<lambda>i. 7" "\<lambda>i. sample_em_pkt" 1000000 sample_8, unfolded if_P [OF t]]
  then show ?thesis using empty_fwd_ok(3) [of sample_em_pkt] by (fastforce simp: turn_pkts_def)
qed



text \<open>The packet types the software classification gives.\<close>

lemma em_parse_ptype_cases:
  "packet_type (em_parse_ptype c m) \<in> {0, RTE_PTYPE_L3_IPV4 c, RTE_PTYPE_L3_IPV4_EXT c,
     RTE_PTYPE_L3_IPV4 c OR RTE_PTYPE_L4_TCP c, RTE_PTYPE_L3_IPV4 c OR RTE_PTYPE_L4_UDP c}"
  by (simp add: em_parse_ptype_def Let_def)

lemma em_types_flows:
  assumes "em_types_ok c"
  shows "\<not> is_flow4 c 0 \<and> \<not> is_flow6 c 0"
    and "\<not> is_flow6 c (RTE_PTYPE_L3_IPV4 c) \<and> \<not> is_flow6 c (RTE_PTYPE_L3_IPV4_EXT c)"
    and "l4 \<in> {RTE_PTYPE_L4_TCP c, RTE_PTYPE_L4_UDP c} \<Longrightarrow> \<not> is_flow6 c (RTE_PTYPE_L3_IPV4 c OR l4)"
    and "l4 \<in> {RTE_PTYPE_L4_TCP c, RTE_PTYPE_L4_UDP c} \<Longrightarrow> is_flow4 c (RTE_PTYPE_L3_IPV4 c OR l4)"
proof -
  let ?mk = "RTE_PTYPE_L3_MASK c" and ?l4 = "RTE_PTYPE_L4_TCP c OR RTE_PTYPE_L4_UDP c"
  have T: "RTE_PTYPE_L3_IPV4 c AND ?mk = RTE_PTYPE_L3_IPV4 c" "RTE_PTYPE_L3_IPV4_EXT c AND ?mk = RTE_PTYPE_L3_IPV4_EXT c"
    "RTE_PTYPE_L4_TCP c AND ?mk = 0" "RTE_PTYPE_L4_UDP c AND ?mk = 0" "RTE_PTYPE_L4_TCP c \<noteq> 0" "RTE_PTYPE_L4_UDP c \<noteq> 0"
    using assms by (simp_all add: em_types_ok_def)
  show "\<not> is_flow4 c 0 \<and> \<not> is_flow6 c 0" by (simp add: is_flow4_def is_flow6_def tcp_or_udp_def)
  have "?mk AND ?l4 = 0" using T(3,4) by (simp add: and.commute [of ?mk] bit.conj_disj_distrib2)
  then have "x AND ?l4 = 0" if "x AND ?mk = x" for x :: u32
    using and.assoc [of x ?mk ?l4] unfolding that by simp
  then show "\<not> is_flow6 c (RTE_PTYPE_L3_IPV4 c) \<and> \<not> is_flow6 c (RTE_PTYPE_L3_IPV4_EXT c)"
    using T(1,2) by (simp add: is_flow6_def tcp_or_udp_def)
  have four: "RTE_ETH_IS_IPV4_HDR c (RTE_PTYPE_L3_IPV4 c)" using assms T(1) unfolding em_types_ok_def by blast
  have six: "\<not> RTE_ETH_IS_IPV4_HDR c t" if "t AND ?mk = RTE_PTYPE_L3_IPV6 c" for t
    using assms that unfolding em_types_ok_def by blast
  have l3: "(RTE_PTYPE_L3_IPV4 c OR l4) AND ?mk = RTE_PTYPE_L3_IPV4 c" if "l4 \<in> {RTE_PTYPE_L4_TCP c, RTE_PTYPE_L4_UDP c}" for l4
    using T(1,3,4) that by (auto simp: bit.conj_disj_distrib2)
  show "\<not> is_flow6 c (RTE_PTYPE_L3_IPV4 c OR l4)" if "l4 \<in> {RTE_PTYPE_L4_TCP c, RTE_PTYPE_L4_UDP c}"
    using l3 [OF that] four six [of "RTE_PTYPE_L3_IPV4 c"] T(1) by (auto simp: is_flow6_def)
  have "(x OR l4) AND (l4 OR y) = (x AND y) OR l4" for x y l4 :: u32 by (rule bit_word_eqI) (auto simp: bit_simps)
  then have "(RTE_PTYPE_L3_IPV4 c OR RTE_PTYPE_L4_TCP c) AND ?l4 \<noteq> 0" using T(5) by (simp add: or_eq_0_iff)
  moreover have "(x OR l4) AND (y OR l4) = (x AND y) OR l4" for x y l4 :: u32 by (rule bit_word_eqI) (auto simp: bit_simps)
  then have "(RTE_PTYPE_L3_IPV4 c OR RTE_PTYPE_L4_UDP c) AND ?l4 \<noteq> 0" using T(6) by (simp add: or_eq_0_iff)
  ultimately show "is_flow4 c (RTE_PTYPE_L3_IPV4 c OR l4)" if "l4 \<in> {RTE_PTYPE_L4_TCP c, RTE_PTYPE_L4_UDP c}"
    using l3 [OF that] that by (auto simp: is_flow4_def tcp_or_udp_def)
qed

text \<open>The software classification never sees IPv6: both of its tests are for the EtherType of IPv4, so no
  packet is given to the IPv6 tables, one with the EtherType of IPv6 has type 0 and goes back to
  the port it came from, while a TCP or UDP packet with an IPv4 header without options is
  classified as such.\<close>

theorem em_parse_ptype_blind:
  assumes "em_types_ok (em_ptypes q)"
  shows "\<not> is_flow6 (em_ptypes q) (packet_type (em_parse_ptype (em_ptypes q) m))
    \<and> (load 2 (pdata m) 12 = bswap16 ETHER_TYPE_IPv6 \<longrightarrow>
        em_parse_ptype (em_ptypes q) m = m\<lparr>packet_type := 0\<rparr>
        \<and> em_get_dst_port q (em_parse_ptype (em_ptypes q) m) portid = Some (m\<lparr>packet_type := 0\<rparr>, ucast portid))
    \<and> (load 2 (pdata m) 12 = bswap16 ETHER_TYPE_IPv4 \<and> version_ihl (pdata m) 14 AND 0x0f = 5
        \<and> pdata m ! 23 \<in> {IPPROTO_TCP, IPPROTO_UDP} \<longrightarrow>
        is_flow4 (em_ptypes q) (packet_type (em_parse_ptype (em_ptypes q) m)))"
proof -
  let ?c = "em_ptypes q"
  note t = em_types_flows [OF assms]
  have ne: "bswap16 ETHER_TYPE_IPv6 \<noteq> bswap16 ETHER_TYPE_IPv4" by (simp add: bswap16_inject ETHER_TYPE_IPv6_def ETHER_TYPE_IPv4_def)
  have "\<not> is_flow6 ?c (packet_type (em_parse_ptype ?c m))"
    using em_parse_ptype_cases [of ?c m] t(1-3) by auto
  moreover have "em_parse_ptype ?c m = m\<lparr>packet_type := 0\<rparr>" if "load 2 (pdata m) 12 = bswap16 ETHER_TYPE_IPv6"
    using that ne by (simp add: em_parse_ptype_def)
  moreover have "is_flow4 ?c (packet_type (em_parse_ptype ?c m))"
    if "load 2 (pdata m) 12 = bswap16 ETHER_TYPE_IPv4" "version_ihl (pdata m) 14 AND 0x0f = 5" "pdata m ! 23 \<in> {IPPROTO_TCP, IPPROTO_UDP}"
    using that t(4) by (auto simp: em_parse_ptype_def)
  ultimately show ?thesis using t(1) by (auto simp: em_get_dst_port_def)
qed

theorem em_parse_ptype_blind_witness:
  "em_get_dst_port sample_em (em_parse_ptype (em_ptypes sample_em) (sample_em_pkt\<lparr>pdata := [0, 0, 0, 0, 0, 0, 0, 0, 0, 0, 0, 0, 0x86, 0xDD, 0x60]\<rparr>)) 3 =
     Some (sample_em_pkt\<lparr>pdata := [0, 0, 0, 0, 0, 0, 0, 0, 0, 0, 0, 0, 0x86, 0xDD, 0x60], packet_type := 0\<rparr>, 3)"
proof -
  let ?m = "sample_em_pkt\<lparr>pdata := [0, 0, 0, 0, 0, 0, 0, 0, 0, 0, 0, 0, 0x86, 0xDD, 0x60]\<rparr>"
  have "load 2 (pdata ?m) 12 = bswap16 ETHER_TYPE_IPv6" by code_simp
  note em_parse_ptype_blind [OF sample_em_ok(3), of ?m 3, THEN conjunct2, THEN conjunct1, THEN mp, OF this, THEN conjunct2]
  then show ?thesis by simp
qed

end
