(* ===== verification/L3fwd_Em_Frame.thy ===== *)
theory L3fwd_Em_Frame
  imports L3fwd_Em
begin

text \<open>
  The frame an IPv4 packet becomes on its way through exact match forwarding, byte by byte, and
  what the translation leaves out: the checksum of the header.
\<close>

section \<open>The frame that is sent\<close>

definition src_sum :: "bytes \<Rightarrow> nat" where
  "src_sum p = unat (load 2 p 26 :: u16) + unat (load 2 p 28 :: u16)"

lemma em_result_frame:
  assumes nat: "nat_ready q rs" and macs: "macs_ok q" and types: "em_types_ok (em_ptypes q)" and l: "38 \<le> length (pdata m)"
    and f: "is_flow4 (em_ptypes q) (packet_type m)" and v: "is_valid_ipv4_pkt (pdata m) 14 (length (pdata m)) = 0"
    and r: "em_result q portid m = (m', d)"
  obtains a p1 where "idx_to_ip (em_nat q) (uint (msg_host (nat_word q (pdata m)))) = Some a"
    and "p1 = store (store (pdata m) 34 (le_bytes 2 (msg_port (nat_word q (pdata m))))) 26 (le_bytes 4 (a :: u32))"
    and "pdata m' = store (dec_ttl p1 14) 0 (blend_eth (take 16 p1) (val_eth q d))"
    and "d = ucast (em_port4 q (m\<lparr>pdata := p1\<rparr>) portid)"
proof (rule em_classified_cases [OF nat_ready_translates [OF nat], of m portid])
  fix m1 assume c: "nat_outgoing q m = Some m1" "em_classified q portid m = (m1, ucast (em_port4 q m1 portid))"
  obtain a :: u32 where a: "idx_to_ip (em_nat q) (uint (msg_host (nat_word q (pdata m)))) = Some a"
    and m1: "m1 = m\<lparr>pdata := store (store (pdata m) 34 (le_bytes 2 (msg_port (nat_word q (pdata m))))) 26 (le_bytes 4 a)\<rparr>"
    using c(1) unfolding nat_outgoing_eq [OF l] map_option_eq_Some by blast
  note k = nat_outgoing_keeps [OF l c(1)]
  have "packet_type m AND RTE_PTYPE_L3_MASK (em_ptypes q) = RTE_PTYPE_L3_IPV4 (em_ptypes q)"
    using f by (simp add: is_flow4_def)
  then have four: "RTE_ETH_IS_IPV4_HDR (em_ptypes q) (packet_type m1)"
    using types unfolding k(2) em_types_ok_def by blast
  have "34 \<le> length (pdata m1)" using l k(1) by simp
  from process_packet_v4 [where ?is4.0 = "RTE_ETH_IS_IPV4_HDR (em_ptypes q)", OF four this not_BAD_PORT [of "em_port4 q m1 portid"], of "val_eth q"]
  have "(m', d) = (m1\<lparr>pdata := store (dec_ttl (pdata m1) 14) 0 (blend_eth (take 16 (pdata m1)) (val_eth q (ucast (em_port4 q m1 portid))))\<rparr>,
      ucast (em_port4 q m1 portid))"
    using r v unfolding em_result_def c(2) k(1) k(3) by simp
  then show thesis using that [OF a refl] by (simp add: m1)
qed (use f in blast)+

lemma frame_bytes:
  assumes l: "38 \<le> length p" and ve: "12 \<le> length ve"
    and p1: "p1 = store (store p 34 (le_bytes 2 (sp :: u16))) 26 (le_bytes 4 (a :: u32))"
    and p': "p' = store (dec_ttl p1 14) 0 (blend_eth (take 16 p1) ve)"
  shows "length p' = length p" and "take 12 p' = take 12 ve"
    and "i < length p \<Longrightarrow> i \<notin> {0..<12} \<union> {22, 24, 25} \<union> {26..<30} \<union> {34, 35} \<Longrightarrow> p' ! i = p ! i"
    and "time_to_live p' 14 = time_to_live p 14 - 1" and "hdr_checksum p' 14 = hdr_checksum p 14 + 1"
    and "load 4 p' 26 = a" and "load 2 p' 34 = sp"
    and "12 \<le> k \<Longrightarrow> k + n \<le> length p \<Longrightarrow> take n (drop k p') = take n (drop k (dec_ttl p1 14))"
proof -
  have l1: "length p1 = length p" "14 + 12 \<le> length p1" using l by (simp_all add: p1)
  have t: "take 16 p1 = take 16 (dec_ttl p1 14)" using take_dec_ttl [of p1] l l1 by simp
  have ld: "length (dec_ttl p1 14) = length p" using l1 by simp
  have nth': "p' ! i = (if i < 12 then ve ! i else dec_ttl p1 14 ! i)" if "i < length p" for i
    unfolding p' t by (rule store_eth_nth) (use l ve that ld in simp_all)
  show lp: "length p' = length p" unfolding p' t using l ve ld by simp
  show seg: "take n (drop k p') = take n (drop k (dec_ttl p1 14))" if "12 \<le> k" "k + n \<le> length p" for k n
    using that lp ld nth' by (intro nth_equalityI) simp_all
  show "take 12 p' = take 12 ve" using l ve lp nth' by (intro nth_equalityI) simp_all
  have d: "dec_ttl p1 14 ! i = p1 ! i" if "i < length p" "i \<notin> {22, 24, 25}" for i
    using that l1 by (simp add: dec_ttl_nth)
  have n1: "p1 ! i = p ! i" if "i < length p" "i \<notin> {26..<30} \<union> {34, 35}" for i
    using that l by (auto simp: p1 nth_store)
  show "p' ! i = p ! i" if "i < length p" "i \<notin> {0..<12} \<union> {22, 24, 25} \<union> {26..<30} \<union> {34, 35}" for i
    using that nth' d n1 by simp
  have "time_to_live p' 14 = time_to_live (dec_ttl p1 14) 14" using nth' [of 22] l by (simp add: time_to_live_def)
  moreover have "time_to_live p1 14 = time_to_live p 14" using n1 [of 22] l by (simp add: time_to_live_def)
  ultimately show "time_to_live p' 14 = time_to_live p 14 - 1" using nth_dec_ttl(3) [OF l1(2)] by simp
  have "hdr_checksum p' 14 = hdr_checksum (dec_ttl p1 14) 14" using seg [of 24 2] l by (simp add: hdr_checksum_def load_def)
  moreover have "hdr_checksum p1 14 = hdr_checksum p 14" using l by (simp add: p1 hdr_checksum_def layout_simps)
  ultimately show "hdr_checksum p' 14 = hdr_checksum p 14 + 1" using nth_dec_ttl(4) [OF l1(2)] by simp
  have same: "take n (drop k (dec_ttl p1 14)) = take n (drop k p1)" if "26 \<le> k" "k + n \<le> length p" for k n
    using that ld l1 d by (intro nth_equalityI) simp_all
  have "load 4 p' 26 = (load 4 p1 26 :: u32)" using seg [of 26 4] same [of 26 4] l by (simp add: load_def)
  then show "load 4 p' 26 = a" using l by (simp add: p1 layout_simps)
  have "load 2 p' 34 = (load 2 p1 34 :: u16)" using seg [of 34 2] same [of 34 2] l by (simp add: load_def)
  then show "load 2 p' 34 = sp" using l by (simp add: p1 layout_simps)
qed

lemma frame_header_sum:
  assumes l: "38 \<le> length p" and ve: "12 \<le> length ve"
    and p1: "p1 = store (store p 34 (le_bytes 2 (sp :: u16))) 26 (le_bytes 4 (a :: u32))"
    and p': "p' = store (dec_ttl p1 14) 0 (blend_eth (take 16 p1) ve)"
    and ttl: "time_to_live p 14 \<noteq> 0" and c: "hdr_checksum p 14 \<noteq> - 1"
  shows "header_sum p' 14 + src_sum p = header_sum p 14 + src_sum p'"
proof -
  note fb = frame_bytes [OF l ve p1 p']
  have l1: "length p1 = length p" using l by (simp add: p1)
  have n1: "p1 ! i = p ! i" if "i < length p" "i \<notin> {26..<30} \<union> {34, 35}" for i
    using that l by (auto simp: p1 nth_store)
  have "load 2 p' k = (load 2 (dec_ttl p1 14) k :: u16)" if "12 \<le> k" "k + 2 \<le> length p" for k
    using fb(8) [OF that] by (simp add: load_def)
  then have "header_sum p' 14 = header_sum (dec_ttl p1 14) 14" using l by (simp add: header_sum_def)
  also have "\<dots> = header_sum p1 14"
  proof (rule dec_ttl_header_sum)
    show "time_to_live p1 14 \<noteq> 0" using ttl n1 [of 22] l by (simp add: time_to_live_def)
    show "hdr_checksum p1 14 \<noteq> - 1" using c l by (simp add: p1 hdr_checksum_def layout_simps)
  qed (use l l1 in simp)
  also have "\<dots> + src_sum p = header_sum p 14 + src_sum p1"
  proof -
    have "load 2 p1 k = (load 2 p k :: u16)" if "k + 2 \<le> length p" "k + 2 \<le> 26 \<or> (30 \<le> k \<and> k + 2 \<le> 34)" for k
    proof -
      have "take 2 (drop k p1) = take 2 (drop k p)"
        using that l l1 n1 by (intro nth_equalityI) auto
      then show ?thesis by (simp add: load_def)
    qed
    then show ?thesis using l by (simp add: header_sum_def sum_10 src_sum_def)
  qed
  also have "src_sum p1 = src_sum p'"
  proof -
    have "take 2 (drop k (dec_ttl p1 14)) = take 2 (drop k p1)" if "26 \<le> k" "k + 2 \<le> length p" for k
      using that l l1 by (intro nth_equalityI) (simp_all add: dec_ttl_nth)
    then have "load 2 p' k = (load 2 p1 k :: u16)" if "26 \<le> k" "k + 2 \<le> length p" for k
      using that fb(8) [of k 2] by (simp add: load_def)
    then show ?thesis using l by (simp add: src_sum_def)
  qed
  finally show ?thesis .
qed

section \<open>Properties\<close>

lemma frame_flow:
  assumes l: "38 \<le> length p" and ve: "12 \<le> length ve"
    and p1: "p1 = store (store p 34 (le_bytes 2 (sp :: u16))) 26 (le_bytes 4 (a :: u32))"
    and p': "p' = store (dec_ttl p1 14) 0 (blend_eth (take 16 p1) ve)"
  shows "flow4 (drop 14 p') = flow4 (drop 14 p1)"
proof -
  note fb = frame_bytes [OF l ve p1 p']
  have l1: "length p1 = length p" using l by (simp add: p1)
  have same: "take n (drop k p') = take n (drop k p1)" if "26 \<le> k" "k + n \<le> length p" for k n
    using that fb(8) [of k n] l l1 by (auto intro!: nth_equalityI simp: dec_ttl_nth)
  have "p' ! 23 = p1 ! 23" using fb(3) [of 23] l by (simp add: p1 nth_store)
  then show ?thesis using l l1 fb(1) same [of 26 4] same [of 30 4] same [of 34 2] same [of 36 2]
    by (simp add: flow4_def load_def)
qed

text \<open>C7: The frame that goes out: for a valid TCP or UDP packet over IPv4 only the Ethernet addresses, the
  time to live (one less), the header checksum (incremented), the source address and the source
  port change; the source port and the index of the source address are the fields of the
  enciphered address and port of the packet; and the port chosen is that of the flow with the
  translated source, the flow the frame itself shows.\<close>

theorem em_forwarded_frame:
  assumes "nat_ready q rs" and "macs_ok q" and "em_types_ok (em_ptypes q)" and "38 \<le> length (pdata m)"
    and "is_flow4 (em_ptypes q) (packet_type m)" and "is_valid_ipv4_pkt (pdata m) 14 (length (pdata m)) = 0"
    and "mask0 (em_tabs q) = rte_xmm [BIT_8_TO_15, ALL_32_BITS, ALL_32_BITS, ALL_32_BITS]"
    and "em_result q portid m = (m', d)"
  shows "length (pdata m') = length (pdata m) \<and> take 12 (pdata m') = take 12 (val_eth q d)
    \<and> (\<forall>i. i < length (pdata m) \<and> i \<notin> {0..<12} \<union> {22, 24, 25} \<union> {26..<30} \<union> {34, 35} \<longrightarrow> pdata m' ! i = pdata m ! i)
    \<and> time_to_live (pdata m') 14 = time_to_live (pdata m) 14 - 1
    \<and> hdr_checksum (pdata m') 14 = hdr_checksum (pdata m) 14 + 1
    \<and> idx_to_ip (em_nat q) (uint (msg_host (nat_word q (pdata m)))) = Some (load 4 (pdata m') 26)
    \<and> load 2 (pdata m') 34 = msg_port (nat_word q (pdata m))
    \<and> d = ucast (em_port4 q m' portid)"
proof -
  obtain a p1 where a: "idx_to_ip (em_nat q) (uint (msg_host (nat_word q (pdata m)))) = Some a"
    and p1: "p1 = store (store (pdata m) 34 (le_bytes 2 (msg_port (nat_word q (pdata m))))) 26 (le_bytes 4 (a :: u32))"
    and p': "pdata m' = store (dec_ttl p1 14) 0 (blend_eth (take 16 p1) (val_eth q d))"
    and d: "d = ucast (em_port4 q (m\<lparr>pdata := p1\<rparr>) portid)"
    using em_result_frame [OF assms(1-6,8)] .
  note ve = val_eth_length [OF assms(2), of d]
  note fb = frame_bytes [OF assms(4) ve p1 p']
  have l: "24 \<le> length (drop 14 (pdata m'))" "24 \<le> length (drop 14 p1)" using assms(4) fb(1) by (simp_all add: p1)
  have "em_port4 q m' portid = em_port4 q (m\<lparr>pdata := p1\<rparr>) portid"
    using frame_flow [OF assms(4) ve p1 p'] ipv4_key_flow [OF assms(7) l(1)] ipv4_key_flow [OF assms(7) l(2)]
    by (simp add: em_port4_def em_get_ipv4_dst_port_def)
  with fb a d show ?thesis by auto
qed

lemma sample_em_mask: "mask0 (em_tabs sample_em) = rte_xmm [BIT_8_TO_15, ALL_32_BITS, ALL_32_BITS, ALL_32_BITS]"
proof -
  obtain T' where T': "setup_hash sample_hash (\<lambda>a b. a XOR b) sample_ip4 4 0 blank_tables = Some T'"
    using sample_setup_hash [of 4 "\<lambda>a b. a XOR b" sample_ip4 0] by auto
  obtain T0 where "fold_option (add_flow4 sample_hash) (flows4 sample_ip4 4 0) (set_mask4 T0) = Some T'"
    using setup_hash_cases [OF T'] by blast
  from fold_add_flow4 [OF sample_hash_laws this, of "\<lambda>k. map_option (ipv4_l3fwd_out_if (set_mask4 T0)) (hash_lookup sample_hash (em_h4 (set_mask4 T0)) k)"]
  have "mask0 T' = mask0 (set_mask4 T0)" by (simp add: represents_def)
  with T' show ?thesis by (simp add: sample_em_def set_mask4_def)
qed

theorem em_forwarded_frame_witness:
  "\<exists>m' d. em_result sample_em 3 sample_em_pkt = (m', d) \<and> time_to_live (pdata m') 14 = 63
    \<and> idx_to_ip (load_rows sample_8) (uint (msg_host (nat_word sample_em (pdata sample_em_pkt)))) = Some (load 4 (pdata m') 26)"
proof -
  obtain m' d where r: "em_result sample_em 3 sample_em_pkt = (m', d)" by fastforce
  have f: "is_flow4 (em_ptypes sample_em) (packet_type sample_em_pkt)" "38 \<le> length (pdata sample_em_pkt)"
    "is_valid_ipv4_pkt (pdata sample_em_pkt) 14 (length (pdata sample_em_pkt)) = 0"
    by (simp_all add: sample_em_pkt_facts em_types_fields)
  have "time_to_live (pdata sample_em_pkt) 14 = 64" by code_simp
  moreover have "em_nat sample_em = load_rows sample_8" by (simp add: sample_em_def)
  moreover note em_forwarded_frame [OF sample_em_ok f(2,1,3) sample_em_mask r]
  ultimately show ?thesis using r by simp
qed

text \<open>C26: The translation leaves the header checksum behind: the decrement of the time to live is accounted
  for, and then the sum of the header differs from that of the packet received exactly by the change of
  the source address, so a header that verified still does only when the halves of the old
  and of the new address agree modulo \<open>2 ^ 16 - 1\<close>.\<close>

theorem em_checksum_stale:
  assumes "nat_ready q rs" and "macs_ok q" and "em_types_ok (em_ptypes q)" and "38 \<le> length (pdata m)"
    and "is_flow4 (em_ptypes q) (packet_type m)" and "is_valid_ipv4_pkt (pdata m) 14 (length (pdata m)) = 0"
    and "time_to_live (pdata m) 14 \<noteq> 0" and "hdr_checksum (pdata m) 14 \<noteq> - 1"
    and "em_result q portid m = (m', d)"
  shows "header_sum (pdata m') 14 + src_sum (pdata m) = header_sum (pdata m) 14 + src_sum (pdata m')
    \<and> (header_sum (pdata m) 14 mod 65535 = 0 \<longrightarrow>
        (header_sum (pdata m') 14 mod 65535 = 0 \<longleftrightarrow> src_sum (pdata m') mod 65535 = src_sum (pdata m) mod 65535))"
proof -
  obtain a p1 where p1: "p1 = store (store (pdata m) 34 (le_bytes 2 (msg_port (nat_word q (pdata m))))) 26 (le_bytes 4 (a :: u32))"
    and p': "pdata m' = store (dec_ttl p1 14) 0 (blend_eth (take 16 p1) (val_eth q d))"
    using em_result_frame [OF assms(1-6,9)] .
  have s: "header_sum (pdata m') 14 + src_sum (pdata m) = header_sum (pdata m) 14 + src_sum (pdata m')"
    by (rule frame_header_sum [OF assms(4) val_eth_length [OF assms(2)] p1 p' assms(7,8)])
  have mod_0: "(h' mod n = 0 \<longleftrightarrow> y mod n = x mod n)" if "h' + x = h + y" "h mod n = 0" for h h' x y n :: nat
  proof -
    have "(h' + x) mod n = y mod n" unfolding that(1) using mod_add_left_eq [of h n y] that(2) by simp
    moreover have "(h' + x) mod n = x mod n \<longleftrightarrow> h' mod n = 0"
      using mod_eq_dvd_iff_nat [of x "h' + x" n] by (simp add: dvd_eq_mod_eq_0)
    ultimately show ?thesis by auto
  qed
  with s mod_0 [OF s] show ?thesis by simp
qed

theorem em_checksum_stale_witness:
  "\<exists>m' d. em_result sample_em 3 sample_em_pkt = (m', d)
    \<and> header_sum (pdata m') 14 + src_sum (pdata sample_em_pkt) = header_sum (pdata sample_em_pkt) 14 + src_sum (pdata m')"
proof -
  obtain m' d where r: "em_result sample_em 3 sample_em_pkt = (m', d)" by fastforce
  have f: "is_flow4 (em_ptypes sample_em) (packet_type sample_em_pkt)" "38 \<le> length (pdata sample_em_pkt)"
    "is_valid_ipv4_pkt (pdata sample_em_pkt) 14 (length (pdata sample_em_pkt)) = 0"
    by (simp_all add: sample_em_pkt_facts em_types_fields)
  from em_checksum_stale [OF sample_em_ok f(2,1,3) sample_em_pkt_facts(4,5) r] r show ?thesis by blast
qed

end
