(* ===== verification/Addr_Text.thy ===== *)
theory Addr_Text
  imports C_Strings
begin

text \<open>
  The text level of the configuration parser, \<^verbatim>\<open>parser.c\<close> and \<^verbatim>\<open>parser.h\<close>:
  tokens, numbers, IPv4 and IPv6 addresses with an optional mask, and port ranges.
  A function that can run outside a buffer or through a null pointer returns an \<open>outcome\<close>.
\<close>

section \<open>Outcomes\<close>

text \<open>\<open>Value\<close> is success, \<open>Failure\<close> the error return (or a status below 0), \<open>Undefined\<close>
  an access outside an object.\<close>

datatype 'a outcome = Value 'a | Failure | Undefined

definition bind_outcome :: "'a outcome \<Rightarrow> ('a \<Rightarrow> 'b outcome) \<Rightarrow> 'b outcome" where
  "bind_outcome r f = (case r of Value x \<Rightarrow> f x | Failure \<Rightarrow> Failure | Undefined \<Rightarrow> Undefined)"

text \<open>\<^verbatim>\<open>APP_CHECK\<close> followed by a return when the status is below 0.\<close>

definition app_check :: "bool \<Rightarrow> 'a outcome \<Rightarrow> 'a outcome" where
  "app_check b r = (if b then r else Failure)"

named_theorems outcome_simps \<open>checks that passed\<close>

lemma bind_outcome_simps [simp]:
  "bind_outcome (Value x) f = f x" "bind_outcome Failure f = Failure" "bind_outcome Undefined f = Undefined"
  by (simp_all add: bind_outcome_def)

lemma bind_outcome_eq_Value [outcome_simps]:
  "bind_outcome r f = Value y \<longleftrightarrow> (\<exists>x. r = Value x \<and> f x = Value y)"
  by (cases r) simp_all

lemma app_check_simps [simp]: "app_check True r = r" "app_check False r = Failure"
  by (simp_all add: app_check_def)

lemma app_check_eq_Value [outcome_simps]: "app_check b r = Value y \<longleftrightarrow> b \<and> r = Value y"
  by (simp add: app_check_def)

section \<open>Tokens and numbers\<close>

text \<open>\<^verbatim>\<open>strtok_r\<close> with \<^verbatim>\<open>PARSE_DELIMITER\<close>: the next token and the rest behind its delimiter.\<close>

definition PARSE_DELIMITER :: string where
  "PARSE_DELIMITER = [CHR '' '', CHR 0x0C, CHR 0x0A, CHR 0x0D, CHR 0x09, CHR 0x0B]"

definition strtok_r :: "string \<Rightarrow> (string \<times> string) option" where
  "strtok_r s =
     (let s = dropWhile (\<lambda>c. c \<in> set PARSE_DELIMITER) s
      in if s = [] then None
         else Some (takeWhile (\<lambda>c. c \<notin> set PARSE_DELIMITER) s, tl (dropWhile (\<lambda>c. c \<notin> set PARSE_DELIMITER) s)))"

text \<open>The result is the flag "at most \<open>n\<close> tokens" and the tokens stored.\<close>

fun parse_tokenize_string :: "nat \<Rightarrow> string \<Rightarrow> bool \<times> string list" where
  "parse_tokenize_string 0 s = (strtok_r s = None, [])"
| "parse_tokenize_string (Suc n) s =
     (case strtok_r s of
        None \<Rightarrow> (True, [])
      | Some (t, r) \<Rightarrow> let (ok, ts) = parse_tokenize_string n r in (ok, t # ts))"

definition is_str_num :: "string \<Rightarrow> bool" where
  "is_str_num s = list_all isdigit s"

text \<open>\<^verbatim>\<open>atoi\<close> of the C library of the target: \<^verbatim>\<open>strtol\<close>, which stops at the largest
  and smallest 64-bit values, cut to 32 bits.\<close>

definition atoi32 :: "string \<Rightarrow> u32" where
  "atoi32 s = word_of_int (max (- (2 ^ 63)) (min (2 ^ 63 - 1) (atoi s)))"

section \<open>Addresses\<close>

text \<open>\<^verbatim>\<open>inet_pton4\<close>.  \<open>tmp\<close> is the buffer, \<open>tp\<close> the index of the octet being read; the
  result of the loop is the buffer and the number of octets begun.  The buffer starts as zeros
  here; every octet is written before the buffer is used.\<close>

fun pton4_loop :: "string \<Rightarrow> bytes \<Rightarrow> nat \<Rightarrow> bool \<Rightarrow> nat \<Rightarrow> (bytes \<times> nat) option" where
  "pton4_loop [] tmp tp saw octets = Some (tmp, octets)"
| "pton4_loop (ch # cs) tmp tp saw octets =
     (if isdigit ch then
        (let new = unat (tmp ! tp) * 10 + digit_value ch
         in if 255 < new then None
            else if \<not> saw then
              (if 4 < octets + 1 then None else pton4_loop cs (tmp[tp := of_nat new]) tp True (octets + 1))
            else pton4_loop cs (tmp[tp := of_nat new]) tp True octets)
      else if ch = CHR ''.'' \<and> saw then
        (if octets = 4 then None else pton4_loop cs (tmp[tp + 1 := 0]) (tp + 1) False octets)
      else None)"

definition inet_pton4 :: "string \<Rightarrow> bytes option" where
  "inet_pton4 s = (case pton4_loop s [0, 0, 0, 0] 0 False 0 of
       None \<Rightarrow> None
     | Some (tmp, octets) \<Rightarrow> if octets < 4 then None else Some tmp)"

text \<open>\<^verbatim>\<open>inet_pton6\<close>.\<close>

definition xdigit_value :: "char \<Rightarrow> nat option" where
  "xdigit_value c =
     (if isdigit c then Some (digit_value c)
      else if CHR ''a'' \<le> c \<and> c \<le> CHR ''f'' then Some (of_char c - 87)
      else if CHR ''A'' \<le> c \<and> c \<le> CHR ''F'' then Some (of_char c - 55)
      else None)"

record pton6 =
  tmp6 :: bytes
  tp6 :: nat
  colonp :: "nat option"
  saw_xdigit :: bool
  count_xdigit :: nat
  val6 :: nat
  dbloct_count :: nat

definition put_val :: "pton6 \<Rightarrow> pton6" where
  "put_val s =
     s\<lparr>tmp6 := (tmp6 s)[tp6 s := of_nat (val6 s div 256), tp6 s + 1 := of_nat (val6 s mod 256)], tp6 := tp6 s + 2\<rparr>"

text \<open>The loop; \<open>curtok\<close> is the text from the last colon on.\<close>

fun pton6_loop :: "string \<Rightarrow> string \<Rightarrow> pton6 \<Rightarrow> pton6 option" where
  "pton6_loop [] curtok s = Some s"
| "pton6_loop (ch # src) curtok s =
     (case xdigit_value ch of
        Some d \<Rightarrow>
          (if 4 \<le> count_xdigit s then None
           else let v = val6 s * 16 + d
                in if 0xffff < v then None
                   else pton6_loop src curtok (s\<lparr>val6 := v, saw_xdigit := True, count_xdigit := count_xdigit s + 1\<rparr>))
      | None \<Rightarrow>
          (if ch = CHR '':'' then
             (if \<not> saw_xdigit s then
                (if colonp s \<noteq> None then None else pton6_loop src src (s\<lparr>colonp := Some (tp6 s)\<rparr>))
              else if src = [] then None
              else if 16 < tp6 s + 2 then None
              else pton6_loop src src ((put_val s)\<lparr>saw_xdigit := False, count_xdigit := 0, val6 := 0,
                     dbloct_count := dbloct_count s + 1\<rparr>))
           else if ch = CHR ''.'' \<and> tp6 s + 4 \<le> 16 then
             (case inet_pton4 curtok of
                None \<Rightarrow> None
              | Some a \<Rightarrow> Some (s\<lparr>tmp6 := store (tmp6 s) (tp6 s) a, tp6 := tp6 s + 4, saw_xdigit := False,
                                 dbloct_count := dbloct_count s + 2\<rparr>))
           else None))"

definition shift_tail :: "nat \<Rightarrow> nat \<Rightarrow> bytes \<Rightarrow> bytes" where
  "shift_tail cp n tmp = fold (\<lambda>i t. (t[16 - i := t ! (cp + n - i)])[cp + n - i := 0]) [1..<n + 1] tmp"

definition pton6_end :: "pton6 \<Rightarrow> bytes option" where
  "pton6_end s =
     (if saw_xdigit s \<and> 16 < tp6 s + 2 then None
      else let s = (if saw_xdigit s then (put_val s)\<lparr>dbloct_count := dbloct_count s + 1\<rparr> else s)
           in case colonp s of
                None \<Rightarrow> if tp6 s \<noteq> 16 then None else Some (tmp6 s)
              | Some cp \<Rightarrow> if dbloct_count s = 8 then None else Some (shift_tail cp (tp6 s - cp) (tmp6 s)))"

definition inet_pton6 :: "string \<Rightarrow> bytes option" where
  "inet_pton6 s =
     (let start = \<lparr>tmp6 = replicate 16 0, tp6 = 0, colonp = None, saw_xdigit = False, count_xdigit = 0, val6 = 0,
            dbloct_count = 0\<rparr>;
          run = (\<lambda>s. case pton6_loop s s start of None \<Rightarrow> None | Some s \<Rightarrow> pton6_end s)
      in if s \<noteq> [] \<and> hd s = CHR '':'' then
           (if tl s = [] \<or> hd (tl s) \<noteq> CHR '':'' then None else run (tl s))
         else run s)"

text \<open>\<^verbatim>\<open>parse_ipv4_addr\<close> and \<^verbatim>\<open>parse_ipv6_addr\<close>: the part before the slash is copied to a
  buffer of 256 bytes, without a bound.  Without a slash the mask is 0.\<close>

definition parse_addr :: "nat \<Rightarrow> (string \<Rightarrow> bytes option) \<Rightarrow> string \<Rightarrow> (bytes \<times> u32) outcome" where
  "parse_addr maxlen pton token =
     (case split_at CHR ''/'' token of
        Some (ip_str, msk) \<Rightarrow>
          if 256 \<le> length ip_str then Undefined
          else if \<not> is_str_num msk then Failure
          else if maxlen \<le> length ip_str then Failure
          else (case pton ip_str of None \<Rightarrow> Failure | Some a \<Rightarrow> Value (a, atoi32 msk))
      | None \<Rightarrow>
          if maxlen \<le> length (take 255 token) then Failure
          else (case pton (take 255 token) of None \<Rightarrow> Failure | Some a \<Rightarrow> Value (a, 0)))"

definition INET_ADDRSTRLEN :: nat where "INET_ADDRSTRLEN = 16"
definition INET6_ADDRSTRLEN :: nat where "INET6_ADDRSTRLEN = 46"

definition parse_ipv4_addr :: "string \<Rightarrow> (bytes \<times> u32) outcome" where
  "parse_ipv4_addr = parse_addr INET_ADDRSTRLEN inet_pton4"

definition parse_ipv6_addr :: "string \<Rightarrow> (bytes \<times> u32) outcome" where
  "parse_ipv6_addr = parse_addr INET6_ADDRSTRLEN inet_pton6"

text \<open>\<^verbatim>\<open>parse_range\<close>; characters that are neither digits nor colons are skipped.\<close>

fun range_loop :: "string \<Rightarrow> string \<Rightarrow> u32 \<Rightarrow> (string \<times> u32) option" where
  "range_loop [] num low = Some (num, low)"
| "range_loop (ch # cs) num low =
     (if isdigit ch then (if 19 \<le> length num then None else range_loop cs (num @ [ch]) low)
      else if ch = CHR '':'' then (if low \<noteq> - 1 then None else range_loop cs [] (atoi32 num))
      else range_loop cs num low)"

definition parse_range :: "string \<Rightarrow> (u16 \<times> u16) outcome" where
  "parse_range token =
     (case range_loop token [] (- 1) of
        None \<Rightarrow> Failure
      | Some (num, low) \<Rightarrow> if num = [] then Failure else Value (ucast low, ucast (atoi32 num)))"

section \<open>What the IPv4 parser accepts\<close>

text \<open>Fields separated by a character.\<close>

fun join_on :: "char \<Rightarrow> string list \<Rightarrow> string" where
  "join_on c [] = []"
| "join_on c [x] = x"
| "join_on c (x # y # xs) = x @ c # join_on c (y # xs)"

lemma join_on_Cons: "xs \<noteq> [] \<Longrightarrow> join_on c (x # xs) = x @ c # join_on c xs"
  by (cases xs) simp_all

text \<open>One octet: decimal digits, leading zeros allowed, of value at most 255.\<close>

definition octet_text :: "string \<Rightarrow> bool" where
  "octet_text f \<longleftrightarrow> f \<noteq> [] \<and> list_all isdigit f \<and> dec_value f \<le> 255"

definition octet_value :: "string \<Rightarrow> u8" where
  "octet_value f = of_nat (dec_value f)"

definition dec_step :: "char \<Rightarrow> nat \<Rightarrow> nat" where
  "dec_step c n = n * 10 + digit_value c"

lemma dec_value_digits: "list_all isdigit f \<Longrightarrow> dec_value f = fold dec_step f 0"
  by (simp add: dec_value_def dec_step_def [abs_def] takeWhile_eq_all_conv [THEN iffD2] list_all_iff)

lemma fold_dec_step_ge: "v \<le> fold dec_step ds v"
proof (induction ds arbitrary: v)
  case (Cons d ds)
  have "v \<le> dec_step d v" by (simp add: dec_step_def)
  with Cons [of "dec_step d v"] show ?case by simp
qed simp

lemma unat_of_nat_u8: "v \<le> 255 \<Longrightarrow> unat (of_nat v :: u8) = v"
  by (intro unat_of_nat_eq) simp

lemma pton4_digits:
  assumes "list_all isdigit ds" and "ds \<noteq> []" and "tp < length tmp" and "unat (tmp ! tp) = v" and "saw \<or> octets < 4"
  shows "pton4_loop (ds @ r) tmp tp saw octets =
    (if 255 < fold dec_step ds v then None
     else pton4_loop r (tmp[tp := of_nat (fold dec_step ds v)]) tp True (if saw then octets else octets + 1))"
  using assms
proof (induction ds arbitrary: tmp v saw octets)
  case (Cons d ds)
  let ?v = "dec_step d v"
  have new: "unat (tmp ! tp) * 10 + digit_value d = ?v" using Cons.prems(4) by (simp add: dec_step_def)
  show ?case
  proof (cases "255 < ?v")
    case True
    then have "255 < fold dec_step ds ?v" using fold_dec_step_ge [of ?v ds] by linarith
    with True Cons.prems(1) new show ?thesis by (simp add: Let_def)
  next
    case False
    let ?tmp = "tmp[tp := of_nat ?v]" and ?o = "if saw then octets else octets + 1"
    have step: "pton4_loop ((d # ds) @ r) tmp tp saw octets = pton4_loop (ds @ r) ?tmp tp True ?o"
      using False Cons.prems new by (auto simp: Let_def)
    show ?thesis
    proof (cases "ds = []")
      case True
      with step False show ?thesis by simp
    next
      case ne: False
      have "unat (?tmp ! tp) = ?v" using Cons.prems(3) False unat_of_nat_u8 [of ?v] by simp
      with Cons.IH [of ?tmp ?v True ?o] Cons.prems ne step show ?thesis by simp
    qed
  qed
qed simp

lemma pton4_octet:
  assumes "k < 4" and "length tmp = 4" and "tmp ! k = 0" and "octet_text f"
  shows "pton4_loop (f @ r) tmp k False k = pton4_loop r (tmp[k := octet_value f]) k True (k + 1)"
proof -
  have f: "list_all isdigit f" "f \<noteq> []" "fold dec_step f 0 \<le> 255"
    using assms(4) dec_value_digits [of f] by (auto simp: octet_text_def)
  from pton4_digits [OF f(1,2), of k tmp 0 False k r] assms(1-3) f show ?thesis
    by (simp add: octet_value_def dec_value_digits)
qed

lemma pton4_dot:
  "k < 3 \<Longrightarrow> pton4_loop (CHR ''.'' # r) tmp k True (k + 1) = pton4_loop r (tmp[k + 1 := 0]) (k + 1) False (k + 1)"
  by (simp add: isdigit_def less_eq_char_def)

text \<open>The other direction: what a run that reads four octets has read.\<close>

lemma pton4_octet_only:
  assumes "pton4_loop s tmp k False k = Some (t, n)" and "k < 4" and "length tmp = 4" and "tmp ! k = 0"
  obtains "s = []" and "n = k"
  | f where "octet_text f" and "s = f" and "t = tmp[k := octet_value f]" and "n = k + 1"
  | f r where "octet_text f" and "s = f @ CHR ''.'' # r" and "k < 3"
      and "pton4_loop r (tmp[k := octet_value f, k + 1 := 0]) (k + 1) False (k + 1) = Some (t, n)"
proof (cases "takeWhile isdigit s = []")
  case True
  then have "s = [] \<or> \<not> isdigit (hd s)" by (cases s) (auto split: if_splits)
  with assms(1) that(1) show thesis by (cases s) (auto split: if_splits)
next
  case False
  let ?f = "takeWhile isdigit s" and ?r = "dropWhile isdigit s"
  have f: "list_all isdigit ?f" by (simp add: list_all_iff) (use set_takeWhileD in fastforce)
  have s: "s = ?f @ ?r" by simp
  have "pton4_loop (?f @ ?r) tmp k False k = Some (t, n)" using assms(1) by simp
  then have v: "fold dec_step ?f 0 \<le> 255"
    and r: "pton4_loop ?r (tmp[k := octet_value ?f]) k True (k + 1) = Some (t, n)"
    using pton4_digits [OF f False, of k tmp 0 False k ?r] assms(2-4) f
    by (auto simp: octet_value_def dec_value_digits split: if_splits)
  have o: "octet_text ?f" using f False v by (simp add: octet_text_def dec_value_digits)
  show thesis
  proof (cases ?r)
    case Nil
    then show thesis using that(2) [OF o] r s by (metis append_Nil2 option.inject pton4_loop.simps(1) prod.inject)
  next
    case (Cons c r')
    then have "\<not> isdigit c" by (metis hd_dropWhile list.distinct(1) list.sel(1))
    with r Cons have c: "c = CHR ''.''" "k + 1 \<noteq> 4"
      and r': "pton4_loop r' (tmp[k := octet_value ?f, k + 1 := 0]) (k + 1) False (k + 1) = Some (t, n)"
      by (auto split: if_splits)
    have "s = ?f @ CHR ''.'' # r'" using s Cons c by metis
    then show thesis using that(3) [OF o] c assms(2) r' by simp
  qed
qed

lemma pton4_loop_iff:
  assumes "n < 4" and "k = 3 - n" and "length tmp = 4" and "tmp ! k = 0"
  shows "(\<exists>oc. \<not> oc < 4 \<and> pton4_loop s tmp k False k = Some (t, oc)) \<longleftrightarrow>
    (\<exists>fs. length fs = Suc n \<and> s = join_on CHR ''.'' fs \<and> list_all octet_text fs
       \<and> t = take k tmp @ map octet_value fs)"
  using assms
proof (induction n arbitrary: s k tmp)
  case 0
  then have k: "k = 3" by simp
  have tmp: "tmp[k := v] = take k tmp @ [v]" for v
    using 0(3) k by (simp add: upd_conv_take_nth_drop)
  show ?case
  proof
    assume "\<exists>oc. \<not> oc < 4 \<and> pton4_loop s tmp k False k = Some (t, oc)"
    then obtain oc where oc: "\<not> oc < 4" "pton4_loop s tmp k False k = Some (t, oc)" by blast
    show "\<exists>fs. length fs = Suc 0 \<and> s = join_on CHR ''.'' fs \<and> list_all octet_text fs \<and> t = take k tmp @ map octet_value fs"
    proof (cases rule: pton4_octet_only [OF oc(2) _ 0(3) 0(4), case_names lt none one more])
      case lt then show ?case using k by simp
    next
      case none then show ?thesis using oc(1) k by simp
    next
      case (one f)
      then show ?thesis using tmp by (intro exI [of _ "[f]"]) simp
    next
      case (more f r) then show ?thesis using k by simp
    qed
  next
    assume "\<exists>fs. length fs = Suc 0 \<and> s = join_on CHR ''.'' fs \<and> list_all octet_text fs \<and> t = take k tmp @ map octet_value fs"
    then obtain f where f: "octet_text f" "s = f" "t = take k tmp @ [octet_value f]" by (auto simp: length_Suc_conv)
    then have "pton4_loop s tmp k False k = Some (t, 4)"
      using pton4_octet [of k tmp f "[]"] 0 k tmp by simp
    then show "\<exists>oc. \<not> oc < 4 \<and> pton4_loop s tmp k False k = Some (t, oc)" by fastforce
  qed
next
  case (Suc n)
  then have k: "k < 3" "3 - n = k + 1" by simp_all
  have tmp: "take (k + 1) (tmp[k := v, k + 1 := 0]) = take k tmp @ [v]" for v
    using Suc.prems(3) k by (simp add: take_Suc_conv_app_nth nth_list_update take_update_cancel)
  have IH: "(\<exists>oc. \<not> oc < 4 \<and> pton4_loop r (tmp[k := v, k + 1 := 0]) (k + 1) False (k + 1) = Some (t, oc)) \<longleftrightarrow>
      (\<exists>fs. length fs = Suc n \<and> r = join_on CHR ''.'' fs \<and> list_all octet_text fs
         \<and> t = (take k tmp @ [v]) @ map octet_value fs)" for r v
    using Suc.IH [of "k + 1" "tmp[k := v, k + 1 := 0]" r] Suc.prems k tmp [of v] by simp
  show ?case
  proof
    assume "\<exists>oc. \<not> oc < 4 \<and> pton4_loop s tmp k False k = Some (t, oc)"
    then obtain oc where oc: "\<not> oc < 4" "pton4_loop s tmp k False k = Some (t, oc)" by blast
    show "\<exists>fs. length fs = Suc (Suc n) \<and> s = join_on CHR ''.'' fs \<and> list_all octet_text fs \<and> t = take k tmp @ map octet_value fs"
    proof (cases rule: pton4_octet_only [OF oc(2) _ Suc.prems(3,4), case_names lt none one more])
      case lt then show ?case using k by simp
    next
      case none then show ?thesis using oc(1) k by simp
    next
      case (one f) then show ?thesis using oc(1) k by simp
    next
      case (more f r)
      with oc(1) IH [of r "octet_value f"] obtain fs where fs: "length fs = Suc n" "r = join_on CHR ''.'' fs"
        "list_all octet_text fs" "t = (take k tmp @ [octet_value f]) @ map octet_value fs" by blast
      then have "fs \<noteq> []" by auto
      with fs more show ?thesis by (intro exI [of _ "f # fs"]) (simp add: join_on_Cons)
    qed
  next
    assume "\<exists>fs. length fs = Suc (Suc n) \<and> s = join_on CHR ''.'' fs \<and> list_all octet_text fs \<and> t = take k tmp @ map octet_value fs"
    then obtain gs where gs: "length gs = Suc (Suc n)" "s = join_on CHR ''.'' gs" "list_all octet_text gs"
      "t = take k tmp @ map octet_value gs" by blast
    from gs(1) obtain f fs where c: "gs = f # fs" "length fs = Suc n" by (metis length_Suc_conv)
    then have f: "octet_text f" "list_all octet_text fs" "length fs = Suc n"
      "s = join_on CHR ''.'' (f # fs)" "t = (take k tmp @ [octet_value f]) @ map octet_value fs"
      using gs by simp_all
    then have "fs \<noteq> []" by auto
    then have "s = f @ CHR ''.'' # join_on CHR ''.'' fs" using f(4) by (simp add: join_on_Cons)
    then have "pton4_loop s tmp k False k = pton4_loop (join_on CHR ''.'' fs) (tmp[k := octet_value f, k + 1 := 0]) (k + 1) False (k + 1)"
      using pton4_octet [OF _ Suc.prems(3,4) f(1)] pton4_dot [OF k(1)] k(1) by simp
    then show "\<exists>oc. \<not> oc < 4 \<and> pton4_loop s tmp k False k = Some (t, oc)"
      using IH [of "join_on CHR ''.'' fs" "octet_value f"] f by auto
  qed
qed

lemma inet_pton4_iff:
  "inet_pton4 s = Some a \<longleftrightarrow>
     (\<exists>fs. length fs = 4 \<and> s = join_on CHR ''.'' fs \<and> list_all octet_text fs \<and> a = map octet_value fs)"
proof -
  have "inet_pton4 s = Some a \<longleftrightarrow> (\<exists>oc. \<not> oc < 4 \<and> pton4_loop s [0, 0, 0, 0] 0 False 0 = Some (a, oc))"
    by (auto simp: inet_pton4_def split: option.splits if_splits)
  then show ?thesis using pton4_loop_iff [of 3 0 "[0, 0, 0, 0]" s a] by simp
qed

text \<open>C27: \<^verbatim>\<open>inet_pton4\<close> accepts exactly the dotted quads: four fields of decimal digits,
  each of value at most 255, separated by dots; and it returns their values.\<close>

theorem inet_pton4_dotted_quads:
  "inet_pton4 s = Some a \<longleftrightarrow>
     (\<exists>fs. length fs = 4 \<and> s = join_on CHR ''.'' fs \<and> list_all octet_text fs \<and> a = map octet_value fs)"
  by (rule inet_pton4_iff)

section \<open>What the IPv6 parser reads\<close>

definition hex_step :: "char \<Rightarrow> nat \<Rightarrow> nat" where
  "hex_step c n = n * 16 + the (xdigit_value c)"

definition hex_value :: "string \<Rightarrow> nat" where
  "hex_value h = fold hex_step h 0"

text \<open>A group: one to four hexadecimal digits; its two bytes.\<close>

definition group_text :: "string \<Rightarrow> bool" where
  "group_text h \<longleftrightarrow> h \<noteq> [] \<and> length h \<le> 4 \<and> list_all (\<lambda>c. xdigit_value c \<noteq> None) h"

definition group_bytes :: "string \<Rightarrow> bytes" where
  "group_bytes h = [of_nat (hex_value h div 256), of_nat (hex_value h mod 256)]"

lemma xdigit_value_less: "xdigit_value c = Some d \<Longrightarrow> d < 16"
  by (auto simp: xdigit_value_def isdigit_iff digit_value_def less_eq_char_def split: if_splits)

lemma xdigit_colon [simp]: "xdigit_value CHR '':'' = None"
  by (simp add: xdigit_value_def isdigit_iff less_eq_char_def)

lemma pton6_digits:
  assumes "list_all (\<lambda>c. xdigit_value c \<noteq> None) h" and "count_xdigit s + length h \<le> 4" and "val6 s < 16 ^ count_xdigit s"
    and "h \<noteq> []"
  shows "pton6_loop (h @ r) cur s = pton6_loop r cur
    (s\<lparr>val6 := fold hex_step h (val6 s), saw_xdigit := True, count_xdigit := count_xdigit s + length h\<rparr>)"
  using assms
proof (induction h arbitrary: s)
  case (Cons c h)
  obtain d where d: "xdigit_value c = Some d" "d < 16" using Cons.prems(1) xdigit_value_less by auto
  let ?v = "val6 s * 16 + d" and ?s = "s\<lparr>val6 := val6 s * 16 + d, saw_xdigit := True, count_xdigit := count_xdigit s + 1\<rparr>"
  have v: "?v < 16 ^ (count_xdigit s + 1)" using Cons.prems(3) d(2) by simp
  also have "(16::nat) ^ (count_xdigit s + 1) \<le> 16 ^ 4" using Cons.prems(2) by (intro power_increasing) simp_all
  finally have "\<not> 0xffff < ?v" by simp
  then have step: "pton6_loop ((c # h) @ r) cur s = pton6_loop (h @ r) cur ?s"
    using Cons.prems(2) d(1) by (simp add: Let_def)
  show ?case
  proof (cases "h = []")
    case True
    then show ?thesis using step d by (simp add: hex_step_def)
  next
    case False
    have "list_all (\<lambda>c. xdigit_value c \<noteq> None) h" "count_xdigit ?s + length h \<le> 4" "val6 ?s < 16 ^ count_xdigit ?s"
      using Cons.prems v by simp_all
    from Cons.IH [OF this False] step d show ?thesis by (simp add: hex_step_def)
  qed
qed simp

text \<open>A state between groups.\<close>

definition between :: "bytes \<Rightarrow> nat \<Rightarrow> nat option \<Rightarrow> nat \<Rightarrow> pton6" where
  "between tmp tp cp db = \<lparr>tmp6 = tmp, tp6 = tp, colonp = cp, saw_xdigit = False, count_xdigit = 0, val6 = 0, dbloct_count = db\<rparr>"

lemma pton6_group:
  assumes "group_text h"
  shows "pton6_loop (h @ r) cur (between tmp tp cp db) = pton6_loop r cur
    ((between tmp tp cp db)\<lparr>val6 := hex_value h, saw_xdigit := True, count_xdigit := length h\<rparr>)"
  using assms pton6_digits [of h "between tmp tp cp db" r cur]
  by (simp add: group_text_def between_def hex_value_def)

lemma put_val_store:
  assumes "tp6 s + 2 \<le> length (tmp6 s)"
  shows "put_val s = s\<lparr>tmp6 := store (tmp6 s) (tp6 s) [of_nat (val6 s div 256), of_nat (val6 s mod 256)], tp6 := tp6 s + 2\<rparr>"
proof -
  have "(tmp6 s)[tp6 s := a, Suc (tp6 s) := b] = store (tmp6 s) (tp6 s) [a, b]" for a b
    using assms by (intro nth_equalityI) (auto simp: nth_store nth_list_update nth_Cons')
  then show ?thesis by (simp add: put_val_def)
qed

lemma pton6_group_colon:
  assumes "group_text h" and "tp + 2 \<le> 16" and "length tmp = 16" and "r \<noteq> []"
  shows "pton6_loop (h @ CHR '':'' # r) cur (between tmp tp cp db) =
    pton6_loop r r (between (store tmp tp (group_bytes h)) (tp + 2) cp (db + 1))"
  using assms put_val_store [of "(between tmp tp cp db)\<lparr>val6 := hex_value h, saw_xdigit := True, count_xdigit := length h\<rparr>"]
  unfolding pton6_group [OF assms(1)]
  by (simp add: between_def group_bytes_def)

text \<open>Groups with a colon behind each.\<close>

definition groups_text :: "string list \<Rightarrow> string" where
  "groups_text gs = concat (map (\<lambda>g. g @ CHR '':'' # []) gs)"

definition groups_bytes :: "string list \<Rightarrow> bytes" where
  "groups_bytes gs = concat (map group_bytes gs)"

lemma length_groups_bytes [simp]: "length (groups_bytes gs) = 2 * length gs"
  by (induction gs) (simp_all add: groups_bytes_def group_bytes_def)

lemma groups_bytes_append: "groups_bytes (gs @ hs) = groups_bytes gs @ groups_bytes hs"
  "groups_bytes [h] = group_bytes h" "groups_bytes (g # gs) = group_bytes g @ groups_bytes gs" "groups_bytes [] = []"
  by (simp_all add: groups_bytes_def)

lemma store_store_append:
  "off + length xs + length ys \<le> length bs \<Longrightarrow> store (store bs off xs) (off + length xs) ys = store bs off (xs @ ys)"
  by (rule nth_equalityI) (auto simp: nth_store nth_append)

lemma pton6_groups:
  assumes "list_all group_text gs" and "tp + 2 * length gs \<le> 16" and "length tmp = 16" and "r \<noteq> []"
  shows "\<exists>cur'. pton6_loop (groups_text gs @ r) cur (between tmp tp cp db) =
    pton6_loop r cur' (between (store tmp tp (groups_bytes gs)) (tp + 2 * length gs) cp (db + length gs))"
  using assms
proof (induction gs arbitrary: tmp tp db cur)
  case Nil
  then show ?case by (intro exI [of _ cur]) (simp add: groups_text_def groups_bytes_def store_def)
next
  case (Cons g gs)
  let ?r = "groups_text gs @ r" and ?tmp = "store tmp tp (group_bytes g)"
  have l: "length (group_bytes g) = 2" by (simp add: group_bytes_def)
  have "pton6_loop (groups_text (g # gs) @ r) cur (between tmp tp cp db) = pton6_loop ?r ?r (between ?tmp (tp + 2) cp (db + 1))"
    using pton6_group_colon [of g tp tmp ?r cur cp db] Cons.prems by (simp add: groups_text_def)
  moreover have "store ?tmp (tp + 2) (groups_bytes gs) = store tmp tp (groups_bytes (g # gs))"
    using store_store_append [of tp "group_bytes g" "groups_bytes gs" tmp] Cons.prems l by (simp add: groups_bytes_append)
  ultimately show ?case
    using Cons.IH [of "tp + 2" ?tmp ?r "db + 1"] Cons.prems l by (simp add: ac_simps)
qed

lemma pton6_last_group:
  assumes "group_text h" and "tp + 2 \<le> 16" and "length tmp = 16"
  shows "(case pton6_loop h cur (between tmp tp cp db) of None \<Rightarrow> None | Some s \<Rightarrow> pton6_end s) =
    pton6_end (between (store tmp tp (group_bytes h)) (tp + 2) cp (db + 1))"
  using pton6_group [OF assms(1), of "[]" cur tmp tp cp db] assms
    put_val_store [of "(between tmp tp cp db)\<lparr>val6 := hex_value h, saw_xdigit := True, count_xdigit := length h\<rparr>"]
  by (cases cp) (simp_all add: pton6_end_def between_def group_bytes_def Let_def)

lemma join_on_snoc: "join_on c (gs @ [h]) = concat (map (\<lambda>g. g @ c # []) gs) @ h"
proof (induction gs)
  case (Cons g gs)
  then show ?case by (cases gs) simp_all
qed simp

text \<open>Groups to the end of the text.\<close>

lemma pton6_tail:
  assumes "list_all group_text hs" and "tp + 2 * length hs \<le> 16" and "length tmp = 16"
  shows "(case pton6_loop (join_on CHR '':'' hs) cur (between tmp tp cp db) of None \<Rightarrow> None | Some s \<Rightarrow> pton6_end s) =
    pton6_end (between (store tmp tp (groups_bytes hs)) (tp + 2 * length hs) cp (db + length hs))"
proof (cases hs rule: rev_cases)
  case Nil
  then show ?thesis by (simp add: groups_bytes_def store_def)
next
  case (snoc gs h)
  have h: "h \<noteq> []" "group_text h" "list_all group_text gs" using assms(1) snoc by (auto simp: group_text_def)
  obtain cur' where c: "pton6_loop (groups_text gs @ h) cur (between tmp tp cp db) =
      pton6_loop h cur' (between (store tmp tp (groups_bytes gs)) (tp + 2 * length gs) cp (db + length gs))"
    using pton6_groups [OF h(3) _ assms(3) h(1), of tp cur cp db] assms(2) snoc by auto
  have "store (store tmp tp (groups_bytes gs)) (tp + 2 * length gs) (group_bytes h) = store tmp tp (groups_bytes hs)"
    using store_store_append [of tp "groups_bytes gs" "group_bytes h" tmp] assms snoc
    by (simp add: groups_bytes_append group_bytes_def)
  moreover have "join_on CHR '':'' hs = groups_text gs @ h" by (simp add: snoc join_on_snoc groups_text_def)
  ultimately show ?thesis
    using c pton6_last_group [OF h(2), of "tp + 2 * length gs" "store tmp tp (groups_bytes gs)" cur' cp "db + length gs"]
      assms snoc by simp
qed

lemma shift_tail_eq:
  assumes "length G = cp" and "length H = n" and "cp + n < 16"
  shows "shift_tail cp n (G @ H @ replicate (16 - (cp + n)) 0) = G @ replicate (16 - (cp + n)) 0 @ H"
proof -
  let ?tmp = "G @ H @ replicate (16 - (cp + n)) 0"
  let ?step = "\<lambda>i t. (t[16 - i := t ! (cp + n - i)])[cp + n - i := 0 :: u8]"
  have inv: "length (fold ?step [1..<j + 1] ?tmp) = 16 \<and> (\<forall>x<16. fold ?step [1..<j + 1] ?tmp ! x =
      (if x < cp then G ! x else if x < cp + n - j then H ! (x - cp) else if x < 16 - j then 0 else H ! (x + n - 16)))"
    if "j \<le> n" for j
    using that
  proof (induction j)
    case 0
    then show ?case using assms by (auto simp: nth_append)
  next
    case (Suc j)
    let ?t = "fold ?step [1..<j + 1] ?tmp"
    have t: "length ?t = 16" "\<And>x. x < 16 \<Longrightarrow> ?t ! x = (if x < cp then G ! x else if x < cp + n - j then H ! (x - cp)
        else if x < 16 - j then 0 else H ! (x + n - 16))"
      using Suc by simp_all
    have "?t ! (cp + n - Suc j) = H ! (n - Suc j)" using t(2) [of "cp + n - Suc j"] Suc.prems assms(3) by auto
    then have e: "fold ?step [1..<Suc j + 1] ?tmp = (?t[16 - Suc j := H ! (n - Suc j)])[cp + n - Suc j := 0]" by simp
    show ?case unfolding e
    proof (intro conjI allI impI)
      show "length ((?t[16 - Suc j := H ! (n - Suc j)])[cp + n - Suc j := 0]) = 16" using t(1) by simp
      fix x :: nat assume x: "x < 16"
      consider "x = cp + n - Suc j" | "x = 16 - Suc j" | "x \<noteq> cp + n - Suc j" "x \<noteq> 16 - Suc j" by blast
      then show "(?t[16 - Suc j := H ! (n - Suc j)])[cp + n - Suc j := 0] ! x =
        (if x < cp then G ! x else if x < cp + n - Suc j then H ! (x - cp) else if x < 16 - Suc j then 0 else H ! (x + n - 16))"
      proof cases
        case 1
        have "cp + n - Suc j < 16 - Suc j" "\<not> cp + n - Suc j < cp" using Suc.prems assms(3) by linarith+
        then show ?thesis using t(1) x 1 by simp
      next
        case 2
        have "cp + n - Suc j < 16 - Suc j" "16 - Suc j + n - 16 = n - Suc j" "\<not> 16 - Suc j < cp"
          using Suc.prems assms(3) by linarith+
        then show ?thesis using t(1) 2 x by simp
      next
        case 3
        have "x < cp + n - j \<longleftrightarrow> x < cp + n - Suc j" "x < 16 - j \<longleftrightarrow> x < 16 - Suc j" using 3 x Suc.prems by linarith+
        then show ?thesis using t(2) [OF x] 3 by simp
      qed
    qed
  qed
  show ?thesis unfolding shift_tail_def
  proof (rule nth_equalityI)
    show "length (fold ?step [1..<n + 1] ?tmp) = length (G @ replicate (16 - (cp + n)) 0 @ H)"
      using inv [of n] assms by simp
    fix x assume "x < length (fold ?step [1..<n + 1] ?tmp)"
    then have "x < 16" using inv [of n] by simp
    moreover have arith: "x - cp < 16 - (cp + n) \<longleftrightarrow> x < 16 - n" "x - cp - (16 - (cp + n)) = x + n - 16" if "\<not> x < cp"
      using that \<open>x < 16\<close> assms(3) by linarith+
    ultimately show "fold ?step [1..<n + 1] ?tmp ! x = (G @ replicate (16 - (cp + n)) 0 @ H) ! x"
      using inv [of n, OF order.refl] assms arith by (cases "x < cp") (simp_all add: nth_append)
  qed
qed

lemma pton6_end_between:
  "pton6_end (between tmp tp None db) = (if tp = 16 then Some tmp else None)"
  "pton6_end (between tmp tp (Some cp) db) = (if db = 8 then None else Some (shift_tail cp (tp - cp) tmp))"
  by (simp_all add: pton6_end_def between_def)

lemma groups_text_hd: "gs \<noteq> [] \<Longrightarrow> list_all group_text gs \<Longrightarrow> groups_text gs \<noteq> [] \<and> hd (groups_text gs @ r) \<noteq> CHR '':''"
proof -
  assume "gs \<noteq> []" "list_all group_text gs"
  then obtain g gs' c g' where "gs = g # gs'" "g = c # g'" "xdigit_value c \<noteq> None"
    by (cases gs; cases "hd gs") (auto simp: group_text_def)
  moreover from this have "c \<noteq> CHR '':''" using xdigit_colon by auto
  ultimately show ?thesis by (simp add: groups_text_def)
qed

lemma inet_pton6_run:
  "s \<noteq> [] \<Longrightarrow> hd s \<noteq> CHR '':'' \<Longrightarrow> inet_pton6 s =
     (case pton6_loop s s (between (replicate 16 0) 0 None 0) of None \<Rightarrow> None | Some s \<Rightarrow> pton6_end s)"
  "inet_pton6 (CHR '':'' # CHR '':'' # s) =
     (case pton6_loop (CHR '':'' # s) (CHR '':'' # s) (between (replicate 16 0) 0 None 0) of None \<Rightarrow> None | Some s \<Rightarrow> pton6_end s)"
  by (simp_all add: inet_pton6_def between_def Let_def)

lemma pton6_compressed:
  assumes "list_all group_text gs" and "list_all group_text hs" and "length gs + length hs < 8"
  shows "(case pton6_loop (groups_text gs @ CHR '':'' # join_on CHR '':'' hs) cur (between (replicate 16 0) 0 None 0) of
      None \<Rightarrow> None | Some s \<Rightarrow> pton6_end s) =
    Some (groups_bytes gs @ replicate (16 - 2 * (length gs + length hs)) 0 @ groups_bytes hs)"
proof -
  let ?G = "groups_bytes gs" and ?H = "groups_bytes hs" and ?z = "replicate 16 0 :: bytes" and ?j = "join_on CHR '':'' hs"
  let ?g = "length gs" and ?h = "length hs"
  obtain cur' where a: "pton6_loop (groups_text gs @ CHR '':'' # ?j) cur (between ?z 0 None 0) =
      pton6_loop (CHR '':'' # ?j) cur' (between (store ?z 0 ?G) (2 * ?g) None ?g)"
    using pton6_groups [OF assms(1), of 0 ?z "CHR '':'' # ?j" cur None 0] assms(3) by auto
  have b: "pton6_loop (CHR '':'' # ?j) cur' (between (store ?z 0 ?G) (2 * ?g) None ?g) =
      pton6_loop ?j ?j (between (store ?z 0 ?G) (2 * ?g) (Some (2 * ?g)) ?g)"
    by (simp add: between_def)
  have "store (store ?z 0 ?G) (2 * ?g) ?H = store ?z 0 (?G @ ?H)"
    using store_store_append [of 0 ?G ?H ?z] assms(3) by simp
  also have "\<dots> = ?G @ ?H @ replicate (16 - (2 * ?g + 2 * ?h)) 0" by (simp add: store_def)
  finally have t: "store (store ?z 0 ?G) (2 * ?g) ?H = ?G @ ?H @ replicate (16 - (2 * ?g + 2 * ?h)) 0" .
  have len: "length (store ?z 0 ?G) = 16" "2 * ?g + 2 * ?h \<le> 16" using assms(3) by simp_all
  have "(case pton6_loop ?j ?j (between (store ?z 0 ?G) (2 * ?g) (Some (2 * ?g)) ?g) of None \<Rightarrow> None | Some s \<Rightarrow> pton6_end s) =
      pton6_end (between (store (store ?z 0 ?G) (2 * ?g) ?H) (2 * ?g + 2 * ?h) (Some (2 * ?g)) (?g + ?h))"
    by (rule pton6_tail [OF assms(2) len(2,1)])
  then show ?thesis
    using shift_tail_eq [of ?G "2 * ?g" ?H "2 * ?h"] assms(3) unfolding a b t
    by (simp add: pton6_end_between distrib_left)
qed

text \<open>\<^verbatim>\<open>inet_pton6\<close> reads the two notations of RFC 4291: eight groups of one to four
  hexadecimal digits give their sixteen bytes in order, and a double colon stands for the zero bytes
  that are missing between the groups before it and the groups behind it, of which there are at
  most seven; both parts may be empty.\<close>

theorem inet_pton6_groups:
  assumes "list_all group_text gs" and "list_all group_text hs"
  shows "(length gs = 8 \<longrightarrow> inet_pton6 (join_on CHR '':'' gs) = Some (groups_bytes gs))
    \<and> (length gs + length hs < 8 \<longrightarrow> inet_pton6 (join_on CHR '':'' gs @ ''::'' @ join_on CHR '':'' hs) =
           Some (groups_bytes gs @ replicate (16 - 2 * (length gs + length hs)) 0 @ groups_bytes hs))"
proof (intro conjI impI)
  assume l: "length gs = 8"
  then obtain fs g where g: "gs = fs @ [g]" by (cases gs rule: rev_cases) auto
  with l have g: "gs = fs @ [g]" "fs \<noteq> []" by auto
  then have j: "join_on CHR '':'' gs = groups_text fs @ g" by (simp add: join_on_snoc groups_text_def)
  have hd: "groups_text fs \<noteq> []" "hd (groups_text fs @ g) \<noteq> CHR '':''"
    using groups_text_hd [OF g(2), of "[]"] assms(1) g(1) by simp_all
  show "inet_pton6 (join_on CHR '':'' gs) = Some (groups_bytes gs)"
    using inet_pton6_run(1) [of "join_on CHR '':'' gs"] hd
      pton6_tail [OF assms(1), of 0 "replicate 16 0" "join_on CHR '':'' gs" None 0] l
    by (simp add: j pton6_end_between store_def)
next
  assume l: "length gs + length hs < 8"
  note c = pton6_compressed [OF assms l]
  show "inet_pton6 (join_on CHR '':'' gs @ ''::'' @ join_on CHR '':'' hs) =
      Some (groups_bytes gs @ replicate (16 - 2 * (length gs + length hs)) 0 @ groups_bytes hs)"
  proof (cases gs rule: rev_cases)
    case Nil
    then show ?thesis using c inet_pton6_run(2) [of "join_on CHR '':'' hs"] by (simp add: groups_text_def)
  next
    case (snoc fs g)
    then have j: "join_on CHR '':'' gs @ ''::'' @ join_on CHR '':'' hs = groups_text gs @ CHR '':'' # join_on CHR '':'' hs"
      by (simp add: join_on_snoc groups_text_def)
    have "groups_text gs \<noteq> []" "hd (groups_text gs @ CHR '':'' # join_on CHR '':'' hs) \<noteq> CHR '':''"
      using groups_text_hd [of gs "[]"] assms(1) snoc by simp_all
    then show ?thesis unfolding j using inet_pton6_run(1) c by simp
  qed
qed

theorem inet_pton6_groups_witness:
  "inet_pton6 ''2001:db8::42'' = Some ([0x20, 0x01, 0x0d, 0xb8] @ replicate 10 0 @ [0, 0x42])"
proof -
  have g: "list_all group_text [''2001'', ''db8'']" "list_all group_text [''42'']" by code_simp+
  have "groups_bytes [''2001'', ''db8''] = [0x20, 0x01, 0x0d, 0xb8]" "groups_bytes [''42''] = [0, 0x42]" by code_simp+
  then show ?thesis using inet_pton6_groups [OF g] by (simp add: eval_nat_numeral)
qed


section \<open>Ranges\<close>

lemma length_show_dec: "n < 10 ^ Suc k \<Longrightarrow> length (show_dec n) \<le> Suc k"
proof (induction n arbitrary: k rule: show_dec.induct)
  case (1 n)
  show ?case
  proof (cases "n < 10")
    case True
    then show ?thesis by (subst show_dec.simps) simp
  next
    case False
    with 1(2) obtain k' where k: "k = Suc k'" by (cases k) simp_all
    with 1(2) have "n div 10 < 10 ^ Suc k'" by simp
    from 1(1) [OF False this] False k show ?thesis by (subst show_dec.simps) simp
  qed
qed

lemma range_loop_digits:
  "list_all isdigit ds \<Longrightarrow> length num + length ds \<le> 19 \<Longrightarrow> range_loop (ds @ r) num low = range_loop r (num @ ds) low"
  by (induction ds arbitrary: num) simp_all

lemma atoi32_show_dec: "n < 65536 \<Longrightarrow> atoi32 (show_dec n) = of_nat n"
proof -
  assume "n < 65536"
  then have "max (- (2 ^ 63)) (min (2 ^ 63 - 1) (int n)) = int n" by simp
  then show ?thesis by (simp add: atoi32_def)
qed

text \<open>\<^verbatim>\<open>parse_range\<close> reads "low:high" as written; a single number, without a colon, is
  not the range of one element but the range from 65535 to it.\<close>

theorem parse_range_decimal:
  assumes "low < 65536" and "high < 65536"
  shows "parse_range (show_dec low @ '':'' @ show_dec high) = Value (of_nat low, of_nat high)
    \<and> parse_range (show_dec high) = Value (65535, of_nat high)"
proof -
  have d: "list_all isdigit (show_dec n)" for n using isdigit_show_dec by (simp add: list_all_iff)
  have l: "length (show_dec n) \<le> 19" if "n < 65536" for n using length_show_dec [of n 4] that by simp
  have e: "range_loop (show_dec n @ r) [] v = range_loop r (show_dec n) v" if "n < 65536" for n r v
    using range_loop_digits [OF d, of "[]" n r v] l [OF that] by simp
  have c: "range_loop (CHR '':'' # r) num (- 1) = range_loop r [] (atoi32 num)" for r num
    by (simp add: isdigit_iff)
  have "range_loop (show_dec low @ '':'' @ show_dec high) [] (- 1) = Some (show_dec high, of_nat low)"
    using e [OF assms(1), of "'':'' @ show_dec high" "- 1"] c [of "show_dec high" "show_dec low"]
      e [OF assms(2), of "[]"] atoi32_show_dec [OF assms(1)] by simp
  moreover have "range_loop (show_dec high) [] (- 1) = Some (show_dec high, - 1)"
    using e [OF assms(2), of "[]" "- 1"] by simp
  moreover have "(ucast (of_nat n :: u32) :: u16) = of_nat n" if "n < 65536" for n
    using that by (simp add: unsigned_of_nat take_bit_nat_eq_self)
  moreover have "(ucast (- 1 :: u32) :: u16) = 65535" by code_simp
  ultimately show ?thesis using assms atoi32_show_dec by (simp add: parse_range_def)
qed

theorem parse_range_decimal_witness:
  "parse_range ''1024:2048'' = Value (1024, 2048) \<and> parse_range ''80'' = Value (65535, 80)"
proof -
  have s: "show_dec 1024 = ''1024''" "show_dec 2048 = ''2048''" "show_dec 80 = ''80''" by code_simp+
  show ?thesis using parse_range_decimal [of 1024 2048] parse_range_decimal [of 0 80] by (simp add: s)
qed

section \<open>Sizes of the results\<close>

lemma inet_pton4_length: "inet_pton4 s = Some a \<Longrightarrow> length a = 4"
  using inet_pton4_iff [of s a] by auto

lemma pton6_loop_length: "pton6_loop s cur st = Some st' \<Longrightarrow> length (tmp6 st) = 16 \<Longrightarrow> length (tmp6 st') = 16"
proof (induction s cur st rule: pton6_loop.induct)
  case (2 ch src curtok s)
  then show ?case
    by (auto simp: Let_def put_val_def split: option.splits if_splits dest: inet_pton4_length)
qed simp

lemma shift_tail_length [simp]: "length (shift_tail cp n t) = length t"
proof -
  have "length (fold (\<lambda>i t. (t[16 - i := t ! (cp + n - i)])[cp + n - i := 0]) xs t) = length t" for xs
    by (induction xs arbitrary: t) simp_all
  then show ?thesis by (simp add: shift_tail_def)
qed

lemma pton6_end_length: "pton6_end s = Some a \<Longrightarrow> length (tmp6 s) = 16 \<Longrightarrow> length a = 16"
  by (auto simp: pton6_end_def put_val_def Let_def split: if_splits option.splits)

lemma inet_pton6_length: "inet_pton6 s = Some a \<Longrightarrow> length a = 16"
  by (auto simp: inet_pton6_def Let_def split: if_splits option.splits dest!: pton6_loop_length pton6_end_length)

lemma parse_addr_length:
  "parse_ipv4_addr t = Value (a, m) \<Longrightarrow> length a = 4" "parse_ipv6_addr t = Value (a, m) \<Longrightarrow> length a = 16"
  by (auto simp: parse_ipv4_addr_def parse_ipv6_addr_def parse_addr_def split: option.splits if_splits prod.splits
      dest: inet_pton4_length inet_pton6_length)

end
