(* ===== verification/Startup.thy ===== *)
theory Startup
  imports Addr_Text
begin

text \<open>
  What the start of the forwarder (\<^verbatim>\<open>nat_eval/main.c\<close>) and of the gateway
  (\<^verbatim>\<open>ipsec-secgw.c\<close>) have in common: \<^verbatim>\<open>strtoul\<close>, the option that assigns receive
  queues to cores, the receive queues of every core, and the wait for the links.
  \<^verbatim>\<open>rte_strsplit\<close> is a parameter, and \<open>strsplit_law\<close> states what it does to fields without
  the delimiter.
\<close>

section \<open>Numbers\<close>

definition digit_of :: "nat \<Rightarrow> char \<Rightarrow> bool" where
  "digit_of base c = (case xdigit_value c of None \<Rightarrow> False | Some v \<Rightarrow> v < base)"

text \<open>The value, the characters behind the number (all of them when there is none), and whether
  \<^verbatim>\<open>errno\<close> is set.\<close>

definition hex_prefix :: "string \<Rightarrow> bool" where
  "hex_prefix t = (case t of z # x # d # _ \<Rightarrow> z = CHR ''0'' \<and> (x = CHR ''x'' \<or> x = CHR ''X'') \<and> digit_of 16 d | _ \<Rightarrow> False)"

definition strtoul :: "nat \<Rightarrow> string \<Rightarrow> u64 \<times> string \<times> bool" where
  "strtoul base s =
     (let t = dropWhile isspace s;
          neg = (t \<noteq> [] \<and> hd t = CHR ''-'');
          t = (if t \<noteq> [] \<and> (hd t = CHR ''-'' \<or> hd t = CHR ''+'') then tl t else t);
          (base, t) = (if (base = 0 \<or> base = 16) \<and> hex_prefix t then (16, drop 2 t)
                       else (if base \<noteq> 0 then base else if t \<noteq> [] \<and> hd t = CHR ''0'' then 8 else 10, t));
          ds = takeWhile (digit_of base) t;
          n = fold (\<lambda>c n. n * int base + int (the (xdigit_value c))) ds 0
      in if ds = [] then (0, s, False)
         else if 2 ^ 64 \<le> n then (- 1, drop (length ds) t, True)
         else (of_int (if neg then - n else n), drop (length ds) t, False))"

section \<open>Receive queues\<close>

record lcore_params =
  port_id :: u8
  queue_id :: u8
  lcore_id :: u8

definition MAX_LCORE_PARAMS :: nat where "MAX_LCORE_PARAMS = 1024"
definition MAX_RX_QUEUE_PER_LCORE :: nat where "MAX_RX_QUEUE_PER_LCORE = 16"

type_synonym strsplit = "string \<Rightarrow> nat \<Rightarrow> char \<Rightarrow> string list"

text \<open>One field: \<open>None\<close> is the error return.\<close>

definition parse_fld :: "string \<Rightarrow> u8 option" where
  "parse_fld f =
     (let (v, end, err) = strtoul 0 f
      in if err \<or> length end = length f \<or> 255 < v then None else Some (ucast v))"

lemma split_at_shorter: "split_at c s = Some (a, p) \<Longrightarrow> length p - n < length s"
proof -
  assume a: "split_at c s = Some (a, p)"
  then have "c \<in> set s" and p: "p = tl (dropWhile (\<lambda>x. x \<noteq> c) s)" by (simp_all add: split_at_def split: if_splits)
  then have "0 < length s" by auto
  moreover have "length p = length (dropWhile (\<lambda>x. x \<noteq> c) s) - 1" by (simp add: p)
  ultimately show ?thesis using length_dropWhile_le [of "\<lambda>x. x \<noteq> c" s] by linarith
qed

text \<open>The walk over the parentheses, with the entries written so far; a position in the text is the
  text from there on.\<close>

function parse_config_from :: "strsplit \<Rightarrow> string \<Rightarrow> lcore_params list \<Rightarrow> lcore_params list option" where
  "parse_config_from split p0 ps =
     (case split_at CHR ''('' p0 of None \<Rightarrow> Some ps
      | Some (_, p) \<Rightarrow>
          (case split_at CHR '')'' p of None \<Rightarrow> None
           | Some (s, _) \<Rightarrow>
               let p0 = drop (length s) p; str_fld = split s 3 CHR '',''
               in if 256 \<le> length s then None
                  else if length str_fld \<noteq> 3 then None
                  else (case map parse_fld str_fld of
                      [Some port, Some queue, Some lcore] \<Rightarrow>
                        if MAX_LCORE_PARAMS \<le> length ps then None
                        else parse_config_from split p0 (ps @ [\<lparr>port_id = port, queue_id = queue, lcore_id = lcore\<rparr>])
                    | _ \<Rightarrow> None)))"
  by pat_completeness auto
termination
  by (relation "measure (\<lambda>(split, p0, ps). length p0)") (auto dest: split_at_shorter)

declare parse_config_from.simps [simp del]

definition parse_config :: "strsplit \<Rightarrow> string \<Rightarrow> lcore_params list option" where
  "parse_config split q_arg = parse_config_from split q_arg []"

text \<open>The receive queues of the cores, \<^verbatim>\<open>rx_queue_list\<close> up to \<^verbatim>\<open>n_rx_queue\<close>.\<close>

type_synonym rx_conf = "u8 \<Rightarrow> (u8 \<times> u8) list"

definition add_rx_queue :: "lcore_params \<Rightarrow> rx_conf \<Rightarrow> rx_conf option" where
  "add_rx_queue p conf =
     (let lcore = lcore_id p; nb_rx_queue = length (conf lcore)
      in if MAX_RX_QUEUE_PER_LCORE \<le> nb_rx_queue then None
         else Some (conf(lcore := conf lcore @ [(port_id p, queue_id p)])))"

definition init_lcore_rx_queues :: "lcore_params list \<Rightarrow> rx_conf \<Rightarrow> rx_conf option" where
  "init_lcore_rx_queues ps conf = fold_option add_rx_queue ps conf"

section \<open>Numbers that were printed\<close>

lemma digit_of_decimal: "digit_of 10 c \<longleftrightarrow> isdigit c" "isdigit c \<Longrightarrow> xdigit_value c = Some (digit_value c)"
proof -
  show "isdigit c \<Longrightarrow> xdigit_value c = Some (digit_value c)" by (simp add: xdigit_value_def)
  show "digit_of 10 c \<longleftrightarrow> isdigit c"
    by (auto simp: digit_of_def xdigit_value_def isdigit_iff digit_value_def less_eq_char_def)
qed

lemma show_dec_first: "hd (show_dec n) = CHR ''0'' \<longleftrightarrow> n = 0"
proof (induction n rule: show_dec.induct)
  case (1 n)
  have z: "digit_char d = CHR ''0'' \<longleftrightarrow> d = 0" if "d < 10" for d
  proof -
    have "digit_char d = CHR ''0'' \<longleftrightarrow> (of_char (digit_char d) :: nat) = of_char CHR ''0''" by (simp only: of_char_eq_iff)
    then show ?thesis using of_char_digit_char [OF that] by simp
  qed
  show ?case
  proof (cases "n < 10")
    case True
    then show ?thesis using z by (subst show_dec.simps) simp
  next
    case False
    then have "hd (show_dec n) = hd (show_dec (n div 10))" by (subst show_dec.simps) simp
    then show ?thesis using 1 [OF False] False by simp
  qed
qed

lemma fold_int: "fold (\<lambda>c n. n * int b + int (g c)) cs (int a) = int (fold (\<lambda>c n. n * b + g c) cs a)"
  by (induction cs arbitrary: a) (simp_all flip: of_nat_mult of_nat_add)

lemma fold_int_0: "fold (\<lambda>c n. n * int b + int (g c)) cs 0 = int (fold (\<lambda>c n. n * b + g c) cs 0)"
  using fold_int [of b g cs 0] by simp

lemma strtoul_show_dec:
  assumes "n < 2 ^ 64" and "base = 0 \<or> base = 10"
  shows "strtoul base (show_dec n) = (of_nat n, [], False)"
proof -
  obtain c cs where s: "show_dec n = c # cs" by (cases "show_dec n") auto
  have d: "\<forall>x\<in>set (c # cs). isdigit x" using isdigit_show_dec unfolding s [symmetric] by blast
  then have w: "dropWhile isspace (c # cs) = c # cs" "c \<noteq> CHR ''-''" "c \<noteq> CHR ''+''" using isdigit_not_special [of c] by auto
  have x: "\<not> (x = CHR ''x'' \<or> x = CHR ''X'')" if "isdigit x" for x using that by (auto simp: isdigit_iff)
  have hex: "\<not> hex_prefix (c # cs)" using d x by (auto simp: hex_prefix_def split: list.split)
  show ?thesis
  proof (cases "base = 0 \<and> n = 0")
    case True
    moreover have "show_dec 0 = ''0''" by (simp add: show_dec.simps [of 0] digit_char_def char_of_def bit_Suc_0_iff)
    moreover have "strtoul 0 ''0'' = (0, [], False)" by code_simp
    ultimately show ?thesis by simp
  next
    case False
    then have b: "(if base \<noteq> 0 then base else if c # cs \<noteq> [] \<and> hd (c # cs) = CHR ''0'' then 8 else 10) = 10"
      using show_dec_first [of n] s assms(2) by auto
    have t: "takeWhile (digit_of 10) (c # cs) = c # cs" using d by (simp add: digit_of_decimal(1) takeWhile_eq_all_conv)
    have "fold (\<lambda>c n. n * 10 + the (xdigit_value c)) (c # cs) 0 = fold (\<lambda>c n. n * 10 + digit_value c) (c # cs) 0"
      using d by (intro fold_cong) (auto simp: digit_of_decimal(2))
    then have f: "fold (\<lambda>c n. n * int 10 + int (the (xdigit_value c))) (c # cs) 0 = int n"
      using fold_show_dec [of n] unfolding s fold_int_0 by (simp only:)
    have m: "(c # cs \<noteq> [] \<and> hd (c # cs) = CHR ''-'') = False"
      "(c # cs \<noteq> [] \<and> (hd (c # cs) = CHR ''-'' \<or> hd (c # cs) = CHR ''+'')) = False" using w(2,3) by simp_all
    have "\<not> 2 ^ 64 \<le> int n" using assms(1) by simp
    then show ?thesis
      unfolding s strtoul_def w(1) Let_def m if_False if_not_P [OF hex] prod.case b t f using hex
      by (simp add: b t f [simplified] del: takeWhile.simps)
  qed
qed

lemma parse_fld_show [simp]: "parse_fld (show_dec (unat b)) = Some b"
proof -
  have b: "unat b < 256" using unsigned_less [where 'a = nat, of b] by simp
  then have "\<not> 255 < (of_nat (unat b) :: u64)"
    by (simp add: word_less_nat_alt unsigned_ucast_eq take_bit_nat_eq_self)
  moreover have "(of_nat (unat b) :: u64) = ucast b" by simp
  moreover have "ucast (ucast b :: u64) = b" by (rule bit_word_eqI) (simp add: bit_simps)
  ultimately show ?thesis using strtoul_show_dec [of "unat b" 0] b by (simp add: parse_fld_def)
qed

section \<open>The queue option\<close>

definition strsplit_law :: "strsplit \<Rightarrow> bool" where
  "strsplit_law split \<longleftrightarrow> (\<forall>ts n c. ts \<noteq> [] \<and> length ts \<le> n \<and> (\<forall>t\<in>set ts. t \<noteq> [] \<and> c \<notin> set t) \<longrightarrow> split (join_on c ts) n c = ts)"

definition entry_fields :: "lcore_params \<Rightarrow> string list" where
  "entry_fields p = [show_dec (unat (port_id p)), show_dec (unat (queue_id p)), show_dec (unat (lcore_id p))]"

definition show_entry :: "lcore_params \<Rightarrow> string" where
  "show_entry p = ''('' @ join_on CHR '','' (entry_fields p) @ '')''"

text \<open>Every entry follows some text without an opening parenthesis.\<close>

definition show_config :: "(string \<times> lcore_params) list \<Rightarrow> string \<Rightarrow> string" where
  "show_config es gap = concat (map (\<lambda>(g, p). g @ show_entry p) es) @ gap"

lemma parse_config_entry:
  assumes "strsplit_law split" and "CHR ''('' \<notin> set gap"
  shows "parse_config_from split (gap @ show_entry p @ rest) ps =
    (if MAX_LCORE_PARAMS \<le> length ps then None else parse_config_from split (CHR '')'' # rest) (ps @ [p]))"
proof -
  define s where "s = join_on CHR '','' (entry_fields p)"
  have f: "t \<noteq> []" "CHR '','' \<notin> set t" "CHR '')'' \<notin> set t" "length t \<le> 3" if "t \<in> set (entry_fields p)" for t
  proof -
    have "\<exists>b :: u8. t = show_dec (unat b)" using that by (auto simp: entry_fields_def)
    then obtain b :: u8 where t: "t = show_dec (unat b)" ..
    show "t \<noteq> []" "CHR '','' \<notin> set t" "CHR '')'' \<notin> set t" by (simp_all add: t not_in_show_dec isdigit_iff)
    have "unat b < 256" using unsigned_less [where 'a = nat, of b] by simp
    then show "length t \<le> 3"
      unfolding t by (subst show_dec.simps, subst show_dec.simps, subst show_dec.simps) (simp add: div_mult2_eq [symmetric])
  qed
  have sp: "split s 3 CHR '','' = entry_fields p"
  proof -
    have "entry_fields p \<noteq> [] \<and> length (entry_fields p) \<le> 3" by (simp add: entry_fields_def)
    with f(1,2) show ?thesis using assms(1) unfolding strsplit_law_def s_def by blast
  qed
  moreover have "CHR '')'' \<notin> set s" "length s < 256"
  proof -
    show "CHR '')'' \<notin> set s" using f(3) by (simp add: s_def entry_fields_def)
    have "length (show_dec (unat (port_id p))) \<le> 3" "length (show_dec (unat (queue_id p))) \<le> 3"
      "length (show_dec (unat (lcore_id p))) \<le> 3"
      by (rule f(4), simp add: entry_fields_def)+
    then show "length s < 256" by (simp add: s_def entry_fields_def)
  qed
  moreover have "split_at CHR ''('' (gap @ show_entry p @ rest) = Some (gap, s @ CHR '')'' # rest)"
    using assms(2) by (simp add: show_entry_def s_def)
  moreover have "map parse_fld (entry_fields p) = [Some (port_id p), Some (queue_id p), Some (lcore_id p)]"
    "length (entry_fields p) = 3"
    by (simp_all add: entry_fields_def)
  ultimately show ?thesis
    by (subst parse_config_from.simps, cases p) (simp add: Let_def)
qed

lemma parse_config_show:
  assumes "strsplit_law split" and "\<forall>(g, p)\<in>set es. CHR ''('' \<notin> set g" and "CHR ''('' \<notin> set gap" and "CHR ''('' \<notin> set g0"
  shows "parse_config_from split (g0 @ show_config es gap) ps =
    (if es = [] \<or> length ps + length es \<le> MAX_LCORE_PARAMS then Some (ps @ map snd es) else None)"
  using assms(2,4)
proof (induction es arbitrary: g0 ps)
  case Nil
  then have "split_at CHR ''('' (g0 @ gap) = None" using assms(3) by (simp add: split_at_def)
  then show ?case by (simp add: show_config_def parse_config_from.simps)
next
  case (Cons e es)
  obtain g p where e: "e = (g, p)" by fastforce
  have "parse_config_from split (g0 @ show_config (e # es) gap) ps =
      (if MAX_LCORE_PARAMS \<le> length ps then None else parse_config_from split (CHR '')'' # show_config es gap) (ps @ [p]))"
    using parse_config_entry [OF assms(1), of "g0 @ g" p "show_config es gap" ps] Cons.prems
    by (simp add: e show_config_def)
  with Cons.IH [of "'')''" "ps @ [p]"] Cons.prems show ?case by (auto simp: e)
qed

section \<open>The queues of the cores\<close>

lemma init_lcore_rx_queues_eq:
  "init_lcore_rx_queues ps conf =
    (if \<forall>l. length (filter (\<lambda>p. lcore_id p = l) ps) = 0
        \<or> length (conf l) + length (filter (\<lambda>p. lcore_id p = l) ps) \<le> MAX_RX_QUEUE_PER_LCORE
     then Some (\<lambda>l. conf l @ map (\<lambda>p. (port_id p, queue_id p)) (filter (\<lambda>p. lcore_id p = l) ps)) else None)"
proof (induction ps arbitrary: conf)
  case (Cons p ps)
  let ?n = "\<lambda>l. length (filter (\<lambda>p. lcore_id p = l) ps)"
  let ?c = "conf(lcore_id p := conf (lcore_id p) @ [(port_id p, queue_id p)])"
  have step: "init_lcore_rx_queues (p # ps) conf =
      (if MAX_RX_QUEUE_PER_LCORE \<le> length (conf (lcore_id p)) then None else init_lcore_rx_queues ps ?c)"
    by (simp add: init_lcore_rx_queues_def add_rx_queue_def Let_def)
  have "(\<forall>l. ?n l = 0 \<or> length (?c l) + ?n l \<le> MAX_RX_QUEUE_PER_LCORE) \<and> length (conf (lcore_id p)) < MAX_RX_QUEUE_PER_LCORE \<longleftrightarrow>
      (\<forall>l. length (filter (\<lambda>p. lcore_id p = l) (p # ps)) = 0
        \<or> length (conf l) + length (filter (\<lambda>p. lcore_id p = l) (p # ps)) \<le> MAX_RX_QUEUE_PER_LCORE)" (is "?L \<longleftrightarrow> ?R")
  proof
    assume l: ?L
    have "length (filter (\<lambda>p. lcore_id p = l) (p # ps)) = 0
        \<or> length (conf l) + length (filter (\<lambda>p. lcore_id p = l) (p # ps)) \<le> MAX_RX_QUEUE_PER_LCORE" for l
      using l by (cases "l = lcore_id p") (auto dest!: spec [of _ l])
    then show ?R ..
  next
    assume r: ?R
    from r [rule_format, of "lcore_id p"] have "length (conf (lcore_id p)) + Suc (?n (lcore_id p)) \<le> MAX_RX_QUEUE_PER_LCORE" by simp
    moreover from r have "?n l = 0 \<or> length (conf l) + ?n l \<le> MAX_RX_QUEUE_PER_LCORE" if "l \<noteq> lcore_id p" for l
      using that [symmetric] by (auto dest: spec [of _ l])
    ultimately show ?L by auto
  qed
  moreover have "(\<lambda>l. ?c l @ map (\<lambda>p. (port_id p, queue_id p)) (filter (\<lambda>p. lcore_id p = l) ps)) =
      (\<lambda>l. conf l @ map (\<lambda>p. (port_id p, queue_id p)) (filter (\<lambda>p. lcore_id p = l) (p # ps)))"
    by (auto simp: fun_eq_iff)
  moreover have "(if m then None else if a then x else None) = (if a \<and> \<not> m then x else None)" for m a and x :: "rx_conf option"
    by simp
  ultimately show ?case unfolding step Cons.IH not_le [symmetric] by (simp only:)
qed (simp add: init_lcore_rx_queues_def)

section \<open>Queue numbers\<close>

lemma distinct_of_nat_upto:
  assumes "n \<le> 256"
  shows "distinct (map (of_nat :: nat \<Rightarrow> 16 word) [0..<n])"
proof -
  have "inj_on (of_nat :: nat \<Rightarrow> u16) {0..<n}"
  proof (intro inj_onI)
    fix x y assume xy: "x \<in> {0..<n}" "y \<in> {0..<n}" "of_nat x = (of_nat y :: u16)"
    have "unat (of_nat x :: u16) = x" "unat (of_nat y :: u16) = y"
      using xy(1,2) assms by (intro unat_of_nat_eq, simp)+
    then show "x = y" using xy(3) by metis
  qed
  then show ?thesis by (simp add: distinct_map)
qed

section \<open>Ports and their links\<close>

text \<open>A shift of an \<^verbatim>\<open>int\<close> by 32 or more is undefined in C; the target takes the count
  modulo 32.\<close>

definition port_bit :: "u32 \<Rightarrow> nat \<Rightarrow> bool" where
  "port_bit pm portid \<longleftrightarrow> pm AND push_bit (portid mod 32) 1 \<noteq> 0"

definition MAX_CHECK_TIME :: nat where "MAX_CHECK_TIME = 90"

text \<open>One look at the links: whether all enabled ports are up; the first that is down ends it.
  \<open>force_quit\<close> is the flag the signal handler sets, as the loop reads it before a port; then
  the result is \<open>None\<close>.  The gateway has no such flag.\<close>

fun link_sweep :: "(nat \<Rightarrow> bool) \<Rightarrow> (nat \<Rightarrow> bool) \<Rightarrow> u32 \<Rightarrow> nat list \<Rightarrow> bool option" where
  "link_sweep force_quit up port_mask [] = Some True"
| "link_sweep force_quit up port_mask (portid # ps) =
     (if force_quit portid then None
      else if \<not> port_bit port_mask portid then link_sweep force_quit up port_mask ps
      else if \<not> up portid then Some False
      else link_sweep force_quit up port_mask ps)"

text \<open>The last look, which prints the state of every enabled port.\<close>

fun link_print :: "(nat \<Rightarrow> bool) \<Rightarrow> (nat \<Rightarrow> bool) \<Rightarrow> u32 \<Rightarrow> nat list \<Rightarrow> (nat \<times> bool) list" where
  "link_print force_quit up port_mask [] = []"
| "link_print force_quit up port_mask (portid # ps) =
     (if force_quit portid then []
      else if \<not> port_bit port_mask portid then link_print force_quit up port_mask ps
      else (portid, up portid) # link_print force_quit up port_mask ps)"

text \<open>The loop from \<open>cnt\<close> on: the number of waits of 100 ms and what is printed at the end.
  \<open>up cnt portid\<close> is the link state the driver reports.\<close>

function check_links_from :: "(nat \<Rightarrow> bool) \<Rightarrow> (nat \<Rightarrow> nat \<Rightarrow> bool) \<Rightarrow> (nat \<Rightarrow> nat \<Rightarrow> bool) \<Rightarrow> nat \<Rightarrow> u32 \<Rightarrow> bool \<Rightarrow> nat \<Rightarrow>
    nat \<times> (nat \<times> bool) list" where
  "check_links_from stop force_quit up port_num port_mask print_flag cnt =
     (if MAX_CHECK_TIME < cnt \<or> stop cnt then (0, [])
      else if print_flag then (0, link_print (force_quit cnt) (up cnt) port_mask [0..<port_num])
      else (case link_sweep (force_quit cnt) (up cnt) port_mask [0..<port_num] of None \<Rightarrow> (0, [])
      | Some all_ports_up \<Rightarrow>
          let (delays, out) = check_links_from stop force_quit up port_num port_mask
                (all_ports_up \<or> cnt = MAX_CHECK_TIME - 1) (cnt + 1)
          in (if all_ports_up then delays else delays + 1, out)))"
  by pat_completeness auto
termination by (relation "measure (\<lambda>(_, _, _, _, _, _, cnt). MAX_CHECK_TIME + 1 - cnt)") auto

declare check_links_from.simps [simp del]

definition check_all_ports_link_status :: "(nat \<Rightarrow> bool) \<Rightarrow> (nat \<Rightarrow> nat \<Rightarrow> bool) \<Rightarrow> (nat \<Rightarrow> nat \<Rightarrow> bool) \<Rightarrow> u8 \<Rightarrow> u32 \<Rightarrow>
    nat \<times> (nat \<times> bool) list" where
  "check_all_ports_link_status stop force_quit up port_num port_mask =
     check_links_from stop force_quit up (unat port_num) port_mask False 0"

lemma link_sweep_eq:
  "link_sweep (\<lambda>p. False) up port_mask ps = Some (\<forall>p\<in>set ps. port_bit port_mask p \<longrightarrow> up p)"
  by (induction ps) auto

lemma link_print_eq:
  "link_print (\<lambda>p. False) up port_mask ps = map (\<lambda>p. (p, up p)) (filter (port_bit port_mask) ps)"
  by (induction ps) auto

lemma check_links_from_eq:
  fixes ready :: "nat \<Rightarrow> bool"
  assumes "\<And>c. ready c \<longleftrightarrow> (\<forall>p<n. port_bit port_mask p \<longrightarrow> up c p)"
    and "c0 \<le> 90" and "\<forall>c<c0. \<not> ready c" and "c0 < 90 \<longrightarrow> ready c0"
  shows "cnt \<le> c0 \<Longrightarrow> cnt < 90 \<Longrightarrow>
    check_links_from (\<lambda>c. False) (\<lambda>c p. False) up n port_mask False cnt =
      (c0 - cnt, map (\<lambda>p. (p, up (min 90 (c0 + 1)) p)) (filter (port_bit port_mask) [0..<n]))"
proof (induction "90 - cnt" arbitrary: cnt)
  case (Suc k)
  have sweep: "link_sweep (\<lambda>p. False) (up cnt) port_mask [0..<n] = Some (ready cnt)"
    unfolding link_sweep_eq assms(1) by auto
  have last: "check_links_from (\<lambda>c. False) (\<lambda>c p. False) up n port_mask True (cnt + 1) =
      (0, map (\<lambda>p. (p, up (cnt + 1) p)) (filter (port_bit port_mask) [0..<n]))"
    using Suc.prems by (subst check_links_from.simps) (simp add: MAX_CHECK_TIME_def link_print_eq)
  consider "cnt = c0" | "cnt = 89" "c0 = 90" | "cnt < c0" "cnt < 89" using Suc.prems assms(2) by linarith
  then show ?case
  proof cases
    case 1
    then have "ready cnt" using assms(4) Suc.prems by simp
    with sweep 1 have "link_sweep (\<lambda>p. False) (up c0) port_mask [0..<n] = Some True" by simp
    then show ?thesis using last Suc.prems unfolding 1
      by (subst check_links_from.simps) (simp add: MAX_CHECK_TIME_def)
  next
    case 2
    then have "\<not> ready cnt" using assms(3) by simp
    with sweep 2 have "link_sweep (\<lambda>p. False) (up 89) port_mask [0..<n] = Some False" by simp
    then show ?thesis using last unfolding 2 by (subst check_links_from.simps) (simp add: MAX_CHECK_TIME_def)
  next
    case 3
    then have n: "\<not> ready cnt" using assms(3) by simp
    have "check_links_from (\<lambda>c. False) (\<lambda>c p. False) up n port_mask False (cnt + 1) =
      (c0 - (cnt + 1), map (\<lambda>p. (p, up (min 90 (c0 + 1)) p)) (filter (port_bit port_mask) [0..<n]))"
      using Suc.hyps(2) 3 by (intro Suc.hyps(1)) simp_all
    then show ?thesis using 3 n by (subst check_links_from.simps) (simp add: MAX_CHECK_TIME_def sweep)
  qed
qed simp

section \<open>Properties\<close>

text \<open>C24: The queue option is read back: with entries (port, queue, core) written in decimal behind any text
  without an opening parenthesis, \<^verbatim>\<open>parse_config\<close> returns exactly the entries, in
  order, and it refuses more than 1024 of them.\<close>

theorem parse_config_roundtrip:
  assumes "strsplit_law split" and "\<forall>(g, p)\<in>set es. CHR ''('' \<notin> set g" and "CHR ''('' \<notin> set gap"
  shows "parse_config split (show_config es gap) = (if length es \<le> MAX_LCORE_PARAMS then Some (map snd es) else None)"
  using parse_config_show [OF assms, of "[]" "[]"] by (auto simp: parse_config_def)

fun split_on :: "char \<Rightarrow> string \<Rightarrow> string list" where
  "split_on c [] = [[]]"
| "split_on c (x # xs) = (if x = c then [] # split_on c xs else (case split_on c xs of y # ys \<Rightarrow> (x # y) # ys | [] \<Rightarrow> []))"

definition sample_split :: strsplit where
  "sample_split s n c = split_on c s"

lemma split_on_field: "c \<notin> set t \<Longrightarrow> split_on c t = [t]" "c \<notin> set t \<Longrightarrow> split_on c (t @ c # r) = t # split_on c r"
  by (induction t) auto

lemma sample_split_law: "strsplit_law sample_split"
proof -
  have "split_on c (join_on c ts) = ts" if "ts \<noteq> []" "\<forall>t\<in>set ts. c \<notin> set t" for ts c
    using that by (induction ts rule: list_nonempty_induct) (simp_all add: split_on_field join_on_Cons)
  then show ?thesis by (simp add: strsplit_law_def sample_split_def)
qed

theorem parse_config_roundtrip_witness:
  "parse_config sample_split (show_config [([], \<lparr>port_id = 0, queue_id = 1, lcore_id = 12\<rparr>),
       ('', '', \<lparr>port_id = 1, queue_id = 0, lcore_id = 255\<rparr>)] '' '') =
     Some [\<lparr>port_id = 0, queue_id = 1, lcore_id = 12\<rparr>, \<lparr>port_id = 1, queue_id = 0, lcore_id = 255\<rparr>]"
  by (subst parse_config_roundtrip [OF sample_split_law]) (simp_all add: MAX_LCORE_PARAMS_def)

text \<open>C31: The wait for the links ends: it lasts until the first look at which every enabled port is up, at
  most 90 intervals of 100 ms, and then the state of every enabled port is printed once, in
  order, as the next look finds it.\<close>

theorem link_check_ends:
  assumes "c0 \<le> 90" and "\<forall>c<c0. \<exists>p<unat port_num. port_bit port_mask p \<and> \<not> up c p"
    and "c0 < 90 \<longrightarrow> (\<forall>p<unat port_num. port_bit port_mask p \<longrightarrow> up c0 p)"
  shows "check_all_ports_link_status (\<lambda>c. False) (\<lambda>c p. False) up port_num port_mask =
    (c0, map (\<lambda>p. (p, up (min 90 (c0 + 1)) p)) (filter (port_bit port_mask) [0..<unat port_num]))"
proof -
  have "check_links_from (\<lambda>c. False) (\<lambda>c p. False) up (unat port_num) port_mask False 0 =
      (c0 - 0, map (\<lambda>p. (p, up (min 90 (c0 + 1)) p)) (filter (port_bit port_mask) [0..<unat port_num]))"
    by (rule check_links_from_eq [of "\<lambda>c. \<forall>p<unat port_num. port_bit port_mask p \<longrightarrow> up c p"]) (use assms in auto)
  then show ?thesis by (simp add: check_all_ports_link_status_def)
qed

theorem link_check_ends_witness:
  "check_all_ports_link_status (\<lambda>c. False) (\<lambda>c p. False) (\<lambda>c p. p \<noteq> 1 \<or> 2 \<le> c) 3 6 = (2, [(1, True), (2, True)])"
proof -
  have b: "port_bit 6 0 = False" "port_bit 6 1" "port_bit 6 2" by code_simp+
  have "\<exists>p<unat (3 :: u8). port_bit 6 p \<and> \<not> (p \<noteq> 1 \<or> 2 \<le> c)" if "c < (2 :: nat)" for c using b that by (intro exI [of _ 1]) simp
  then have "check_all_ports_link_status (\<lambda>c. False) (\<lambda>c p. False) (\<lambda>c p. p \<noteq> 1 \<or> 2 \<le> c) 3 6 =
      (2, map (\<lambda>p. (p, p \<noteq> 1 \<or> 2 \<le> min 90 (2 + 1 :: nat))) (filter (port_bit 6) [0..<unat (3 :: u8)]))"
    by (intro link_check_ends) auto
  moreover have "filter (port_bit 6) [0..<unat (3 :: u8)] = [1, 2]" by code_simp
  ultimately show ?thesis by simp
qed

end
