(* ===== verification/L3fwd_Main.thy ===== *)
theory L3fwd_Main
  imports Startup L3fwd_Em_Key
begin

text \<open>
  The start of the forwarder (\<^verbatim>\<open>nat_eval/main.c\<close>): the options, the checks of the
  queue configuration, the addresses of the ports, the queues and the memory of every core.
  \<^verbatim>\<open>getopt_long\<close> delivers a list of options; what the boards, the drivers and DPDK answer
  is the record \<open>board\<close>.  An error return that ends the program, and a call of
  \<^verbatim>\<open>rte_exit\<close>, are \<open>None\<close>.
\<close>

section \<open>State\<close>

definition MAX_RX_QUEUE_PER_PORT :: nat where "MAX_RX_QUEUE_PER_PORT = 128"
definition MAX_TX_QUEUE_PER_PORT :: nat where "MAX_TX_QUEUE_PER_PORT = RTE_MAX_ETHPORTS"
definition MAX_JUMBO_PKT_LEN :: int where "MAX_JUMBO_PKT_LEN = 9600"
definition NB_SOCKETS :: nat where "NB_SOCKETS = 8"

record main_state = port_conf +
  promiscuous_on :: int
  l3fwd_lpm_on :: int
  l3fwd_em_on :: int
  numa_on :: int
  parse_ptype :: int
  ipv6 :: int
  hash_entry_number :: u32
  jumbo_frame :: int
  max_rx_pkt_len :: u32
  lcore_params :: "lcore_params list"

definition lcore_params_array_default :: "lcore_params list" where
  "lcore_params_array_default = map (\<lambda>(p, q, l). \<lparr>port_id = p, queue_id = q, lcore_id = l\<rparr>)
     [(0, 0, 2), (0, 1, 2), (0, 2, 2), (1, 0, 2), (1, 1, 2), (1, 2, 2), (2, 0, 2), (3, 0, 3), (3, 1, 3)]"

text \<open>The static values; \<open>ether_max_len\<close> is the constant of DPDK.\<close>

definition static_state :: "u32 \<Rightarrow> main_state" where
  "static_state ether_max_len = \<lparr>enabled_port_mask = 0, dest_eth_addr = (\<lambda>p. 0), ports_eth_addr = (\<lambda>p. replicate 6 0),
     val_eth = (\<lambda>p. replicate 16 0), promiscuous_on = 0, l3fwd_lpm_on = 0, l3fwd_em_on = 0, numa_on = 1, parse_ptype = 0,
     ipv6 = 0, hash_entry_number = HASH_ENTRY_NUMBER_DEFAULT, jumbo_frame = 0, max_rx_pkt_len = ether_max_len,
     lcore_params = lcore_params_array_default\<rparr>"

definition set_dest :: "nat \<Rightarrow> u64 \<Rightarrow> main_state \<Rightarrow> main_state" where
  "set_dest portid d s = s\<lparr>dest_eth_addr := (dest_eth_addr s)(portid := d),
     val_eth := (val_eth s)(of_nat portid := store (val_eth s (of_nat portid)) 0 (le_bytes 8 d))\<rparr>"

definition init_dests :: "u64 \<Rightarrow> main_state \<Rightarrow> main_state" where
  "init_dests ether_local_admin_addr s =
     fold (\<lambda>portid. set_dest portid (ether_local_admin_addr + push_bit 40 (of_nat portid))) [0..<RTE_MAX_ETHPORTS] s"

section \<open>Options\<close>

text \<open>The results are \<^verbatim>\<open>int\<close>: the low half of the number, or \<open>- 1\<close>.\<close>

definition parse_max_pkt_len :: "string \<Rightarrow> u32" where
  "parse_max_pkt_len pktlen =
     (let (len, end, err) = strtoul 10 pktlen
      in if pktlen = [] \<or> end \<noteq> [] then - 1 else if len = 0 then - 1 else ucast len)"

definition parse_portmask :: "string \<Rightarrow> u32" where
  "parse_portmask portmask =
     (let (pm, end, err) = strtoul 16 portmask
      in if portmask = [] \<or> end \<noteq> [] then - 1 else if pm = 0 then - 1 else ucast pm)"

definition parse_hash_entry_number :: "string \<Rightarrow> u32" where
  "parse_hash_entry_number hash_entry_num =
     (let (hash_en, end, err) = strtoul 16 hash_entry_num
      in if hash_entry_num = [] \<or> end \<noteq> [] then - 1 else if hash_en = 0 then - 1 else ucast hash_en)"

text \<open>\<open>etheraddr\<close> is \<^verbatim>\<open>cmdline_parse_etheraddr\<close>.\<close>

definition parse_eth_dest :: "(string \<Rightarrow> bytes option) \<Rightarrow> string \<Rightarrow> main_state \<Rightarrow> main_state option" where
  "parse_eth_dest etheraddr optarg s =
     (let (v, port_end, err) = strtoul 10 optarg; portid = unat (ucast v :: u8)
      in if err \<or> length port_end = length optarg \<or> port_end = [] \<or> hd port_end \<noteq> CHR '','' then None
         else if RTE_MAX_ETHPORTS \<le> portid then None
         else (case etheraddr (tl port_end) of None \<Rightarrow> None
            | Some peer_addr \<Rightarrow>
                Some (set_dest portid (le_word (store (le_bytes 8 (dest_eth_addr s portid)) 0 (take 6 peer_addr))) s)))"

text \<open>The options \<^verbatim>\<open>getopt_long\<close> finds.  With \<open>Opt_enable_jumbo\<close> comes the argument of
  \<^verbatim>\<open>max-pkt-len\<close> if the second call of \<^verbatim>\<open>getopt_long\<close> finds it.\<close>

datatype main_opt = Opt_p string | Opt_P | Opt_E | Opt_L | Opt_config string | Opt_eth_dest string | Opt_no_numa
  | Opt_ipv6 | Opt_enable_jumbo "string option" | Opt_hash_entry_num string | Opt_parse_ptype | Opt_other

fun parse_opt :: "strsplit \<Rightarrow> (string \<Rightarrow> bytes option) \<Rightarrow> main_opt \<Rightarrow> main_state \<Rightarrow> main_state option" where
  "parse_opt split etheraddr (Opt_p optarg) s =
     (let pm = parse_portmask optarg in if pm = 0 then None else Some (s\<lparr>enabled_port_mask := pm\<rparr>))"
| "parse_opt split etheraddr Opt_P s = Some (s\<lparr>promiscuous_on := 1\<rparr>)"
| "parse_opt split etheraddr Opt_E s = Some (s\<lparr>l3fwd_em_on := 1\<rparr>)"
| "parse_opt split etheraddr Opt_L s = Some (s\<lparr>l3fwd_lpm_on := 1\<rparr>)"
| "parse_opt split etheraddr (Opt_config optarg) s =
     map_option (\<lambda>ps. s\<lparr>lcore_params := ps\<rparr>) (parse_config split optarg)"
| "parse_opt split etheraddr (Opt_eth_dest optarg) s = parse_eth_dest etheraddr optarg s"
| "parse_opt split etheraddr Opt_no_numa s = Some (s\<lparr>numa_on := 0\<rparr>)"
| "parse_opt split etheraddr Opt_ipv6 s = Some (s\<lparr>ipv6 := 1\<rparr>)"
| "parse_opt split etheraddr (Opt_enable_jumbo arg) s =
     (let s = s\<lparr>jumbo_frame := 1\<rparr>
      in case arg of None \<Rightarrow> Some s
         | Some optarg \<Rightarrow>
             let ret = parse_max_pkt_len optarg
             in if sint ret < 64 \<or> MAX_JUMBO_PKT_LEN < sint ret then None else Some (s\<lparr>max_rx_pkt_len := ret\<rparr>))"
| "parse_opt split etheraddr (Opt_hash_entry_num optarg) s =
     (let ret = parse_hash_entry_number optarg
      in if 0 < sint ret \<and> sint ret \<le> int L3FWD_HASH_ENTRIES then Some (s\<lparr>hash_entry_number := ret\<rparr>) else None)"
| "parse_opt split etheraddr Opt_parse_ptype s = Some (s\<lparr>parse_ptype := 1\<rparr>)"
| "parse_opt split etheraddr Opt_other s = None"

definition parse_args :: "strsplit \<Rightarrow> (string \<Rightarrow> bytes option) \<Rightarrow> main_opt list \<Rightarrow> main_state \<Rightarrow> main_state option" where
  "parse_args split etheraddr opts s =
     (case fold_option (parse_opt split etheraddr) opts s of None \<Rightarrow> None
      | Some s \<Rightarrow>
          if l3fwd_lpm_on s \<noteq> 0 \<and> l3fwd_em_on s \<noteq> 0 then None
          else let s = (if l3fwd_lpm_on s = 0 \<and> l3fwd_em_on s = 0 then s\<lparr>l3fwd_lpm_on := 0\<rparr> else s)
               in Some (if l3fwd_lpm_on s \<noteq> 0 then s\<lparr>ipv6 := 0, hash_entry_number := HASH_ENTRY_NUMBER_DEFAULT\<rparr> else s))"

datatype lkp_mode = L3fwd_Em_Lkp | L3fwd_Lpm_Lkp

definition setup_l3fwd_lookup_tables :: "main_state \<Rightarrow> lkp_mode" where
  "setup_l3fwd_lookup_tables s = (if l3fwd_em_on s \<noteq> 0 then L3fwd_Em_Lkp else L3fwd_Lpm_Lkp)"

section \<open>Checks\<close>

text \<open>True is the result 0.\<close>

definition check_lcore_params :: "(nat \<Rightarrow> bool) \<Rightarrow> lcore_params list \<Rightarrow> bool" where
  "check_lcore_params lcore_is_enabled ps \<longleftrightarrow>
     list_all (\<lambda>p. unat (queue_id p) < MAX_RX_QUEUE_PER_PORT \<and> lcore_is_enabled (unat (lcore_id p))) ps"

definition check_port_config :: "u32 \<Rightarrow> nat \<Rightarrow> lcore_params list \<Rightarrow> bool" where
  "check_port_config pm nb_ports ps \<longleftrightarrow>
     list_all (\<lambda>p. let portid = unat (port_id p) in port_bit pm portid \<and> portid < nb_ports) ps"

definition count_rx_queue :: "u8 \<Rightarrow> lcore_params \<Rightarrow> int \<Rightarrow> int option" where
  "count_rx_queue port p queue =
     (if port_id p = port then if uint (queue_id p) = queue + 1 then Some (uint (queue_id p)) else None else Some queue)"

definition get_port_n_rx_queues :: "lcore_params list \<Rightarrow> u8 \<Rightarrow> u8 option" where
  "get_port_n_rx_queues ps port =
     map_option (\<lambda>queue. of_int (queue + 1)) (fold_option (count_rx_queue port) ps (- 1))"

section \<open>Queues and memory\<close>

record lcore_tx =
  tx_queue_id :: "nat \<Rightarrow> u16"
  tx_port_id :: "u16 list"

text \<open>Per socket, whether the pool of packets exists; the sockets \<^verbatim>\<open>l3fwd_lkp.setup\<close> was
  called for; and the socket whose tables a core uses.\<close>

record mem_state =
  pktmbuf_pool :: "nat \<Rightarrow> bool"
  setup_calls :: "nat list"
  lookup_socket :: "nat \<Rightarrow> nat"

record board =
  nb_ports :: nat
  enabled_lcores :: "nat list"
  socket_of :: "nat \<Rightarrow> nat"
  macaddr :: "nat \<Rightarrow> bytes"
  dev_configure :: "nat \<Rightarrow> u8 \<Rightarrow> nat \<Rightarrow> bool"
  pool_create :: "nat \<Rightarrow> bool"
  tx_queue_setup :: "nat \<Rightarrow> u16 \<Rightarrow> bool"
  rx_queue_setup :: "u8 \<Rightarrow> u8 \<Rightarrow> bool"
  dev_start :: "nat \<Rightarrow> bool"
  add_rx_callback :: "u8 \<Rightarrow> u8 \<Rightarrow> bool"
  check_ptype :: "lkp_mode \<Rightarrow> u8 \<Rightarrow> bool"

text \<open>What DPDK says of a board: the enabled cores are listed in order and without repetition, an
  address has six bytes, and there are at most \<^verbatim>\<open>RTE_MAX_ETHPORTS\<close> ports.\<close>

definition board_ok :: "board \<Rightarrow> bool" where
  "board_ok b \<longleftrightarrow> sorted (enabled_lcores b) \<and> distinct (enabled_lcores b) \<and> (\<forall>l\<in>set (enabled_lcores b). l < 256)
     \<and> (\<forall>p. length (macaddr b p) = 6) \<and> nb_ports b \<le> RTE_MAX_ETHPORTS"

definition lcore_socket :: "board \<Rightarrow> int \<Rightarrow> nat \<Rightarrow> nat" where
  "lcore_socket b numa lcore = (if numa \<noteq> 0 then socket_of b lcore else 0)"

definition init_mem_lcore :: "board \<Rightarrow> int \<Rightarrow> nat \<Rightarrow> mem_state \<Rightarrow> mem_state option" where
  "init_mem_lcore b numa lcore m =
     (let socketid = lcore_socket b numa lcore
      in if NB_SOCKETS \<le> socketid then None
         else if pktmbuf_pool m socketid then Some (m\<lparr>lookup_socket := (lookup_socket m)(lcore := socketid)\<rparr>)
         else if \<not> pool_create b socketid then None
         else Some (m\<lparr>pktmbuf_pool := (pktmbuf_pool m)(socketid := True), setup_calls := setup_calls m @ [socketid],
                lookup_socket := (lookup_socket m)(lcore := socketid)\<rparr>))"

definition init_mem :: "board \<Rightarrow> int \<Rightarrow> mem_state \<Rightarrow> mem_state option" where
  "init_mem b numa m = fold_option (init_mem_lcore b numa) (enabled_lcores b) m"

definition init_tx_queue :: "board \<Rightarrow> nat \<Rightarrow> nat \<Rightarrow> u16 \<times> (nat \<Rightarrow> lcore_tx) \<Rightarrow> (u16 \<times> (nat \<Rightarrow> lcore_tx)) option" where
  "init_tx_queue b portid lcore = (\<lambda>(queueid, conf).
     if \<not> tx_queue_setup b portid queueid then None
     else let q = conf lcore
          in Some (queueid + 1, conf(lcore := \<lparr>tx_queue_id = (tx_queue_id q)(portid := queueid),
               tx_port_id = tx_port_id q @ [of_nat portid]\<rparr>)))"

record fwd_init =
  i_main :: main_state
  i_rx :: rx_conf
  i_tx :: "nat \<Rightarrow> lcore_tx"
  i_mem :: mem_state

definition set_src :: "nat \<Rightarrow> bytes \<Rightarrow> main_state \<Rightarrow> main_state" where
  "set_src portid a s = s\<lparr>ports_eth_addr := (ports_eth_addr s)(portid := a),
     val_eth := (val_eth s)(of_nat portid := store (val_eth s (of_nat portid)) 6 a)\<rparr>"

definition init_port :: "board \<Rightarrow> nat \<Rightarrow> fwd_init \<Rightarrow> fwd_init option" where
  "init_port b portid i =
     (let s = i_main i
      in if \<not> port_bit (enabled_port_mask s) portid then Some i
         else (case get_port_n_rx_queues (lcore_params s) (of_nat portid) of None \<Rightarrow> None
         | Some nb_rx_queue \<Rightarrow>
             let n_tx_queue = min (length (enabled_lcores b)) MAX_TX_QUEUE_PER_PORT
             in if \<not> dev_configure b portid nb_rx_queue n_tx_queue then None
                else (case init_mem b (numa_on s) (i_mem i) of None \<Rightarrow> None
                | Some mem \<Rightarrow>
                   (case fold_option (init_tx_queue b portid) (enabled_lcores b) (0, i_tx i) of None \<Rightarrow> None
                    | Some (queueid, tx) \<Rightarrow>
                        Some (i\<lparr>i_main := set_src portid (macaddr b portid) s, i_mem := mem, i_tx := tx\<rparr>)))))"

definition prepare_ptype_parser :: "board \<Rightarrow> main_state \<Rightarrow> u8 \<Rightarrow> u8 \<Rightarrow> bool" where
  "prepare_ptype_parser b s portid queueid =
     (if parse_ptype s \<noteq> 0 then add_rx_callback b portid queueid
      else check_ptype b (setup_l3fwd_lookup_tables s) portid)"

text \<open>\<^verbatim>\<open>main\<close> up to the launch of the loops.\<close>

definition l3fwd_start :: "board \<Rightarrow> u32 \<Rightarrow> u64 \<Rightarrow> strsplit \<Rightarrow> (string \<Rightarrow> bytes option) \<Rightarrow> main_opt list \<Rightarrow> fwd_init option" where
  "l3fwd_start b ether_max_len ether_local_admin_addr split etheraddr opts =
     (case parse_args split etheraddr opts (init_dests ether_local_admin_addr (static_state ether_max_len)) of None \<Rightarrow> None
      | Some s \<Rightarrow>
        if \<not> check_lcore_params (\<lambda>l. l \<in> set (enabled_lcores b)) (lcore_params s) then None
        else (case init_lcore_rx_queues (lcore_params s) (\<lambda>l. []) of None \<Rightarrow> None
        | Some rx \<Rightarrow>
          if \<not> check_port_config (enabled_port_mask s) (nb_ports b) (lcore_params s) then None
          else (case fold_option (init_port b) [0..<nb_ports b]
              \<lparr>i_main = s, i_rx = rx, i_tx = (\<lambda>l. \<lparr>tx_queue_id = (\<lambda>p. 0), tx_port_id = []\<rparr>),
               i_mem = \<lparr>pktmbuf_pool = (\<lambda>k. False), setup_calls = [], lookup_socket = (\<lambda>l. 0)\<rparr>\<rparr> of None \<Rightarrow> None
          | Some i \<Rightarrow>
            let queues = concat (map (\<lambda>l. rx (of_nat l)) (enabled_lcores b))
            in if \<not> list_all (\<lambda>(p, q). rx_queue_setup b p q) queues then None
               else if \<not> list_all (\<lambda>p. port_bit (enabled_port_mask s) p \<longrightarrow> dev_start b p) [0..<nb_ports b] then None
               else if \<not> list_all (\<lambda>(p, q). prepare_ptype_parser b s p q) queues then None
               else Some i)))"

section \<open>Options\<close>

lemma fold_option_Cons_Some:
  "fold_option f (x # xs) s = Some s' \<Longrightarrow> (\<And>s1. f x s = Some s1 \<Longrightarrow> fold_option f xs s1 = Some s' \<Longrightarrow> thesis) \<Longrightarrow> thesis"
  by (auto split: option.splits)

text \<open>What an option leaves alone.\<close>

lemma set_dest_fields [simp]:
  "l3fwd_em_on (set_dest p d s) = l3fwd_em_on s" "l3fwd_lpm_on (set_dest p d s) = l3fwd_lpm_on s"
  "hash_entry_number (set_dest p d s) = hash_entry_number s" "max_rx_pkt_len (set_dest p d s) = max_rx_pkt_len s"
  "enabled_port_mask (set_dest p d s) = enabled_port_mask s"
  by (simp_all add: set_dest_def)

lemma init_dests_fields:
  "l3fwd_em_on (init_dests a s) = l3fwd_em_on s" "l3fwd_lpm_on (init_dests a s) = l3fwd_lpm_on s"
  "hash_entry_number (init_dests a s) = hash_entry_number s" "max_rx_pkt_len (init_dests a s) = max_rx_pkt_len s"
proof -
  have "l3fwd_em_on (fold (\<lambda>p. set_dest p (f p)) ps s) = l3fwd_em_on s \<and> l3fwd_lpm_on (fold (\<lambda>p. set_dest p (f p)) ps s) = l3fwd_lpm_on s
    \<and> hash_entry_number (fold (\<lambda>p. set_dest p (f p)) ps s) = hash_entry_number s
    \<and> max_rx_pkt_len (fold (\<lambda>p. set_dest p (f p)) ps s) = max_rx_pkt_len s" for f ps
    by (induction ps arbitrary: s) simp_all
  then show "l3fwd_em_on (init_dests a s) = l3fwd_em_on s" "l3fwd_lpm_on (init_dests a s) = l3fwd_lpm_on s"
    "hash_entry_number (init_dests a s) = hash_entry_number s" "max_rx_pkt_len (init_dests a s) = max_rx_pkt_len s"
    by (simp_all add: init_dests_def)
qed

lemma parse_eth_dest_cases:
  assumes "parse_eth_dest etheraddr optarg s = Some s'"
  obtains portid peer_addr t where "portid < RTE_MAX_ETHPORTS" "etheraddr t = Some peer_addr"
    "s' = set_dest portid (le_word (store (le_bytes 8 (dest_eth_addr s portid)) 0 (take 6 peer_addr))) s"
proof -
  obtain v pe err where v: "strtoul 10 optarg = (v, pe, err)" by (rule prod_cases3)
  with assms obtain peer_addr where "\<not> RTE_MAX_ETHPORTS \<le> unat (ucast v :: u8)" "etheraddr (tl pe) = Some peer_addr"
    "s' = set_dest (unat (ucast v :: u8)) (le_word (store (le_bytes 8 (dest_eth_addr s (unat (ucast v :: u8)))) 0 (take 6 peer_addr))) s"
    by (auto simp: parse_eth_dest_def Let_def split: if_splits option.splits)
  with that [of "unat (ucast v :: u8)" "tl pe" peer_addr] show ?thesis by simp
qed

lemma parse_opt_modes:
  assumes "parse_opt split etheraddr x s = Some s'"
  shows "l3fwd_em_on s' = (if x = Opt_E then 1 else l3fwd_em_on s)" and "l3fwd_lpm_on s' = (if x = Opt_L then 1 else l3fwd_lpm_on s)"
  using assms by (cases x; auto simp: Let_def split: if_splits option.splits elim: parse_eth_dest_cases)+

lemma parse_opts_modes:
  "fold_option (parse_opt split etheraddr) opts s = Some s' \<Longrightarrow>
   l3fwd_em_on s' = (if Opt_E \<in> set opts then 1 else l3fwd_em_on s) \<and> l3fwd_lpm_on s' = (if Opt_L \<in> set opts then 1 else l3fwd_lpm_on s)"
proof (induction opts arbitrary: s)
  case (Cons x opts)
  from Cons.prems obtain s1 where "parse_opt split etheraddr x s = Some s1" "fold_option (parse_opt split etheraddr) opts s1 = Some s'"
    by (rule fold_option_Cons_Some)
  with Cons.IH [OF this(2)] parse_opt_modes [OF this(1)] show ?case by auto
qed simp

definition opts_ok :: "u32 \<Rightarrow> main_state \<Rightarrow> bool" where
  "opts_ok ether_max_len s \<longleftrightarrow> 1 \<le> unat (hash_entry_number s) \<and> unat (hash_entry_number s) \<le> 1024
     \<and> (max_rx_pkt_len s = ether_max_len \<or> 64 \<le> unat (max_rx_pkt_len s) \<and> unat (max_rx_pkt_len s) \<le> 9600)"

lemma unat_sint:
  fixes w :: u32
  assumes "0 \<le> sint w"
  shows "unat w = nat (sint w)"
proof -
  have "uint w = sint w" using assms uint_sint [of w] sint_lt [of w] by (simp add: take_bit_int_eq_self)
  then show ?thesis by (simp only: unat_eq_nat_uint)
qed

lemma parse_opt_bounds:
  assumes "parse_opt split etheraddr x s = Some s'" and "opts_ok n s"
  shows "opts_ok n s'"
proof (cases x)
  case (Opt_enable_jumbo arg)
  show ?thesis
  proof (cases arg)
    case (Some optarg)
    let ?r = "parse_max_pkt_len optarg"
    have r: "\<not> sint ?r < 64" "\<not> 9600 < sint ?r" "s' = s\<lparr>jumbo_frame := 1, max_rx_pkt_len := ?r\<rparr>"
      using assms(1) by (simp_all add: Opt_enable_jumbo Some Let_def MAX_JUMBO_PKT_LEN_def split: if_splits)
    then have "unat ?r = nat (sint ?r)" by (intro unat_sint) simp
    then have "64 \<le> unat ?r" "unat ?r \<le> 9600" using r(1,2) by linarith+
    then show ?thesis using r(3) assms(2) by (simp add: opts_ok_def)
  qed (use assms in \<open>auto simp: Opt_enable_jumbo opts_ok_def\<close>)
next
  case (Opt_hash_entry_num optarg)
  let ?r = "parse_hash_entry_number optarg"
  have r: "0 < sint ?r" "sint ?r \<le> 1024" "s' = s\<lparr>hash_entry_number := ?r\<rparr>"
    using assms(1) by (simp_all add: Opt_hash_entry_num Let_def L3FWD_HASH_ENTRIES_def split: if_splits)
  then have "unat ?r = nat (sint ?r)" by (intro unat_sint) simp
  then have "1 \<le> unat ?r" "unat ?r \<le> 1024" using r(1,2) by linarith+
  then show ?thesis using r(3) assms(2) by (simp add: opts_ok_def)
qed (use assms in \<open>auto simp: opts_ok_def Let_def split: if_splits elim: parse_eth_dest_cases\<close>)

section \<open>Addresses\<close>

text \<open>Before the ports have their own addresses: a destination takes six bytes of its register.\<close>

definition dests_ok :: "main_state \<Rightarrow> bool" where
  "dests_ok s \<longleftrightarrow> ports_eth_addr s = (\<lambda>p. replicate 6 0)
     \<and> (\<forall>d. length (val_eth s d) = 16 \<and> dest_eth_addr s (unat d) < 2 ^ 48
         \<and> take 12 (val_eth s d) = take 6 (le_bytes 8 (dest_eth_addr s (unat d))) @ replicate 6 0)"

lemma static_dests_ok: "dests_ok (static_state n)"
  by (simp add: dests_ok_def static_state_def le_bytes_def replicate_add [symmetric] map_replicate_const)

lemma less_48: "(d :: u64) < 2 ^ 48 \<longleftrightarrow> (\<forall>n. bit d n \<longrightarrow> n < 48)"
proof -
  have "unat (2 ^ 48 :: u64) = 2 ^ 48" by simp
  then have "d < 2 ^ 48 \<longleftrightarrow> take_bit 48 d = d" by (simp only: word_less_nat_alt less_two_power_iff_take_bit)
  also have "\<dots> \<longleftrightarrow> (\<forall>n. bit d n \<longrightarrow> n < 48)"
  proof
    show "take_bit 48 d = d" if "\<forall>n. bit d n \<longrightarrow> n < 48"
      using that by (intro bit_word_eqI) (auto simp: bit_take_bit_iff)
  qed (metis bit_take_bit_iff)
  finally show ?thesis .
qed

lemma le_bytes_48:
  assumes "d < 2 ^ 48"
  shows "le_bytes 8 (d :: u64) = take 6 (le_bytes 8 d) @ replicate 2 0"
proof (rule nth_equalityI)
  fix i assume i: "i < length (le_bytes 8 d)"
  have "ucast (drop_bit (8 * i) d) = (0 :: u8)" if "6 \<le> i"
  proof (rule bit_word_eqI)
    fix n
    have "\<not> 8 * i + n < 48" using that by simp
    then have "\<not> bit d (8 * i + n)" using assms unfolding less_48 by blast
    then show "bit (ucast (drop_bit (8 * i) d) :: u8) n = bit 0 n" by (simp add: bit_simps)
  qed
  with i show "le_bytes 8 d ! i = (take 6 (le_bytes 8 d) @ replicate 2 0) ! i"
    by (auto simp: nth_append nth_le_bytes)
qed simp

lemma set_dest_ok:
  assumes "dests_ok s" and "portid < 2 ^ 16" and "d < 2 ^ 48"
  shows "dests_ok (set_dest portid d s)"
proof -
  have p: "unat (of_nat portid :: u16) = portid" using assms(2) by (simp add: unat_of_nat_eq)
  then have u: "unat e = portid \<longleftrightarrow> e = of_nat portid" for e :: u16 by (metis word_unat_eq_iff)
  let ?v = "val_eth s (of_nat portid)"
  have v: "length ?v = 16" "take 12 ?v = take 6 (le_bytes 8 (dest_eth_addr s portid)) @ replicate 6 0"
    using assms(1) p unfolding dests_ok_def by metis+
  have "take 12 (store ?v 0 (le_bytes 8 d)) = le_bytes 8 d @ take 4 (drop 8 ?v)"
    using v(1) by (intro nth_equalityI) (auto simp: nth_store nth_append)
  moreover have "take 4 (drop 8 ?v) = replicate 4 0"
  proof -
    have "take 4 (drop 8 ?v) = drop 8 (take 12 ?v)" by (simp add: drop_take)
    then show ?thesis unfolding v(2) by simp
  qed
  ultimately have "take 12 (store ?v 0 (le_bytes 8 d)) = take 6 (le_bytes 8 d) @ replicate 6 0"
    by (subst (asm) le_bytes_48 [OF assms(3)]) (simp add: replicate_add [symmetric])
  then show ?thesis using assms(1,3) v(1) by (simp add: dests_ok_def set_dest_def u)
qed

lemma init_dests_ok:
  assumes "dests_ok s" and "a < 2 ^ 40"
  shows "dests_ok (init_dests a s)"
proof -
  have "a + push_bit 40 (of_nat p) < 2 ^ 48" if "p < RTE_MAX_ETHPORTS" for p
  proof -
    have p: "p < 32" using that by (simp add: RTE_MAX_ETHPORTS_def)
    have "push_bit 40 (of_nat p) = (of_nat (p * 2 ^ 40) :: u64)" by (simp add: push_bit_eq_mult)
    moreover have "unat (of_nat (p * 2 ^ 40) :: u64) = p * 2 ^ 40" using p by (intro unat_of_nat_eq) simp
    ultimately have "unat (push_bit 40 (of_nat p) :: u64) = p * 2 ^ 40" by metis
    moreover have "unat a < 2 ^ 40" using assms(2) by (simp add: word_less_nat_alt)
    ultimately show ?thesis using p by (simp add: word_less_nat_alt unat_word_ariths)
  qed
  then have "dests_ok (fold (\<lambda>p. set_dest p (a + push_bit 40 (of_nat p))) ps s)" if "set ps \<subseteq> {..<RTE_MAX_ETHPORTS}" for ps
    using that assms(1) by (induction ps arbitrary: s) (auto simp: set_dest_ok RTE_MAX_ETHPORTS_def)
  from this [of "[0..<RTE_MAX_ETHPORTS]"] show ?thesis by (simp add: init_dests_def lessThan_atLeast0)
qed

lemma parse_opt_dests:
  assumes "parse_opt split etheraddr x s = Some s'" and "dests_ok s" and "\<forall>t a. etheraddr t = Some a \<longrightarrow> length a = 6"
  shows "dests_ok s'"
proof (cases x)
  case (Opt_eth_dest optarg)
  with assms(1) have "parse_eth_dest etheraddr optarg s = Some s'" by simp
  then obtain portid peer_addr t where p: "portid < RTE_MAX_ETHPORTS" "etheraddr t = Some peer_addr"
    and s': "s' = set_dest portid (le_word (store (le_bytes 8 (dest_eth_addr s portid)) 0 (take 6 peer_addr))) s"
    by (rule parse_eth_dest_cases)
  let ?b = "store (le_bytes 8 (dest_eth_addr s portid)) 0 (take 6 peer_addr)"
  have pu: "unat (of_nat portid :: u16) = portid" using p(1) by (simp add: unat_of_nat_eq RTE_MAX_ETHPORTS_def)
  have len: "length (take 6 peer_addr) = 6" using assms(3) p(2) by simp
  have "dest_eth_addr s portid < 2 ^ 48" using assms(2) pu unfolding dests_ok_def by metis
  from arg_cong [OF le_bytes_48 [OF this], of "drop 6"]
  have "drop 6 (le_bytes 8 (dest_eth_addr s portid)) = replicate 2 0" by simp
  then have b: "?b = take 6 peer_addr @ replicate 2 0"
    using len by (simp add: store_def)
  have "le_word ?b < (2 ^ 48 :: u64)"
  proof -
    have "bit (le_word ?b :: u64) n \<Longrightarrow> n < 48" for n
    proof -
      assume n: "bit (le_word ?b :: u64) n"
      then have "n div 8 < length ?b" "bit (?b ! (n div 8)) (n mod 8)" by (auto simp: bit_le_word)
      then show "n < 48" using len unfolding b by (cases "n div 8 < 6") (auto simp: nth_append nth_Cons' split: if_splits)
    qed
    then show ?thesis unfolding less_48 by blast
  qed
  then show ?thesis unfolding s' using assms(2) p(1) by (intro set_dest_ok) (simp_all add: RTE_MAX_ETHPORTS_def)
qed (use assms in \<open>auto simp: dests_ok_def Let_def split: if_splits option.splits\<close>)

lemma dests_macs: "dests_ok s \<Longrightarrow> macs_ok s \<and> (\<forall>d. length (val_eth s d) = 16)"
  by (simp add: dests_ok_def macs_ok_def)

lemma set_src_macs:
  assumes "macs_ok s \<and> (\<forall>d. length (val_eth s d) = 16)" and "length a = 6" and "portid < 2 ^ 16"
  shows "macs_ok (set_src portid a s) \<and> (\<forall>d. length (val_eth (set_src portid a s) d) = 16)"
proof -
  have p: "unat (of_nat portid :: u16) = portid" using assms(3) by (simp add: unat_of_nat_eq)
  then have u: "unat e = portid \<longleftrightarrow> e = of_nat portid" for e :: u16 by (metis word_unat_eq_iff)
  let ?v = "val_eth s (of_nat portid)"
  have v: "length ?v = 16" "take 12 ?v = take 6 (le_bytes 8 (dest_eth_addr s portid)) @ ports_eth_addr s portid"
    using assms(1) p unfolding macs_ok_def by metis+
  have "take 12 (store ?v 6 a) = take 6 (take 12 ?v) @ a"
    using v(1) assms(2) by (intro nth_equalityI) (auto simp: nth_store nth_append)
  also have "\<dots> = take 6 (le_bytes 8 (dest_eth_addr s portid)) @ a" unfolding v(2) by simp
  finally show ?thesis using assms(1,2) v(1) by (auto simp: macs_ok_def set_src_def u p)
qed

section \<open>Receive queues\<close>

lemma count_rx_queues:
  "fold_option (count_rx_queue port) ps k =
     (let qs = map (\<lambda>p. uint (queue_id p)) (filter (\<lambda>p. port_id p = port) ps)
      in if qs = [k + 1..k + int (length qs)] then Some (k + int (length qs)) else None)"
proof (induction ps arbitrary: k)
  case (Cons p ps)
  let ?qs = "map (\<lambda>p. uint (queue_id p)) (filter (\<lambda>p. port_id p = port) ps)"
  show ?case
  proof (cases "port_id p = port")
    case True
    have "(uint (queue_id p) # ?qs = [k + 1..k + int (Suc (length ?qs))]) \<longleftrightarrow>
        uint (queue_id p) = k + 1 \<and> ?qs = [k + 1 + 1..k + 1 + int (length ?qs)]"
      by (subst upto_rec1) (auto simp: algebra_simps)
    then show ?thesis using True Cons.IH [of "k + 1"] by (auto simp: count_rx_queue_def Let_def algebra_simps)
  next
    case False
    then show ?thesis using Cons.IH [of k] by (simp add: count_rx_queue_def)
  qed
qed simp

lemma get_port_n_rx_queues_eq:
  assumes "\<forall>p\<in>set ps. unat (queue_id p) < 128" and "get_port_n_rx_queues ps port = Some n"
  shows "map (\<lambda>p. uint (queue_id p)) (filter (\<lambda>p. port_id p = port) ps) = [0..uint n - 1]"
proof -
  let ?qs = "map (\<lambda>p. uint (queue_id p)) (filter (\<lambda>p. port_id p = port) ps)"
  have q: "?qs = [0..int (length ?qs) - 1]" and n: "n = of_int (int (length ?qs))"
    using assms(2) by (auto simp: get_port_n_rx_queues_def count_rx_queues Let_def split: if_splits)
  have "int (length ?qs) \<le> 128"
  proof (cases "?qs = []")
    case False
    then have "0 < length ?qs" by simp
    then have "int (length ?qs) - 1 \<in> {0..int (length ?qs) - 1}" unfolding atLeastAtMost_iff by linarith
    moreover have "set ?qs = {0..int (length ?qs) - 1}" using arg_cong [OF q, of set] by (simp only: set_upto)
    ultimately have "int (length ?qs) - 1 \<in> set ?qs" by (simp only:)
    moreover have "m < 128" if "m \<in> set ?qs" for m
    proof -
      from that obtain p where p: "p \<in> set ps" "m = uint (queue_id p)" by auto
      from bspec [OF assms(1) p(1)] have "int (unat (queue_id p)) < 128" by linarith
      then show ?thesis by (simp add: p(2))
    qed
    ultimately have "int (length ?qs) - 1 < 128" by blast
    then show ?thesis by linarith
  qed simp
  then have "unat n = length ?qs" unfolding n of_int_of_nat_eq by (intro unat_of_nat_eq) simp
  then have "int (unat n) = int (length ?qs)" by (simp only:)
  then have "uint n = int (length ?qs)" by simp
  then have "[0..uint n - 1] = [0..int (length ?qs) - 1]" by (simp only:)
  then show ?thesis using q by (simp only:)
qed

text \<open>How often a queue is polled, over all cores.\<close>

definition polls :: "rx_conf \<Rightarrow> u8 \<Rightarrow> u8 \<Rightarrow> nat" where
  "polls rx p q = (\<Sum>l\<in>UNIV. count_list (rx l) (p, q))"

lemma polls_of_params:
  "polls (\<lambda>l. map (\<lambda>p. (port_id p, queue_id p)) (filter (\<lambda>p. lcore_id p = l) ps)) p q =
     count_list (map (\<lambda>p. uint (queue_id p)) (filter (\<lambda>x. port_id x = p) ps)) (uint q)"
proof (induction ps)
  case (Cons x ps)
  have "(\<Sum>l\<in>UNIV. count_list (map (\<lambda>p. (port_id p, queue_id p)) (filter (\<lambda>p. lcore_id p = l) (x # ps))) (p, q)) =
      (\<Sum>l\<in>UNIV. (if lcore_id x = l then if (port_id x, queue_id x) = (p, q) then 1 else 0 else 0)
        + count_list (map (\<lambda>p. (port_id p, queue_id p)) (filter (\<lambda>p. lcore_id p = l) ps)) (p, q))"
    by (intro sum.cong) auto
  also have "\<dots> = (if (port_id x, queue_id x) = (p, q) then 1 else 0)
      + polls (\<lambda>l. map (\<lambda>p. (port_id p, queue_id p)) (filter (\<lambda>p. lcore_id p = l) ps)) p q"
    by (simp add: sum.distrib polls_def)
  finally show ?case using Cons.IH by (auto simp: polls_def simp flip: word_uint_eq_iff)
qed (simp add: polls_def)

lemma count_upto: "count_list [0..n - 1] i = (if 0 \<le> i \<and> i < n then 1 else 0)"
proof -
  have "distinct xs \<Longrightarrow> count_list xs i = (if i \<in> set xs then 1 else 0)" for xs :: "int list"
    by (induction xs) auto
  then show ?thesis by simp
qed

section \<open>The ports\<close>

lemma init_tx_queue_pair:
  "init_tx_queue b portid l (c, conf) = (if tx_queue_setup b portid c
     then Some (c + 1, conf(l := \<lparr>tx_queue_id = (tx_queue_id (conf l))(portid := c), tx_port_id = tx_port_id (conf l) @ [of_nat portid]\<rparr>))
     else None)"
  by (simp add: init_tx_queue_def Let_def)

lemma init_tx_queues:
  "fold_option (init_tx_queue b portid) ls (c, conf) = Some (c', conf') \<Longrightarrow> distinct ls \<Longrightarrow>
   map (\<lambda>l. tx_queue_id (conf' l) portid) ls = map (\<lambda>k. c + of_nat k) [0..<length ls]
   \<and> (\<forall>l. (l \<in> set ls \<longrightarrow> tx_port_id (conf' l) = tx_port_id (conf l) @ [of_nat portid])
       \<and> (l \<notin> set ls \<longrightarrow> conf' l = conf l)
       \<and> (\<forall>p. p \<noteq> portid \<longrightarrow> tx_queue_id (conf' l) p = tx_queue_id (conf l) p))"
proof (induction ls arbitrary: c conf)
  case (Cons l ls)
  let ?conf = "conf(l := \<lparr>tx_queue_id = (tx_queue_id (conf l))(portid := c), tx_port_id = tx_port_id (conf l) @ [of_nat portid]\<rparr>)"
  from Cons.prems(1) have "fold_option (init_tx_queue b portid) ls (c + 1, ?conf) = Some (c', conf')"
    by (simp add: init_tx_queue_pair split: if_splits)
  note IH = Cons.IH [OF this]
  have d: "distinct ls" "l \<notin> set ls" using Cons.prems(2) by simp_all
  have "conf' l = ?conf l" using IH [OF d(1)] d(2) by blast
  moreover have "map (\<lambda>k. c + of_nat k) [0..<length (l # ls)] = c # map (\<lambda>k. c + 1 + of_nat k) [0..<length ls]"
    by (simp add: upt_conv_Cons map_Suc_upt [symmetric] add.assoc del: upt_Suc)
  ultimately show ?case using IH [OF d(1)] d(2) by auto
qed simp

text \<open>What holds when the ports before \<open>k\<close> have been set up.\<close>

definition mem_ok :: "board \<Rightarrow> int \<Rightarrow> mem_state \<Rightarrow> bool" where
  "mem_ok b numa m \<longleftrightarrow> distinct (setup_calls m) \<and> (\<forall>k. pktmbuf_pool m k \<longleftrightarrow> k \<in> set (setup_calls m))
     \<and> set (setup_calls m) \<subseteq> lcore_socket b numa ` set (enabled_lcores b) \<inter> {..<NB_SOCKETS}"

definition mem_done :: "board \<Rightarrow> int \<Rightarrow> mem_state \<Rightarrow> bool" where
  "mem_done b numa m \<longleftrightarrow> (\<forall>l\<in>set (enabled_lcores b).
     lookup_socket m l = lcore_socket b numa l \<and> lookup_socket m l \<in> set (setup_calls m))"

lemma init_mem_lcores:
  "fold_option (init_mem_lcore b numa) ls m = Some m' \<Longrightarrow> set ls \<subseteq> set (enabled_lcores b) \<Longrightarrow> mem_ok b numa m \<Longrightarrow>
   mem_ok b numa m' \<and> set (setup_calls m) \<subseteq> set (setup_calls m')
   \<and> (\<forall>l\<in>set ls. lookup_socket m' l = lcore_socket b numa l \<and> lookup_socket m' l \<in> set (setup_calls m'))
   \<and> (\<forall>l. l \<notin> set ls \<longrightarrow> lookup_socket m' l = lookup_socket m l)"
proof (induction ls arbitrary: m)
  case (Cons l ls)
  from Cons.prems(1) obtain m1 where m1: "init_mem_lcore b numa l m = Some m1" "fold_option (init_mem_lcore b numa) ls m1 = Some m'"
    by (rule fold_option_Cons_Some)
  let ?k = "lcore_socket b numa l"
  have "mem_ok b numa m1 \<and> set (setup_calls m) \<subseteq> set (setup_calls m1) \<and> ?k \<in> set (setup_calls m1)
      \<and> lookup_socket m1 = (lookup_socket m)(l := ?k)"
  proof (cases "pktmbuf_pool m ?k")
    case True
    then show ?thesis using m1(1) Cons.prems(3) by (auto simp: init_mem_lcore_def mem_ok_def Let_def split: if_splits)
  next
    case False
    then have "m1 = m\<lparr>pktmbuf_pool := (pktmbuf_pool m)(?k := True), setup_calls := setup_calls m @ [?k],
        lookup_socket := (lookup_socket m)(l := ?k)\<rparr>" "?k < NB_SOCKETS"
      using m1(1) by (auto simp: init_mem_lcore_def Let_def simp del: if_split split: if_split_asm)
    then show ?thesis using False Cons.prems(2,3) by (auto simp: mem_ok_def simp del: if_split)
  qed
  note step = this
  have IH: "mem_ok b numa m' \<and> set (setup_calls m1) \<subseteq> set (setup_calls m')
      \<and> (\<forall>l\<in>set ls. lookup_socket m' l = lcore_socket b numa l \<and> lookup_socket m' l \<in> set (setup_calls m'))
      \<and> (\<forall>l. l \<notin> set ls \<longrightarrow> lookup_socket m' l = lookup_socket m1 l)"
  proof (rule Cons.IH [OF m1(2)])
    show "set ls \<subseteq> set (enabled_lcores b)" "mem_ok b numa m1" using Cons.prems(2) step by simp_all
  qed
  have l: "lookup_socket m' l = ?k \<and> lookup_socket m' l \<in> set (setup_calls m')"
    using IH step by (cases "l \<in> set ls") auto
  have "lookup_socket m' x = lcore_socket b numa x \<and> lookup_socket m' x \<in> set (setup_calls m')"
    if "x \<in> set (l # ls)" for x
    using that l IH by (metis set_ConsD)
  moreover have "lookup_socket m' x = lookup_socket m x" if "x \<notin> set (l # ls)" for x
    using that IH step by simp
  moreover have "set (setup_calls m) \<subseteq> set (setup_calls m')" using IH step by blast
  ultimately show ?case using IH by blast
qed simp

definition ports_ok :: "board \<Rightarrow> main_state \<Rightarrow> nat \<Rightarrow> fwd_init \<Rightarrow> bool" where
  "ports_ok b s k i \<longleftrightarrow> (let up = filter (port_bit (enabled_port_mask s)) [0..<k]
     in enabled_port_mask (i_main i) = enabled_port_mask s \<and> lcore_params (i_main i) = lcore_params s \<and> numa_on (i_main i) = numa_on s
        \<and> macs_ok (i_main i) \<and> (\<forall>d. length (val_eth (i_main i) d) = 16)
        \<and> mem_ok b (numa_on s) (i_mem i) \<and> (up \<noteq> [] \<longrightarrow> mem_done b (numa_on s) (i_mem i))
        \<and> (\<forall>l\<in>set (enabled_lcores b). tx_port_id (i_tx i l) = map of_nat up)
        \<and> (\<forall>p\<in>set up. get_port_n_rx_queues (lcore_params s) (of_nat p) \<noteq> None
             \<and> map (\<lambda>l. tx_queue_id (i_tx i l) p) (enabled_lcores b) = map of_nat [0..<length (enabled_lcores b)]))"

lemma init_port_ok:
  assumes "init_port b k i = Some i'" and "ports_ok b s k i" and "board_ok b" and "k < RTE_MAX_ETHPORTS"
  shows "ports_ok b s (Suc k) i' \<and> i_rx i' = i_rx i"
proof (cases "port_bit (enabled_port_mask s) k")
  case False
  then have "i' = i" using assms(1,2) by (simp add: init_port_def ports_ok_def Let_def)
  then show ?thesis using assms(2) False by (simp add: ports_ok_def)
next
  case True
  let ?up = "filter (port_bit (enabled_port_mask s)) [0..<k]"
  have m: "enabled_port_mask (i_main i) = enabled_port_mask s" "lcore_params (i_main i) = lcore_params s"
    "numa_on (i_main i) = numa_on s"
    using assms(2) by (simp_all add: ports_ok_def Let_def)
  from assms(1) True m obtain n mem tx c where n: "get_port_n_rx_queues (lcore_params s) (of_nat k) = Some n"
    and mem: "init_mem b (numa_on s) (i_mem i) = Some mem"
    and tx: "fold_option (init_tx_queue b k) (enabled_lcores b) (0, i_tx i) = Some (c, tx)"
    and i': "i' = i\<lparr>i_main := set_src k (macaddr b k) (i_main i), i_mem := mem, i_tx := tx\<rparr>"
    by (auto simp: init_port_def Let_def split: option.splits if_splits prod.splits)
  have d: "distinct (enabled_lcores b)" and mac: "length (macaddr b k) = 6" using assms(3) by (simp_all add: board_ok_def)
  note T = init_tx_queues [OF tx d]
  have M: "mem_ok b (numa_on s) mem \<and> mem_done b (numa_on s) mem"
    using init_mem_lcores [OF mem [unfolded init_mem_def]] assms(2) by (auto simp: ports_ok_def mem_done_def Let_def)
  have S: "macs_ok (set_src k (macaddr b k) (i_main i)) \<and> (\<forall>d. length (val_eth (set_src k (macaddr b k) (i_main i)) d) = 16)"
    using assms(2,4) mac by (intro set_src_macs) (simp_all add: ports_ok_def Let_def RTE_MAX_ETHPORTS_def)
  have up: "filter (port_bit (enabled_port_mask s)) [0..<Suc k] = ?up @ [k]" using True by simp
  have q: "map (\<lambda>l. tx_queue_id (tx l) p) (enabled_lcores b) = map of_nat [0..<length (enabled_lcores b)]" if "p \<in> set (?up @ [k])" for p
  proof (cases "p = k")
    case False
    then have "map (\<lambda>l. tx_queue_id (tx l) p) (enabled_lcores b) = map (\<lambda>l. tx_queue_id (i_tx i l) p) (enabled_lcores b)"
      using T by (intro map_cong) auto
    moreover have "\<forall>p\<in>set ?up. map (\<lambda>l. tx_queue_id (i_tx i l) p) (enabled_lcores b) = map of_nat [0..<length (enabled_lcores b)]"
      using assms(2) unfolding ports_ok_def Let_def by blast
    moreover have "p \<in> set ?up" using that False by simp
    ultimately show ?thesis by (simp only:)
  qed (use T in simp)
  have "get_port_n_rx_queues (lcore_params s) (of_nat p) \<noteq> None" if "p \<in> set (?up @ [k])" for p
    using that n assms(2) unfolding ports_ok_def Let_def by auto
  moreover have "tx_port_id (tx l) = map of_nat (?up @ [k])" if "l \<in> set (enabled_lcores b)" for l
    using T that assms(2) unfolding ports_ok_def Let_def by simp
  ultimately show ?thesis unfolding ports_ok_def Let_def up i' using M S q m by (simp add: set_src_def)
qed

section \<open>The start\<close>

lemma parse_args_cases:
  assumes "parse_args split etheraddr opts s0 = Some s"
  obtains s1 where "fold_option (parse_opt split etheraddr) opts s0 = Some s1" and "\<not> (l3fwd_lpm_on s1 \<noteq> 0 \<and> l3fwd_em_on s1 \<noteq> 0)"
    and "s = (if l3fwd_lpm_on s1 \<noteq> 0 then s1\<lparr>ipv6 := 0, hash_entry_number := HASH_ENTRY_NUMBER_DEFAULT\<rparr>
              else s1)"
proof -
  obtain s1 where f: "fold_option (parse_opt split etheraddr) opts s0 = Some s1" "\<not> (l3fwd_lpm_on s1 \<noteq> 0 \<and> l3fwd_em_on s1 \<noteq> 0)"
    using assms by (auto simp: parse_args_def split: option.splits if_splits)
  have "s1\<lparr>l3fwd_lpm_on := 0\<rparr> = s1" if "l3fwd_lpm_on s1 = 0" using that by (cases s1) simp
  with f assms that [OF f] show ?thesis by (auto simp: parse_args_def Let_def split: if_splits)
qed

lemma parse_args_dests:
  assumes "parse_args split etheraddr opts s0 = Some s" and "dests_ok s0" and "\<forall>t a. etheraddr t = Some a \<longrightarrow> length a = 6"
  shows "dests_ok s"
proof -
  obtain s1 where s1: "fold_option (parse_opt split etheraddr) opts s0 = Some s1"
    "s = (if l3fwd_lpm_on s1 \<noteq> 0 then s1\<lparr>ipv6 := 0, hash_entry_number := HASH_ENTRY_NUMBER_DEFAULT\<rparr> else s1)"
    using assms(1) by (rule parse_args_cases)
  have "dests_ok s1" using s1(1) assms(2) by (rule fold_option_invariant) (use parse_opt_dests assms(3) in blast)
  then show ?thesis by (simp add: s1(2) dests_ok_def)
qed

lemma init_ports_ok:
  assumes "board_ok b" and "ports_ok b s 0 i"
  shows "k \<le> nb_ports b \<Longrightarrow> fold_option (init_port b) [0..<k] i = Some i' \<Longrightarrow> ports_ok b s k i' \<and> i_rx i' = i_rx i"
proof (induction k arbitrary: i')
  case (Suc k)
  then obtain i1 where i1: "fold_option (init_port b) [0..<k] i = Some i1" "init_port b k i1 = Some i'"
    by (auto simp: fold_option_snoc split: option.splits)
  have "k < RTE_MAX_ETHPORTS" using Suc.prems(1) assms(1) by (simp add: board_ok_def)
  from init_port_ok [OF i1(2) _ assms(1) this] Suc.IH [OF _ i1(1)] Suc.prems(1) show ?case by auto
qed (use assms in simp)

lemma l3fwd_start_cases:
  assumes "l3fwd_start b n a split etheraddr opts = Some i"
    and "board_ok b" and "a < 2 ^ 40" and "\<forall>t m. etheraddr t = Some m \<longrightarrow> length m = 6"
  obtains s where "parse_args split etheraddr opts (init_dests a (static_state n)) = Some s"
    and "check_lcore_params (\<lambda>l. l \<in> set (enabled_lcores b)) (lcore_params s)"
    and "check_port_config (enabled_port_mask s) (nb_ports b) (lcore_params s)"
    and "i_rx i = (\<lambda>l. map (\<lambda>p. (port_id p, queue_id p)) (filter (\<lambda>p. lcore_id p = l) (lcore_params s)))"
    and "ports_ok b s (nb_ports b) i"
proof -
  let ?i0 = "\<lambda>s rx. \<lparr>i_main = s, i_rx = rx, i_tx = (\<lambda>l. \<lparr>tx_queue_id = (\<lambda>p. 0), tx_port_id = []\<rparr>),
               i_mem = \<lparr>pktmbuf_pool = (\<lambda>k. False), setup_calls = [], lookup_socket = (\<lambda>l. 0)\<rparr>\<rparr>"
  obtain s rx where s: "parse_args split etheraddr opts (init_dests a (static_state n)) = Some s"
    and c: "check_lcore_params (\<lambda>l. l \<in> set (enabled_lcores b)) (lcore_params s)"
      "check_port_config (enabled_port_mask s) (nb_ports b) (lcore_params s)"
    and rx: "init_lcore_rx_queues (lcore_params s) (\<lambda>l. []) = Some rx"
    and f: "fold_option (init_port b) [0..<nb_ports b] (?i0 s rx) = Some i"
    using assms(1) by (auto simp: l3fwd_start_def Let_def split: option.splits if_splits)
  have "dests_ok s" using parse_args_dests [OF s init_dests_ok [OF static_dests_ok assms(3)] assms(4)] .
  then have "ports_ok b s 0 (?i0 s rx)"
    using dests_macs [of s] by (simp add: ports_ok_def Let_def mem_ok_def)
  from init_ports_ok [OF assms(2) this order_refl f] have "ports_ok b s (nb_ports b) i" "i_rx i = rx" by simp_all
  moreover have "rx = (\<lambda>l. map (\<lambda>p. (port_id p, queue_id p)) (filter (\<lambda>p. lcore_id p = l) (lcore_params s)))"
    using rx by (simp add: init_lcore_rx_queues_eq split: if_splits)
  ultimately show ?thesis using that [OF s c] by simp
qed

section \<open>A sample start\<close>

text \<open>A board with four ports and two cores.\<close>

definition sample_board :: board where
  "sample_board = \<lparr>nb_ports = 4, enabled_lcores = [2, 3], socket_of = (\<lambda>l. l mod 2), macaddr = (\<lambda>p. replicate 6 1),
     dev_configure = (\<lambda>p r t. True), pool_create = (\<lambda>k. True), tx_queue_setup = (\<lambda>p q. True), rx_queue_setup = (\<lambda>p q. True),
     dev_start = (\<lambda>p. True), add_rx_callback = (\<lambda>p q. True), check_ptype = (\<lambda>k p. True)\<rparr>"

lemma sample_board_ok: "board_ok sample_board"
  by (simp add: board_ok_def sample_board_def RTE_MAX_ETHPORTS_def)

lemma sample_start: "\<exists>i. l3fwd_start sample_board 1518 2 sample_split (\<lambda>t. None) [Opt_p ''f'', Opt_E] = Some i"
proof -
  have "\<not> Option.is_none (l3fwd_start sample_board 1518 2 sample_split (\<lambda>t. None) [Opt_p ''f'', Opt_E])" by code_simp
  then show ?thesis by (auto simp: Option.is_none_def)
qed

section \<open>Properties\<close>

text \<open>C14: When the forwarder starts its loops no queue is shared and none is forgotten: every receive queue
  that was configured for an enabled port is polled exactly once over all cores, no other queue is
  polled, only enabled cores poll, every core drains exactly the enabled ports, and the cores
  have different transmit queues at each port.\<close>

theorem l3fwd_start_queues:
  assumes "l3fwd_start b n a split etheraddr opts = Some i"
    and "board_ok b" and "a < 2 ^ 40" and "\<forall>t m. etheraddr t = Some m \<longrightarrow> length m = 6"
  shows "(\<forall>p q. polls (i_rx i) p q = (if unat p < nb_ports b \<and> port_bit (enabled_port_mask (i_main i)) (unat p)
          \<and> (case get_port_n_rx_queues (lcore_params (i_main i)) p of None \<Rightarrow> False | Some k \<Rightarrow> q < k) then 1 else 0))
    \<and> (\<forall>l. i_rx i l \<noteq> [] \<longrightarrow> unat l \<in> set (enabled_lcores b))
    \<and> (\<forall>l\<in>set (enabled_lcores b). tx_port_id (i_tx i l) =
          map of_nat (filter (port_bit (enabled_port_mask (i_main i))) [0..<nb_ports b]))
    \<and> (\<forall>p<nb_ports b. port_bit (enabled_port_mask (i_main i)) p \<longrightarrow>
          distinct (map (\<lambda>l. tx_queue_id (i_tx i l) p) (enabled_lcores b)))"
proof -
  from assms obtain s where c: "check_lcore_params (\<lambda>l. l \<in> set (enabled_lcores b)) (lcore_params s)"
      "check_port_config (enabled_port_mask s) (nb_ports b) (lcore_params s)"
    and rx: "i_rx i = (\<lambda>l. map (\<lambda>p. (port_id p, queue_id p)) (filter (\<lambda>p. lcore_id p = l) (lcore_params s)))"
    and ok: "ports_ok b s (nb_ports b) i"
    by (rule l3fwd_start_cases)
  have m: "enabled_port_mask (i_main i) = enabled_port_mask s" "lcore_params (i_main i) = lcore_params s"
    using ok by (simp_all add: ports_ok_def Let_def)
  have b: "distinct (enabled_lcores b)" "\<forall>l\<in>set (enabled_lcores b). l < 256" using assms(2) by (simp_all add: board_ok_def)
  have "polls (i_rx i) p q = (if unat p < nb_ports b \<and> port_bit (enabled_port_mask s) (unat p)
          \<and> (case get_port_n_rx_queues (lcore_params s) p of None \<Rightarrow> False | Some k \<Rightarrow> q < k) then 1 else 0)" for p q
  proof (cases "unat p < nb_ports b \<and> port_bit (enabled_port_mask s) (unat p)")
    case True
    then obtain k where k: "get_port_n_rx_queues (lcore_params s) p = Some k" using ok by (fastforce simp: ports_ok_def Let_def)
    have "\<forall>x\<in>set (lcore_params s). unat (queue_id x) < 128"
      using c(1) by (auto simp: check_lcore_params_def list_all_iff MAX_RX_QUEUE_PER_PORT_def)
    from get_port_n_rx_queues_eq [OF this k]
    have "polls (i_rx i) p q = count_list [0..uint k - 1] (uint q)" unfolding rx polls_of_params by simp
    then show ?thesis using True k by (simp add: count_upto word_less_def)
  next
    case False
    have "filter (\<lambda>x. port_id x = p) (lcore_params s) = []"
      using c(2) False by (auto simp: check_port_config_def list_all_iff Let_def filter_empty_conv)
    then show ?thesis unfolding rx polls_of_params using False by auto
  qed
  moreover have "unat l \<in> set (enabled_lcores b)" if "i_rx i l \<noteq> []" for l
    using c(1) that by (auto simp: rx check_lcore_params_def list_all_iff filter_empty_conv)
  moreover have "distinct (map (\<lambda>l. tx_queue_id (i_tx i l) p) (enabled_lcores b))"
    if "p < nb_ports b" "port_bit (enabled_port_mask s) p" for p
  proof -
    have "card (set (enabled_lcores b)) \<le> card {..<256 :: nat}" using b(2) by (intro card_mono) auto
    then have "length (enabled_lcores b) \<le> 256" using b(1) by (simp add: distinct_card)
    then have "distinct (map (of_nat :: nat \<Rightarrow> u16) [0..<length (enabled_lcores b)])" by (rule distinct_of_nat_upto)
    then show ?thesis using ok that by (simp add: ports_ok_def Let_def)
  qed
  moreover have "\<forall>l\<in>set (enabled_lcores b). tx_port_id (i_tx i l) = map of_nat (filter (port_bit (enabled_port_mask s)) [0..<nb_ports b])"
    using ok by (simp add: ports_ok_def Let_def)
  ultimately show ?thesis unfolding m by blast
qed

theorem l3fwd_start_queues_witness:
  "\<exists>i. l3fwd_start sample_board 1518 2 sample_split (\<lambda>t. None) [Opt_p ''f'', Opt_E] = Some i
    \<and> (\<forall>l. i_rx i l \<noteq> [] \<longrightarrow> unat l \<in> {2, 3})
    \<and> (\<forall>p<4. port_bit (enabled_port_mask (i_main i)) p \<longrightarrow> tx_queue_id (i_tx i 2) p \<noteq> tx_queue_id (i_tx i 3) p)"
proof -
  obtain i where i: "l3fwd_start sample_board 1518 2 sample_split (\<lambda>t. None) [Opt_p ''f'', Opt_E] = Some i"
    using sample_start by blast
  have "enabled_lcores sample_board = [2, 3]" "nb_ports sample_board = 4" by (simp_all add: sample_board_def)
  with i l3fwd_start_queues [OF i sample_board_ok] show ?thesis by (intro exI [of _ i]) simp
qed

text \<open>C19: When the loops start, the registers with which the vector code writes the addresses agree with the
  arrays the scalar code uses, for every port and whatever destinations were given as options,
  and the tables of every socket that a core uses were set up exactly once, before use, although
  every port asks for them.\<close>

theorem l3fwd_start_tables:
  assumes "l3fwd_start b n a split etheraddr opts = Some i"
    and "board_ok b" and "a < 2 ^ 40" and "\<forall>t m. etheraddr t = Some m \<longrightarrow> length m = 6"
  shows "macs_ok (i_main i) \<and> distinct (setup_calls (i_mem i)) \<and> set (setup_calls (i_mem i)) \<subseteq> {..<NB_SOCKETS}
    \<and> ((\<exists>p<nb_ports b. port_bit (enabled_port_mask (i_main i)) p) \<longrightarrow>
        (\<forall>l\<in>set (enabled_lcores b). lookup_socket (i_mem i) l = lcore_socket b (numa_on (i_main i)) l
           \<and> lookup_socket (i_mem i) l \<in> set (setup_calls (i_mem i))))"
proof -
  from assms obtain s where ok: "ports_ok b s (nb_ports b) i" by (rule l3fwd_start_cases)
  then have m: "enabled_port_mask (i_main i) = enabled_port_mask s" "numa_on (i_main i) = numa_on s" "macs_ok (i_main i)"
    "mem_ok b (numa_on s) (i_mem i)"
    and d: "filter (port_bit (enabled_port_mask s)) [0..<nb_ports b] \<noteq> [] \<Longrightarrow> mem_done b (numa_on s) (i_mem i)"
    by (simp_all add: ports_ok_def Let_def)
  have "mem_done b (numa_on s) (i_mem i)" if "\<exists>p<nb_ports b. port_bit (enabled_port_mask s) p"
    using that by (intro d) (auto simp: filter_empty_conv)
  then show ?thesis using m(3,4) unfolding mem_ok_def mem_done_def m(1,2) by blast
qed

theorem l3fwd_start_tables_witness:
  "\<exists>i. l3fwd_start sample_board 1518 2 sample_split (\<lambda>t. None) [Opt_p ''f'', Opt_E] = Some i
    \<and> macs_ok (i_main i) \<and> distinct (setup_calls (i_mem i))"
proof -
  obtain i where i: "l3fwd_start sample_board 1518 2 sample_split (\<lambda>t. None) [Opt_p ''f'', Opt_E] = Some i"
    using sample_start by blast
  with l3fwd_start_tables [OF i sample_board_ok] show ?thesis by (intro exI [of _ i]) simp
qed

text \<open>C29: The options that remain decide the rest: with both modes selected the program stops, and exact
  match runs only with its option; without either option, for which the program announces exact
  match, it runs longest prefix match, with the options of exact match still in force.  The number
  of hash entries is within 1 and 1024 and the frame length within 64 and 9600 if it was given.\<close>

theorem l3fwd_modes:
  shows "(Opt_E \<in> set opts \<and> Opt_L \<in> set opts \<longrightarrow> parse_args split etheraddr opts (init_dests a (static_state ether_max_len)) = None)
    \<and> (\<forall>s. parse_args split etheraddr opts (init_dests a (static_state ether_max_len)) = Some s \<longrightarrow>
        setup_l3fwd_lookup_tables s = (if Opt_E \<in> set opts then L3fwd_Em_Lkp else L3fwd_Lpm_Lkp)
        \<and> (Opt_L \<in> set opts \<longrightarrow> hash_entry_number s = HASH_ENTRY_NUMBER_DEFAULT)
        \<and> (\<forall>xs optarg. Opt_L \<notin> set opts \<and> opts = xs @ [Opt_hash_entry_num optarg] \<longrightarrow>
              hash_entry_number s = parse_hash_entry_number optarg)
        \<and> 1 \<le> unat (hash_entry_number s) \<and> unat (hash_entry_number s) \<le> 1024
        \<and> (max_rx_pkt_len s = ether_max_len \<or> 64 \<le> unat (max_rx_pkt_len s) \<and> unat (max_rx_pkt_len s) \<le> 9600))"
proof -
  let ?s0 = "init_dests a (static_state ether_max_len)"
  have z: "l3fwd_em_on ?s0 = 0" "l3fwd_lpm_on ?s0 = 0" "opts_ok ether_max_len ?s0"
    by (simp_all add: init_dests_fields opts_ok_def) (simp_all add: static_state_def HASH_ENTRY_NUMBER_DEFAULT_def)
  have both: "parse_args split etheraddr opts ?s0 = None" if "Opt_E \<in> set opts" "Opt_L \<in> set opts"
    using parse_opts_modes [of split etheraddr opts ?s0] that z by (auto simp: parse_args_def split: option.split)
  have "setup_l3fwd_lookup_tables s = (if Opt_E \<in> set opts then L3fwd_Em_Lkp else L3fwd_Lpm_Lkp)
      \<and> (Opt_L \<in> set opts \<longrightarrow> hash_entry_number s = HASH_ENTRY_NUMBER_DEFAULT) \<and> opts_ok ether_max_len s
      \<and> (\<forall>xs optarg. Opt_L \<notin> set opts \<and> opts = xs @ [Opt_hash_entry_num optarg] \<longrightarrow>
              hash_entry_number s = parse_hash_entry_number optarg)"
    if p: "parse_args split etheraddr opts ?s0 = Some s" for s
  proof -
    obtain s1 where f: "fold_option (parse_opt split etheraddr) opts ?s0 = Some s1"
      and s: "s = (if l3fwd_lpm_on s1 \<noteq> 0 then s1\<lparr>ipv6 := 0, hash_entry_number := HASH_ENTRY_NUMBER_DEFAULT\<rparr> else s1)"
      using p by (rule parse_args_cases)
    have "opts_ok ether_max_len s1" using f z(3) by (rule fold_option_invariant) (rule parse_opt_bounds)
    then have "opts_ok ether_max_len s" by (simp add: s opts_ok_def HASH_ENTRY_NUMBER_DEFAULT_def)
    moreover have "hash_entry_number s1 = parse_hash_entry_number optarg" if "opts = xs @ [Opt_hash_entry_num optarg]" for xs optarg
      using f by (auto simp: that fold_option_snoc Let_def split: option.splits if_splits)
    ultimately show ?thesis using parse_opts_modes [OF f] z s by (auto simp: setup_l3fwd_lookup_tables_def split: if_splits)
  qed
  then show ?thesis using both unfolding opts_ok_def by blast
qed

theorem l3fwd_modes_witness:
  "\<exists>s. parse_args sample_split (\<lambda>t. None) [Opt_hash_entry_num ''10''] (init_dests 2 (static_state 1518)) = Some s
    \<and> setup_l3fwd_lookup_tables s = L3fwd_Lpm_Lkp \<and> hash_entry_number s = parse_hash_entry_number ''10''"
proof -
  have "parse_hash_entry_number ''10'' = 16" "sint (16 :: u32) = 16" by code_simp+
  then obtain s where "parse_args sample_split (\<lambda>t. None) [Opt_hash_entry_num ''10''] (init_dests 2 (static_state 1518)) = Some s"
    by (auto simp: parse_args_def L3FWD_HASH_ENTRIES_def init_dests_fields static_state_def Let_def)
  with l3fwd_modes [of "[Opt_hash_entry_num ''10'']" sample_split "\<lambda>t. None" 2 1518] show ?thesis by auto
qed

text \<open>Every text that is not a port mask is accepted as the mask of all ports: the error value of
  \<^verbatim>\<open>parse_portmask\<close> is - 1 while its caller tests for 0, which only numbers give whose low
  32 bits are 0.\<close>

theorem portmask_errors_accepted:
  assumes "strtoul 16 optarg = (pm, end, err)"
  shows "parse_opt split etheraddr (Opt_p optarg) s =
    (if optarg = [] \<or> end \<noteq> [] \<or> pm = 0 then Some (s\<lparr>enabled_port_mask := 0xffffffff\<rparr>)
     else if (ucast pm :: u32) = 0 then None else Some (s\<lparr>enabled_port_mask := ucast pm\<rparr>))"
  using assms by (auto simp: parse_portmask_def Let_def)

theorem portmask_errors_accepted_witness:
  "parse_opt sample_split (\<lambda>t. None) (Opt_p ''none'') (static_state 1518) =
     Some ((static_state 1518)\<lparr>enabled_port_mask := 0xffffffff\<rparr>)"
proof -
  have "strtoul 16 ''none'' = (0, ''none'', False)" by code_simp
  from portmask_errors_accepted [OF this] show ?thesis by simp
qed

end
