(* ===== verification/Ipsec_Buf.thy ===== *)
theory Ipsec_Buf
  imports Prelude
begin

text \<open>
  What the IPsec gateway keeps: the packet buffer of DPDK as far as the gateway uses it, the
  security association of \<^verbatim>\<open>ipsec.h\<close> and the symmetric crypto operation it fills.
  A buffer is one segment: the headroom before the data, the data, the tailroom behind it, and
  the 32 private bytes of \<^verbatim>\<open>struct ipsec_mbuf_metadata\<close>.  The functions named
  \<^verbatim>\<open>rte_pktmbuf_*\<close> are DPDK's documented buffer operations; they return \<open>None\<close> where
  DPDK returns a null pointer or an error.
\<close>

section \<open>Packet buffers\<close>

record pktbuf =
  headroom :: bytes
  mdata :: bytes
  tailroom :: bytes
  priv :: bytes

definition rte_pktmbuf_prepend :: "nat \<Rightarrow> pktbuf \<Rightarrow> pktbuf option" where
  "rte_pktmbuf_prepend n m =
     (if length (headroom m) < n then None
      else let k = length (headroom m) - n
           in Some (m\<lparr>headroom := take k (headroom m), mdata := drop k (headroom m) @ mdata m\<rparr>))"

definition rte_pktmbuf_append :: "nat \<Rightarrow> pktbuf \<Rightarrow> pktbuf option" where
  "rte_pktmbuf_append n m =
     (if length (tailroom m) < n then None
      else Some (m\<lparr>mdata := mdata m @ take n (tailroom m), tailroom := drop n (tailroom m)\<rparr>))"

definition rte_pktmbuf_adj :: "nat \<Rightarrow> pktbuf \<Rightarrow> pktbuf option" where
  "rte_pktmbuf_adj n m =
     (if length (mdata m) < n then None
      else Some (m\<lparr>headroom := headroom m @ take n (mdata m), mdata := drop n (mdata m)\<rparr>))"

definition rte_pktmbuf_trim :: "nat \<Rightarrow> pktbuf \<Rightarrow> pktbuf option" where
  "rte_pktmbuf_trim n m =
     (if length (mdata m) < n then None
      else let k = length (mdata m) - n
           in Some (m\<lparr>mdata := take k (mdata m), tailroom := drop k (mdata m) @ tailroom m\<rparr>))"

text \<open>\<open>poke off ys\<close> is a write of the bytes \<open>ys\<close> at \<open>off\<close> from the start of the data, which
  may run into the tailroom.\<close>

definition poke :: "nat \<Rightarrow> bytes \<Rightarrow> pktbuf \<Rightarrow> pktbuf" where
  "poke off ys m =
     (let b = store (mdata m @ tailroom m) off ys; k = length (mdata m)
      in m\<lparr>mdata := take k b, tailroom := drop k b\<rparr>)"

section \<open>Security associations\<close>

datatype cipher_algorithm = CIPHER_NULL | CIPHER_AES_CBC | CIPHER_AES_CTR | CIPHER_AES_GCM | CIPHER_OTHER nat
datatype auth_algorithm = AUTH_NULL | AUTH_SHA1_HMAC | AUTH_SHA256_HMAC | AUTH_AES_GCM | AUTH_OTHER nat

record ipsec_sa =
  spi :: u32
  cdev_id_qp :: u32
  sa_seq :: u64
  salt :: u32
  crypto_session :: "nat option"
  cipher_algo :: cipher_algorithm
  auth_algo :: auth_algorithm
  digest_len :: u16
  iv_len :: u16
  block_size :: u16
  flags :: u16
  sa_src :: bytes
  sa_dst :: bytes
  cipher_key :: bytes
  cipher_key_len :: u16
  auth_key :: bytes
  auth_key_len :: u16
  aad_len :: u16

definition IP4_TUNNEL :: u16 where "IP4_TUNNEL = 1"
definition IP6_TUNNEL :: u16 where "IP6_TUNNEL = 2"
definition TRANSPORT :: u16 where "TRANSPORT = 4"
definition IPVERSION :: u8 where "IPVERSION = 4"
definition IP6_VERSION :: u8 where "IP6_VERSION = 6"

text \<open>\<^verbatim>\<open>struct rte_crypto_sym_op\<close>; a pointer is an offset into the packet or into the
  private bytes.  The physical addresses the code stores beside them denote the same bytes and
  are left out.\<close>

datatype op_ptr = In_packet nat | In_priv nat

record sym_op =
  cipher_offset :: nat
  cipher_length :: nat
  iv_data :: op_ptr
  iv_length :: nat
  auth_offset :: nat
  auth_length :: nat
  aad_data :: op_ptr
  aad_length :: nat
  digest_data :: op_ptr
  digest_length :: nat

datatype op_status = STATUS_SUCCESS | STATUS_NOT_PROCESSED | STATUS_AUTH_FAILED | STATUS_ERROR

text \<open>\<^verbatim>\<open>struct cnt_blk\<close> in the first 16 private bytes, the additional authenticated data
  in the second 16.\<close>

definition set_cnt_blk :: "u32 \<Rightarrow> bytes \<Rightarrow> u32 \<Rightarrow> pktbuf \<Rightarrow> pktbuf" where
  "set_cnt_blk sl iv cnt m =
     m\<lparr>priv := store (store (store (priv m) 0 (le_bytes 4 sl)) 4 iv) 12 (le_bytes 4 cnt)\<rparr>"

definition set_aad :: "bytes \<Rightarrow> pktbuf \<Rightarrow> pktbuf" where
  "set_aad ys m = m\<lparr>priv := store (priv m) 16 ys\<rparr>"

section \<open>Header fields\<close>

definition ip_v :: "bytes \<Rightarrow> u8" where "ip_v d = drop_bit 4 (d ! 0)"
definition ip_hl :: "bytes \<Rightarrow> nat" where "ip_hl d = unat (d ! 0 AND 0xf)"

definition htons_bytes :: "nat \<Rightarrow> bytes" where
  "htons_bytes n = le_bytes 2 (bswap16 (of_nat n))"

section \<open>Facts about the buffer operations\<close>

named_theorems buf_simps \<open>results of the buffer operations\<close>

lemma mdata_prepend [buf_simps]:
  "n \<le> length (headroom m) \<Longrightarrow> rte_pktmbuf_prepend n m =
     Some (m\<lparr>headroom := take (length (headroom m) - n) (headroom m),
       mdata := drop (length (headroom m) - n) (headroom m) @ mdata m\<rparr>)"
  by (simp add: rte_pktmbuf_prepend_def Let_def)

lemma append_eq [buf_simps]:
  "n \<le> length (tailroom m) \<Longrightarrow> rte_pktmbuf_append n m =
     Some (m\<lparr>mdata := mdata m @ take n (tailroom m), tailroom := drop n (tailroom m)\<rparr>)"
  by (simp add: rte_pktmbuf_append_def)

lemma adj_eq [buf_simps]:
  "n \<le> length (mdata m) \<Longrightarrow> rte_pktmbuf_adj n m =
     Some (m\<lparr>headroom := headroom m @ take n (mdata m), mdata := drop n (mdata m)\<rparr>)"
  by (simp add: rte_pktmbuf_adj_def)

lemma trim_eq [buf_simps]:
  "n \<le> length (mdata m) \<Longrightarrow> rte_pktmbuf_trim n m =
     Some (m\<lparr>mdata := take (length (mdata m) - n) (mdata m),
       tailroom := drop (length (mdata m) - n) (mdata m) @ tailroom m\<rparr>)"
  by (simp add: rte_pktmbuf_trim_def Let_def)

lemma poke_inside [buf_simps]:
  "off + length ys \<le> length (mdata m) \<Longrightarrow> poke off ys m = m\<lparr>mdata := store (mdata m) off ys\<rparr>"
  by (simp add: poke_def store_def Let_def)

lemma poke_append: "length ys \<le> length xs \<Longrightarrow> store (xs @ zs) 0 ys = store xs 0 ys @ zs"
  by (simp add: store_def)

lemma adj_prepend:
  assumes "rte_pktmbuf_prepend n m = Some m'"
  shows "rte_pktmbuf_adj n m' = Some m"
  using assms by (auto simp: rte_pktmbuf_prepend_def rte_pktmbuf_adj_def Let_def split: if_splits)

lemma trim_append:
  assumes "rte_pktmbuf_append n m = Some m'"
  shows "rte_pktmbuf_trim n m' = Some m"
  using assms by (auto simp: rte_pktmbuf_append_def rte_pktmbuf_trim_def Let_def split: if_splits)

end
