(* ===== verification/Ipip.thy ===== *)
theory Ipip
  imports Ipsec_Buf
begin

text \<open>
  The tunnel headers of \<^verbatim>\<open>ipip.h\<close>: \<^verbatim>\<open>ipip_outbound\<close> puts an outer IPv4 or IPv6
  header in front of a packet, \<^verbatim>\<open>ipip_inbound\<close> removes it.  Header fields are bytes of the
  packet, at the offsets of \<^verbatim>\<open>struct ip\<close> and \<^verbatim>\<open>struct ip6_hdr\<close>.
\<close>

section \<open>The code\<close>

definition IPPROTO_ESP :: u8 where "IPPROTO_ESP = 50"
definition IPDEFTTL :: u8 where "IPDEFTTL = 64"
definition IPTOS_ECN_CE :: u8 where "IPTOS_ECN_CE = 3"
definition IPTOS_ECN_MASK :: u8 where "IPTOS_ECN_MASK = 3"

definition ip6_flow :: "bytes \<Rightarrow> u32" where "ip6_flow d = bswap32 (load 4 d 0)"

text \<open>The hop limit goes down by one; the traffic class is copied.\<close>

definition dec_hops :: "bytes \<Rightarrow> bytes" where
  "dec_hops d = (if ip_v d = IPVERSION then d[8 := d ! 8 - 1] else d[7 := d ! 7 - 1])"

definition ds_ecn :: "bytes \<Rightarrow> u8" where
  "ds_ecn d = (if ip_v d = IPVERSION then d ! 1 else ucast (drop_bit 20 (ip6_flow d)))"

definition outer_ip6 :: "u8 \<Rightarrow> bytes \<Rightarrow> bytes \<Rightarrow> pktbuf \<Rightarrow> pktbuf" where
  "outer_ip6 ds src dst m =
     (let m = poke 0 (le_bytes 4 (bswap32 (push_bit 28 6 OR push_bit 20 (ucast ds)))) m;
          m = poke 4 (htons_bytes (length (mdata m))) m;
          m = poke 6 [IPPROTO_ESP] m;
          m = poke 7 [IPDEFTTL] m;
          m = poke 8 (take 16 src) m
      in poke 24 (take 16 dst) m)"

text \<open>The checksum, bytes 10 and 11, is not written here.\<close>

definition outer_ip4 :: "u8 \<Rightarrow> bytes \<Rightarrow> bytes \<Rightarrow> pktbuf \<Rightarrow> pktbuf" where
  "outer_ip4 ds src dst m =
     (let m = poke 0 [0x45] m;
          m = poke 1 [ds] m;
          m = poke 2 (htons_bytes (length (mdata m))) m;
          m = poke 4 [0, 0, 0, 0] m;
          m = poke 8 [IPDEFTTL] m;
          m = poke 9 [IPPROTO_ESP] m;
          m = poke 12 (take 4 src) m
      in poke 16 (take 4 dst) m)"

definition ipip_outbound :: "nat \<Rightarrow> bool \<Rightarrow> bytes \<Rightarrow> bytes \<Rightarrow> pktbuf \<Rightarrow> pktbuf option" where
  "ipip_outbound offset is_ipv6 src dst m =
     (let m' = m\<lparr>mdata := dec_hops (mdata m)\<rparr>; ds = ds_ecn (mdata m)
      in if is_ipv6
         then map_option (outer_ip6 ds src dst) (rte_pktmbuf_prepend (offset + 40) m')
         else map_option (outer_ip4 ds src dst) (rte_pktmbuf_prepend (offset + 20) m'))"

definition ip4_ecn_setup :: "bytes \<Rightarrow> bytes" where
  "ip4_ecn_setup d = (if d ! 1 AND IPTOS_ECN_MASK \<noteq> 0 then d[1 := d ! 1 OR IPTOS_ECN_CE] else d)"

definition ip6_ecn_setup :: "bytes \<Rightarrow> bytes" where
  "ip6_ecn_setup d =
     (if drop_bit 20 (ip6_flow d) AND ucast IPTOS_ECN_MASK \<noteq> 0
      then store d 0 (le_bytes 4 (bswap32 (ip6_flow d OR push_bit 20 (ucast IPTOS_ECN_CE))))
      else d)"

definition outer_ecn :: "bytes \<Rightarrow> bool" where
  "outer_ecn d =
     (if ip_v d = IPVERSION then d ! 1 AND IPTOS_ECN_CE = IPTOS_ECN_CE
      else drop_bit 20 (ip6_flow d) AND ucast IPTOS_ECN_CE = ucast IPTOS_ECN_CE)"

definition ipip_inbound :: "nat \<Rightarrow> pktbuf \<Rightarrow> pktbuf option" where
  "ipip_inbound offset m =
     (let ip_len = (if ip_v (mdata m) = IPVERSION then 20 else 40);
          set_ecn = outer_ecn (mdata m)
      in map_option (\<lambda>m.
           let d = mdata m;
               d = (if \<not> set_ecn then d
                    else if ip_v d = IPVERSION then ip4_ecn_setup d else ip6_ecn_setup d)
           in m\<lparr>mdata := dec_hops d\<rparr>)
         (rte_pktmbuf_adj (offset + ip_len) m))"

section \<open>The outer header\<close>

lemma length_htons_bytes [simp]: "length (htons_bytes n) = 2"
  by (simp add: htons_bytes_def)

lemma length_dec_hops [simp]: "length (dec_hops d) = length d"
  by (simp add: dec_hops_def)

definition ip6_header :: "u8 \<Rightarrow> nat \<Rightarrow> bytes \<Rightarrow> bytes \<Rightarrow> bytes" where
  "ip6_header ds n src dst =
     le_bytes 4 (bswap32 (push_bit 28 6 OR push_bit 20 (ucast ds))) @ htons_bytes n
     @ [IPPROTO_ESP, IPDEFTTL] @ take 16 src @ take 16 dst"

definition ip4_header :: "u8 \<Rightarrow> nat \<Rightarrow> bytes \<Rightarrow> bytes \<Rightarrow> bytes \<Rightarrow> bytes" where
  "ip4_header ds n ck src dst =
     [0x45, ds] @ htons_bytes n @ [0, 0, 0, 0, IPDEFTTL, IPPROTO_ESP] @ ck @ take 4 src @ take 4 dst"

lemma poke_fill:
  assumes "off = length F + k" and "k + length ys \<le> length r"
  shows "poke off ys (m\<lparr>mdata := F @ r\<rparr>) = m\<lparr>mdata := (F @ take k r @ ys) @ drop (k + length ys) r\<rparr>"
  using assms by (simp add: poke_inside store_def)

lemma poke_next:
  assumes "off = length F" and "length ys \<le> length r"
  shows "poke off ys (m\<lparr>mdata := F @ r\<rparr>) = m\<lparr>mdata := (F @ ys) @ drop (length ys) r\<rparr>"
  using poke_fill [of off F 0 ys r m] assms by simp

lemma outer_ip6_eq:
  assumes "length src = 16" and "length dst = 16" and "40 \<le> length (mdata m)"
  shows "outer_ip6 ds src dst m = m\<lparr>mdata := ip6_header ds (length (mdata m)) src dst @ drop 40 (mdata m)\<rparr>"
proof -
  have "outer_ip6 ds src dst (m\<lparr>mdata := [] @ mdata m\<rparr>)
    = m\<lparr>mdata := ip6_header ds (length (mdata m)) src dst @ drop 40 (mdata m)\<rparr>"
    using assms by (simp add: outer_ip6_def Let_def poke_next del: append_assoc append_Nil)
      (simp add: ip6_header_def)
  then show ?thesis by simp
qed

lemma outer_ip4_eq:
  assumes "length src = 16" and "length dst = 16" and "20 \<le> length (mdata m)"
  shows "outer_ip4 ds src dst m = m\<lparr>mdata :=
    ip4_header ds (length (mdata m)) (take 2 (drop 10 (mdata m))) src dst @ drop 20 (mdata m)\<rparr>"
proof -
  have "Suc (Suc (length (mdata m) - Suc (Suc 0))) = length (mdata m)" using assms(3) by simp
  then have "outer_ip4 ds src dst (m\<lparr>mdata := [] @ mdata m\<rparr>) = m\<lparr>mdata :=
    ip4_header ds (length (mdata m)) (take 2 (drop 10 (mdata m))) src dst @ drop 20 (mdata m)\<rparr>"
    using assms by (simp add: outer_ip4_def Let_def poke_next poke_fill [where off = 12 and k = 2] del: append_assoc append_Nil)
      (simp add: ip4_header_def)
  then show ?thesis by simp
qed

section \<open>Round trip\<close>

lemma length_ip6_header [simp]: "length src = 16 \<Longrightarrow> length dst = 16 \<Longrightarrow> length (ip6_header ds n src dst) = 40"
  by (simp add: ip6_header_def)

lemma length_ip4_header [simp]:
  "length src = 16 \<Longrightarrow> length dst = 16 \<Longrightarrow> length ck = 2 \<Longrightarrow> length (ip4_header ds n ck src dst) = 20"
  by (simp add: ip4_header_def)

lemma and_3_iff:
  assumes "2 \<le> LENGTH('a)"
  shows "w AND 3 = (3 :: 'a::len word) \<longleftrightarrow> bit w 0 \<and> bit w 1"
proof -
  have m: "(3 :: 'a word) = mask 2" by (simp add: mask_eq_exp_minus_1)
  have "w AND mask 2 = mask 2 \<longleftrightarrow> (\<forall>n<2. bit w n)"
    by (simp add: bit_eq_iff [of "w AND mask 2"] bit_and_iff bit_mask_iff) (meson assms order_less_le_trans)
  also have "\<dots> \<longleftrightarrow> bit w 0 \<and> bit w 1" by (auto simp: less_2_cases_iff)
  finally show ?thesis unfolding m .
qed

lemma or_3_id:
  assumes "bit w 0" and "bit w 1"
  shows "w OR 3 = (w :: 'a::len word)"
proof -
  have m: "(3 :: 'a word) = mask 2" by (simp add: mask_eq_exp_minus_1)
  show ?thesis unfolding m
    using assms by (intro bit_word_eqI) (auto simp: bit_or_iff bit_mask_iff less_2_cases_iff)
qed

lemma or_push_3_id: "bit w n \<Longrightarrow> bit w (Suc n) \<Longrightarrow> w OR push_bit n 3 = (w :: 'a::len word)"
proof -
  assume b: "bit w n" "bit w (Suc n)"
  have m: "(3 :: 'a word) = mask 2" by (simp add: mask_eq_exp_minus_1)
  show ?thesis
  proof (rule bit_word_eqI)
    fix k assume "k < LENGTH('a)"
    have "k = n \<or> k = Suc n" if "n \<le> k" "k - n < 2" using that by linarith
    then show "bit (w OR push_bit n 3) k \<longleftrightarrow> bit w k" using b unfolding m by (auto simp: bit_simps)
  qed
qed

lemma ip6_flow_header [simp]:
  "ip6_flow (ip6_header ds n src dst @ d) = push_bit 28 6 OR push_bit 20 (ucast ds)"
  by (simp add: ip6_flow_def ip6_header_def load_def le_word_le_bytes)

lemma ip_v_flow:
  assumes "4 \<le> length d"
  shows "ip_v d = ucast (drop_bit 28 (ip6_flow d))"
proof -
  have "take 4 d = [d ! 0, d ! 1, d ! 2, d ! 3]"
    using assms by (intro nth_equalityI) (auto simp: less_Suc_eq numeral_eq_Suc)
  then have r: "le_bytes 4 (load 4 d 0 :: u32) = [d ! 0, d ! 1, d ! 2, d ! 3]"
    using le_bytes_le_word [of "[d ! 0, d ! 1, d ! 2, d ! 3]" 4, where 'a = 32]
    by (simp add: load_def del: le_word.simps)
  have "bit (ip_v d) k \<longleftrightarrow> bit (ucast (drop_bit 28 (ip6_flow d)) :: u8) k" if "k < 8" for k
  proof -
    have "(28 + k) div 8 = 3" "(28 + k) mod 8 = 4 + k" if "k < 4" using that by presburger+
    moreover have "\<not> bit (d ! 0) (4 + k)" if "\<not> k < 4" using that bit_imp_le_length [of "d ! 0" "4 + k"] by auto
    ultimately show ?thesis using \<open>k < 8\<close>
      by (cases "k < 4") (auto simp: ip_v_def ip6_flow_def bswap32_def r bit_simps bit_le_word
          simp del: le_word.simps dest: bit_imp_le_length)
  qed
  then show ?thesis by (intro bit_word_eqI) simp
qed

definition ce_marked :: "u8 \<Rightarrow> bool" where "ce_marked ds \<longleftrightarrow> bit ds 0 \<and> bit ds 1"

lemma ds_ecn_bit_6:
  "ip_v d \<noteq> IPVERSION \<Longrightarrow> n < 8 \<Longrightarrow> bit (ds_ecn d) n \<longleftrightarrow> bit (ip6_flow d) (20 + n)"
  by (simp add: ds_ecn_def bit_simps)

lemma outer_ecn_iff: "outer_ecn d \<longleftrightarrow> ce_marked (ds_ecn d)"
proof -
  have "drop_bit 20 (ip6_flow d) AND 3 = 3 \<longleftrightarrow> bit (ip6_flow d) 20 \<and> bit (ip6_flow d) 21"
    by (simp add: and_3_iff bit_drop_bit_eq)
  then show ?thesis
    using ds_ecn_bit_6 [of d 0] ds_ecn_bit_6 [of d 1]
    by (auto simp: outer_ecn_def ce_marked_def IPTOS_ECN_CE_def and_3_iff ds_ecn_def)
qed

lemma ip_v_dec_hops [simp]: "ip_v (dec_hops d) = ip_v d"
  by (cases d) (auto simp: dec_hops_def ip_v_def)

lemma ip6_flow_dec_hops: "4 \<le> length d \<Longrightarrow> ip6_flow (dec_hops d) = ip6_flow d"
  by (simp add: ip6_flow_def dec_hops_def load_def)

lemma ds_ecn_dec_hops [simp]: "4 \<le> length d \<Longrightarrow> ds_ecn (dec_hops d) = ds_ecn d"
  by (simp add: ds_ecn_def ip6_flow_dec_hops) (simp add: dec_hops_def)

lemma ip6_flow_bytes: "4 \<le> length d \<Longrightarrow> le_bytes 4 (bswap32 (ip6_flow d)) = take 4 d"
  by (simp add: ip6_flow_def load_def le_bytes_le_word)

lemma ecn_setup_id:
  assumes "4 \<le> length d" and "ce_marked (ds_ecn d)"
  shows "(if ip_v d = IPVERSION then ip4_ecn_setup d else ip6_ecn_setup d) = d"
proof (cases "ip_v d = IPVERSION")
  case True
  then have "d ! 1 OR 3 = d ! 1" using assms(2) by (simp add: ce_marked_def ds_ecn_def or_3_id)
  with True show ?thesis by (simp add: ip4_ecn_setup_def IPTOS_ECN_CE_def list_update_same_conv)
next
  case False
  then have "bit (ip6_flow d) 20" "bit (ip6_flow d) (Suc 20)"
    using assms(2) ds_ecn_bit_6 [of d 0] ds_ecn_bit_6 [of d 1] by (simp_all add: ce_marked_def)
  from or_push_3_id [OF this] have "ip6_flow d OR push_bit 20 3 = ip6_flow d" .
  with False assms(1) show ?thesis
    by (simp add: ip6_ecn_setup_def IPTOS_ECN_CE_def ip6_flow_bytes) (simp add: store_def)
qed

lemma flow_fields:
  fixes v ds :: u8
  shows "(ucast (drop_bit 28 (push_bit 28 (ucast v) OR push_bit 20 (ucast ds) :: u32)) :: u8) = take_bit 4 v"
    and "(ucast (drop_bit 20 (push_bit 28 (ucast v) OR push_bit 20 (ucast ds) :: u32)) :: u8) = ds"
  by (rule bit_word_eqI; auto simp: bit_simps dest: bit_imp_le_length)+

lemma ip6_header_fields:
  "ip_v (ip6_header ds n src dst @ d) = 6" "ds_ecn (ip6_header ds n src dst @ d) = ds"
proof -
  have f: "ip6_flow (ip6_header ds n src dst @ d) = push_bit 28 (ucast (6 :: u8)) OR push_bit 20 (ucast ds)"
    by simp
  have "4 \<le> length (ip6_header ds n src dst @ d)" by (simp add: ip6_header_def)
  then show v: "ip_v (ip6_header ds n src dst @ d) = 6"
    by (simp only: ip_v_flow f flow_fields) simp
  show "ds_ecn (ip6_header ds n src dst @ d) = ds"
    unfolding ds_ecn_def v f by (simp only: flow_fields) (simp add: IPVERSION_def)
qed

lemma ip4_header_fields:
  "ip_v (ip4_header ds n ck src dst @ d) = 4" "ds_ecn (ip4_header ds n ck src dst @ d) = ds"
  by (simp_all add: ip4_header_def ip_v_def ds_ecn_def IPVERSION_def)

text \<open>The packet behind \<open>ipip_outbound\<close>: the header, room for what follows it, and the old packet
  with one hop less.\<close>

definition tunnel_header :: "bool \<Rightarrow> u8 \<Rightarrow> nat \<Rightarrow> bytes \<Rightarrow> bytes \<Rightarrow> bytes \<Rightarrow> bytes" where
  "tunnel_header six ds n ck src dst =
     (if six then ip6_header ds n src dst else ip4_header ds n ck src dst)"

definition tunnel_len :: "bool \<Rightarrow> nat" where "tunnel_len six = (if six then 40 else 20)"

lemma length_tunnel_header [simp]:
  "length src = 16 \<Longrightarrow> length dst = 16 \<Longrightarrow> length ck = 2 \<Longrightarrow> length (tunnel_header six ds n ck src dst) = tunnel_len six"
  by (simp add: tunnel_header_def tunnel_len_def)

lemma tunnel_header_fields:
  "ip_v (tunnel_header six ds n ck src dst @ d) = (if six then IP6_VERSION else IPVERSION)"
  "ds_ecn (tunnel_header six ds n ck src dst @ d) = ds"
  by (simp_all add: tunnel_header_def ip6_header_fields ip4_header_fields IPVERSION_def IP6_VERSION_def)

lemma ipip_outbound_eq:
  assumes "length src = 16" and "length dst = 16"
  shows "ipip_outbound offset six src dst m =
    (if length (headroom m) < offset + tunnel_len six then None
     else let k = length (headroom m) - (offset + tunnel_len six); room = drop k (headroom m);
              h = tunnel_header six (ds_ecn (mdata m)) (offset + tunnel_len six + length (mdata m))
                    (take 2 (drop 10 room)) src dst
          in Some (m\<lparr>headroom := take k (headroom m),
                     mdata := h @ drop (tunnel_len six) room @ dec_hops (mdata m)\<rparr>))"
  using assms
  by (auto simp: ipip_outbound_def rte_pktmbuf_prepend_def Let_def outer_ip6_eq outer_ip4_eq
      tunnel_header_def tunnel_len_def)

lemma ipip_inbound_eq:
  assumes "mdata m = tunnel_header six ds n ck src dst @ gap @ d"
    and "length src = 16" and "length dst = 16" and "length ck = 2" and "length gap = offset"
    and "4 \<le> length d" and "ds = ds_ecn d"
  shows "\<exists>m'. ipip_inbound offset m = Some m' \<and> mdata m' = dec_hops d \<and> tailroom m' = tailroom m \<and> priv m' = priv m"
proof -
  have l: "(if ip_v (mdata m) = IPVERSION then 20 else 40) = tunnel_len six"
    by (simp add: assms(1) tunnel_header_fields tunnel_len_def IPVERSION_def IP6_VERSION_def)
  have e: "outer_ecn (mdata m) = ce_marked (ds_ecn d)"
    by (simp add: outer_ecn_iff assms(1,7) tunnel_header_fields)
  have "offset + tunnel_len six \<le> length (mdata m)" using assms by simp
  moreover have "drop (offset + tunnel_len six) (mdata m) = d" using assms by simp
  ultimately show ?thesis unfolding ipip_inbound_def l e
    using ecn_setup_id [OF assms(6)] by (auto simp: Let_def adj_eq)
qed

lemma ipip_roundtrip_buf:
  assumes "length src = 16" and "length dst = 16" and "4 \<le> length (mdata m)"
    and "ipip_outbound offset six src dst m = Some m'"
  shows "\<exists>m''. ipip_inbound offset m' = Some m'' \<and> mdata m'' = dec_hops (dec_hops (mdata m))"
proof -
  let ?room = "drop (length (headroom m) - (offset + tunnel_len six)) (headroom m)"
  from assms(4) have h: "\<not> length (headroom m) < offset + tunnel_len six"
    unfolding ipip_outbound_eq [OF assms(1,2)] by (auto split: if_splits)
  then have "length (take 2 (drop 10 ?room)) = 2" "length (drop (tunnel_len six) ?room) = offset"
    by (simp_all add: tunnel_len_def)
  moreover from assms(4) h have "mdata m' = tunnel_header six (ds_ecn (mdata m))
      (offset + tunnel_len six + length (mdata m)) (take 2 (drop 10 ?room)) src dst
      @ drop (tunnel_len six) ?room @ dec_hops (mdata m)"
    unfolding ipip_outbound_eq [OF assms(1,2)] by (auto simp: Let_def)
  ultimately show ?thesis
    using ipip_inbound_eq [where d = "dec_hops (mdata m)" and m = m'] assms(1-3) by fastforce
qed
section \<open>Properties\<close>

text \<open>What \<^verbatim>\<open>ipip_outbound\<close> encapsulates, over IPv4 or IPv6, \<^verbatim>\<open>ipip_inbound\<close>
  with the same offset gives back, except that the inner hop limit went down by one at each end:
  the congestion mark copied to the outer header never changes the inner one.\<close>

theorem ipip_roundtrip:
  assumes "length src = 16" and "length dst = 16" and "4 \<le> length (mdata m)"
    and "ipip_outbound offset six src dst m = Some m'"
  shows "\<exists>m''. ipip_inbound offset m' = Some m'' \<and> mdata m'' = dec_hops (dec_hops (mdata m))"
  using assms by (rule ipip_roundtrip_buf)

definition sample_buf :: pktbuf where
  "sample_buf = \<lparr>headroom = replicate 128 7, mdata = 0x45 # 3 # replicate 26 9, tailroom = replicate 64 1, priv = replicate 32 0\<rparr>"

theorem ipip_roundtrip_witness:
  "\<exists>m' m''. ipip_outbound 24 True (replicate 16 1) (replicate 16 2) sample_buf = Some m'
    \<and> ipip_inbound 24 m' = Some m'' \<and> mdata m'' = 0x45 # 3 # replicate 6 9 @ 7 # replicate 19 9"
proof -
  obtain m' where m': "ipip_outbound 24 True (replicate 16 1) (replicate 16 2) sample_buf = Some m'"
    by (simp add: ipip_outbound_eq sample_buf_def tunnel_len_def Let_def)
  have "dec_hops (dec_hops (mdata sample_buf)) = 0x45 # 3 # replicate 6 9 @ 7 # replicate 19 9" by code_simp
  moreover have "4 \<le> length (mdata sample_buf)" by (simp add: sample_buf_def)
  ultimately show ?thesis using ipip_roundtrip [OF _ _ _ m'] m' by auto
qed

text \<open>The outer header \<^verbatim>\<open>ipip_outbound\<close> writes: version, traffic class copied from the
  inner header, protocol ESP and the addresses of the association.  The length field is the length
  of the whole packet; for IPv6 it should leave out the 40 bytes of the header itself.\<close>

theorem ipip_outbound_header:
  assumes "length src = 16" and "length dst = 16"
    and "ipip_outbound offset six src dst m = Some m'"
  shows "length (mdata m') = offset + (if six then 40 else 20) + length (mdata m)
    \<and> take (if six then 8 else 10) (mdata m') =
       (let n = htons_bytes (length (mdata m')); ds = ds_ecn (mdata m)
        in if six then le_bytes 4 (bswap32 (push_bit 28 6 OR push_bit 20 (ucast ds))) @ n @ [IPPROTO_ESP, IPDEFTTL]
           else [0x45, ds] @ n @ [0, 0, 0, 0, IPDEFTTL, IPPROTO_ESP])
    \<and> (if six then take 32 (drop 8 (mdata m')) = src @ dst
       else take 8 (drop 12 (mdata m')) = take 4 src @ take 4 dst)"
proof -
  let ?room = "drop (length (headroom m) - (offset + tunnel_len six)) (headroom m)"
  from assms(3) have "\<not> length (headroom m) < offset + tunnel_len six"
    unfolding ipip_outbound_eq [OF assms(1,2)] by (auto split: if_splits)
  moreover from this assms(3) have "mdata m' = tunnel_header six (ds_ecn (mdata m))
      (offset + tunnel_len six + length (mdata m)) (take 2 (drop 10 ?room)) src dst
      @ drop (tunnel_len six) ?room @ dec_hops (mdata m)"
    unfolding ipip_outbound_eq [OF assms(1,2)] by (auto simp: Let_def)
  ultimately show ?thesis using assms(1,2)
    by (auto simp: tunnel_header_def tunnel_len_def ip6_header_def ip4_header_def ac_simps)
qed

theorem ipip_outbound_header_witness:
  "\<exists>m'. ipip_outbound 24 True (replicate 16 1) (replicate 16 2) sample_buf = Some m'
    \<and> take 2 (drop 4 (mdata m')) = htons_bytes 92"
proof -
  obtain m' where m': "ipip_outbound 24 True (replicate 16 1) (replicate 16 2) sample_buf = Some m'"
    by (simp add: ipip_outbound_eq sample_buf_def tunnel_len_def Let_def)
  have l: "length (mdata m') = 92" and t: "take 8 (mdata m') = le_bytes 4 (bswap32 (push_bit 28 6 OR push_bit 20
      (ucast (ds_ecn (mdata sample_buf))))) @ htons_bytes (length (mdata m')) @ [IPPROTO_ESP, IPDEFTTL]"
    using ipip_outbound_header [OF _ _ m'] by (simp_all add: sample_buf_def)
  have "take 2 (drop 4 (mdata m')) = take 2 (drop 4 (take 8 (mdata m')))" by (simp add: drop_take)
  then show ?thesis using m' l unfolding t by simp
qed

end
