(* ===== verification/Esp.thy ===== *)
theory Esp
  imports Ipip
begin

text \<open>
  ESP processing, \<^verbatim>\<open>esp.c\<close>.  A function returns the code's return value with the buffer,
  the security association and the crypto operation it leaves behind; \<open>None\<close> is a write
  through a null pointer.  Only the outbound side changes the association (its sequence
  number).  The crypto device is not part of the code; what it leaves unchanged is stated where
  a property needs it.
\<close>

section \<open>Outbound\<close>

definition EINVAL :: int where "EINVAL = 22"
definition ENOSPC :: int where "ENOSPC = 28"
definition IP_MAXPACKET :: nat where "IP_MAXPACKET = 65535"
definition IPPROTO_IPIP :: u8 where "IPPROTO_IPIP = 4"
definition IPPROTO_IPV6 :: u8 where "IPPROTO_IPV6 = 41"

text \<open>The header length of transport mode and the next protocol; \<open>None\<close> for an unknown
  version.\<close>

definition outbound_next :: "ipsec_sa \<Rightarrow> bytes \<Rightarrow> (u16 \<times> u8) option" where
  "outbound_next sa d =
     (if ip_v d = IPVERSION then
        Some (if flags sa = TRANSPORT then (of_nat (ip_hl d * 4), d ! 9) else (0, IPPROTO_IPIP))
      else if ip_v d = IP6_VERSION then
        Some (if flags sa = TRANSPORT then (40, d ! 6) else (0, IPPROTO_IPV6))
      else None)"

text \<open>\<^verbatim>\<open>RTE_ALIGN_CEIL\<close> on 32-bit values.\<close>

definition RTE_ALIGN_CEIL :: "u32 \<Rightarrow> u32 \<Rightarrow> u32" where
  "RTE_ALIGN_CEIL v a = (v + (a - 1)) AND NOT (a - 1)"

definition esp_pad :: "u32 \<Rightarrow> u16 \<Rightarrow> u16 \<Rightarrow> u16 \<times> u16" where
  "esp_pad pkt_len ip_hdr_len bs =
     (let pad_payload_len = ucast (RTE_ALIGN_CEIL (pkt_len - ucast ip_hdr_len + 2) (ucast bs))
      in (pad_payload_len, ucast (ucast pad_payload_len + ucast ip_hdr_len - pkt_len)))"

text \<open>The new headers.  In transport mode the code moves the old header with
  \<^verbatim>\<open>memmove\<close> and then reads the version through the old pointer.\<close>

definition transport_outbound :: "nat \<Rightarrow> nat \<Rightarrow> pktbuf \<Rightarrow> pktbuf option" where
  "transport_outbound ext ip_hdr_len m =
     (case rte_pktmbuf_prepend ext m of
        None \<Rightarrow> None
      | Some m \<Rightarrow>
          let m = poke 0 (take ip_hdr_len (drop ext (mdata m))) m;
              n = htons_bytes (length (mdata m))
          in if ip_v (drop ext (mdata m)) = IPVERSION
             then Some (poke 2 n (poke 9 [IPPROTO_ESP] m))
             else Some (poke 4 n (poke 6 [IPPROTO_ESP] m)))"

definition esp_new_headers :: "ipsec_sa \<Rightarrow> nat \<Rightarrow> nat \<Rightarrow> pktbuf \<Rightarrow> pktbuf option" where
  "esp_new_headers sa ext ip_hdr_len m =
     (if flags sa = IP4_TUNNEL then ipip_outbound ext False (sa_src sa) (sa_dst sa) m
      else if flags sa = IP6_TUNNEL then ipip_outbound ext True (sa_src sa) (sa_dst sa) m
      else transport_outbound ext ip_hdr_len m)"

definition esp_padding :: "nat \<Rightarrow> u8 \<Rightarrow> bytes" where
  "esp_padding pad_len nlp = map (\<lambda>i. of_nat (i + 1)) [0..<pad_len - 2] @ [of_nat (pad_len - 2), nlp]"

text \<open>The initialisation vector and the range to encrypt, by cipher.\<close>

definition outbound_cipher :: "ipsec_sa \<Rightarrow> nat \<Rightarrow> nat \<Rightarrow> pktbuf \<Rightarrow> sym_op \<Rightarrow> (pktbuf \<times> sym_op) option" where
  "outbound_cipher sa hl pad_payload m cop =
     (let iv = hl + 8; ivl = unat (iv_len sa)
      in if cipher_algo sa \<in> {CIPHER_NULL, CIPHER_AES_CBC} then
           Some (poke iv (replicate ivl 0) m, cop\<lparr>cipher_offset := hl + 8, cipher_length := pad_payload + ivl\<rparr>)
         else if cipher_algo sa \<in> {CIPHER_AES_CTR, CIPHER_AES_GCM} then
           Some (poke iv (le_bytes 8 (sa_seq sa)) m, cop\<lparr>cipher_offset := hl + 8 + ivl, cipher_length := pad_payload\<rparr>)
         else None)"

definition outbound_auth :: "ipsec_sa \<Rightarrow> nat \<Rightarrow> nat \<Rightarrow> pktbuf \<Rightarrow> sym_op \<Rightarrow> (pktbuf \<times> sym_op) option" where
  "outbound_auth sa hl pad_payload m cop =
     (if auth_algo sa \<in> {AUTH_NULL, AUTH_SHA1_HMAC, AUTH_SHA256_HMAC} then
        Some (m, cop\<lparr>auth_offset := hl, auth_length := 8 + unat (iv_len sa) + pad_payload\<rparr>)
      else if auth_algo sa = AUTH_AES_GCM then
        Some (set_aad (take 8 (drop hl (mdata m))) m, cop\<lparr>aad_data := In_priv 16, aad_length := 8\<rparr>)
      else None)"

text \<open>From the new headers on: sequence number, ESP header, padding and the crypto operation.
  \<open>pad\<close> is the offset of the padding.\<close>

definition esp_fill :: "ipsec_sa \<Rightarrow> nat \<Rightarrow> nat \<Rightarrow> nat \<Rightarrow> u8 \<Rightarrow> nat \<Rightarrow> pktbuf \<Rightarrow> sym_op \<Rightarrow>
    int \<times> pktbuf \<times> ipsec_sa \<times> sym_op" where
  "esp_fill sa hl pad_payload pad_len nlp pad m cop =
     (let sa = sa\<lparr>sa_seq := sa_seq sa + 1\<rparr>;
          m = poke hl (le_bytes 4 (bswap32 (spi sa))) m;
          m = poke (hl + 4) (le_bytes 4 (bswap32 (ucast (sa_seq sa)))) m
      in case outbound_cipher sa hl pad_payload m cop of
           None \<Rightarrow> (- EINVAL, m, sa, cop)
         | Some (m, cop) \<Rightarrow>
             let m = poke pad (esp_padding pad_len nlp) m;
                 m = set_cnt_blk (salt sa) (le_bytes 8 (sa_seq sa)) (bswap32 1) m;
                 cop = cop\<lparr>iv_data := In_priv 0, iv_length := 16\<rparr>
             in case outbound_auth sa hl pad_payload m cop of
                  None \<Rightarrow> (- EINVAL, m, sa, cop)
                | Some (m, cop) \<Rightarrow>
                    (0, m, sa, cop\<lparr>digest_data := In_packet (length (mdata m) - unat (digest_len sa)),
                                   digest_length := unat (digest_len sa)\<rparr>))"

definition esp_outbound :: "pktbuf \<Rightarrow> ipsec_sa \<Rightarrow> sym_op \<Rightarrow> (int \<times> pktbuf \<times> ipsec_sa \<times> sym_op) option" where
  "esp_outbound m sa cop =
     (case outbound_next sa (mdata m) of
        None \<Rightarrow> Some (- EINVAL, m, sa, cop)
      | Some (ip_hdr_len, nlp) \<Rightarrow>
          let (pad_payload_len, pad_len) = esp_pad (of_nat (length (mdata m))) ip_hdr_len (block_size sa);
              hl = (if flags sa = IP4_TUNNEL then 20 else if flags sa = IP6_TUNNEL then 40 else unat ip_hdr_len);
              ext = 8 + unat (iv_len sa)
          in if flags sa \<notin> {IP4_TUNNEL, IP6_TUNNEL, TRANSPORT} then Some (- EINVAL, m, sa, cop)
             else if IP_MAXPACKET < hl + ext + unat pad_payload_len + unat (digest_len sa)
             then Some (- EINVAL, m, sa, cop)
             else case rte_pktmbuf_append (unat (pad_len + digest_len sa)) m of
                    None \<Rightarrow> Some (- ENOSPC, m, sa, cop)
                  | Some m' \<Rightarrow>
                      (case esp_new_headers sa ext hl m' of
                         None \<Rightarrow> None
                       | Some m'' \<Rightarrow>
                           let pad = length (mdata m) + (length (mdata m'') - length (mdata m'))
                           in Some (esp_fill sa hl (unat pad_payload_len) (unat pad_len) nlp pad m'' cop)))"

definition esp_outbound_post :: "op_status \<Rightarrow> int" where
  "esp_outbound_post status = (if status \<noteq> STATUS_SUCCESS then -1 else 0)"

section \<open>Inbound\<close>

definition inbound_hdr_len :: "bytes \<Rightarrow> nat option" where
  "inbound_hdr_len d =
     (if ip_v d = IPVERSION then Some (ip_hl d * 4)
      else if ip_v d = IP6_VERSION then Some 40
      else None)"

text \<open>The counter block takes the salt and the eight IV bytes of the packet.\<close>

definition inbound_cipher :: "ipsec_sa \<Rightarrow> nat \<Rightarrow> pktbuf \<Rightarrow> sym_op \<Rightarrow> (pktbuf \<times> sym_op) option" where
  "inbound_cipher sa hl m cop =
     (if cipher_algo sa \<in> {CIPHER_NULL, CIPHER_AES_CBC} then
        Some (m, cop\<lparr>iv_data := In_packet (hl + 8), iv_length := unat (iv_len sa)\<rparr>)
      else if cipher_algo sa \<in> {CIPHER_AES_CTR, CIPHER_AES_GCM} then
        Some (set_cnt_blk (salt sa) (take 8 (drop (hl + 8) (mdata m))) (bswap32 1) m,
              cop\<lparr>iv_data := In_priv 0, iv_length := 16\<rparr>)
      else None)"

definition inbound_auth :: "ipsec_sa \<Rightarrow> nat \<Rightarrow> nat \<Rightarrow> pktbuf \<Rightarrow> sym_op \<Rightarrow> (pktbuf \<times> sym_op) option" where
  "inbound_auth sa hl payload_len m cop =
     (if auth_algo sa \<in> {AUTH_NULL, AUTH_SHA1_HMAC, AUTH_SHA256_HMAC} then
        Some (m, cop\<lparr>auth_offset := hl, auth_length := 8 + unat (iv_len sa) + payload_len\<rparr>)
      else if auth_algo sa = AUTH_AES_GCM then
        Some (set_aad (take 8 (drop hl (mdata m))) m, cop\<lparr>aad_data := In_priv 16, aad_length := 8\<rparr>)
      else None)"

definition esp_inbound :: "pktbuf \<Rightarrow> ipsec_sa \<Rightarrow> sym_op \<Rightarrow> int \<times> pktbuf \<times> sym_op" where
  "esp_inbound m sa cop =
     (case inbound_hdr_len (mdata m) of
        None \<Rightarrow> (- EINVAL, m, cop)
      | Some hl \<Rightarrow>
          let payload_len = of_nat (length (mdata m)) - of_nat hl - 8 - ucast (iv_len sa) - ucast (digest_len sa) :: u32
          in if payload_len AND (ucast (block_size sa) - 1) \<noteq> 0 \<or> sint payload_len \<le> 0
             then (- EINVAL, m, cop)
             else
          let cop = cop\<lparr>cipher_offset := hl + 8 + unat (iv_len sa), cipher_length := unat payload_len\<rparr>
          in case inbound_cipher sa hl m cop of
               None \<Rightarrow> (- EINVAL, m, cop)
             | Some (m, cop) \<Rightarrow>
                 (case inbound_auth sa hl (unat payload_len) m cop of
                    None \<Rightarrow> (- EINVAL, m, cop)
                  | Some (m, cop) \<Rightarrow>
                      (0, m, cop\<lparr>digest_data := In_packet (length (mdata m) - unat (digest_len sa)),
                                 digest_length := unat (digest_len sa)\<rparr>)))"

text \<open>Bytes below the data; \<open>below\<close> is what lies in front of the headroom.\<close>

definition peek :: "(int \<Rightarrow> u8) \<Rightarrow> pktbuf \<Rightarrow> int \<Rightarrow> u8" where
  "peek below m i =
     (if 0 \<le> i then mdata m ! nat i
      else if - int (length (headroom m)) \<le> i then headroom m ! nat (int (length (headroom m)) + i)
      else below i)"

definition padding_ok :: "(int \<Rightarrow> u8) \<Rightarrow> pktbuf \<Rightarrow> int \<Rightarrow> nat \<Rightarrow> bool" where
  "padding_ok below m at pad_len = (\<forall>i<pad_len. peek below m (at - int pad_len + int i) = of_nat (i + 1))"

definition transport_inbound :: "nat \<Rightarrow> u8 \<Rightarrow> pktbuf \<Rightarrow> pktbuf option" where
  "transport_inbound ext nexthdr m =
     (let d = mdata m @ tailroom m
      in case rte_pktmbuf_adj ext m of
           None \<Rightarrow> None
         | Some m \<Rightarrow>
             let n = htons_bytes (length (mdata m))
             in if ip_v d = IPVERSION
                then Some (poke 2 n (poke 9 [nexthdr] (poke 0 (take (ip_hl d * 4) d) m)))
                else Some (poke 4 n (poke 6 [nexthdr] (poke 0 (take 40 d) m))))"

definition esp_inbound_post :: "(int \<Rightarrow> u8) \<Rightarrow> pktbuf \<Rightarrow> ipsec_sa \<Rightarrow> op_status \<Rightarrow> (int \<times> pktbuf) option" where
  "esp_inbound_post below m sa status =
     (if status \<noteq> STATUS_SUCCESS then Some (-1, m)
      else
        let nexthdr_at = int (length (mdata m)) - int (unat (digest_len sa)) - 1;
            nexthdr = peek below m nexthdr_at;
            pad_len = unat (peek below m (nexthdr_at - 1))
        in if \<not> padding_ok below m (nexthdr_at - 1) pad_len then Some (- EINVAL, m)
           else case rte_pktmbuf_trim (pad_len + 2 + unat (digest_len sa)) m of
                  None \<Rightarrow> Some (- EINVAL, m)
                | Some m \<Rightarrow>
                    let ext = 8 + unat (iv_len sa)
                    in map_option (\<lambda>m. (0, m))
                         (if flags sa = TRANSPORT then transport_inbound ext nexthdr m else ipip_inbound ext m))"

section \<open>The padded length\<close>

lemma unat_push_drop:
  "unat (push_bit k (drop_bit k (w :: 'a::len word))) = unat w div 2 ^ k * 2 ^ k"
proof -
  have "unat w div 2 ^ k * 2 ^ k < 2 ^ LENGTH('a)"
    using unsigned_less [where 'a = nat, of w] by (rule le_less_trans [rotated]) simp
  then show ?thesis
    unfolding unsigned_push_bit_eq unat_drop_bit_eq
    by (simp add: push_bit_eq_mult drop_bit_eq_div take_bit_nat_eq_self)
qed

lemma and_not_mask_eq: "w AND NOT (mask k) = push_bit k (drop_bit k (w :: 'a::len word))"
  by (rule bit_word_eqI) (auto simp: bit_simps)

lemma unat_power_2_eq: "unat (w :: 'a::len word) = 2 ^ k \<Longrightarrow> w = 2 ^ k"
proof -
  assume u: "unat w = 2 ^ k"
  have "w = of_nat (unat w)" by simp
  then show ?thesis unfolding u by simp
qed

lemma unat_ucast_up: "LENGTH('a) \<le> LENGTH('b) \<Longrightarrow> unat (ucast (w :: 'a::len word) :: 'b::len word) = unat w"
proof -
  assume "LENGTH('a) \<le> LENGTH('b)"
  then have "unat w < 2 ^ LENGTH('b)"
    by (intro order_less_le_trans [OF unsigned_less]) (simp add: power_increasing)
  then show ?thesis by (simp add: unsigned_ucast_eq take_bit_nat_eq_self)
qed

lemma RTE_ALIGN_CEIL_eq:
  assumes "unat a = 2 ^ k" and "unat v + 2 ^ k \<le> 2 ^ 32"
  shows "unat (RTE_ALIGN_CEIL v a) = (unat v + 2 ^ k - 1) div 2 ^ k * 2 ^ k"
proof -
  have a: "a - 1 = mask k" using unat_power_2_eq [OF assms(1)] by (simp add: mask_eq_exp_minus_1)
  have "unat (a - 1) = 2 ^ k - 1" using assms(1) by (metis unat_minus_one unsigned_0 power_not_zero zero_neq_numeral)
  then have "unat (v + (a - 1)) = unat v + (2 ^ k - 1)"
    using assms(2) by (subst unat_plus_simple [THEN iffD1]) (auto simp: no_olen_add_nat)
  then show ?thesis
    unfolding RTE_ALIGN_CEIL_def a and_not_mask_eq unat_push_drop by simp
qed

text \<open>\<open>pad_to bs n\<close> is the least multiple of \<open>bs\<close> that is at least \<open>n\<close>.\<close>

definition pad_to :: "nat \<Rightarrow> nat \<Rightarrow> nat" where "pad_to bs n = (n + bs - 1) div bs * bs"

lemma pad_to_bounds: "0 < bs \<Longrightarrow> n \<le> pad_to bs n \<and> pad_to bs n < n + bs \<and> bs dvd pad_to bs n"
proof -
  assume "0 < bs"
  define x where "x = n + bs - 1"
  have "x div bs * bs + x mod bs = x" "x mod bs < bs" using \<open>0 < bs\<close> by simp_all
  moreover have "x + 1 = n + bs" using \<open>0 < bs\<close> by (simp add: x_def)
  ultimately have "n \<le> x div bs * bs" "x div bs * bs < n + bs" by linarith+
  then show ?thesis by (simp add: pad_to_def x_def)
qed

lemma esp_pad_eq:
  assumes "unat bs = 2 ^ k" and "unat hl \<le> n" and "pad_to (2 ^ k) (n - unat hl + 2) < 2 ^ 16" and "n < 2 ^ 16"
  shows "\<exists>pp pl. esp_pad (of_nat n) hl bs = (pp, pl)
    \<and> unat pp = pad_to (2 ^ k) (n - unat hl + 2) \<and> unat pl = unat pp - (n - unat hl)"
proof -
  let ?N = "n - unat hl + 2"
  have k: "(2::nat) ^ k < 2 ^ 16" using unsigned_less [where 'a = nat, of bs] assms(1) by simp
  have n: "unat (of_nat n :: u32) = n" using assms(4) by (intro unat_of_nat_eq) simp
  have h: "unat (ucast hl :: u32) = unat hl" by (simp add: unat_ucast_up)
  have d: "unat (of_nat n - ucast hl :: u32) = n - unat hl"
    using assms(2) n h by (simp add: unat_sub_if')
  have "unat (of_nat n - ucast hl + 2 :: u32) = ?N"
    using assms(4) d by (subst unat_plus_simple [THEN iffD1]) (auto simp: no_olen_add_nat)
  moreover have "unat (ucast bs :: u32) = 2 ^ k" using assms(1) by (simp add: unat_ucast_up)
  ultimately have c: "unat (RTE_ALIGN_CEIL (of_nat n - ucast hl + 2) (ucast bs)) = pad_to (2 ^ k) ?N"
    using RTE_ALIGN_CEIL_eq [of "ucast bs" k "of_nat n - ucast hl + 2"] assms(4) k by (simp add: pad_to_def)
  define pp where "pp = (ucast (RTE_ALIGN_CEIL (of_nat n - ucast hl + 2) (ucast bs)) :: u16)"
  define pl where "pl = (ucast (ucast pp + ucast hl - of_nat n :: u32) :: u16)"
  have pp: "unat pp = pad_to (2 ^ k) ?N"
    unfolding pp_def using c assms(3) by (simp add: unsigned_ucast_eq take_bit_nat_eq_self)
  have b: "?N \<le> unat pp" using pad_to_bounds [of "2 ^ k" ?N] unfolding pp by simp
  have "unat (ucast pp + ucast hl :: u32) = unat pp + unat hl"
    using unsigned_less [where 'a = nat, of pp] unsigned_less [where 'a = nat, of hl]
    by (simp add: unat_word_ariths unat_ucast_up)
  then have "unat (ucast pp + ucast hl - of_nat n :: u32) = unat pp + unat hl - n"
    using b n assms(2) by (simp add: unat_sub_if')
  then have "unat pl = unat pp - (n - unat hl)"
    unfolding pl_def using assms(2) unsigned_less [where 'a = nat, of pp]
    by (simp add: unsigned_ucast_eq take_bit_nat_eq_self)
  moreover have "esp_pad (of_nat n) hl bs = (pp, pl)"
    by (simp add: esp_pad_def pp_def pl_def Let_def)
  ultimately show ?thesis using pp by blast
qed

section \<open>The outbound tunnel packet\<close>

definition tunnel_flags :: "ipsec_sa \<Rightarrow> bool" where
  "tunnel_flags sa \<longleftrightarrow> flags sa = IP4_TUNNEL \<or> flags sa = IP6_TUNNEL"

text \<open>Associations whose lengths fit their algorithms, as the tables of \<^verbatim>\<open>sa.c\<close> give them.\<close>

definition sa_ok :: "ipsec_sa \<Rightarrow> bool" where
  "sa_ok sa \<longleftrightarrow> length (sa_src sa) = 16 \<and> length (sa_dst sa) = 16
     \<and> block_size sa \<in> {4, 16} \<and> digest_len sa \<le> 16
     \<and> (cipher_algo sa, iv_len sa) \<in> {(CIPHER_NULL, 0), (CIPHER_AES_CBC, 16), (CIPHER_AES_CTR, 8), (CIPHER_AES_GCM, 8)}
     \<and> auth_algo sa \<in> {AUTH_NULL, AUTH_SHA1_HMAC, AUTH_SHA256_HMAC, AUTH_AES_GCM}"

definition out_pad :: "ipsec_sa \<Rightarrow> nat \<Rightarrow> nat" where
  "out_pad sa n = pad_to (unat (block_size sa)) (n + 2)"

definition out_iv :: "ipsec_sa \<Rightarrow> bytes" where
  "out_iv sa = (if cipher_algo sa \<in> {CIPHER_NULL, CIPHER_AES_CBC} then replicate (unat (iv_len sa)) 0
     else le_bytes 8 (sa_seq sa))"

definition esp_header :: "ipsec_sa \<Rightarrow> bytes" where
  "esp_header sa = le_bytes 4 (bswap32 (spi sa)) @ le_bytes 4 (bswap32 (ucast (sa_seq sa)))"

lemma length_out_iv: "sa_ok sa \<Longrightarrow> length (out_iv sa) = unat (iv_len sa)"
  by (auto simp: sa_ok_def out_iv_def)

lemma length_esp_header [simp]: "length (esp_header sa) = 8"
  by (simp add: esp_header_def)

lemma length_esp_padding: "2 \<le> n \<Longrightarrow> length (esp_padding n nlp) = n"
  by (simp add: esp_padding_def)

lemma mdata_set_cnt_blk [simp]: "mdata (set_cnt_blk sl iv c m) = mdata m" "tailroom (set_cnt_blk sl iv c m) = tailroom m"
  "headroom (set_cnt_blk sl iv c m) = headroom m"
  by (simp_all add: set_cnt_blk_def)

lemma mdata_set_aad [simp]: "mdata (set_aad ys m) = mdata m" "tailroom (set_aad ys m) = tailroom m"
  "headroom (set_aad ys m) = headroom m"
  by (simp_all add: set_aad_def)

lemma outbound_auth_ok:
  assumes "sa_ok sa"
  shows "\<exists>m' cop'. outbound_auth sa hl pp m cop = Some (m', cop') \<and> mdata m' = mdata m
    \<and> cipher_offset cop' = cipher_offset cop \<and> cipher_length cop' = cipher_length cop"
  using assms by (auto simp: outbound_auth_def sa_ok_def)

lemma outbound_cipher_ok:
  assumes "sa_ok sa" and "length F = hl + 8" and "unat (iv_len sa) \<le> length r"
  shows "\<exists>cop'. outbound_cipher sa hl pp (m\<lparr>mdata := F @ r\<rparr>) cop
      = Some (m\<lparr>mdata := (F @ out_iv sa) @ drop (unat (iv_len sa)) r\<rparr>, cop')
    \<and> cipher_offset cop' + cipher_length cop' = hl + 8 + unat (iv_len sa) + pp
    \<and> (cipher_algo sa \<noteq> CIPHER_AES_CBC \<longrightarrow> cipher_offset cop' = hl + 8 + unat (iv_len sa))"
  using assms by (auto simp: outbound_cipher_def sa_ok_def out_iv_def poke_next)

text \<open>From the new headers on: \<open>H\<close> is the outer header, \<open>gap\<close> the room for the ESP header and the
  IV, \<open>d\<close> the inner packet, \<open>T\<close> the appended bytes.\<close>

lemma esp_fill_eq:
  assumes "sa_ok sa" and "length H = hl" and "length gap = 8 + unat (iv_len sa)"
    and "pad = hl + 8 + unat (iv_len sa) + length d" and "2 \<le> pl" and "pl \<le> length T"
    and "mdata m = H @ gap @ d @ T"
  defines "sa' \<equiv> sa\<lparr>sa_seq := sa_seq sa + 1\<rparr>"
  shows "\<exists>m' cop'. esp_fill sa hl pp pl nlp pad m cop = (0, m', sa', cop')
    \<and> mdata m' = H @ esp_header sa' @ out_iv sa' @ d @ esp_padding pl nlp @ drop pl T
    \<and> cipher_offset cop' + cipher_length cop' = hl + 8 + unat (iv_len sa) + pp
    \<and> digest_data cop' = In_packet (length (mdata m) - unat (digest_len sa))
    \<and> digest_length cop' = unat (digest_len sa)"
proof -
  have ok: "sa_ok sa'" and iv: "iv_len sa' = iv_len sa" using assms(1) by (simp_all add: sa'_def sa_ok_def)
  let ?m1 = "m\<lparr>mdata := (H @ esp_header sa') @ drop 8 gap @ d @ T\<rparr>"
  have m: "m = m\<lparr>mdata := H @ gap @ d @ T\<rparr>" using assms(7) by simp
  have e: "poke (hl + 4) (le_bytes 4 (bswap32 (ucast (sa_seq sa')))) (poke hl (le_bytes 4 (bswap32 (spi sa'))) m) = ?m1"
  proof -
    have "poke hl (le_bytes 4 (bswap32 (spi sa'))) (m\<lparr>mdata := H @ gap @ d @ T\<rparr>)
        = m\<lparr>mdata := (H @ le_bytes 4 (bswap32 (spi sa'))) @ drop 4 gap @ d @ T\<rparr>"
      using assms(2,3) by (subst poke_next) simp_all
    moreover have "poke (hl + 4) (le_bytes 4 (bswap32 (ucast (sa_seq sa')))) \<dots> = ?m1"
      using assms(2,3) by (subst poke_next) (simp_all add: esp_header_def)
    ultimately show ?thesis using m by simp
  qed
  have h8: "length (H @ esp_header sa') = hl + 8" using assms(2) by simp
  have "unat (iv_len sa') \<le> length (drop 8 gap @ d @ T)" using assms(3) iv by simp
  from outbound_cipher_ok [OF ok h8 this, of pp m cop] obtain cop1 where
    c: "outbound_cipher sa' hl pp ?m1 cop = Some (m\<lparr>mdata := ((H @ esp_header sa') @ out_iv sa') @ d @ T\<rparr>, cop1)"
    and cr: "cipher_offset cop1 + cipher_length cop1 = hl + 8 + unat (iv_len sa) + pp"
    using assms(3) iv by auto
  let ?m2 = "m\<lparr>mdata := ((H @ esp_header sa') @ out_iv sa') @ d @ T\<rparr>"
  have p: "poke pad (esp_padding pl nlp) ?m2
      = m\<lparr>mdata := (((H @ esp_header sa') @ out_iv sa') @ d @ esp_padding pl nlp) @ drop pl T\<rparr>"
    using assms(2,4,5,6) length_out_iv [OF ok] iv
    by (subst poke_fill [where k = "length d"]) (simp_all add: length_esp_padding)
  let ?m3 = "set_cnt_blk (salt sa') (le_bytes 8 (sa_seq sa')) (bswap32 1) (poke pad (esp_padding pl nlp) ?m2)"
  obtain m4 cop4 where a: "outbound_auth sa' hl pp ?m3 (cop1\<lparr>iv_data := In_priv 0, iv_length := 16\<rparr>) = Some (m4, cop4)"
    and m4: "mdata m4 = mdata ?m3" "cipher_offset cop4 = cipher_offset cop1" "cipher_length cop4 = cipher_length cop1"
    using outbound_auth_ok [OF ok, of hl pp ?m3 "cop1\<lparr>iv_data := In_priv 0, iv_length := 16\<rparr>"] by auto
  have l: "length (mdata m4) = length (mdata m)"
    unfolding m4(1) using p assms(2,3,5,6,7) length_out_iv [OF ok] iv by (simp add: length_esp_padding)
  have "esp_fill sa hl pp pl nlp pad m cop = (0, m4, sa', cop4\<lparr>digest_data := In_packet (length (mdata m4) - unat (digest_len sa)),
      digest_length := unat (digest_len sa)\<rparr>)"
    using e c a by (simp add: esp_fill_def Let_def sa'_def)
  then show ?thesis using m4 p cr l by auto
qed

lemma dec_hops_append: "9 \<le> length d \<Longrightarrow> dec_hops (d @ T) = dec_hops d @ T"
  by (cases d) (auto simp: dec_hops_def ip_v_def list_update_append nth_append)

lemma ip_v_append: "d \<noteq> [] \<Longrightarrow> ip_v (d @ T) = ip_v d"
  by (cases d) (simp_all add: ip_v_def)

lemma ds_ecn_append: "4 \<le> length d \<Longrightarrow> ds_ecn (d @ T) = ds_ecn d"
  by (cases d) (auto simp: ds_ecn_def ip_v_def ip6_flow_def load_def nth_append)

definition tunnel_next :: "bytes \<Rightarrow> u8" where
  "tunnel_next d = (if ip_v d = IPVERSION then IPPROTO_IPIP else IPPROTO_IPV6)"

lemma sa_ok_block: "sa_ok sa \<Longrightarrow> \<exists>k. unat (block_size sa) = 2 ^ k"
  by (auto simp: sa_ok_def intro: exI [of _ 2] exI [of _ 4])

lemma sa_ok_bounds: "sa_ok sa \<Longrightarrow> unat (block_size sa) \<le> 16 \<and> 0 < unat (block_size sa) \<and> unat (digest_len sa) \<le> 16"
  by (auto simp: sa_ok_def word_le_nat_alt)

lemma out_pad_bounds:
  assumes "sa_ok sa"
  shows "n + 2 \<le> out_pad sa n" "out_pad sa n \<le> n + 17" "unat (block_size sa) dvd out_pad sa n"
  using pad_to_bounds [of "unat (block_size sa)" "n + 2"] sa_ok_bounds [OF assms] by (auto simp: out_pad_def)

lemma esp_pad_tunnel:
  assumes "sa_ok sa" and "out_pad sa n < 2 ^ 16"
  obtains pp pl where "esp_pad (of_nat n) 0 (block_size sa) = (pp, pl)"
    and "unat pp = out_pad sa n" and "unat pl = out_pad sa n - n"
    and "unat (pl + digest_len sa) = out_pad sa n - n + unat (digest_len sa)"
proof -
  obtain k where k: "unat (block_size sa) = 2 ^ k" using sa_ok_block [OF assms(1)] by blast
  have n: "n < 2 ^ 16" using out_pad_bounds(1) [OF assms(1), of n] assms(2) by simp
  have "pad_to (2 ^ k) (n - unat (0 :: u16) + 2) < 2 ^ 16" using assms(2) k by (simp add: out_pad_def)
  from esp_pad_eq [OF k _ this n] obtain pp pl where
    e: "esp_pad (of_nat n) 0 (block_size sa) = (pp, pl)" and pp: "unat pp = out_pad sa n"
    and pl: "unat pl = out_pad sa n - n"
    by (auto simp: out_pad_def k)
  have "unat pl + unat (digest_len sa) \<le> 33"
    using pl out_pad_bounds(2) [OF assms(1), of n] sa_ok_bounds [OF assms(1)] by linarith
  then have "unat pl + unat (digest_len sa) < 2 ^ 16" by simp
  then have "unat (pl + digest_len sa) = unat pl + unat (digest_len sa)"
    by (simp add: unat_word_ariths)
  with that e pp pl show ?thesis by simp
qed

lemma esp_outbound_tunnel_eq:
  assumes ok: "sa_ok sa" "tunnel_flags sa" and d: "ip_v d \<in> {IPVERSION, IP6_VERSION}" "20 \<le> length d" "mdata m = d"
    and size: "hl + 8 + unat (iv_len sa) + out_pad sa (length d) + unat (digest_len sa) \<le> IP_MAXPACKET"
    and head: "hl + 8 + unat (iv_len sa) \<le> length (headroom m)"
    and tail: "out_pad sa (length d) - length d + unat (digest_len sa) \<le> length (tailroom m)"
  defines "six \<equiv> flags sa = IP6_TUNNEL" and "sa' \<equiv> sa\<lparr>sa_seq := sa_seq sa + 1\<rparr>"
    and "pl \<equiv> out_pad sa (length d) - length d"
  assumes hl: "hl = tunnel_len six"
  shows "\<exists>m' cop' ck D. esp_outbound m sa cop = Some (0, m', sa', cop')
    \<and> mdata m' = tunnel_header six (ds_ecn d) (hl + 8 + unat (iv_len sa) + out_pad sa (length d) + unat (digest_len sa))
          ck (sa_src sa) (sa_dst sa)
        @ esp_header sa' @ out_iv sa' @ dec_hops d @ esp_padding pl (tunnel_next d) @ D
    \<and> length ck = 2 \<and> length D = unat (digest_len sa)
    \<and> cipher_offset cop' + cipher_length cop' = hl + 8 + unat (iv_len sa) + out_pad sa (length d)
    \<and> digest_data cop' = In_packet (length (mdata m') - unat (digest_len sa))
    \<and> digest_length cop' = unat (digest_len sa)"
proof -
  let ?ext = "8 + unat (iv_len sa)" and ?dl = "unat (digest_len sa)" and ?n = "length d"
  have "out_pad sa ?n < 2 ^ 16" using size by (simp add: IP_MAXPACKET_def)
  from esp_pad_tunnel [OF ok(1) this] obtain pp w where
    ep: "esp_pad (of_nat ?n) 0 (block_size sa) = (pp, w)" and pp: "unat pp = out_pad sa ?n"
    and w: "unat w = pl" "unat (w + digest_len sa) = pl + ?dl"
    unfolding pl_def by metis
  define T where "T = take (pl + ?dl) (tailroom m)"
  define m1 where "m1 = m\<lparr>mdata := d @ T, tailroom := drop (pl + ?dl) (tailroom m)\<rparr>"
  have T: "length T = pl + ?dl" using tail by (simp add: T_def pl_def)
  have pl2: "2 \<le> pl" using out_pad_bounds(1) [OF ok(1), of ?n] by (simp add: pl_def)
  have app: "rte_pktmbuf_append (pl + ?dl) m = Some m1"
    using tail d(3) by (simp add: append_eq m1_def T_def pl_def)
  have srcdst: "length (sa_src sa) = 16" "length (sa_dst sa) = 16" using ok(1) by (simp_all add: sa_ok_def)
  define room where "room = drop (length (headroom m) - (?ext + hl)) (headroom m)"
  have room: "length room = ?ext + hl" using head by (simp add: room_def)
  define ck where "ck = take 2 (drop 10 room)"
  have ck: "length ck = 2" using room hl by (simp add: ck_def tunnel_len_def)
  define H where "H = tunnel_header six (ds_ecn d) (?ext + hl + length (d @ T)) ck (sa_src sa) (sa_dst sa)"
  have H: "length H = hl" using srcdst ck hl by (simp add: H_def)
  define m2 where "m2 = m1\<lparr>headroom := take (length (headroom m) - (?ext + hl)) (headroom m),
    mdata := H @ drop hl room @ dec_hops d @ T\<rparr>"
  have flags: "flags sa = IP4_TUNNEL \<and> \<not> six \<or> flags sa = IP6_TUNNEL \<and> six" "flags sa \<noteq> TRANSPORT"
    using ok(2) by (auto simp: tunnel_flags_def six_def IP4_TUNNEL_def IP6_TUNNEL_def TRANSPORT_def)
  have fl46: "IP4_TUNNEL \<noteq> IP6_TUNNEL" by (simp add: IP4_TUNNEL_def IP6_TUNNEL_def)
  have out: "ipip_outbound ?ext six (sa_src sa) (sa_dst sa) m1 = Some m2"
    unfolding ipip_outbound_eq [OF srcdst] using head hl d(2) ds_ecn_append [of d T] dec_hops_append [of d T]
    by (auto simp: m1_def m2_def H_def ck_def room_def Let_def ac_simps)
  have hdr: "esp_new_headers sa ?ext hl m1 = Some m2"
    using flags(1) out fl46 by (auto simp: esp_new_headers_def)
  have lm2: "length (mdata m2) - length (mdata m1) = hl + ?ext"
    using H room by (simp add: m2_def m1_def)
  have "length (drop hl room) = ?ext" using room by simp
  from esp_fill_eq [OF ok(1) H this, where d = "dec_hops d" and T = T and pl = pl and m = m2
      and pad = "?n + (hl + ?ext)" and pp = "unat pp" and nlp = "tunnel_next d" and cop = cop]
  obtain m' cop' where f: "esp_fill sa hl (unat pp) pl (tunnel_next d) (?n + (hl + ?ext)) m2 cop = (0, m', sa', cop')"
    and m': "mdata m' = H @ esp_header sa' @ out_iv sa' @ dec_hops d @ esp_padding pl (tunnel_next d) @ drop pl T"
    and c: "cipher_offset cop' + cipher_length cop' = hl + 8 + unat (iv_len sa) + unat pp"
      "digest_data cop' = In_packet (length (mdata m2) - ?dl)" "digest_length cop' = ?dl"
    using pl2 T by (auto simp: m2_def sa'_def)
  have nx: "outbound_next sa d = Some (0, tunnel_next d)"
    using d flags(2) by (auto simp: outbound_next_def tunnel_next_def IPVERSION_def IP6_VERSION_def)
  have hl': "(if flags sa = IP4_TUNNEL then 20 else if flags sa = IP6_TUNNEL then 40 else unat (0 :: u16)) = hl"
    using flags(1) fl46 hl by (auto simp: tunnel_len_def)
  have fl: "\<not> flags sa \<notin> {IP4_TUNNEL, IP6_TUNNEL, TRANSPORT}" using flags(1) by auto
  have sz: "\<not> IP_MAXPACKET < hl + ?ext + unat pp + ?dl" using size pp by simp
  have res: "esp_outbound m sa cop = Some (0, m', sa', cop')"
    unfolding esp_outbound_def d(3) nx option.case prod.case ep Let_def hl' w
    using fl sz app hdr f lm2 by simp
  have len: "length (mdata m2) = length (mdata m')"
    unfolding m' m2_def using H room T pl2 length_out_iv [of sa'] ok(1)
    by (simp add: length_esp_padding sa'_def sa_ok_def)
  have "?ext + hl + length (d @ T) = hl + 8 + unat (iv_len sa) + out_pad sa ?n + ?dl"
    using T out_pad_bounds(1) [OF ok(1), of ?n] by (simp add: pl_def)
  with m' have "mdata m' = tunnel_header six (ds_ecn d) (hl + 8 + unat (iv_len sa) + out_pad sa ?n + ?dl) ck (sa_src sa) (sa_dst sa)
        @ esp_header sa' @ out_iv sa' @ dec_hops d @ esp_padding pl (tunnel_next d) @ drop pl T"
    by (simp only: H_def)
  moreover have "length (drop pl T) = ?dl" using T by simp
  ultimately show ?thesis using res c ck unfolding pp len by blast
qed

section \<open>The receiving gateway\<close>

lemma agree_split:
  assumes "xs = A @ I @ B @ D" and "length ys = length xs"
    and "\<And>i. i < length xs \<Longrightarrow> i < length A \<or> length A + length I \<le> i \<and> i < length A + length I + length B \<Longrightarrow> ys ! i = xs ! i"
  shows "\<exists>I' D'. ys = A @ I' @ B @ D' \<and> length I' = length I \<and> length D' = length D"
proof -
  let ?a = "length A" and ?b = "length A + length I"
  have "take ?a ys = A"
    using assms(1,2) by (intro nth_equalityI) (auto simp: assms(3) nth_append)
  moreover have "take (length B) (drop ?b ys) = B"
    using assms(1,2) by (intro nth_equalityI) (auto simp: assms(3) nth_append)
  moreover have "ys = take ?a ys @ take (length I) (drop ?a ys) @ take (length B) (drop ?b ys) @ drop (?b + length B) ys"
    by (metis append_take_drop_id drop_drop add.commute)
  ultimately show ?thesis
    using assms(1,2) by (intro exI [of _ "take (length I) (drop ?a ys)"] exI [of _ "drop (?b + length B) ys"]) auto
qed

lemma split_five:
  "xs = take a xs @ take b (drop a xs) @ take c (drop (a + b) xs) @ take d (drop (a + b + c) xs) @ drop (a + b + c + d) xs"
proof -
  have "drop (a + b) xs = drop b (drop a xs)" "drop (a + b + c) xs = drop c (drop (a + b) xs)"
    "drop (a + b + c + d) xs = drop d (drop (a + b + c) xs)"
    by (simp_all add: ac_simps)
  then show ?thesis by (simp only: append_take_drop_id)
qed

lemma inbound_hdr_len_tunnel:
  "inbound_hdr_len (tunnel_header six ds n ck src dst @ d) = Some (tunnel_len six)"
  using tunnel_header_fields(1) [of six ds n ck src dst d]
  by (auto simp: inbound_hdr_len_def tunnel_len_def IPVERSION_def IP6_VERSION_def tunnel_header_def ip4_header_def ip_hl_def)

lemma of_nat_and_mask: "(2 :: nat) ^ k dvd n \<Longrightarrow> (of_nat n :: 'a::len word) AND mask k = 0"
proof -
  assume "(2 :: nat) ^ k dvd n"
  then obtain q where n: "n = 2 ^ k * q" ..
  have "(of_nat n :: 'a word) = push_bit k (of_nat q)" by (simp add: n push_bit_eq_mult mult.commute)
  then show ?thesis by (auto simp: bit_simps intro!: bit_word_eqI)
qed

lemma sint_of_nat_small: "n < 2 ^ 31 \<Longrightarrow> sint (of_nat n :: u32) = int n"
  by (simp add: signed_of_nat signed_take_bit_int_eq_self)

lemma esp_inbound_accepts:
  assumes "sa_ok sa" and srcdst: "length src = 16" "length dst = 16" "length ck = 2"
    and m: "mdata m = tunnel_header six ds n ck src dst @ E @ I @ P @ D"
    and len: "length E = 8" "length I = unat (iv_len sa)" "length D = unat (digest_len sa)"
    and P: "unat (block_size sa) dvd length P" "0 < length P" "length P < 2 ^ 16"
  shows "\<exists>m' cop'. esp_inbound m sa cop = (0, m', cop') \<and> mdata m' = mdata m \<and> headroom m' = headroom m
    \<and> tailroom m' = tailroom m
    \<and> cipher_offset cop' = tunnel_len six + 8 + unat (iv_len sa) \<and> cipher_length cop' = length P
    \<and> digest_data cop' = In_packet (length (mdata m) - unat (digest_len sa)) \<and> digest_length cop' = unat (digest_len sa)"
proof -
  let ?hl = "tunnel_len six"
  have l: "length (mdata m) = ?hl + 8 + unat (iv_len sa) + length P + unat (digest_len sa)"
    using m len srcdst by simp
  have w: "(of_nat (length (mdata m)) - of_nat ?hl - 8 - ucast (iv_len sa) - ucast (digest_len sa) :: u32) = of_nat (length P)"
    unfolding l by simp
  obtain k where k: "unat (block_size sa) = 2 ^ k" using sa_ok_block [OF assms(1)] by blast
  then have b: "(ucast (block_size sa) :: u32) - 1 = mask k"
    using unat_power_2_eq [of "ucast (block_size sa) :: u32" k] by (simp add: unat_ucast_up mask_eq_exp_minus_1)
  have z: "(of_nat (length P) :: u32) AND mask k = 0" using P(1) k of_nat_and_mask by metis
  have s: "\<not> sint (of_nat (length P) :: u32) \<le> 0" using P(2,3) by (simp add: sint_of_nat_small)
  have u: "unat (of_nat (length P) :: u32) = length P" using P(3) by (intro unat_of_nat_eq) simp
  have h: "inbound_hdr_len (mdata m) = Some ?hl" unfolding m by (rule inbound_hdr_len_tunnel)
  show ?thesis
    unfolding esp_inbound_def h option.case Let_def w b z u using s assms(1)
    by (auto simp: inbound_cipher_def inbound_auth_def sa_ok_def)
qed

lemma peek_inside: "i < length (mdata m) \<Longrightarrow> peek below m (int i) = mdata m ! i"
  by (simp add: peek_def)

lemma nth_esp_padding:
  "2 \<le> pl \<Longrightarrow> i < pl - 2 \<Longrightarrow> esp_padding pl nlp ! i = of_nat (i + 1)"
  "2 \<le> pl \<Longrightarrow> esp_padding pl nlp ! (pl - 2) = of_nat (pl - 2)"
  "2 \<le> pl \<Longrightarrow> esp_padding pl nlp ! (pl - 1) = nlp"
  by (auto simp: esp_padding_def nth_append)

lemma esp_inbound_post_tunnel:
  assumes "tunnel_flags sa" and srcdst: "length src = 16" "length dst = 16" "length ck = 2"
    and m: "mdata m = tunnel_header six ds n ck src dst @ gap @ d @ esp_padding pl nlp @ D"
    and len: "length gap = 8 + unat (iv_len sa)" "length D = unat (digest_len sa)"
    and pl: "2 \<le> pl" "pl \<le> 257" and d: "4 \<le> length d" "ds = ds_ecn d"
  shows "\<exists>m'. esp_inbound_post below m sa STATUS_SUCCESS = Some (0, m') \<and> mdata m' = dec_hops d"
proof -
  let ?X = "tunnel_header six ds n ck src dst @ gap @ d" and ?dl = "unat (digest_len sa)"
  have X: "mdata m = ?X @ esp_padding pl nlp @ D" using m by simp
  have l: "length (mdata m) = length ?X + pl + ?dl" using X len pl(1) by (simp add: length_esp_padding)
  have pk: "peek below m (int (length ?X + i)) = esp_padding pl nlp ! i" if "i < pl" for i
  proof -
    have "length ?X + i < length (mdata m)" using l that by simp
    moreover have "mdata m ! (length ?X + i) = (esp_padding pl nlp @ D) ! i"
      unfolding X by (rule nth_append_length_plus)
    ultimately show ?thesis using that pl(1) by (simp only: peek_inside) (simp add: nth_append length_esp_padding)
  qed
  have at: "int (length (mdata m)) - int ?dl - 1 = int (length ?X + (pl - 1))"
    "int (length ?X + (pl - 1)) - 1 = int (length ?X + (pl - 2))"
    using l pl(1) by simp_all
  have nh: "peek below m (int (length ?X + (pl - 1))) = nlp" using pk [of "pl - 1"] pl(1) nth_esp_padding(3) by simp
  have "peek below m (int (length ?X + (pl - 2))) = of_nat (pl - 2)" using pk [of "pl - 2"] pl(1) nth_esp_padding(2) by simp
  then have pn: "unat (peek below m (int (length ?X + (pl - 2)))) = pl - 2" using pl(2) by (simp add: unat_of_nat_eq)
  have ok: "padding_ok below m (int (length ?X + (pl - 2))) (pl - 2)"
    unfolding padding_ok_def
  proof (intro allI impI)
    fix i assume i: "i < pl - 2"
    have "int (length ?X + (pl - 2)) - int (pl - 2) + int i = int (length ?X + i)" by simp
    then show "peek below m (int (length ?X + (pl - 2)) - int (pl - 2) + int i) = of_nat (i + 1)"
      using pk [of i] i pl(1) nth_esp_padding(1) by simp
  qed
  define m1 where "m1 = m\<lparr>mdata := ?X, tailroom := (esp_padding pl nlp @ D) @ tailroom m\<rparr>"
  have t: "rte_pktmbuf_trim (pl - 2 + 2 + ?dl) m = Some m1"
    using l pl(1) X by (simp add: trim_eq m1_def length_esp_padding len)
  have f: "flags sa \<noteq> TRANSPORT"
    using assms(1) by (auto simp: tunnel_flags_def IP4_TUNNEL_def IP6_TUNNEL_def TRANSPORT_def)
  have "mdata m1 = tunnel_header six ds n ck src dst @ gap @ d" by (simp add: m1_def)
  from ipip_inbound_eq [OF this srcdst len(1) d] obtain m2 where
    "ipip_inbound (8 + unat (iv_len sa)) m1 = Some m2" "mdata m2 = dec_hops d" by blast
  then show ?thesis
    unfolding esp_inbound_post_def Let_def at nh pn using ok t f by auto
qed

section \<open>Transport mode\<close>

lemma length_poke [simp]: "length (mdata (poke off ys m)) = length (mdata m)"
proof -
  have "length (mdata m) \<le> length (store (mdata m @ tailroom m) off ys)" by (auto simp: store_def min_def)
  then show ?thesis by (simp add: poke_def Let_def)
qed

lemma poke_below: "i < off \<Longrightarrow> i < length (mdata m) \<Longrightarrow> mdata (poke off ys m) ! i = mdata m ! i"
  by (auto simp: poke_def Let_def store_def nth_append)

lemma esp_fill_below:
  assumes "esp_fill sa hl pp pl nlp pad m cop = (r, m', sa', cop')" and "i < hl" and "hl \<le> pad"
    and "i < length (mdata m)"
  shows "mdata m' ! i = mdata m ! i \<and> length (mdata m') = length (mdata m)"
  using assms
  by (auto simp: esp_fill_def Let_def outbound_cipher_def outbound_auth_def poke_below
      split: if_splits option.splits)

text \<open>With an IV of eight bytes the old header overlaps the new one, and the version is read from
  the byte where the destination address now lies.\<close>

lemma transport_outbound_16:
  assumes "transport_outbound 16 20 m = Some m'" and "20 \<le> length (mdata m)"
    and "drop_bit 4 (mdata m ! 16) \<noteq> IPVERSION"
  shows "length (mdata m') = 16 + length (mdata m) \<and> mdata m' ! 9 = mdata m ! 9 \<and> mdata m' ! 6 = IPPROTO_ESP
    \<and> take 2 (drop 2 (mdata m')) = take 2 (drop 2 (mdata m))"
proof -
  define h where "h = drop (length (headroom m) - 16) (headroom m)"
  have h: "length h = 16" and e: "rte_pktmbuf_prepend 16 m = Some (m\<lparr>headroom := take (length (headroom m) - 16) (headroom m), mdata := h @ mdata m\<rparr>)"
    using assms(1) by (auto simp: transport_outbound_def rte_pktmbuf_prepend_def h_def Let_def split: if_splits option.splits)
  let ?m = "m\<lparr>headroom := take (length (headroom m) - 16) (headroom m), mdata := h @ mdata m\<rparr>"
  have t: "take 20 (drop 16 (mdata ?m)) = take 20 (mdata m)" using h by simp
  have p: "poke 0 (take 20 (mdata m)) ?m = ?m\<lparr>mdata := take 20 (mdata m) @ drop 4 (mdata m)\<rparr>"
    using assms(2) h by (simp add: poke_inside store_def)
  have "ip_v (drop 16 (take 20 (mdata m) @ drop 4 (mdata m))) \<noteq> IPVERSION"
    using assms(2,3) by (simp add: ip_v_def nth_append)
  then have "m' = poke 4 (htons_bytes (length (mdata m) + 16)) (poke 6 [IPPROTO_ESP] (?m\<lparr>mdata := take 20 (mdata m) @ drop 4 (mdata m)\<rparr>))"
    using assms(1,2) unfolding transport_outbound_def e option.case Let_def t p
    by (simp add: add.commute)
  then have m': "mdata m' = store (store (take 20 (mdata m) @ drop 4 (mdata m)) 6 [IPPROTO_ESP]) 4 (htons_bytes (length (mdata m) + 16))"
    using assms(2) by (simp add: poke_inside)
  then show ?thesis using assms(2)
    by (auto simp: nth_store nth_append take_drop_store_disjoint drop_take)
qed

lemma esp_outbound_transport:
  assumes "flags sa = TRANSPORT" and "iv_len sa = 8" and "ip_v (mdata m) = IPVERSION" and "ip_hl (mdata m) = 5"
    and "20 \<le> length (mdata m)" and "drop_bit 4 (mdata m ! 16) \<noteq> IPVERSION"
    and "esp_outbound m sa cop = Some (0, m', sa', cop')"
  shows "mdata m' ! 9 = mdata m ! 9 \<and> mdata m' ! 6 = IPPROTO_ESP"
proof -
  have fl: "flags sa \<noteq> IP4_TUNNEL" "flags sa \<noteq> IP6_TUNNEL"
    using assms(1) by (auto simp: IP4_TUNNEL_def IP6_TUNNEL_def TRANSPORT_def)
  have nx: "outbound_next sa (mdata m) = Some (20, mdata m ! 9)"
    using assms(1,3,4) by (simp add: outbound_next_def)
  obtain pp pl where ep: "esp_pad (of_nat (length (mdata m))) 20 (block_size sa) = (pp, pl)" by fastforce
  have ext: "8 + unat (iv_len sa) = 16" using assms(2) by simp
  from assms(7) obtain m1 m2 where
    a: "rte_pktmbuf_append (unat (pl + digest_len sa)) m = Some m1"
    and t: "transport_outbound 16 20 m1 = Some m2"
    and f: "esp_fill sa 20 (unat pp) (unat pl) (mdata m ! 9)
        (length (mdata m) + (length (mdata m2) - length (mdata m1))) m2 cop = (0, m', sa', cop')"
    unfolding esp_outbound_def nx option.case prod.case ep Let_def ext
    using fl assms(1) by (auto simp: EINVAL_def ENOSPC_def esp_new_headers_def split: if_splits option.splits)
  from a have m1: "\<exists>T. mdata m1 = mdata m @ T" by (auto simp: rte_pktmbuf_append_def split: if_splits)
  then have l1: "20 \<le> length (mdata m1)" "length (mdata m) \<le> length (mdata m1)" and
    b: "mdata m1 ! 9 = mdata m ! 9" "mdata m1 ! 16 = mdata m ! 16" using assms(5) by (auto simp: nth_append)
  from transport_outbound_16 [OF t l1(1)] b assms(6)
  have m2: "length (mdata m2) = 16 + length (mdata m1)" "mdata m2 ! 9 = mdata m ! 9" "mdata m2 ! 6 = IPPROTO_ESP" by auto
  then show ?thesis using esp_fill_below [OF f, of 9] esp_fill_below [OF f, of 6] assms(5) l1 by auto
qed

section \<open>Properties\<close>

text \<open>An inner packet \<^verbatim>\<open>esp_outbound\<close> can encapsulate: IPv4 or IPv6, not too long, with room
  in the buffer.\<close>

definition outbound_fits :: "ipsec_sa \<Rightarrow> nat \<Rightarrow> pktbuf \<Rightarrow> bool" where
  "outbound_fits sa hl m \<longleftrightarrow>
     (let n = length (mdata m); dl = unat (digest_len sa)
      in ip_v (mdata m) \<in> {IPVERSION, IP6_VERSION} \<and> 20 \<le> n
         \<and> hl + 8 + unat (iv_len sa) + out_pad sa n + dl \<le> IP_MAXPACKET
         \<and> hl + 8 + unat (iv_len sa) \<le> length (headroom m)
         \<and> out_pad sa n - n + dl \<le> length (tailroom m))"

definition sa_hl :: "ipsec_sa \<Rightarrow> nat" where "sa_hl sa = tunnel_len (flags sa = IP6_TUNNEL)"

text \<open>What the two crypto devices together leave as it was: everything but the IV and the digest.\<close>

definition decrypted_as :: "ipsec_sa \<Rightarrow> pktbuf \<Rightarrow> pktbuf \<Rightarrow> bool" where
  "decrypted_as sa m1 m2 \<longleftrightarrow>
     length (mdata m2) = length (mdata m1)
     \<and> (\<forall>i<length (mdata m1). i < sa_hl sa + 8 \<or> sa_hl sa + 8 + unat (iv_len sa) \<le> i
          \<and> i < length (mdata m1) - unat (digest_len sa) \<longrightarrow> mdata m2 ! i = mdata m1 ! i)"

text \<open>In tunnel mode \<^verbatim>\<open>esp_outbound\<close> succeeds on every packet that fits; the result is the
  outer header, the ESP header with the next sequence number, the IV, the packet with one hop
  less, the padding 1, 2, 3, ... with its length and the next protocol, and room for the digest;
  the padded payload is a multiple of the block size and at most 17 bytes longer.\<close>

theorem esp_outbound_tunnel:
  assumes "sa_ok sa" and "tunnel_flags sa" and "outbound_fits sa (sa_hl sa) m"
  defines "d \<equiv> mdata m" and "sa' \<equiv> sa\<lparr>sa_seq := sa_seq sa + 1\<rparr>"
  shows "\<exists>m' cop' ck D. esp_outbound m sa cop = Some (0, m', sa', cop')
    \<and> mdata m' = tunnel_header (flags sa = IP6_TUNNEL) (ds_ecn d)
          (sa_hl sa + 8 + unat (iv_len sa) + out_pad sa (length d) + unat (digest_len sa)) ck (sa_src sa) (sa_dst sa)
        @ esp_header sa' @ out_iv sa' @ dec_hops d @ esp_padding (out_pad sa (length d) - length d) (tunnel_next d) @ D
    \<and> length ck = 2 \<and> length D = unat (digest_len sa)
    \<and> unat (block_size sa) dvd out_pad sa (length d) \<and> length d + 2 \<le> out_pad sa (length d)
    \<and> out_pad sa (length d) \<le> length d + 17"
  using esp_outbound_tunnel_eq [OF assms(1,2), of d m "sa_hl sa" cop] assms(3) out_pad_bounds [OF assms(1), of "length d"]
  unfolding d_def sa'_def sa_hl_def outbound_fits_def Let_def by blast

text \<open>What \<^verbatim>\<open>esp_outbound\<close> sends in tunnel mode, \<^verbatim>\<open>esp_inbound\<close> of an association with
  the same lengths accepts, whatever the encrypted bytes are: both sides agree on the end of the
  encrypted range and on the place of the digest.\<close>

theorem esp_inbound_accepts_outbound:
  assumes "sa_ok sa" and "tunnel_flags sa" and "outbound_fits sa (sa_hl sa) m"
    and "sa_ok sb" and "iv_len sb = iv_len sa" and "digest_len sb = digest_len sa" and "block_size sb = block_size sa"
    and "esp_outbound m sa cop = Some (0, m1, sa1, cop1)"
    and "length (mdata m2) = length (mdata m1)" and "take (sa_hl sa) (mdata m2) = take (sa_hl sa) (mdata m1)"
  shows "\<exists>m2' cop2. esp_inbound m2 sb cop' = (0, m2', cop2) \<and> mdata m2' = mdata m2
    \<and> cipher_offset cop2 + cipher_length cop2 = cipher_offset cop1 + cipher_length cop1
    \<and> digest_data cop2 = digest_data cop1 \<and> digest_length cop2 = digest_length cop1"
proof -
  let ?d = "mdata m" and ?six = "flags sa = IP6_TUNNEL" and ?iv = "unat (iv_len sa)" and ?dl = "unat (digest_len sa)"
  let ?P = "out_pad sa (length ?d)"
  have fits: "sa_hl sa + 8 + ?iv + ?P + ?dl \<le> IP_MAXPACKET" using assms(3) by (simp add: outbound_fits_def Let_def)
  from esp_outbound_tunnel_eq [OF assms(1,2), of ?d m "sa_hl sa" cop] assms(3) obtain m' c ck D where
    o: "esp_outbound m sa cop = Some (0, m', sa\<lparr>sa_seq := sa_seq sa + 1\<rparr>, c)"
    and m': "mdata m' = tunnel_header ?six (ds_ecn ?d) (sa_hl sa + 8 + ?iv + ?P + ?dl) ck (sa_src sa) (sa_dst sa)
        @ esp_header (sa\<lparr>sa_seq := sa_seq sa + 1\<rparr>) @ out_iv (sa\<lparr>sa_seq := sa_seq sa + 1\<rparr>) @ dec_hops ?d
        @ esp_padding (?P - length ?d) (tunnel_next ?d) @ D"
    and ck: "length ck = 2" and D: "length D = ?dl"
    and c: "cipher_offset c + cipher_length c = sa_hl sa + 8 + ?iv + ?P" "digest_data c = In_packet (length (mdata m') - ?dl)"
      "digest_length c = ?dl"
    unfolding sa_hl_def outbound_fits_def Let_def by metis
  have eq: "m1 = m'" "cop1 = c" using o assms(8) by simp_all
  have srcdst: "length (sa_src sa) = 16" "length (sa_dst sa) = 16" using assms(1) by (simp_all add: sa_ok_def)
  have Pb: "length ?d + 2 \<le> ?P" using out_pad_bounds(1) [OF assms(1)] .
  have "sa_ok (sa\<lparr>sa_seq := sa_seq sa + 1\<rparr>)" using assms(1) by (simp add: sa_ok_def)
  from length_out_iv [OF this] have l: "length (mdata m2) = sa_hl sa + 8 + ?iv + ?P + ?dl"
    unfolding assms(9) eq m' using srcdst ck D Pb by (simp add: sa_hl_def length_esp_padding)
  let ?h = "tunnel_header ?six (ds_ecn ?d) (sa_hl sa + 8 + ?iv + ?P + ?dl) ck (sa_src sa) (sa_dst sa)"
  have "take (sa_hl sa) (mdata m2) = ?h"
    unfolding assms(10) eq m' using srcdst ck by (simp add: sa_hl_def)
  then have "mdata m2 = ?h @ take 8 (drop (sa_hl sa) (mdata m2)) @ take ?iv (drop (sa_hl sa + 8) (mdata m2))
      @ take ?P (drop (sa_hl sa + 8 + ?iv) (mdata m2)) @ drop (sa_hl sa + 8 + ?iv + ?P) (mdata m2)"
    using split_five [of "mdata m2" "sa_hl sa" 8 ?iv ?P] by simp
  from esp_inbound_accepts [OF assms(4) srcdst ck this, of cop'] show ?thesis
    using l fits Pb c out_pad_bounds(3) [OF assms(1), of "length ?d"] assms(5-7,9)
    unfolding eq sa_hl_def by (auto simp: IP_MAXPACKET_def add.assoc)
qed

text \<open>C5: The two gateways together are transparent in tunnel mode: when the crypto devices give back
  all bytes but the IV and the digest, \<^verbatim>\<open>esp_inbound_post\<close> accepts the padding and returns the
  packet that entered the tunnel with two hops less.\<close>

theorem esp_tunnel_roundtrip:
  assumes "sa_ok sa" and "tunnel_flags sa" and "outbound_fits sa (sa_hl sa) m"
    and "tunnel_flags sb" and "iv_len sb = iv_len sa" and "digest_len sb = digest_len sa"
    and "esp_outbound m sa cop = Some (0, m1, sa1, cop1)" and "decrypted_as sa m1 m2"
  shows "\<exists>m3. esp_inbound_post below m2 sb STATUS_SUCCESS = Some (0, m3)
    \<and> mdata m3 = dec_hops (dec_hops (mdata m))"
proof -
  let ?d = "mdata m" and ?sa' = "sa\<lparr>sa_seq := sa_seq sa + 1\<rparr>" and ?iv = "unat (iv_len sa)" and ?dl = "unat (digest_len sa)"
  let ?P = "out_pad sa (length ?d)"
  let ?pad = "esp_padding (?P - length ?d) (tunnel_next ?d)"
  from esp_outbound_tunnel [OF assms(1-3), of cop] assms(7) obtain ck D where
    m1: "mdata m1 = tunnel_header (flags sa = IP6_TUNNEL) (ds_ecn ?d) (sa_hl sa + 8 + ?iv + ?P + ?dl) ck (sa_src sa) (sa_dst sa)
        @ esp_header ?sa' @ out_iv ?sa' @ dec_hops ?d @ ?pad @ D"
    and ck: "length ck = 2" and D: "length D = ?dl" and P: "length ?d + 2 \<le> ?P" "?P \<le> length ?d + 17"
    by auto
  have srcdst: "length (sa_src sa) = 16" "length (sa_dst sa) = 16" using assms(1) by (simp_all add: sa_ok_def)
  have d: "4 \<le> length ?d" using assms(3) by (simp add: outbound_fits_def Let_def)
  have "sa_ok ?sa'" using assms(1) by (simp add: sa_ok_def)
  from length_out_iv [OF this] have iv: "length (out_iv ?sa') = ?iv" by simp
  let ?h = "tunnel_header (flags sa = IP6_TUNNEL) (ds_ecn ?d) (sa_hl sa + 8 + ?iv + ?P + ?dl) ck (sa_src sa) (sa_dst sa)"
  have h: "length ?h = sa_hl sa" using srcdst ck by (simp add: sa_hl_def)
  have e: "mdata m1 = (?h @ esp_header ?sa') @ out_iv ?sa' @ (dec_hops ?d @ ?pad) @ D" using m1 by simp
  then have l: "length (mdata m1) = sa_hl sa + 8 + ?iv + length (dec_hops ?d @ ?pad) + ?dl"
    using h iv D by simp
  have "mdata m2 ! i = mdata m1 ! i"
    if "i < length (mdata m1)" "i < length (?h @ esp_header ?sa') \<or> length (?h @ esp_header ?sa') + length (out_iv ?sa') \<le> i
      \<and> i < length (?h @ esp_header ?sa') + length (out_iv ?sa') + length (dec_hops ?d @ ?pad)" for i
  proof -
    have "i < sa_hl sa + 8 \<or> sa_hl sa + 8 + ?iv \<le> i \<and> i < length (mdata m1) - ?dl"
      using that(2) h iv l by auto
    then show ?thesis using assms(8) that(1) unfolding decrypted_as_def by blast
  qed
  from agree_split [OF e _ this] obtain I' D' where
    m2: "mdata m2 = (?h @ esp_header ?sa') @ I' @ (dec_hops ?d @ ?pad) @ D'" and "length I' = ?iv" "length D' = ?dl"
    using assms(8) iv D by (auto simp: decrypted_as_def)
  then show ?thesis
    using esp_inbound_post_tunnel [OF assms(4) srcdst ck, of m2 _ _ _ "esp_header ?sa' @ I'" "dec_hops ?d"
        "?P - length ?d" "tunnel_next ?d" D' below] P d assms(5,6)
    by auto
qed

text \<open>C25: In transport mode over IPv4 with an IV of eight bytes (the lengths of AES-CTR and AES-GCM)
  the output is not an ESP packet: the protocol field keeps the inner protocol, and byte 6, part
  of the fragment offset, becomes 50; unless the destination address begins with the digit 4.\<close>

theorem esp_outbound_transport_overlap:
  assumes "flags sa = TRANSPORT" and "iv_len sa = 8" and "ip_v (mdata m) = IPVERSION" and "ip_hl (mdata m) = 5"
    and "20 \<le> length (mdata m)" and "drop_bit 4 (mdata m ! 16) \<noteq> IPVERSION"
    and "esp_outbound m sa cop = Some (0, m', sa', cop')"
  shows "mdata m' ! 9 = mdata m ! 9 \<and> mdata m' ! 6 = IPPROTO_ESP"
  using assms by (rule esp_outbound_transport)

section \<open>Examples\<close>

definition sample_sa :: ipsec_sa where
  "sample_sa = \<lparr>spi = 5, cdev_id_qp = 0, sa_seq = 0, salt = 0, crypto_session = Some 0,
     cipher_algo = CIPHER_AES_CBC, auth_algo = AUTH_SHA1_HMAC, digest_len = 12, iv_len = 16, block_size = 16,
     flags = IP4_TUNNEL, sa_src = replicate 16 1, sa_dst = replicate 16 2,
     cipher_key = [], cipher_key_len = 16, auth_key = [], auth_key_len = 20, aad_len = 0\<rparr>"

definition sample_op :: sym_op where
  "sample_op = \<lparr>cipher_offset = 0, cipher_length = 0, iv_data = In_priv 0, iv_length = 0, auth_offset = 0,
     auth_length = 0, aad_data = In_priv 0, aad_length = 0, digest_data = In_priv 0, digest_length = 0\<rparr>"

lemma sample_sa_ok: "sa_ok sample_sa" "tunnel_flags sample_sa" "sa_hl sample_sa = 20"
  "outbound_fits sample_sa 20 sample_buf" "iv_len sample_sa = 16" "digest_len sample_sa = 12"
  by (simp_all add: sa_ok_def sample_sa_def tunnel_flags_def sa_hl_def tunnel_len_def IP4_TUNNEL_def IP6_TUNNEL_def
      outbound_fits_def out_pad_def pad_to_def sample_buf_def ip_v_def IPVERSION_def IP_MAXPACKET_def)

theorem esp_outbound_tunnel_witness:
  "\<exists>m' sa' cop'. esp_outbound sample_buf sample_sa sample_op = Some (0, m', sa', cop') \<and> sa_seq sa' = 1"
proof -
  have "sa_seq (sample_sa\<lparr>sa_seq := sa_seq sample_sa + 1\<rparr>) = 1" by (simp add: sample_sa_def)
  moreover have "outbound_fits sample_sa (sa_hl sample_sa) sample_buf" using sample_sa_ok by simp
  ultimately show ?thesis
    using esp_outbound_tunnel [OF sample_sa_ok(1,2), of sample_buf sample_op] by blast
qed

theorem esp_inbound_accepts_outbound_witness:
  "\<exists>m1 sa1 cop1 m2 cop2. esp_outbound sample_buf sample_sa sample_op = Some (0, m1, sa1, cop1)
    \<and> esp_inbound m1 sample_sa sample_op = (0, m2, cop2) \<and> digest_data cop2 = digest_data cop1"
proof -
  have fits: "outbound_fits sample_sa (sa_hl sample_sa) sample_buf" using sample_sa_ok by simp
  from esp_outbound_tunnel_eq [OF sample_sa_ok(1,2), of "mdata sample_buf" sample_buf 20 sample_op] fits sample_sa_ok(3)
  obtain m1 cop1 where o: "esp_outbound sample_buf sample_sa sample_op = Some (0, m1, sample_sa\<lparr>sa_seq := sa_seq sample_sa + 1\<rparr>, cop1)"
    by (auto simp: outbound_fits_def Let_def sa_hl_def)
  with esp_inbound_accepts_outbound [OF sample_sa_ok(1,2) fits sample_sa_ok(1) refl refl refl o, of m1 sample_op]
  show ?thesis by auto
qed

theorem esp_tunnel_roundtrip_witness:
  "\<exists>m1 sa1 cop1 m3. esp_outbound sample_buf sample_sa sample_op = Some (0, m1, sa1, cop1)
    \<and> esp_inbound_post (\<lambda>i. 0) m1 sample_sa STATUS_SUCCESS = Some (0, m3)
    \<and> mdata m3 = 0x45 # 3 # replicate 6 9 @ 7 # replicate 19 9"
proof -
  have fits: "outbound_fits sample_sa (sa_hl sample_sa) sample_buf" using sample_sa_ok by simp
  from esp_outbound_tunnel_eq [OF sample_sa_ok(1,2), of "mdata sample_buf" sample_buf 20 sample_op] fits sample_sa_ok(3)
  obtain m1 cop1 where o: "esp_outbound sample_buf sample_sa sample_op = Some (0, m1, sample_sa\<lparr>sa_seq := sa_seq sample_sa + 1\<rparr>, cop1)"
    by (auto simp: outbound_fits_def Let_def sa_hl_def)
  have "decrypted_as sample_sa m1 m1" by (simp add: decrypted_as_def)
  from esp_tunnel_roundtrip [OF sample_sa_ok(1,2) fits sample_sa_ok(2) refl refl o this, of "\<lambda>i. 0"]
  have "\<exists>m3. esp_inbound_post (\<lambda>i. 0) m1 sample_sa STATUS_SUCCESS = Some (0, m3)
    \<and> mdata m3 = dec_hops (dec_hops (mdata sample_buf))" .
  moreover have "dec_hops (dec_hops (mdata sample_buf)) = 0x45 # 3 # replicate 6 9 @ 7 # replicate 19 9" by code_simp
  ultimately show ?thesis using o by auto
qed

lemma esp_fill_zero: "sa_ok sa \<Longrightarrow> \<exists>m' sa' cop'. esp_fill sa hl pp pl nlp pad m cop = (0, m', sa', cop')"
  by (auto simp: esp_fill_def Let_def outbound_cipher_def outbound_auth_def sa_ok_def)

definition sample_transport :: ipsec_sa where
  "sample_transport = sample_sa\<lparr>flags := TRANSPORT, iv_len := 8, cipher_algo := CIPHER_AES_CTR\<rparr>"

theorem esp_outbound_transport_overlap_witness:
  "\<exists>m' sa' cop'. esp_outbound sample_buf sample_transport sample_op = Some (0, m', sa', cop')
    \<and> mdata m' ! 9 = 9 \<and> mdata m' ! 6 = 50"
proof -
  have "sa_ok sample_transport" by (simp add: sa_ok_def sample_transport_def sample_sa_def)
  note z = esp_fill_zero [OF this]
  have f: "flags sample_transport = TRANSPORT" "TRANSPORT \<noteq> IP4_TUNNEL" "TRANSPORT \<noteq> IP6_TUNNEL"
    by (simp_all add: sample_transport_def IP4_TUNNEL_def IP6_TUNNEL_def TRANSPORT_def)
  have nx: "outbound_next sample_transport (mdata sample_buf) = Some (20, 9)"
    using f by (simp add: outbound_next_def sample_buf_def ip_v_def ip_hl_def IPVERSION_def)
  have len: "length (mdata sample_buf) = 28" "iv_len sample_transport = 8" "digest_len sample_transport = 12"
    by (simp_all add: sample_buf_def sample_transport_def sample_sa_def)
  have ep: "esp_pad (of_nat 28) 20 (block_size sample_transport) = (16, 8)" by code_simp
  obtain m1 where a: "rte_pktmbuf_append 20 sample_buf = Some m1" "length (headroom m1) = 128"
    by (simp add: rte_pktmbuf_append_def sample_buf_def)
  have "esp_new_headers sample_transport 16 20 m1 \<noteq> None"
    using a(2) f by (simp add: esp_new_headers_def transport_outbound_def mdata_prepend Let_def)
  then obtain m2 where t: "esp_new_headers sample_transport 16 20 m1 = Some m2" by blast
  have "\<exists>m' sa' cop'. esp_outbound sample_buf sample_transport sample_op = Some (0, m', sa', cop')"
    unfolding esp_outbound_def nx option.case prod.case len ep Let_def
    using f a(1) t z by (simp add: IP_MAXPACKET_def)
  then obtain m' sa' cop' where o: "esp_outbound sample_buf sample_transport sample_op = Some (0, m', sa', cop')" by blast
  have "flags sample_transport = TRANSPORT" "iv_len sample_transport = 8" "ip_v (mdata sample_buf) = IPVERSION"
    "ip_hl (mdata sample_buf) = 5" "20 \<le> length (mdata sample_buf)" "drop_bit 4 (mdata sample_buf ! 16) \<noteq> IPVERSION"
    "mdata sample_buf ! 9 = 9"
    by (simp_all add: sample_transport_def sample_buf_def ip_v_def ip_hl_def IPVERSION_def)
  then show ?thesis using esp_outbound_transport_overlap [OF _ _ _ _ _ _ o] o by (simp add: IPPROTO_ESP_def)
qed

end
