(* ===== verification/Crypto_Queue.thy ===== *)
theory Crypto_Queue
  imports Esp
begin

text \<open>
  The crypto queues of \<^verbatim>\<open>ipsec.c\<close>: a transform fills the crypto operation of a packet, the
  operation waits in the buffer of a queue pair, full buffers go to the crypto device, and
  finished operations are taken back and post-processed.  Packets are handles; their buffers,
  metadata and the associations they point at are in the state, so that sharing is explicit.
  The crypto device is a parameter: how many operations it takes and returns at each call, the
  sessions it creates and what it does to a packet.
\<close>

section \<open>State\<close>

record cdev_qp =
  qp_dev :: nat
  qp_qp :: nat
  in_flight :: u16
  qp_buf :: "nat list"

type_synonym cdev_key = "nat \<times> cipher_algorithm \<times> auth_algorithm"

record ipsec_ctx =
  cdev_map :: "cdev_key \<rightharpoonup> nat"
  nb_qps :: nat
  last_qp :: nat
  tbl :: "nat \<Rightarrow> cdev_qp"
  sadb :: "nat \<Rightarrow> ipsec_sa"
  pkt_buf :: "nat \<Rightarrow> pktbuf"
  pkt_sa :: "nat \<Rightarrow> nat"
  pkt_op :: "nat \<Rightarrow> sym_op"
  pkt_status :: "nat \<Rightarrow> op_status"
  pkt_session :: "nat \<Rightarrow> nat option"
  dev_queue :: "nat \<times> nat \<Rightarrow> nat list"
  ctx_freed :: "nat list"
  calls :: nat

text \<open>The device, given the number of calls made so far, the queue pair, the operations it holds
  and what is offered or asked for.\<close>

record crypto_device =
  enq_count :: "nat \<Rightarrow> nat \<times> nat \<Rightarrow> nat list \<Rightarrow> nat list \<Rightarrow> nat"
  deq_count :: "nat \<Rightarrow> nat \<times> nat \<Rightarrow> nat list \<Rightarrow> nat \<Rightarrow> nat"
  session_create :: "nat \<Rightarrow> ipsec_sa \<Rightarrow> nat option"
  crypt :: "nat option \<Rightarrow> sym_op \<Rightarrow> pktbuf \<Rightarrow> pktbuf \<times> op_status"

text \<open>What DPDK documents: a burst call takes at most what is offered and what the ring of the queue
  pair has room for, and returns at most what was asked for and what it holds.\<close>

definition device_ok :: "crypto_device \<Rightarrow> bool" where
  "device_ok dev \<longleftrightarrow>
     (\<forall>n q held ops. enq_count dev n q held ops \<le> length ops
        \<and> (length held < 2 ^ 16 \<longrightarrow> length held + enq_count dev n q held ops < 2 ^ 16))
     \<and> (\<forall>n q held k. deq_count dev n q held k \<le> min k (length held))"

type_synonym xform_fn = "pktbuf \<Rightarrow> ipsec_sa \<Rightarrow> sym_op \<Rightarrow> (int \<times> pktbuf \<times> ipsec_sa \<times> sym_op) option"

definition MAX_PKT_BURST :: nat where "MAX_PKT_BURST = 32"

section \<open>Enqueueing\<close>

definition free_pkts :: "nat list \<Rightarrow> ipsec_ctx \<Rightarrow> ipsec_ctx" where
  "free_pkts ps s = s\<lparr>ctx_freed := ctx_freed s @ ps\<rparr>"

text \<open>\<open>None\<close> is the error return.  The result of the session creation is not checked.\<close>

definition create_session :: "crypto_device \<Rightarrow> nat \<Rightarrow> nat \<Rightarrow> ipsec_ctx \<Rightarrow> ipsec_ctx option" where
  "create_session dev lcore i s =
     (let sa = sadb s i
      in case cdev_map s (lcore, cipher_algo sa, auth_algo sa) of
           None \<Rightarrow> None
         | Some k \<Rightarrow>
             Some (s\<lparr>sadb := (sadb s)(i := sa\<lparr>crypto_session := session_create dev (qp_dev (tbl s k)) sa,
                                             cdev_id_qp := of_nat k\<rparr>)\<rparr>))"

definition enqueue_cop :: "crypto_device \<Rightarrow> nat \<Rightarrow> nat \<Rightarrow> ipsec_ctx \<Rightarrow> ipsec_ctx" where
  "enqueue_cop dev k p s =
     (let cqp = (tbl s k)\<lparr>qp_buf := qp_buf (tbl s k) @ [p]\<rparr>
      in if length (qp_buf cqp) = MAX_PKT_BURST
         then let q = (qp_dev cqp, qp_qp cqp);
                  ret = enq_count dev (calls s) q (dev_queue s q) (qp_buf cqp);
                  s = s\<lparr>calls := calls s + 1, dev_queue := (dev_queue s)(q := dev_queue s q @ take ret (qp_buf cqp))\<rparr>;
                  s = free_pkts (drop ret (qp_buf cqp)) s
              in s\<lparr>tbl := (tbl s)(k := cqp\<lparr>in_flight := in_flight cqp + of_nat ret, qp_buf := []\<rparr>)\<rparr>
         else s\<lparr>tbl := (tbl s)(k := cqp)\<rparr>)"

text \<open>The transform of one packet.\<close>

definition run_xform :: "xform_fn \<Rightarrow> nat \<Rightarrow> nat \<Rightarrow> ipsec_ctx \<Rightarrow> (int \<times> ipsec_ctx) option" where
  "run_xform xf p i s =
     map_option (\<lambda>(r, m, sa, cop).
         (r, s\<lparr>pkt_buf := (pkt_buf s)(p := m), sadb := (sadb s)(i := sa), pkt_op := (pkt_op s)(p := cop)\<rparr>))
       (xf (pkt_buf s p) (sadb s i) (pkt_op s p))"

definition enqueue_one :: "crypto_device \<Rightarrow> xform_fn \<Rightarrow> nat \<Rightarrow> nat \<times> nat option \<Rightarrow> ipsec_ctx \<Rightarrow> ipsec_ctx option" where
  "enqueue_one dev xf lcore = (\<lambda>(p, sa) s.
     case sa of
       None \<Rightarrow> Some (free_pkts [p] s)
     | Some i \<Rightarrow>
         let s = s\<lparr>pkt_sa := (pkt_sa s)(p := i), pkt_status := (pkt_status s)(p := STATUS_NOT_PROCESSED)\<rparr>
         in case (if crypto_session (sadb s i) = None then create_session dev lcore i s else Some s) of
              None \<Rightarrow> Some (free_pkts [p] s)
            | Some s \<Rightarrow>
                let s = s\<lparr>pkt_session := (pkt_session s)(p := crypto_session (sadb s i))\<rparr>
                in (case run_xform xf p i s of
                   None \<Rightarrow> None
                 | Some (ret, s) \<Rightarrow>
                     Some (if ret \<noteq> 0 then free_pkts [p] s
                           else enqueue_cop dev (unat (cdev_id_qp (sadb s i))) p s)))"

fun ipsec_enqueue :: "crypto_device \<Rightarrow> xform_fn \<Rightarrow> nat \<Rightarrow> (nat \<times> nat option) list \<Rightarrow> ipsec_ctx \<Rightarrow> ipsec_ctx option" where
  "ipsec_enqueue dev xf lcore [] s = Some s"
| "ipsec_enqueue dev xf lcore (x # xs) s =
     (case enqueue_one dev xf lcore x s of None \<Rightarrow> None | Some s \<Rightarrow> ipsec_enqueue dev xf lcore xs s)"

section \<open>Dequeueing\<close>

text \<open>The device finishes an operation.\<close>

definition finish_op :: "crypto_device \<Rightarrow> nat \<Rightarrow> ipsec_ctx \<Rightarrow> ipsec_ctx" where
  "finish_op dev p s =
     (let (m, st) = crypt dev (pkt_session s p) (pkt_op s p) (pkt_buf s p)
      in s\<lparr>pkt_buf := (pkt_buf s)(p := m), pkt_status := (pkt_status s)(p := st)\<rparr>)"

type_synonym post_fn = "pktbuf \<Rightarrow> ipsec_sa \<Rightarrow> op_status \<Rightarrow> (int \<times> pktbuf) option"

fun post_ops :: "crypto_device \<Rightarrow> post_fn \<Rightarrow> nat list \<Rightarrow> nat list \<times> ipsec_ctx \<Rightarrow> (nat list \<times> ipsec_ctx) option" where
  "post_ops dev post [] st = Some st"
| "post_ops dev post (p # ps) (pkts, s) =
     (let s = finish_op dev p s
      in case post (pkt_buf s p) (sadb s (pkt_sa s p)) (pkt_status s p) of
           None \<Rightarrow> None
         | Some (ret, m) \<Rightarrow>
             let s = s\<lparr>pkt_buf := (pkt_buf s)(p := m)\<rparr>
             in post_ops dev post ps (if ret \<noteq> 0 then (pkts, free_pkts [p] s) else (pkts @ [p], s)))"

definition dequeue_one :: "crypto_device \<Rightarrow> post_fn \<Rightarrow> nat \<Rightarrow> nat list \<times> ipsec_ctx \<Rightarrow> (nat list \<times> ipsec_ctx) option" where
  "dequeue_one dev post max_pkts = (\<lambda>(pkts, s).
     let k = last_qp s; cqp = tbl s k;
         s = s\<lparr>last_qp := (if k + 1 = nb_qps s then 0 else k + 1)\<rparr>
     in if in_flight cqp = 0 then Some (pkts, s)
        else let q = (qp_dev cqp, qp_qp cqp);
                 n = deq_count dev (calls s) q (dev_queue s q) (max_pkts - length pkts);
                 ops = take n (dev_queue s q);
                 s = s\<lparr>calls := calls s + 1, dev_queue := (dev_queue s)(q := drop n (dev_queue s q)),
                       tbl := (tbl s)(k := cqp\<lparr>in_flight := in_flight cqp - of_nat n\<rparr>)\<rparr>
             in post_ops dev post ops (pkts, s))"

fun dequeue_loop :: "nat \<Rightarrow> crypto_device \<Rightarrow> post_fn \<Rightarrow> nat \<Rightarrow> nat list \<times> ipsec_ctx \<Rightarrow> (nat list \<times> ipsec_ctx) option" where
  "dequeue_loop 0 dev post max_pkts st = Some st"
| "dequeue_loop (Suc n) dev post max_pkts st =
     (if length (fst st) < max_pkts
      then case dequeue_one dev post max_pkts st of
             None \<Rightarrow> None
           | Some st \<Rightarrow> dequeue_loop n dev post max_pkts st
      else Some st)"

definition ipsec_dequeue :: "crypto_device \<Rightarrow> post_fn \<Rightarrow> nat \<Rightarrow> ipsec_ctx \<Rightarrow> (nat list \<times> ipsec_ctx) option" where
  "ipsec_dequeue dev post max_pkts s = dequeue_loop (nb_qps s) dev post max_pkts ([], s)"

section \<open>Accounting\<close>

definition qp_id :: "ipsec_ctx \<Rightarrow> nat \<Rightarrow> nat \<times> nat" where
  "qp_id s k = (qp_dev (tbl s k), qp_qp (tbl s k))"

text \<open>The packets a queue pair holds: in the buffer and in the device.\<close>

definition held :: "ipsec_ctx \<Rightarrow> nat \<Rightarrow> nat multiset" where
  "held s k = mset (qp_buf (tbl s k)) + mset (dev_queue s (qp_id s k))"

definition total :: "ipsec_ctx \<Rightarrow> nat multiset" where
  "total s = (\<Sum>k<nb_qps s. held s k) + mset (ctx_freed s)"

definition qps_ok :: "ipsec_ctx \<Rightarrow> bool" where
  "qps_ok s \<longleftrightarrow> inj_on (qp_id s) {..<nb_qps s} \<and> nb_qps s \<le> 256
     \<and> (\<forall>k<nb_qps s. length (qp_buf (tbl s k)) < MAX_PKT_BURST
          \<and> unat (in_flight (tbl s k)) = length (dev_queue s (qp_id s k)))
     \<and> (0 < nb_qps s \<longrightarrow> last_qp s < nb_qps s)
     \<and> (\<forall>key k. cdev_map s key = Some k \<longrightarrow> k < nb_qps s)"

definition sessions_ok :: "ipsec_ctx \<Rightarrow> bool" where
  "sessions_ok s \<longleftrightarrow> (\<forall>i. crypto_session (sadb s i) \<noteq> None \<longrightarrow> unat (cdev_id_qp (sadb s i)) < nb_qps s)"

definition queues_ok :: "ipsec_ctx \<Rightarrow> bool" where
  "queues_ok s \<longleftrightarrow> qps_ok s \<and> sessions_ok s"

lemma qps_ok_cong:
  assumes "tbl s' = tbl s" "nb_qps s' = nb_qps s" "dev_queue s' = dev_queue s" "last_qp s' = last_qp s" "cdev_map s' = cdev_map s"
  shows "qps_ok s' = qps_ok s"
proof -
  have "qp_id s' = qp_id s" using assms(1) by (simp add: qp_id_def fun_eq_iff)
  then show ?thesis using assms by (simp add: qps_ok_def)
qed

lemma total_cong:
  assumes "tbl s' = tbl s" "nb_qps s' = nb_qps s" "dev_queue s' = dev_queue s" "ctx_freed s' = ctx_freed s"
  shows "total s' = total s"
  using assms by (simp add: total_def held_def qp_id_def)

lemma sum_change:
  assumes "k < (n :: nat)" and "\<And>j. j < n \<Longrightarrow> j \<noteq> k \<Longrightarrow> g j = f j"
  shows "(\<Sum>j<n. g j) + f k = (\<Sum>j<n. f j) + (g k :: 'a multiset)"
proof -
  have "(\<Sum>j<n. g j) = g k + (\<Sum>j\<in>{..<n} - {k}. g j)" "(\<Sum>j<n. f j) = f k + (\<Sum>j\<in>{..<n} - {k}. f j)"
    using assms(1) by (auto intro: sum.remove)
  moreover have "(\<Sum>j\<in>{..<n} - {k}. g j) = (\<Sum>j\<in>{..<n} - {k}. f j)" using assms(2) by (intro sum.cong) auto
  ultimately show ?thesis by (simp add: ac_simps)
qed

lemma mset_balance:
  assumes "S' + H = S + D" and "D + F' + B = H + F + A"
  shows "S' + F' + B = S + F + (A :: 'a multiset)"
proof (rule multiset_eqI)
  fix x
  show "count (S' + F' + B) x = count (S + F + A) x"
    using arg_cong [OF assms(1), of "\<lambda>M. count M x"] arg_cong [OF assms(2), of "\<lambda>M. count M x"] by simp
qed

text \<open>A change of one queue pair.\<close>

lemma qp_change:
  assumes "qps_ok s" and "k < nb_qps s"
    and s': "tbl s' = (tbl s)(k := c)" "dev_queue s' = (dev_queue s)(qp_id s k := ops)" "nb_qps s' = nb_qps s"
      "cdev_map s' = cdev_map s" "0 < nb_qps s \<longrightarrow> last_qp s' < nb_qps s"
    and c: "qp_dev c = qp_dev (tbl s k)" "qp_qp c = qp_qp (tbl s k)" "length (qp_buf c) < MAX_PKT_BURST"
      "unat (in_flight c) = length ops"
    and bal: "mset (qp_buf c) + mset ops + mset (ctx_freed s') + B = held s k + mset (ctx_freed s) + A"
  shows "qps_ok s' \<and> total s' + B = total s + A"
proof -
  have id: "qp_id s' = qp_id s" using s'(1) c(1,2) by (auto simp: qp_id_def)
  have ne: "qp_id s j \<noteq> qp_id s k" if "j < nb_qps s" "j \<noteq> k" for j
    using assms(1,2) that by (auto simp: qps_ok_def inj_on_def)
  have ok: "qps_ok s'" using assms(1) s' c ne by (auto simp: qps_ok_def id)
  have hk: "held s' k = mset (qp_buf c) + mset ops" using s' by (simp add: held_def id)
  have hj: "held s' j = held s j" if "j < nb_qps s" "j \<noteq> k" for j
    using that s' ne by (simp add: held_def id)
  have "(\<Sum>j<nb_qps s. held s' j) + held s k = (\<Sum>j<nb_qps s. held s j) + (mset (qp_buf c) + mset ops)"
    using sum_change [where g = "held s'" and f = "held s", OF assms(2)] hj hk by simp
  from mset_balance [OF this bal] show ?thesis using ok by (simp add: total_def s'(3))
qed

lemma enqueue_cop_accounts:
  assumes "qps_ok s" and "device_ok dev" and "k < nb_qps s"
  shows "qps_ok (enqueue_cop dev k p s) \<and> total (enqueue_cop dev k p s) = total s + {#p#}
    \<and> sadb (enqueue_cop dev k p s) = sadb s \<and> nb_qps (enqueue_cop dev k p s) = nb_qps s"
proof -
  let ?q = "qp_id s k" and ?b = "qp_buf (tbl s k) @ [p]"
  have b: "length (qp_buf (tbl s k)) < MAX_PKT_BURST" and fl: "unat (in_flight (tbl s k)) = length (dev_queue s ?q)"
    using assms(1,3) by (auto simp: qps_ok_def)
  have last: "0 < nb_qps s \<longrightarrow> last_qp s < nb_qps s" using assms(1) by (simp add: qps_ok_def)
  show ?thesis
  proof (cases "length ?b = MAX_PKT_BURST")
    case False
    then have "qps_ok (enqueue_cop dev k p s) \<and> total (enqueue_cop dev k p s) + {#} = total s + {#p#}"
      using b fl last assms(1,3)
      by (intro qp_change [where c = "(tbl s k)\<lparr>qp_buf := ?b\<rparr>" and ops = "dev_queue s ?q"])
        (auto simp: enqueue_cop_def Let_def held_def)
    with False show ?thesis by (auto simp: enqueue_cop_def Let_def)
  next
    case True
    define ret where "ret = enq_count dev (calls s) ?q (dev_queue s ?q) ?b"
    have held16: "length (dev_queue s ?q) < 2 ^ 16"
      using fl unsigned_less [where 'a = nat, of "in_flight (tbl s k)"] by simp
    have r: "ret \<le> length ?b" "length (dev_queue s ?q) + ret < 2 ^ 16"
      using assms(2) held16 unfolding ret_def device_ok_def by blast+
    have u: "unat (in_flight (tbl s k) + of_nat ret) = length (dev_queue s ?q @ take ret ?b)"
      using r fl by (simp add: unat_word_ariths unat_of_nat_eq)
    have m: "mset ?b = mset (take ret ?b) + mset (drop ret ?b)" by (metis append_take_drop_id mset_append)
    have e: "enqueue_cop dev k p s = s\<lparr>calls := calls s + 1, dev_queue := (dev_queue s)(?q := dev_queue s ?q @ take ret ?b),
        ctx_freed := ctx_freed s @ drop ret ?b,
        tbl := (tbl s)(k := (tbl s k)\<lparr>in_flight := in_flight (tbl s k) + of_nat ret, qp_buf := []\<rparr>)\<rparr>"
      using True by (simp add: enqueue_cop_def Let_def free_pkts_def qp_id_def ret_def)
    have "qps_ok (enqueue_cop dev k p s) \<and> total (enqueue_cop dev k p s) + {#} = total s + {#p#}"
    proof (rule qp_change [OF assms(1,3)])
      show "tbl (enqueue_cop dev k p s) = (tbl s)(k := (tbl s k)\<lparr>in_flight := in_flight (tbl s k) + of_nat ret, qp_buf := []\<rparr>)"
        "dev_queue (enqueue_cop dev k p s) = (dev_queue s)(?q := dev_queue s ?q @ take ret ?b)" unfolding e by simp_all
      show "mset (qp_buf ((tbl s k)\<lparr>in_flight := in_flight (tbl s k) + of_nat ret, qp_buf := []\<rparr>))
        + mset (dev_queue s ?q @ take ret ?b) + mset (ctx_freed (enqueue_cop dev k p s)) + {#} = held s k + mset (ctx_freed s) + {#p#}"
        unfolding e using m by (simp add: held_def ac_simps)
    qed (use u last in \<open>simp_all add: e MAX_PKT_BURST_def\<close>)
    then show ?thesis using e by simp
  qed
qed

section \<open>The contract of a transform\<close>

text \<open>What the queues rely on: a transform leaves the session and the queue pair of the association
  alone.\<close>

locale esp_xform =
  fixes xf :: xform_fn
  assumes keeps: "xf m sa cop = Some (r, m', sa', cop') \<Longrightarrow>
    crypto_session sa' = crypto_session sa \<and> cdev_id_qp sa' = cdev_id_qp sa"
begin

lemma run_xform_keeps:
  assumes "run_xform xf p i s = Some (r, s')"
  shows "tbl s' = tbl s \<and> nb_qps s' = nb_qps s \<and> dev_queue s' = dev_queue s \<and> ctx_freed s' = ctx_freed s
    \<and> last_qp s' = last_qp s \<and> cdev_map s' = cdev_map s
    \<and> (\<forall>j. crypto_session (sadb s' j) = crypto_session (sadb s j) \<and> cdev_id_qp (sadb s' j) = cdev_id_qp (sadb s j))"
  using assms keeps by (auto simp: run_xform_def)

end

lemma create_session_fields:
  assumes "create_session dev lcore i s = Some s'"
  shows "tbl s' = tbl s \<and> nb_qps s' = nb_qps s \<and> dev_queue s' = dev_queue s \<and> ctx_freed s' = ctx_freed s
    \<and> last_qp s' = last_qp s \<and> cdev_map s' = cdev_map s"
  using assms by (auto simp: create_session_def Let_def split: option.splits)

lemma create_session_ok:
  assumes "create_session dev lcore i s = Some s'" and "queues_ok s"
  shows "queues_ok s' \<and> unat (cdev_id_qp (sadb s' i)) < nb_qps s'"
proof -
  from assms(1) obtain k where k: "cdev_map s (lcore, cipher_algo (sadb s i), auth_algo (sadb s i)) = Some k"
    and s': "s' = s\<lparr>sadb := (sadb s)(i := (sadb s i)\<lparr>crypto_session := session_create dev (qp_dev (tbl s k)) (sadb s i),
        cdev_id_qp := of_nat k\<rparr>)\<rparr>"
    by (auto simp: create_session_def Let_def split: option.splits)
  have kn: "k < nb_qps s" "nb_qps s \<le> 256" using assms(2) k by (auto simp: queues_ok_def qps_ok_def)
  then have "unat (of_nat k :: u32) = k" by (intro unat_of_nat_eq) simp
  moreover have "qps_ok s'" using assms(2) qps_ok_cong [of s' s] s' by (simp add: queues_ok_def)
  ultimately show ?thesis using assms(2) kn s' by (auto simp: queues_ok_def sessions_ok_def)
qed

lemma free_pkts_fields [simp]:
  "tbl (free_pkts ps s) = tbl s" "nb_qps (free_pkts ps s) = nb_qps s" "dev_queue (free_pkts ps s) = dev_queue s"
  "last_qp (free_pkts ps s) = last_qp s" "cdev_map (free_pkts ps s) = cdev_map s" "sadb (free_pkts ps s) = sadb s"
  "ctx_freed (free_pkts ps s) = ctx_freed s @ ps"
  by (simp_all add: free_pkts_def)

lemma free_pkts_total: "total (free_pkts ps s) = total s + mset ps" "queues_ok (free_pkts ps s) = queues_ok s"
proof -
  have "qp_id (free_pkts ps s) = qp_id s" by (simp add: qp_id_def fun_eq_iff)
  then show "total (free_pkts ps s) = total s + mset ps" by (simp add: total_def held_def)
  show "queues_ok (free_pkts ps s) = queues_ok s"
    using qps_ok_cong [of "free_pkts ps s" s] by (simp add: queues_ok_def sessions_ok_def)
qed

lemma queues_ok_cong:
  assumes "tbl s' = tbl s" "nb_qps s' = nb_qps s" "dev_queue s' = dev_queue s" "last_qp s' = last_qp s" "cdev_map s' = cdev_map s"
    and "\<And>j. crypto_session (sadb s' j) = crypto_session (sadb s j) \<and> cdev_id_qp (sadb s' j) = cdev_id_qp (sadb s j)"
  shows "queues_ok s' = queues_ok s"
  using qps_ok_cong [OF assms(1-5)] assms(2,6) by (simp add: queues_ok_def sessions_ok_def)

lemma session_ready:
  assumes "queues_ok s" and "(if crypto_session (sadb s i) = None then create_session dev lcore i s else Some s) = Some s'"
  shows "queues_ok s' \<and> total s' = total s \<and> unat (cdev_id_qp (sadb s' i)) < nb_qps s'"
proof (cases "crypto_session (sadb s i) = None")
  case True
  with assms(2) have c: "create_session dev lcore i s = Some s'" by simp
  have "total s' = total s" using create_session_fields [OF c] by (intro total_cong) simp_all
  with create_session_ok [OF c assms(1)] show ?thesis by simp
next
  case False
  moreover from this assms(1) have "unat (cdev_id_qp (sadb s i)) < nb_qps s"
    unfolding queues_ok_def sessions_ok_def by blast
  moreover have "s' = s" using assms(2) unfolding if_not_P [OF False] by simp
  ultimately show ?thesis using assms(1) by simp
qed

lemma session_ready_fields:
  assumes "(if crypto_session (sadb s i) = None then create_session dev lcore i s else Some s) = Some s'"
  shows "tbl s' = tbl s \<and> nb_qps s' = nb_qps s \<and> dev_queue s' = dev_queue s"
proof (cases "crypto_session (sadb s i) = None")
  case True
  with assms create_session_fields show ?thesis by (metis (no_types))
next
  case False
  then show ?thesis using assms unfolding if_not_P [OF False] by simp
qed

lemma enqueue_cop_ok:
  assumes "queues_ok s" and "device_ok dev" and "k < nb_qps s"
  shows "queues_ok (enqueue_cop dev k p s) \<and> total (enqueue_cop dev k p s) = total s + {#p#}"
  using enqueue_cop_accounts [OF _ assms(2,3), of p] assms(1) by (auto simp: queues_ok_def sessions_ok_def)

text \<open>The two ways a packet with an association goes: without a session it is freed; otherwise the
  transform runs in a state \<open>s3\<close> that differs in the session only.\<close>

lemma enqueue_one_cases:
  assumes "enqueue_one dev xf lcore (p, Some i) s = Some s'" and "queues_ok s"
  obtains (no_session) s1 where "s' = free_pkts [p] s1" and "queues_ok s1" and "total s1 = total s"
      and "tbl s1 = tbl s" and "nb_qps s1 = nb_qps s" and "dev_queue s1 = dev_queue s"
  | (ran) s3 ret s4 where "run_xform xf p i s3 = Some (ret, s4)"
      and "s' = (if ret \<noteq> 0 then free_pkts [p] s4 else enqueue_cop dev (unat (cdev_id_qp (sadb s4 i))) p s4)"
      and "queues_ok s3" and "total s3 = total s" and "unat (cdev_id_qp (sadb s3 i)) < nb_qps s3"
      and "tbl s3 = tbl s" and "nb_qps s3 = nb_qps s" and "dev_queue s3 = dev_queue s"
proof -
  define s1 where "s1 = s\<lparr>pkt_sa := (pkt_sa s)(p := i), pkt_status := (pkt_status s)(p := STATUS_NOT_PROCESSED)\<rparr>"
  have s1: "queues_ok s1" "total s1 = total s" "tbl s1 = tbl s" "nb_qps s1 = nb_qps s" "dev_queue s1 = dev_queue s"
    using assms(2) queues_ok_cong [of s1 s] total_cong [of s1 s] by (simp_all add: s1_def)
  have e: "enqueue_one dev xf lcore (p, Some i) s =
      (case (if crypto_session (sadb s1 i) = None then create_session dev lcore i s1 else Some s1) of
              None \<Rightarrow> Some (free_pkts [p] s1)
            | Some s \<Rightarrow>
                let s = s\<lparr>pkt_session := (pkt_session s)(p := crypto_session (sadb s i))\<rparr>
                in (case run_xform xf p i s of
                   None \<Rightarrow> None
                 | Some (ret, s) \<Rightarrow>
                     Some (if ret \<noteq> 0 then free_pkts [p] s
                           else enqueue_cop dev (unat (cdev_id_qp (sadb s i))) p s)))"
    unfolding s1_def by (simp add: enqueue_one_def Let_def)
  show ?thesis
  proof (cases "if crypto_session (sadb s1 i) = None then create_session dev lcore i s1 else Some s1")
    case None
    then have "s' = free_pkts [p] s1" using assms(1) unfolding e by simp
    then show ?thesis using no_session s1 by blast
  next
    case (Some s2)
    have s2: "queues_ok s2" "total s2 = total s" "unat (cdev_id_qp (sadb s2 i)) < nb_qps s2"
      "tbl s2 = tbl s" "nb_qps s2 = nb_qps s" "dev_queue s2 = dev_queue s"
      using session_ready [OF s1(1) Some] session_ready_fields [OF Some] s1 by simp_all
    define s3 where "s3 = s2\<lparr>pkt_session := (pkt_session s2)(p := crypto_session (sadb s2 i))\<rparr>"
    have s3: "queues_ok s3" "total s3 = total s" "unat (cdev_id_qp (sadb s3 i)) < nb_qps s3"
      "tbl s3 = tbl s" "nb_qps s3 = nb_qps s" "dev_queue s3 = dev_queue s"
      using s2 queues_ok_cong [of s3 s2] total_cong [of s3 s2] by (simp_all add: s3_def)
    from assms(1) obtain ret s4 where "run_xform xf p i s3 = Some (ret, s4)"
      and "s' = (if ret \<noteq> 0 then free_pkts [p] s4 else enqueue_cop dev (unat (cdev_id_qp (sadb s4 i))) p s4)"
      unfolding e Some by (auto simp: s3_def Let_def split: option.splits)
    then show ?thesis using ran s3 by blast
  qed
qed

context esp_xform
begin

lemma enqueue_one_accounts:
  assumes "queues_ok s" and "device_ok dev" and "enqueue_one dev xf lcore (p, sa) s = Some s'"
  shows "queues_ok s' \<and> total s' = total s + {#p#}"
proof (cases sa)
  case None
  then show ?thesis using assms(1,3) by (auto simp: enqueue_one_def free_pkts_total)
next
  case (Some i)
  show ?thesis
  proof (cases rule: enqueue_one_cases [OF assms(3) [unfolded Some] assms(1), case_names no_session ran])
    case no_session
    then show ?thesis by (simp add: free_pkts_total)
  next
    case (ran s3 ret s4)
    note k = run_xform_keeps [OF ran(1)]
    have s4: "queues_ok s4" "total s4 = total s" "unat (cdev_id_qp (sadb s4 i)) < nb_qps s4"
      using ran k queues_ok_cong [of s4 s3] total_cong [of s4 s3] by simp_all
    then show ?thesis using ran(2) enqueue_cop_ok [OF s4(1) assms(2) s4(3), of p]
      by (simp add: free_pkts_total)
  qed
qed

lemma enqueue_accounts:
  assumes "queues_ok s" and "device_ok dev" and "ipsec_enqueue dev xf lcore xs s = Some s'"
  shows "queues_ok s' \<and> total s' = total s + mset (map fst xs)"
  using assms
proof (induction xs arbitrary: s)
  case (Cons x xs)
  obtain p sa where x: "x = (p, sa)" by fastforce
  from Cons.prems(3) obtain s1 where "enqueue_one dev xf lcore (p, sa) s = Some s1" "ipsec_enqueue dev xf lcore xs s1 = Some s'"
    by (auto simp: x split: option.splits)
  with enqueue_one_accounts [OF Cons.prems(1,2)] Cons.IH [of s1] Cons.prems(2) show ?case by (auto simp: x)
qed simp

end

lemma finish_op_fields [simp]:
  "tbl (finish_op dev p s) = tbl s" "nb_qps (finish_op dev p s) = nb_qps s" "dev_queue (finish_op dev p s) = dev_queue s"
  "last_qp (finish_op dev p s) = last_qp s" "cdev_map (finish_op dev p s) = cdev_map s" "sadb (finish_op dev p s) = sadb s"
  "ctx_freed (finish_op dev p s) = ctx_freed s"
  by (simp_all add: finish_op_def split: prod.splits)

lemma post_ops_accounts:
  assumes "post_ops dev post ops (pkts, s) = Some (pkts', s')" and "queues_ok s"
  shows "queues_ok s' \<and> mset pkts' + total s' = mset pkts + total s + mset ops \<and> nb_qps s' = nb_qps s
    \<and> length pkts' \<le> length pkts + length ops"
  using assms
proof (induction ops arbitrary: pkts s)
  case (Cons p ops)
  define s1 where "s1 = finish_op dev p s"
  from Cons.prems(1) obtain ret :: int and m where
    "post_ops dev post ops (if ret \<noteq> 0 then (pkts, free_pkts [p] (s1\<lparr>pkt_buf := (pkt_buf s1)(p := m)\<rparr>))
       else (pkts @ [p], s1\<lparr>pkt_buf := (pkt_buf s1)(p := m)\<rparr>)) = Some (pkts', s')"
    by (auto simp: s1_def [symmetric] Let_def split: option.splits)
  moreover define s2 where "s2 = s1\<lparr>pkt_buf := (pkt_buf s1)(p := m)\<rparr>"
  moreover have "queues_ok s2" "total s2 = total s" "nb_qps s2 = nb_qps s"
    using Cons.prems(2) queues_ok_cong [of s2 s] total_cong [of s2 s] by (simp_all add: s2_def s1_def)
  ultimately show ?case
    using Cons.IH [of pkts "free_pkts [p] s2"] Cons.IH [of "pkts @ [p]" s2]
    by (cases "ret = 0") (auto simp: free_pkts_total)
qed auto

lemma dequeue_one_accounts:
  assumes "dequeue_one dev post mx (pkts, s) = Some (pkts', s')" and "queues_ok s" and "device_ok dev"
    and "0 < nb_qps s" and "length pkts \<le> mx"
  shows "queues_ok s' \<and> mset pkts' + total s' = mset pkts + total s \<and> nb_qps s' = nb_qps s \<and> length pkts' \<le> mx"
proof -
  let ?k = "last_qp s" and ?s1 = "s\<lparr>last_qp := (if last_qp s + 1 = nb_qps s then 0 else last_qp s + 1)\<rparr>"
  let ?q = "qp_id s ?k"
  have k: "?k < nb_qps s" using assms(2,4) by (simp add: queues_ok_def qps_ok_def)
  have last: "last_qp ?s1 < nb_qps s" using k by auto
  have q1: "qps_ok ?s1" "sessions_ok ?s1"
    using assms(2) last by (auto simp: queues_ok_def qps_ok_def sessions_ok_def qp_id_def inj_on_def)
  have t1: "total ?s1 = total s" by (rule total_cong) simp_all
  show ?thesis
  proof (cases "in_flight (tbl s ?k) = 0")
    case True
    then show ?thesis using assms(1,5) q1 t1 by (auto simp: dequeue_one_def Let_def queues_ok_def)
  next
    case False
    define n where "n = deq_count dev (calls s) ?q (dev_queue s ?q) (mx - length pkts)"
    define s2 where "s2 = ?s1\<lparr>calls := calls s + 1, dev_queue := (dev_queue s)(?q := drop n (dev_queue s ?q)),
       tbl := (tbl s)(?k := (tbl s ?k)\<lparr>in_flight := in_flight (tbl s ?k) - of_nat n\<rparr>)\<rparr>"
    have "n \<le> min (mx - length pkts) (length (dev_queue s ?q))"
      using assms(3) unfolding device_ok_def n_def by blast
    then have n: "n \<le> mx - length pkts" "n \<le> length (dev_queue s ?q)" by simp_all
    have fl: "unat (in_flight (tbl s ?k)) = length (dev_queue s ?q)" "length (qp_buf (tbl s ?k)) < MAX_PKT_BURST"
      using assms(2) k by (auto simp: queues_ok_def qps_ok_def)
    have small: "length (dev_queue s ?q) < 2 ^ 16"
      using fl(1) unsigned_less [where 'a = nat, of "in_flight (tbl s ?k)"] by simp
    then have "unat (of_nat n :: u16) = n" using n(2) by (intro unat_of_nat_eq) simp
    then have u: "unat (in_flight (tbl s ?k) - of_nat n) = length (drop n (dev_queue s ?q))"
      using n(2) fl(1) by (simp add: unat_sub_if')
    have m: "mset (dev_queue s ?q) = mset (take n (dev_queue s ?q)) + mset (drop n (dev_queue s ?q))"
      by (metis append_take_drop_id mset_append)
    have id: "qp_id ?s1 = qp_id s" by (simp add: qp_id_def fun_eq_iff)
    have "qps_ok s2 \<and> total s2 + mset (take n (dev_queue s ?q)) = total ?s1 + {#}"
    proof (rule qp_change [OF q1(1)])
      show "tbl s2 = (tbl ?s1)(?k := (tbl s ?k)\<lparr>in_flight := in_flight (tbl s ?k) - of_nat n\<rparr>)"
        "dev_queue s2 = (dev_queue ?s1)(qp_id ?s1 ?k := drop n (dev_queue s ?q))"
        unfolding id by (simp_all add: s2_def)
      show "mset (qp_buf ((tbl s ?k)\<lparr>in_flight := in_flight (tbl s ?k) - of_nat n\<rparr>)) + mset (drop n (dev_queue s ?q))
          + mset (ctx_freed s2) + mset (take n (dev_queue s ?q)) = held ?s1 ?k + mset (ctx_freed ?s1) + {#}"
        unfolding held_def id using m by (simp add: s2_def)
    qed (use k last fl u in \<open>simp_all add: s2_def\<close>)
    moreover have "sessions_ok s2" using q1(2) by (simp add: sessions_ok_def s2_def)
    moreover have "post_ops dev post (take n (dev_queue s ?q)) (pkts, s2) = Some (pkts', s')"
      using assms(1) False by (simp add: dequeue_one_def Let_def qp_id_def n_def s2_def)
    ultimately show ?thesis
      using post_ops_accounts [of dev post "take n (dev_queue s ?q)" pkts s2 pkts' s'] n t1 assms(5)
      by (auto simp: queues_ok_def s2_def)
  qed
qed

lemma dequeue_loop_accounts:
  assumes "dequeue_loop n dev post mx (pkts, s) = Some (pkts', s')" and "queues_ok s" and "device_ok dev"
    and "n \<le> nb_qps s" and "length pkts \<le> mx"
  shows "queues_ok s' \<and> mset pkts' + total s' = mset pkts + total s \<and> length pkts' \<le> mx"
  using assms
proof (induction n arbitrary: pkts s)
  case (Suc n)
  show ?case
  proof (cases "length pkts < mx")
    case True
    with Suc.prems(1) obtain pk1 s1 where o: "dequeue_one dev post mx (pkts, s) = Some (pk1, s1)"
      and r: "dequeue_loop n dev post mx (pk1, s1) = Some (pkts', s')"
      by (auto split: option.splits)
    from dequeue_one_accounts [OF o Suc.prems(2,3) _ Suc.prems(5)] Suc.IH [OF r _ Suc.prems(3)] Suc.prems(4)
    show ?thesis by auto
  next
    case False
    with Suc.prems show ?thesis by simp
  qed
qed simp

text \<open>Nothing is in flight.\<close>

definition quiet :: "ipsec_ctx \<Rightarrow> bool" where
  "quiet s \<longleftrightarrow> (\<forall>k<nb_qps s. in_flight (tbl s k) = 0)"

lemma dequeue_loop_quiet:
  "quiet s \<Longrightarrow> (0 < nb_qps s \<longrightarrow> last_qp s < nb_qps s) \<Longrightarrow> n \<le> nb_qps s \<Longrightarrow>
   \<exists>l. dequeue_loop n dev post mx ([], s) = Some ([], s\<lparr>last_qp := l\<rparr>)"
proof (induction n arbitrary: s)
  case 0
  have "s = s\<lparr>last_qp := last_qp s\<rparr>" by simp
  then show ?case by (metis dequeue_loop.simps(1))
next
  case (Suc n)
  show ?case
  proof (cases "0 < mx")
    case True
    let ?s = "s\<lparr>last_qp := (if last_qp s + 1 = nb_qps s then 0 else last_qp s + 1)\<rparr>"
    have "in_flight (tbl s (last_qp s)) = 0" using Suc.prems by (auto simp: quiet_def)
    then have o: "dequeue_one dev post mx ([], s) = Some ([], ?s)" by (simp add: dequeue_one_def Let_def)
    have "quiet ?s" using Suc.prems(1) by (auto simp: quiet_def)
    from Suc.IH [OF this] Suc.prems obtain l where "dequeue_loop n dev post mx ([], ?s) = Some ([], ?s\<lparr>last_qp := l\<rparr>)"
      by fastforce
    then show ?thesis using True o by auto
  next
    case False
    then show ?thesis by (intro exI [of _ "last_qp s"]) simp
  qed
qed

text \<open>A queue pair with room takes an operation without calling the device.\<close>

definition room_for :: "nat \<Rightarrow> ipsec_ctx \<Rightarrow> bool" where
  "room_for n s \<longleftrightarrow> (\<forall>k<nb_qps s. length (qp_buf (tbl s k)) + n < MAX_PKT_BURST)"

lemma enqueue_cop_room:
  assumes "room_for (Suc n) s" and "k < nb_qps s"
  shows "room_for n (enqueue_cop dev k p s) \<and> quiet (enqueue_cop dev k p s) = quiet s
    \<and> dev_queue (enqueue_cop dev k p s) = dev_queue s"
proof -
  have "length (qp_buf (tbl s k)) + Suc n < MAX_PKT_BURST" using assms by (auto simp: room_for_def)
  then have "enqueue_cop dev k p s = s\<lparr>tbl := (tbl s)(k := (tbl s k)\<lparr>qp_buf := qp_buf (tbl s k) @ [p]\<rparr>)\<rparr>"
    by (simp add: enqueue_cop_def Let_def)
  then show ?thesis using assms by (auto simp: room_for_def quiet_def)
qed

lemma room_quiet_cong:
  assumes "tbl s' = tbl s" "nb_qps s' = nb_qps s"
  shows "room_for n s' = room_for n s" "quiet s' = quiet s"
  using assms by (simp_all add: room_for_def quiet_def)

lemma room_for_less: "room_for (Suc n) s \<Longrightarrow> room_for n s"
  by (auto simp: room_for_def)

context esp_xform
begin

lemma enqueue_one_room:
  assumes "queues_ok s" and "room_for (Suc n) s" and "enqueue_one dev xf lcore (p, sa) s = Some s'"
  shows "room_for n s' \<and> quiet s' = quiet s \<and> dev_queue s' = dev_queue s"
proof (cases sa)
  case None
  then show ?thesis using assms(2,3) room_for_less [OF assms(2)] room_quiet_cong [of s' s]
    by (auto simp: enqueue_one_def)
next
  case (Some i)
  show ?thesis
  proof (cases rule: enqueue_one_cases [OF assms(3) [unfolded Some] assms(1), case_names no_session ran])
    case (no_session s1)
    then show ?thesis using room_for_less [OF assms(2)] room_quiet_cong [of s' s] by simp
  next
    case (ran s3 ret s4)
    have s4: "tbl s4 = tbl s" "nb_qps s4 = nb_qps s" "dev_queue s4 = dev_queue s" "unat (cdev_id_qp (sadb s4 i)) < nb_qps s4"
      using run_xform_keeps [OF ran(1)] ran by simp_all
    note q = room_quiet_cong [OF s4(1,2)]
    have "room_for (Suc n) s4" using q assms(2) by simp
    from enqueue_cop_room [OF this s4(4)] show ?thesis
      using ran(2) s4 q room_for_less [OF assms(2)] room_quiet_cong [of "free_pkts [p] s4" s4] by auto
  qed
qed

lemma enqueue_room:
  assumes "queues_ok s" and "device_ok dev" and "room_for (length xs) s" and "ipsec_enqueue dev xf lcore xs s = Some s'"
  shows "queues_ok s' \<and> room_for 0 s' \<and> quiet s' = quiet s \<and> dev_queue s' = dev_queue s"
  using assms
proof (induction xs arbitrary: s)
  case (Cons x xs)
  obtain p sa where x: "x = (p, sa)" by fastforce
  from Cons.prems(4) obtain s1 where o: "enqueue_one dev xf lcore (p, sa) s = Some s1" and r: "ipsec_enqueue dev xf lcore xs s1 = Some s'"
    by (auto simp: x split: option.splits)
  have "room_for (Suc (length xs)) s" using Cons.prems(3) by simp
  from enqueue_one_room [OF Cons.prems(1) this o] enqueue_one_accounts [OF Cons.prems(1,2) o] Cons.IH [OF _ Cons.prems(2) _ r]
  show ?case by auto
qed simp

end

section \<open>The transforms of the gateway\<close>

definition outbound_xform :: xform_fn where
  "outbound_xform = esp_outbound"

definition inbound_xform :: xform_fn where
  "inbound_xform m sa cop = (let (r, m, cop) = esp_inbound m sa cop in Some (r, m, sa, cop))"

definition outbound_post :: post_fn where
  "outbound_post m sa status = Some (esp_outbound_post status, m)"

lemma esp_fill_sa: "esp_fill sa hl pp pl nlp pad m cop = (r, m', sa', cop') \<Longrightarrow> sa' = sa\<lparr>sa_seq := sa_seq sa + 1\<rparr>"
  by (auto simp: esp_fill_def Let_def split: option.splits)

lemma esp_outbound_sa:
  "esp_outbound m sa cop = Some (r, m', sa', cop') \<Longrightarrow> sa' = sa \<or> sa' = sa\<lparr>sa_seq := sa_seq sa + 1\<rparr>"
  by (auto simp: esp_outbound_def Let_def split: option.splits prod.splits if_splits dest: esp_fill_sa)

interpretation esp_out: esp_xform outbound_xform
  by unfold_locales (auto simp: outbound_xform_def dest: esp_outbound_sa)

interpretation esp_in: esp_xform inbound_xform
  by unfold_locales (auto simp: inbound_xform_def split: prod.splits)

section \<open>Transforms that return\<close>

lemma dequeue_defined:
  assumes "\<And>m sa st. post m sa st \<noteq> None"
  shows "ipsec_dequeue dev post mx s \<noteq> None"
proof -
  have ops: "post_ops dev post ops (pkts, s) \<noteq> None" for ops pkts s
  proof (induction ops arbitrary: pkts s)
    case (Cons p ops)
    let ?s = "finish_op dev p s"
    obtain ret m where "post (pkt_buf ?s p) (sadb ?s (pkt_sa ?s p)) (pkt_status ?s p) = Some (ret, m)"
      using assms by fastforce
    then show ?case using Cons.IH by (simp add: Let_def)
  qed simp
  have one: "dequeue_one dev post mx st \<noteq> None" for st
    using ops by (cases st) (simp add: dequeue_one_def Let_def)
  have loop: "dequeue_loop n dev post mx st \<noteq> None" for n st
  proof (induction n arbitrary: st)
    case (Suc n)
    obtain st1 where "dequeue_one dev post mx st = Some st1" using one by blast
    then show ?case using Suc.IH by simp
  qed simp
  show ?thesis unfolding ipsec_dequeue_def by (rule loop)
qed

text \<open>Transforms that return on packets that are ready.\<close>

locale ready_xform = esp_xform +
  fixes ready :: "pktbuf \<Rightarrow> ipsec_sa \<Rightarrow> bool"
  assumes ready_returns: "ready m sa \<Longrightarrow> \<exists>r m' sa' cop'. xf m sa cop = Some (r, m', sa', cop')
      \<and> (\<forall>m2. ready m2 sa' = ready m2 sa)"
    and ready_session: "ready m (sa\<lparr>crypto_session := c, cdev_id_qp := q\<rparr>) = ready m sa"
begin

lemma enqueue_one_ready:
  assumes "\<forall>i. ready (pkt_buf s p) (sadb s i)"
  shows "\<exists>s'. enqueue_one dev xf lcore (p, sa) s = Some s' \<and> (\<forall>p'. p' \<noteq> p \<longrightarrow> pkt_buf s' p' = pkt_buf s p')
    \<and> (\<forall>m i. ready m (sadb s' i) = ready m (sadb s i))"
proof (cases sa)
  case None
  then show ?thesis by (simp add: enqueue_one_def free_pkts_def)
next
  case (Some i)
  let ?s1 = "s\<lparr>pkt_sa := (pkt_sa s)(p := i), pkt_status := (pkt_status s)(p := STATUS_NOT_PROCESSED)\<rparr>"
  let ?c = "if crypto_session (sadb ?s1 i) = None then create_session dev lcore i ?s1 else Some ?s1"
  have e: "enqueue_one dev xf lcore (p, Some i) s = (case ?c of
              None \<Rightarrow> Some (free_pkts [p] ?s1)
            | Some s \<Rightarrow>
                let s = s\<lparr>pkt_session := (pkt_session s)(p := crypto_session (sadb s i))\<rparr>
                in (case run_xform xf p i s of
                   None \<Rightarrow> None
                 | Some (ret, s) \<Rightarrow>
                     Some (if ret \<noteq> 0 then free_pkts [p] s
                           else enqueue_cop dev (unat (cdev_id_qp (sadb s i))) p s)))"
    by (simp add: enqueue_one_def Let_def)
  show ?thesis
  proof (cases ?c)
    case None
    then show ?thesis unfolding Some e by (simp add: free_pkts_def)
  next
    case s2: (Some s2)
    have k2: "pkt_buf s2 = pkt_buf s" "ready m (sadb s2 j) = ready m (sadb s j)" for m j
      using s2 ready_session
      by (auto simp: create_session_def Let_def split: if_splits option.splits)
    let ?s3 = "s2\<lparr>pkt_session := (pkt_session s2)(p := crypto_session (sadb s2 i))\<rparr>"
    have "ready (pkt_buf s2 p) (sadb s2 i)" using assms k2 by simp
    from ready_returns [OF this, of "pkt_op s2 p"] obtain r m' sa' cop' where
      x: "xf (pkt_buf s2 p) (sadb s2 i) (pkt_op s2 p) = Some (r, m', sa', cop')" "\<forall>m2. ready m2 sa' = ready m2 (sadb s2 i)"
      by blast
    let ?s4 = "?s3\<lparr>pkt_buf := (pkt_buf s2)(p := m'), sadb := (sadb s2)(i := sa'), pkt_op := (pkt_op s2)(p := cop')\<rparr>"
    have "run_xform xf p i ?s3 = Some (r, ?s4)" using x(1) by (simp add: run_xform_def)
    then have "enqueue_one dev xf lcore (p, Some i) s =
        Some (if r \<noteq> 0 then free_pkts [p] ?s4 else enqueue_cop dev (unat (cdev_id_qp (sadb ?s4 i))) p ?s4)"
      unfolding e s2 by (simp add: Let_def)
    moreover have "pkt_buf (enqueue_cop dev k p s) = pkt_buf s \<and> sadb (enqueue_cop dev k p s) = sadb s" for k s
      by (simp add: enqueue_cop_def free_pkts_def Let_def)
    moreover have "pkt_buf ?s4 p' = pkt_buf s p'" if "p' \<noteq> p" for p' using that k2(1) by simp
    moreover have "ready m (sadb ?s4 j) = ready m (sadb s j)" for m j using x(2) k2(2) by simp
    ultimately show ?thesis unfolding Some by (cases "r = 0") (simp_all add: free_pkts_def)
  qed
qed

lemma enqueue_ready:
  "distinct (map fst xs) \<Longrightarrow> \<forall>p\<in>fst ` set xs. \<forall>i. ready (pkt_buf s p) (sadb s i) \<Longrightarrow>
   \<exists>s'. ipsec_enqueue dev xf lcore xs s = Some s'"
proof (induction xs arbitrary: s)
  case (Cons x xs)
  obtain p sa where x: "x = (p, sa)" by fastforce
  have "\<forall>i. ready (pkt_buf s p) (sadb s i)" using Cons.prems(2) x by simp
  from enqueue_one_ready [OF this, of dev lcore sa] obtain s1 where
    s1: "enqueue_one dev xf lcore x s = Some s1" "\<And>p'. p' \<noteq> p \<Longrightarrow> pkt_buf s1 p' = pkt_buf s p'"
      "\<And>m i. ready m (sadb s1 i) = ready m (sadb s i)"
    unfolding x by blast
  have "\<forall>p\<in>fst ` set xs. \<forall>i. ready (pkt_buf s1 p) (sadb s1 i)"
  proof (intro ballI allI)
    fix p' i assume p': "p' \<in> fst ` set xs"
    then have "p' \<noteq> p" using Cons.prems(1) x by auto
    moreover have "p' \<in> fst ` set (x # xs)" using p' by simp
    then have "ready (pkt_buf s p') (sadb s i)" using Cons.prems(2) by blast
    ultimately show "ready (pkt_buf s1 p') (sadb s1 i)" using s1 by simp
  qed
  with Cons.IH [of s1] Cons.prems(1) s1(1) show ?case by simp
qed simp

end

text \<open>The outbound transform needs headroom for the largest headers: 40 + 8 + 16 bytes.\<close>

definition out_ready :: "pktbuf \<Rightarrow> ipsec_sa \<Rightarrow> bool" where
  "out_ready m sa \<longleftrightarrow> unat (iv_len sa) \<le> 16 \<and> 64 \<le> length (headroom m)"

lemma esp_new_headers_defined:
  assumes "ext \<le> 24" and "64 \<le> length (headroom m)"
  shows "esp_new_headers sa ext hl m \<noteq> None"
  using assms
  by (auto simp: esp_new_headers_def ipip_outbound_def transport_outbound_def rte_pktmbuf_prepend_def Let_def)

lemma esp_outbound_defined:
  assumes "out_ready m sa"
  shows "\<exists>r m' sa' cop'. esp_outbound m sa cop = Some (r, m', sa', cop') \<and> (\<forall>m2. out_ready m2 sa' = out_ready m2 sa)"
proof -
  have h: "headroom m' = headroom m" if "rte_pktmbuf_append n m = Some m'" for n m'
    using that by (auto simp: rte_pktmbuf_append_def split: if_splits)
  have d: "esp_new_headers sa (8 + unat (iv_len sa)) hl m' \<noteq> None" if "rte_pktmbuf_append n m = Some m'" for n m' hl
    using esp_new_headers_defined [of "8 + unat (iv_len sa)" m' sa hl] assms h [OF that] by (simp add: out_ready_def)
  have "esp_outbound m sa cop \<noteq> None"
  proof (cases "outbound_next sa (mdata m)")
    case None
    then show ?thesis by (simp add: esp_outbound_def)
  next
    case (Some x)
    obtain hl nlp where x: "x = (hl, nlp)" by fastforce
    obtain pp pl where p: "esp_pad (of_nat (length (mdata m))) hl (block_size sa) = (pp, pl)" by fastforce
    show ?thesis
    proof (cases "rte_pktmbuf_append (unat (pl + digest_len sa)) m")
      case None
      then show ?thesis unfolding esp_outbound_def Some x option.case prod.case p Let_def by simp
    next
      case (Some m')
      define H where "H = (if flags sa = IP4_TUNNEL then 20 else if flags sa = IP6_TUNNEL then 40 else unat hl)"
      from Some obtain m'' where "esp_new_headers sa (8 + unat (iv_len sa)) H m' = Some m''" using d by blast
      with Some show ?thesis
        unfolding esp_outbound_def \<open>outbound_next sa (mdata m) = Some x\<close> x option.case prod.case p Let_def H_def [symmetric] by (simp del: not_None_eq)
    qed
  qed
  then obtain r m' sa' cop' where o: "esp_outbound m sa cop = Some (r, m', sa', cop')"
    by (metis not_None_eq prod_cases4)
  moreover have "iv_len sa' = iv_len sa" using esp_outbound_sa [OF o] by auto
  ultimately show ?thesis by (simp add: out_ready_def)
qed

interpretation out_ready: ready_xform outbound_xform out_ready
  by unfold_locales (use esp_outbound_defined in \<open>simp_all add: outbound_xform_def\<close>, simp add: out_ready_def)

interpretation in_ready: ready_xform inbound_xform "\<lambda>m sa. True"
  by unfold_locales (auto simp: inbound_xform_def split: prod.splits)

end
