(* ===== verification/Gateway_Cdev.thy ===== *)
theory Gateway_Cdev
  imports Startup Crypto_Queue
begin

text \<open>
  How \<^verbatim>\<open>cryptodevs_init\<close> of \<^verbatim>\<open>ipsec-secgw.c\<close> distributes the queue pairs of the
  crypto devices: every core gets, for each direction, a table of queue pairs, and a map shared by
  the cores tells which entry serves a pair of algorithms.  \<^verbatim>\<open>rte_hash\<close> is a map whose
  insertion may fail (\<open>pf_hash_add\<close>).
\<close>

section \<open>The devices\<close>

text \<open>The capabilities of a device, and what the crypto devices and the hash tables answer.\<close>

datatype capability = Cap_cipher cipher_algorithm | Cap_auth auth_algorithm | Cap_other

record cdev_info =
  chaining :: bool
  capabilities :: "capability list"
  max_nb_queue_pairs :: u32

record cdev_platform =
  pf_hash_create :: bool
  pf_hash_add :: "(cdev_key \<rightharpoonup> nat) \<Rightarrow> cdev_key \<Rightarrow> bool"
  pf_cdevs :: "cdev_info list"
  pf_cdev_configure :: "nat \<Rightarrow> nat \<Rightarrow> bool"
  pf_queue_pair_setup :: "nat \<Rightarrow> nat \<Rightarrow> bool"
  pf_cdev_start :: "nat \<Rightarrow> bool"

section \<open>The code\<close>

definition MAX_QP_PER_LCORE :: nat where "MAX_QP_PER_LCORE = 256"

text \<open>For each direction, where \<open>True\<close> is inbound: the map from a core and a pair of
  algorithms to an index into the table of that core, and the tables up to their
  \<^verbatim>\<open>nb_qps\<close>, pairs of a device and a queue pair.  For each device the number of queue pairs it
  was configured with.\<close>

record cdev_state =
  cd_map :: "bool \<Rightarrow> cdev_key \<rightharpoonup> nat"
  cd_tbl :: "bool \<Rightarrow> nat \<Rightarrow> (nat \<times> nat) list"
  cd_nb_qps :: "nat \<Rightarrow> nat"

definition add_mapping :: "((cdev_key \<rightharpoonup> nat) \<Rightarrow> cdev_key \<Rightarrow> bool) \<Rightarrow> bool \<Rightarrow> nat \<Rightarrow> nat \<Rightarrow> nat \<Rightarrow>
    cipher_algorithm \<times> auth_algorithm \<Rightarrow> cdev_state \<Rightarrow> bool \<times> cdev_state" where
  "add_mapping hash_add inb cdev qp lcore ij s =
     (let key = (lcore, ij); es = cd_tbl s inb lcore; i = length (takeWhile (\<lambda>e. fst e \<noteq> cdev) es)
      in if cd_map s inb key \<noteq> None then (False, s)
         else if i = length es \<and> length es = MAX_QP_PER_LCORE then (False, s)
         else let s = (if i = length es
                       then s\<lparr>cd_tbl := (cd_tbl s)(inb := (cd_tbl s inb)(lcore := es @ [(cdev, qp)]))\<rparr> else s)
              in if \<not> hash_add (cd_map s inb) key then (False, s)
                 else (True, s\<lparr>cd_map := (cd_map s)(inb := (cd_map s inb)(key \<mapsto> i))\<rparr>))"

text \<open>The pairs of a cipher and an authentication the two loops over the capabilities meet.\<close>

definition algo_pairs :: "capability list \<Rightarrow> (cipher_algorithm \<times> auth_algorithm) list" where
  "algo_pairs caps = [(i, j). Cap_cipher i \<leftarrow> caps, Cap_auth j \<leftarrow> caps]"

fun add_mappings :: "(cipher_algorithm \<times> auth_algorithm \<Rightarrow> cdev_state \<Rightarrow> bool \<times> cdev_state) \<Rightarrow>
    (cipher_algorithm \<times> auth_algorithm) list \<Rightarrow> cdev_state \<Rightarrow> bool \<times> cdev_state" where
  "add_mappings add [] s = (False, s)"
| "add_mappings add (ij # ijs) s =
     (let (ret, s) = add ij s; (ret', s) = add_mappings add ijs s in (ret \<or> ret', s))"

definition inbound_port :: "u32 \<Rightarrow> lcore_params \<Rightarrow> bool" where
  "inbound_port unprotected p \<longleftrightarrow> port_bit unprotected (unat (port_id p))"

definition add_cdev_mapping :: "((cdev_key \<rightharpoonup> nat) \<Rightarrow> cdev_key \<Rightarrow> bool) \<Rightarrow> u32 \<Rightarrow> cdev_info \<Rightarrow> nat \<Rightarrow> nat \<Rightarrow> lcore_params \<Rightarrow>
    cdev_state \<Rightarrow> bool \<times> cdev_state" where
  "add_cdev_mapping hash_add unprotected dev_info cdev qp p s =
     (if \<not> chaining dev_info then (False, s)
      else add_mappings (add_mapping hash_add (inbound_port unprotected p) cdev qp (unat (lcore_id p)))
             (algo_pairs (capabilities dev_info)) s)"

text \<open>The loop of one device over the queue parameters, \<open>n\<close> turns of which are left.\<close>

fun assign_qps :: "(nat \<Rightarrow> lcore_params \<Rightarrow> cdev_state \<Rightarrow> bool \<times> cdev_state) \<Rightarrow> lcore_params list \<Rightarrow> nat \<Rightarrow> nat \<Rightarrow>
    nat \<times> nat \<times> cdev_state \<Rightarrow> nat \<times> nat \<times> cdev_state" where
  "assign_qps add ps max_nb_qps 0 (idx, qp, s) = (idx, qp, s)"
| "assign_qps add ps max_nb_qps (Suc n) (idx, qp, s) =
     (if qp < max_nb_qps
      then let (ret, s) = add qp (ps ! idx) s
           in assign_qps add ps max_nb_qps n ((idx + 1) mod length ps, if ret then qp + 1 else qp, s)
      else (idx, qp, s))"

definition init_cdev :: "'a cdev_platform_scheme \<Rightarrow> u32 \<Rightarrow> lcore_params list \<Rightarrow> nat \<Rightarrow> nat \<times> cdev_state \<Rightarrow> (nat \<times> cdev_state) option" where
  "init_cdev pf unprotected ps cdev = (\<lambda>(idx, s).
     let info = pf_cdevs pf ! cdev;
         max_nb_qps = min (length ps) (unat (max_nb_queue_pairs info));
         (idx, qp, s) = assign_qps (add_cdev_mapping (pf_hash_add pf) unprotected info cdev) ps max_nb_qps (length ps) (idx, 0, s)
     in if qp = 0 then Some (idx, s)
        else if \<not> pf_cdev_configure pf cdev qp then None
        else if \<not> list_all (pf_queue_pair_setup pf cdev) [0..<qp] then None
        else if \<not> pf_cdev_start pf cdev then None
        else Some (idx, s\<lparr>cd_nb_qps := (cd_nb_qps s)(cdev := qp)\<rparr>))"

definition empty_cdevs :: cdev_state where
  "empty_cdevs = \<lparr>cd_map = (\<lambda>inb. Map.empty), cd_tbl = (\<lambda>inb l. []), cd_nb_qps = (\<lambda>d. 0)\<rparr>"

definition cryptodevs_init :: "'a cdev_platform_scheme \<Rightarrow> u32 \<Rightarrow> lcore_params list \<Rightarrow> cdev_state option" where
  "cryptodevs_init pf unprotected ps =
     (if \<not> pf_hash_create pf then None
      else map_option snd (fold_option (init_cdev pf unprotected ps) (rev [0..<length (pf_cdevs pf)]) (0, empty_cdevs)))"

section \<open>One mapping\<close>

text \<open>Every entry a map points at belongs to a device with the two algorithms.\<close>

definition cdev_offers :: "'a cdev_platform_scheme \<Rightarrow> nat \<Rightarrow> cipher_algorithm \<times> auth_algorithm \<Rightarrow> bool" where
  "cdev_offers pf d ij \<longleftrightarrow> d < length (pf_cdevs pf) \<and> chaining (pf_cdevs pf ! d)
     \<and> Cap_cipher (fst ij) \<in> set (capabilities (pf_cdevs pf ! d)) \<and> Cap_auth (snd ij) \<in> set (capabilities (pf_cdevs pf ! d))"

definition cdev_ok :: "'a cdev_platform_scheme \<Rightarrow> cdev_state \<Rightarrow> bool" where
  "cdev_ok pf s \<longleftrightarrow> (\<forall>inb l. distinct (map fst (cd_tbl s inb l)) \<and> length (cd_tbl s inb l) \<le> 256)
     \<and> (\<forall>inb l ij k. cd_map s inb (l, ij) = Some k \<longrightarrow> k < length (cd_tbl s inb l) \<and> cdev_offers pf (fst (cd_tbl s inb l ! k)) ij)"

text \<open>No two tables share a queue pair, and every queue pair in use is one of those a device was
  or will be configured with: the device \<open>cdev\<close> is worked on, \<open>qp\<close> of its queue pairs are
  taken, and, if \<open>ret\<close>, the next one is in the table of \<open>inb\<close> and \<open>l\<close>.\<close>

definition private_ok :: "nat \<Rightarrow> nat \<Rightarrow> bool \<Rightarrow> bool \<Rightarrow> nat \<Rightarrow> cdev_state \<Rightarrow> bool" where
  "private_ok cdev qp ret inb l s \<longleftrightarrow>
     (\<forall>inb1 l1 inb2 l2 e. e \<in> set (cd_tbl s inb1 l1) \<and> e \<in> set (cd_tbl s inb2 l2) \<longrightarrow> inb1 = inb2 \<and> l1 = l2)
     \<and> (\<forall>inb1 l1 d q. (d, q) \<in> set (cd_tbl s inb1 l1) \<longrightarrow>
          (if d = cdev then q < qp \<or> ret \<and> q = qp \<and> inb1 = inb \<and> l1 = l else q < cd_nb_qps s d))"

lemma add_mapping_cases:
  assumes "add_mapping hash_add inb cdev qp l ij s = (ret, s')"
  obtains (same) "\<not> ret" "s' = s"
  | (mapped) es i where "cd_tbl s' = (cd_tbl s)(inb := (cd_tbl s inb)(l := es))" "cd_nb_qps s' = cd_nb_qps s"
      "es = cd_tbl s inb l \<or> es = cd_tbl s inb l @ [(cdev, qp)] \<and> cdev \<notin> fst ` set (cd_tbl s inb l) \<and> length (cd_tbl s inb l) \<noteq> 256"
      "i < length es" "fst (es ! i) = cdev"
      "ret \<and> cd_map s' = (cd_map s)(inb := (cd_map s inb)((l, ij) \<mapsto> i)) \<and> hash_add (cd_map s inb) (l, ij) \<or> \<not> ret \<and> cd_map s' = cd_map s \<and> \<not> hash_add (cd_map s inb) (l, ij)"
proof -
  define es where "es = cd_tbl s inb l"
  define i where "i = length (takeWhile (\<lambda>e. fst e \<noteq> cdev) es)"
  define s1 where "s1 = (if i = length es then s\<lparr>cd_tbl := (cd_tbl s)(inb := (cd_tbl s inb)(l := es @ [(cdev, qp)]))\<rparr> else s)"
  have r: "(ret, s') = (if cd_map s inb (l, ij) \<noteq> None \<or> i = length es \<and> length es = 256 then (False, s)
     else if \<not> hash_add (cd_map s1 inb) (l, ij) then (False, s1)
     else (True, s1\<lparr>cd_map := (cd_map s1)(inb := (cd_map s1 inb)((l, ij) \<mapsto> i))\<rparr>))"
    using assms unfolding add_mapping_def Let_def es_def [symmetric] i_def [symmetric] s1_def [symmetric] MAX_QP_PER_LCORE_def
    by (auto split: if_splits)
  show ?thesis
  proof (cases "cd_map s inb (l, ij) \<noteq> None \<or> i = length es \<and> length es = 256")
    case True
    then show ?thesis using r same by simp
  next
    case go: False
    have m: "cd_map s1 = cd_map s" "cd_nb_qps s1 = cd_nb_qps s" by (simp_all add: s1_def)
    have out: "ret \<and> cd_map s' = (cd_map s)(inb := (cd_map s inb)((l, ij) \<mapsto> i)) \<and> hash_add (cd_map s inb) (l, ij) \<or> \<not> ret \<and> cd_map s' = cd_map s \<and> \<not> hash_add (cd_map s inb) (l, ij)"
      and t: "cd_tbl s' = cd_tbl s1" "cd_nb_qps s' = cd_nb_qps s"
      using r go m by (auto split: if_splits)
    show ?thesis
    proof (cases "i = length es")
      case True
      then have "takeWhile (\<lambda>e. fst e \<noteq> cdev) es = es"
        by (metis i_def takeWhile_eq_take take_all order_refl)
      then have "cdev \<notin> fst ` set es" by (auto simp: takeWhile_eq_all_conv)
      then show ?thesis using True go out t
        by (intro mapped [of "es @ [(cdev, qp)]" i]) (auto simp: s1_def es_def [symmetric])
    next
      case False
      moreover have "i \<le> length es" by (simp add: i_def length_takeWhile_le)
      ultimately have "i < length es" by simp
      moreover from this have "fst (es ! i) = cdev" unfolding i_def using nth_length_takeWhile [of "\<lambda>e. fst e \<noteq> cdev" es] by auto
      moreover have "cd_tbl s = (cd_tbl s)(inb := (cd_tbl s inb)(l := es))" by (simp add: es_def)
      ultimately show ?thesis using False out t by (intro mapped [of es i]) (simp_all add: s1_def es_def [symmetric])
    qed
  qed
qed

lemma add_mapping_ok:
  assumes "add_mapping hash_add inb cdev qp l ij s = (ret, s')" and "cdev_offers pf cdev ij" and "cdev_ok pf s"
  shows "cdev_ok pf s'"
  using assms(1)
proof (cases rule: add_mapping_cases)
  case (mapped es i)
  have t: "cd_tbl s' inb1 l1 = (if inb1 = inb \<and> l1 = l then es else cd_tbl s inb1 l1)" for inb1 l1 by (simp add: mapped(1))
  have old: "distinct (map fst (cd_tbl s inb l))" "length (cd_tbl s inb l) \<le> 256" using assms(3) by (simp_all add: cdev_ok_def)
  have e: "distinct (map fst es)" "length es \<le> 256" using mapped(3) old by auto
  have n: "k < length (cd_tbl s inb l) \<Longrightarrow> k < length es \<and> es ! k = cd_tbl s inb l ! k" for k using mapped(3) by (auto simp: nth_append)
  have o: "k < length (cd_tbl s' inb1 l1) \<and> cdev_offers pf (fst (cd_tbl s' inb1 l1 ! k)) ij1" if "cd_map s inb1 (l1, ij1) = Some k" for inb1 l1 ij1 k
  proof -
    from assms(3) that have "k < length (cd_tbl s inb1 l1) \<and> cdev_offers pf (fst (cd_tbl s inb1 l1 ! k)) ij1"
      unfolding cdev_ok_def by blast
    then show ?thesis using n [of k] by (cases "inb1 = inb \<and> l1 = l") (auto simp: t)
  qed
  have "k < length (cd_tbl s' inb1 l1) \<and> cdev_offers pf (fst (cd_tbl s' inb1 l1 ! k)) ij1" if c: "cd_map s' inb1 (l1, ij1) = Some k" for inb1 l1 ij1 k
  proof (cases "cd_map s inb1 (l1, ij1) = Some k")
    case False
    then have "inb1 = inb \<and> l1 = l \<and> ij1 = ij \<and> k = i" using c mapped(6) by (auto split: if_splits)
    then show ?thesis using mapped(4,5) assms(2) by (simp add: t)
  qed (rule o)
  moreover have "distinct (map fst (cd_tbl s' inb1 l1)) \<and> length (cd_tbl s' inb1 l1) \<le> 256" for inb1 l1
    using e assms(3) by (simp add: cdev_ok_def t)
  ultimately show ?thesis unfolding cdev_ok_def by blast
qed (use assms(3) in simp)

lemma add_mapping_private:
  assumes "add_mapping hash_add inb cdev qp l ij s = (ret', s')" and "\<And>m key. hash_add m key"
    and "private_ok cdev qp ret inb l s"
  shows "private_ok cdev qp (ret \<or> ret') inb l s' \<and> cd_nb_qps s' = cd_nb_qps s"
  using assms(1)
proof (cases rule: add_mapping_cases)
  case (mapped es i)
  have t: "cd_tbl s' inb1 l1 = (if inb1 = inb \<and> l1 = l then es else cd_tbl s inb1 l1)" for inb1 l1 by (simp add: mapped(1))
  have r: "ret'" using mapped(6) assms(2) by blast
  have d: "if d = cdev then q < qp \<or> ret \<and> q = qp \<and> inb1 = inb \<and> l1 = l else q < cd_nb_qps s d"
    if "(d, q) \<in> set (cd_tbl s inb1 l1)" for inb1 l1 d q
    using assms(3) that unfolding private_ok_def by blast
  then have q: "q < qp \<or> q = qp \<and> inb1 = inb \<and> l1 = l" if "(cdev, q) \<in> set (cd_tbl s inb1 l1)" for inb1 l1 q
    using d [OF that] by auto
  have el: "set es = set (cd_tbl s inb l) \<or> set es = insert (cdev, qp) (set (cd_tbl s inb l))" using mapped(3) by auto
  have "inb1 = inb2 \<and> l1 = l2" if "e \<in> set (cd_tbl s' inb1 l1)" "e \<in> set (cd_tbl s' inb2 l2)" for inb1 l1 inb2 l2 e
  proof (cases "e \<in> set (cd_tbl s inb1 l1) \<and> e \<in> set (cd_tbl s inb2 l2)")
    case True
    then show ?thesis using assms(3) unfolding private_ok_def by blast
  next
    case False
    then have "e = (cdev, qp)" using that el by (auto simp: t split: if_splits)
    then have "inb1 = inb \<and> l1 = l" "inb2 = inb \<and> l2 = l" using that q by (fastforce simp: t split: if_splits)+
    then show ?thesis by simp
  qed
  moreover have "if d = cdev then q' < qp \<or> (ret \<or> ret') \<and> q' = qp \<and> inb1 = inb \<and> l1 = l else q' < cd_nb_qps s' d"
    if "(d, q') \<in> set (cd_tbl s' inb1 l1)" for inb1 l1 d q'
  proof (cases "(d, q') \<in> set (cd_tbl s inb1 l1)")
    case True
    from d [OF this] show ?thesis using r mapped(2) by auto
  next
    case False
    then show ?thesis using that el r by (auto simp: t split: if_splits)
  qed
  ultimately show ?thesis using mapped(2) unfolding private_ok_def by blast
qed (use assms(3) in simp)

section \<open>One device\<close>

lemma algo_pairs_iff: "(i, j) \<in> set (algo_pairs caps) \<longleftrightarrow> Cap_cipher i \<in> set caps \<and> Cap_auth j \<in> set caps"
  by (force simp: algo_pairs_def split: capability.splits)

lemma add_mappings_ok:
  assumes "\<And>ij. ij \<in> set ijs \<Longrightarrow> cdev_offers pf cdev ij"
  shows "add_mappings (add_mapping hash_add inb cdev qp l) ijs s = (ret, s') \<Longrightarrow> cdev_ok pf s \<Longrightarrow> cdev_ok pf s'"
  using assms
proof (induction ijs arbitrary: s ret s')
  case (Cons ij ijs)
  obtain ret1 s1 where a: "add_mapping hash_add inb cdev qp l ij s = (ret1, s1)" by fastforce
  obtain ret2 s2 where b: "add_mappings (add_mapping hash_add inb cdev qp l) ijs s1 = (ret2, s2)" by fastforce
  have "cdev_ok pf s1" by (rule add_mapping_ok [OF a]) (use Cons.prems in auto)
  from Cons.IH [OF b this] Cons.prems a b show ?case by simp
qed simp

lemma add_mappings_private:
  assumes "\<And>m key. hash_add m key"
  shows "add_mappings (add_mapping hash_add inb cdev qp l) ijs s = (ret', s') \<Longrightarrow> private_ok cdev qp ret inb l s \<Longrightarrow>
    private_ok cdev qp (ret \<or> ret') inb l s' \<and> cd_nb_qps s' = cd_nb_qps s"
proof (induction ijs arbitrary: s ret ret' s')
  case (Cons ij ijs)
  obtain ret1 s1 where a: "add_mapping hash_add inb cdev qp l ij s = (ret1, s1)" by fastforce
  obtain ret2 s2 where b: "add_mappings (add_mapping hash_add inb cdev qp l) ijs s1 = (ret2, s2)" by fastforce
  have r: "ret' = (ret1 \<or> ret2)" "s' = s2" using Cons.prems(1) a b by simp_all
  from add_mapping_private [OF a assms Cons.prems(2)]
  have p: "private_ok cdev qp (ret \<or> ret1) inb l s1" "cd_nb_qps s1 = cd_nb_qps s" by simp_all
  from Cons.IH [OF b p(1)] p(2) show ?case unfolding r by (simp add: disj_assoc)
qed simp

lemma add_cdev_mapping_ok:
  assumes "add_cdev_mapping hash_add unprotected (pf_cdevs pf ! cdev) cdev qp p s = (ret, s')"
    and "cdev < length (pf_cdevs pf)" and "cdev_ok pf s"
  shows "cdev_ok pf s'"
proof (cases "chaining (pf_cdevs pf ! cdev)")
  case True
  have "cdev_offers pf cdev ij" if "ij \<in> set (algo_pairs (capabilities (pf_cdevs pf ! cdev)))" for ij
    using that True assms(2) algo_pairs_iff [of "fst ij" "snd ij"] by (simp add: cdev_offers_def)
  from add_mappings_ok [OF this] assms(1,3) True show ?thesis by (simp add: add_cdev_mapping_def)
qed (use assms in \<open>simp add: add_cdev_mapping_def\<close>)

definition taken_ok :: "nat \<Rightarrow> nat \<Rightarrow> cdev_state \<Rightarrow> bool" where
  "taken_ok cdev qp s \<longleftrightarrow> private_ok cdev qp False False 0 s"

lemma private_ok_False: "private_ok cdev qp False inb l s \<longleftrightarrow> taken_ok cdev qp s"
  by (simp add: taken_ok_def private_ok_def)

lemma taken_ok_iff:
  "taken_ok cdev qp s \<longleftrightarrow>
    (\<forall>inb1 l1 inb2 l2 e. e \<in> set (cd_tbl s inb1 l1) \<and> e \<in> set (cd_tbl s inb2 l2) \<longrightarrow> inb1 = inb2 \<and> l1 = l2)
    \<and> (\<forall>inb l d q. (d, q) \<in> set (cd_tbl s inb l) \<longrightarrow> (if d = cdev then q < qp else q < cd_nb_qps s d))"
  by (simp add: taken_ok_def private_ok_def cong: if_cong)

lemma private_ok_taken:
  assumes "private_ok cdev qp ret inb l s"
  shows "taken_ok cdev (if ret then qp + 1 else qp) s"
proof -
  have "if d = cdev then q < (if ret then qp + 1 else qp) else q < cd_nb_qps s d"
    if "(d, q) \<in> set (cd_tbl s inb1 l1)" for inb1 l1 d q
  proof -
    have "if d = cdev then q < qp \<or> ret \<and> q = qp \<and> inb1 = inb \<and> l1 = l else q < cd_nb_qps s d"
      using assms that unfolding private_ok_def by blast
    then show ?thesis by (auto split: if_splits)
  qed
  then show ?thesis using assms unfolding taken_ok_iff private_ok_def by blast
qed

lemma add_cdev_mapping_taken:
  assumes "add_cdev_mapping hash_add unprotected info cdev qp p s = (ret, s')" and "\<And>m key. hash_add m key" and "taken_ok cdev qp s"
  shows "taken_ok cdev (if ret then qp + 1 else qp) s' \<and> cd_nb_qps s' = cd_nb_qps s"
proof (cases "chaining info")
  case True
  let ?inb = "inbound_port unprotected p"
  from add_mappings_private [OF assms(2), where ret = False and inb = ?inb and l = "unat (lcore_id p)"] assms(1,3) True
  have "private_ok cdev qp ret ?inb (unat (lcore_id p)) s' \<and> cd_nb_qps s' = cd_nb_qps s"
    by (simp add: add_cdev_mapping_def private_ok_False)
  then show ?thesis using private_ok_taken by blast
qed (use assms in \<open>simp add: add_cdev_mapping_def\<close>)

lemma assign_qps_invariant:
  assumes "assign_qps add ps max_nb_qps n (idx, qp, s) = (idx', qp', s')" and "P qp s" and "qp \<le> max_nb_qps"
    and "\<And>p qp s ret s'. add qp p s = (ret, s') \<Longrightarrow> P qp s \<Longrightarrow> P (if ret then qp + 1 else qp) s'"
  shows "P qp' s' \<and> qp' \<le> max_nb_qps"
  using assms(1-3)
proof (induction n arbitrary: idx qp s)
  case (Suc n)
  show ?case
  proof (cases "qp < max_nb_qps")
    case True
    obtain ret s1 where a: "add qp (ps ! idx) s = (ret, s1)" by fastforce
    have "assign_qps add ps max_nb_qps n ((idx + 1) mod length ps, if ret then qp + 1 else qp, s1) = (idx', qp', s')"
      using Suc.prems(1) True a by (simp split: if_splits)
    then show ?thesis by (rule Suc.IH) (use assms(4) [OF a Suc.prems(2)] True in simp_all)
  qed (use Suc.prems in simp)
qed simp

section \<open>All devices\<close>

definition all_private :: "'a cdev_platform_scheme \<Rightarrow> nat \<Rightarrow> lcore_params list \<Rightarrow> cdev_state \<Rightarrow> bool" where
  "all_private pf n ps s \<longleftrightarrow>
     (\<forall>inb1 l1 inb2 l2 e. e \<in> set (cd_tbl s inb1 l1) \<and> e \<in> set (cd_tbl s inb2 l2) \<longrightarrow> inb1 = inb2 \<and> l1 = l2)
     \<and> (\<forall>inb l d q. (d, q) \<in> set (cd_tbl s inb l) \<longrightarrow> q < cd_nb_qps s d)
     \<and> (\<forall>d. cd_nb_qps s d \<le> length ps \<and> (d < length (pf_cdevs pf) \<longrightarrow> cd_nb_qps s d \<le> unat (max_nb_queue_pairs (pf_cdevs pf ! d)))
          \<and> (d < n \<longrightarrow> cd_nb_qps s d = 0))"

lemma init_cdev_cases:
  assumes "init_cdev pf unprotected ps cdev (idx, s) = Some (idx', s')"
  obtains qp s1 where "assign_qps (add_cdev_mapping (pf_hash_add pf) unprotected (pf_cdevs pf ! cdev) cdev) ps
      (min (length ps) (unat (max_nb_queue_pairs (pf_cdevs pf ! cdev)))) (length ps) (idx, 0, s) = (idx', qp, s1)"
    and "s' = (if qp = 0 then s1 else s1\<lparr>cd_nb_qps := (cd_nb_qps s1)(cdev := qp)\<rparr>)"
proof -
  obtain idx1 qp s1 where a: "assign_qps (add_cdev_mapping (pf_hash_add pf) unprotected (pf_cdevs pf ! cdev) cdev) ps
      (min (length ps) (unat (max_nb_queue_pairs (pf_cdevs pf ! cdev)))) (length ps) (idx, 0, s) = (idx1, qp, s1)" by (rule prod_cases3)
  with assms have "idx' = idx1 \<and> s' = (if qp = 0 then s1 else s1\<lparr>cd_nb_qps := (cd_nb_qps s1)(cdev := qp)\<rparr>)"
    by (auto simp: init_cdev_def Let_def split: if_splits)
  then show ?thesis using a that by blast
qed

lemma init_cdev_ok:
  assumes "init_cdev pf unprotected ps cdev (idx, s) = Some (idx', s')" and "cdev < length (pf_cdevs pf)" and "cdev_ok pf s"
  shows "cdev_ok pf s'"
proof -
  from assms(1) obtain qp s1 where a: "assign_qps (add_cdev_mapping (pf_hash_add pf) unprotected (pf_cdevs pf ! cdev) cdev) ps
      (min (length ps) (unat (max_nb_queue_pairs (pf_cdevs pf ! cdev)))) (length ps) (idx, 0, s) = (idx', qp, s1)"
    and s': "s' = (if qp = 0 then s1 else s1\<lparr>cd_nb_qps := (cd_nb_qps s1)(cdev := qp)\<rparr>)" by (rule init_cdev_cases)
  have "cdev_ok pf s1"
    using assign_qps_invariant [OF a, of "\<lambda>qp. cdev_ok pf"] add_cdev_mapping_ok [OF _ assms(2)] assms(3) by blast
  then show ?thesis by (simp add: s' cdev_ok_def)
qed

lemma init_cdev_private:
  assumes "init_cdev pf unprotected ps n (idx, s) = Some (idx', s')" and "\<And>m key. pf_hash_add pf m key"
    and "all_private pf (Suc n) ps s"
  shows "all_private pf n ps s'"
proof -
  let ?max = "min (length ps) (unat (max_nb_queue_pairs (pf_cdevs pf ! n)))"
  from assms(1) obtain qp s1 where a: "assign_qps (add_cdev_mapping (pf_hash_add pf) unprotected (pf_cdevs pf ! n) n) ps
      ?max (length ps) (idx, 0, s) = (idx', qp, s1)"
    and s': "s' = (if qp = 0 then s1 else s1\<lparr>cd_nb_qps := (cd_nb_qps s1)(n := qp)\<rparr>)" by (rule init_cdev_cases)
  define P where "P qp t \<longleftrightarrow> taken_ok n qp t \<and> cd_nb_qps t = cd_nb_qps s" for qp t
  have z: "cd_nb_qps s n = 0" and ent: "\<And>inb l d q. (d, q) \<in> set (cd_tbl s inb l) \<Longrightarrow> q < cd_nb_qps s d"
    using assms(3) unfolding all_private_def by blast+
  have "if d = n then q < 0 else q < cd_nb_qps s d" if "(d, q) \<in> set (cd_tbl s inb l)" for inb l d q
    using ent [OF that] z by auto
  then have "P 0 s" using assms(3) unfolding P_def taken_ok_iff all_private_def by blast
  moreover have "P (if ret then qp + 1 else qp) t'"
    if "add_cdev_mapping (pf_hash_add pf) unprotected (pf_cdevs pf ! n) n qp p t = (ret, t')" "P qp t" for p qp t ret t'
    using add_cdev_mapping_taken [OF that(1) assms(2)] that(2) by (simp add: P_def)
  ultimately have P: "P qp s1" "qp \<le> ?max" using assign_qps_invariant [OF a, of P] by blast+
  have n: "cd_nb_qps s' d = (if d = n then qp else cd_nb_qps s d)" for d using P(1) z by (simp add: s' P_def)
  have t: "cd_tbl s' = cd_tbl s1" by (simp add: s')
  have "q < cd_nb_qps s' d" if "(d, q) \<in> set (cd_tbl s' inb l)" for inb l d q
  proof -
    have "if d = n then q < qp else q < cd_nb_qps s1 d" using P(1) that unfolding P_def taken_ok_iff t by blast
    then show ?thesis using P(1) by (simp add: n P_def split: if_splits)
  qed
  moreover have "cd_nb_qps s' d \<le> length ps \<and> (d < length (pf_cdevs pf) \<longrightarrow> cd_nb_qps s' d \<le> unat (max_nb_queue_pairs (pf_cdevs pf ! d)))
          \<and> (d < n \<longrightarrow> cd_nb_qps s' d = 0)" for d
  proof -
    have "cd_nb_qps s d \<le> length ps \<and> (d < length (pf_cdevs pf) \<longrightarrow> cd_nb_qps s d \<le> unat (max_nb_queue_pairs (pf_cdevs pf ! d)))
          \<and> (d < Suc n \<longrightarrow> cd_nb_qps s d = 0)" using assms(3) unfolding all_private_def by blast
    then show ?thesis using P(2) by (auto simp: n)
  qed
  moreover have "inb1 = inb2 \<and> l1 = l2" if "e \<in> set (cd_tbl s' inb1 l1)" "e \<in> set (cd_tbl s' inb2 l2)" for inb1 l1 inb2 l2 e
    using P(1) that unfolding P_def taken_ok_iff t by blast
  ultimately show ?thesis unfolding all_private_def by blast
qed

lemma empty_cdevs_ok: "cdev_ok pf empty_cdevs" "all_private pf n ps empty_cdevs"
  by (simp_all add: cdev_ok_def all_private_def empty_cdevs_def)

lemma init_cdevs_ok:
  "fold_option (init_cdev pf unprotected ps) (rev [0..<n]) (idx, s) = Some (idx', s') \<Longrightarrow> n \<le> length (pf_cdevs pf) \<Longrightarrow>
    cdev_ok pf s \<Longrightarrow> cdev_ok pf s'"
proof (induction n arbitrary: idx s)
  case (Suc n)
  then obtain idx1 s1 where a: "init_cdev pf unprotected ps n (idx, s) = Some (idx1, s1)"
    and b: "fold_option (init_cdev pf unprotected ps) (rev [0..<n]) (idx1, s1) = Some (idx', s')" by (auto split: option.splits)
  from Suc.IH [OF b] init_cdev_ok [OF a] Suc.prems show ?case by simp
qed simp

lemma init_cdevs_private:
  assumes "\<And>m key. pf_hash_add pf m key"
  shows "fold_option (init_cdev pf unprotected ps) (rev [0..<n]) (idx, s) = Some (idx', s') \<Longrightarrow>
    all_private pf n ps s \<Longrightarrow> all_private pf 0 ps s'"
proof (induction n arbitrary: idx s)
  case (Suc n)
  then obtain idx1 s1 where a: "init_cdev pf unprotected ps n (idx, s) = Some (idx1, s1)"
    and b: "fold_option (init_cdev pf unprotected ps) (rev [0..<n]) (idx1, s1) = Some (idx', s')" by (auto split: option.splits)
  from Suc.IH [OF b] init_cdev_private [OF a assms Suc.prems(2)] show ?case by simp
qed simp

lemma cryptodevs_init_cases:
  assumes "cryptodevs_init pf unprotected ps = Some s"
  obtains idx where "fold_option (init_cdev pf unprotected ps) (rev [0..<length (pf_cdevs pf)]) (0, empty_cdevs) = Some (idx, s)"
  using assms by (auto simp: cryptodevs_init_def split: if_splits)

lemma cryptodevs_init_ok: "cryptodevs_init pf unprotected ps = Some s \<Longrightarrow> cdev_ok pf s"
  by (auto elim!: cryptodevs_init_cases dest!: init_cdevs_ok simp: empty_cdevs_ok)

section \<open>Properties\<close>

text \<open>C12: When the map insertions succeed the crypto devices are divided up: no queue pair is in two tables,
  so that no two cores, nor the two directions of a core, work on the same one; every queue pair
  in a table is one its device was configured and started with, within the limit of the device;
  and the entry the map gives for a pair of algorithms exists and its device offers both.\<close>

theorem crypto_queues_private:
  assumes "cryptodevs_init pf unprotected ps = Some s" and "\<forall>m key. pf_hash_add pf m key"
  shows "(\<forall>inb1 l1 inb2 l2 k1 k2. k1 < length (cd_tbl s inb1 l1) \<and> k2 < length (cd_tbl s inb2 l2)
            \<and> cd_tbl s inb1 l1 ! k1 = cd_tbl s inb2 l2 ! k2 \<longrightarrow> inb1 = inb2 \<and> l1 = l2 \<and> k1 = k2)
    \<and> (\<forall>inb l d q. (d, q) \<in> set (cd_tbl s inb l) \<longrightarrow> q < cd_nb_qps s d)
    \<and> (\<forall>d<length (pf_cdevs pf). cd_nb_qps s d \<le> unat (max_nb_queue_pairs (pf_cdevs pf ! d)))
    \<and> (\<forall>inb l ij k. cd_map s inb (l, ij) = Some k \<longrightarrow>
          k < length (cd_tbl s inb l) \<and> cdev_offers pf (fst (cd_tbl s inb l ! k)) ij)"
proof -
  have ok: "cdev_ok pf s" using assms(1) by (rule cryptodevs_init_ok)
  from assms(1) obtain idx where "fold_option (init_cdev pf unprotected ps) (rev [0..<length (pf_cdevs pf)]) (0, empty_cdevs) = Some (idx, s)"
    by (rule cryptodevs_init_cases)
  then have p: "all_private pf 0 ps s" by (rule init_cdevs_private [rotated]) (simp_all add: assms(2) empty_cdevs_ok)
  have "inb1 = inb2 \<and> l1 = l2 \<and> k1 = k2" if "k1 < length (cd_tbl s inb1 l1)" "k2 < length (cd_tbl s inb2 l2)"
    "cd_tbl s inb1 l1 ! k1 = cd_tbl s inb2 l2 ! k2" for inb1 l1 inb2 l2 k1 k2
  proof -
    have "inb1 = inb2 \<and> l1 = l2" using p that nth_mem unfolding all_private_def by metis
    moreover have "distinct (cd_tbl s inb1 l1)" using ok by (simp add: cdev_ok_def distinct_map)
    ultimately show ?thesis using that by (auto simp: nth_eq_iff_index_eq)
  qed
  moreover have "q < cd_nb_qps s d" if "(d, q) \<in> set (cd_tbl s inb l)" for inb l d q
    using p that unfolding all_private_def by blast
  moreover have "cd_nb_qps s d \<le> unat (max_nb_queue_pairs (pf_cdevs pf ! d))" if "d < length (pf_cdevs pf)" for d
    using p that unfolding all_private_def by blast
  moreover have "k < length (cd_tbl s inb l) \<and> cdev_offers pf (fst (cd_tbl s inb l ! k)) ij" if "cd_map s inb (l, ij) = Some k" for inb l ij k
    using ok that unfolding cdev_ok_def by blast
  ultimately show ?thesis by blast
qed

definition sample_cdevs :: cdev_platform where
  "sample_cdevs = \<lparr>pf_hash_create = True, pf_hash_add = (\<lambda>m key. True),
     pf_cdevs = [\<lparr>chaining = True, capabilities = [Cap_auth AUTH_SHA1_HMAC, Cap_cipher CIPHER_AES_CBC], max_nb_queue_pairs = 8\<rparr>],
     pf_cdev_configure = (\<lambda>d n. True), pf_queue_pair_setup = (\<lambda>d q. True), pf_cdev_start = (\<lambda>d. True)\<rparr>"

definition sample_params :: "lcore_params list" where
  "sample_params = [\<lparr>port_id = 0, queue_id = 0, lcore_id = 1\<rparr>, \<lparr>port_id = 1, queue_id = 0, lcore_id = 2\<rparr>]"

theorem crypto_queues_private_witness:
  "\<exists>s. cryptodevs_init sample_cdevs 2 sample_params = Some s \<and> cd_tbl s False 1 = [(0, 0)] \<and> cd_tbl s True 2 = [(0, 1)]
    \<and> 1 < cd_nb_qps s 0 \<and> (\<forall>ij k. cd_map s True (2, ij) = Some k \<longrightarrow> k < 1 \<and> cdev_offers sample_cdevs 0 ij)"
proof -
  have e: "map_option (\<lambda>s. (cd_tbl s False 1, cd_tbl s True 2)) (cryptodevs_init sample_cdevs 2 sample_params) = Some ([(0, 0)], [(0, 1)])"
    by code_simp
  then obtain s where s: "cryptodevs_init sample_cdevs 2 sample_params = Some s" "cd_tbl s False 1 = [(0, 0)]" "cd_tbl s True 2 = [(0, 1)]"
    by auto
  have "\<forall>m key. pf_hash_add sample_cdevs m key" by (simp add: sample_cdevs_def)
  note t = crypto_queues_private [OF s(1) this]
  then have "1 < cd_nb_qps s 0" using s(3) by (metis list.set_intros(1))
  moreover have "k < 1 \<and> cdev_offers sample_cdevs 0 ij" if "cd_map s True (2, ij) = Some k" for ij k
  proof -
    from t that have "k < length (cd_tbl s True 2) \<and> cdev_offers sample_cdevs (fst (cd_tbl s True 2 ! k)) ij" by blast
    then show ?thesis unfolding s(3) by (cases k) simp_all
  qed
  ultimately show ?thesis using s by blast
qed

section \<open>When an insertion fails\<close>

lemma add_mapping_first:
  assumes "add_mapping hash_add inb cdev qp l ij s = (ret, s')" and "cd_map s inb (l, ij) = None"
    and "cdev \<notin> fst ` set (cd_tbl s inb l)" and "length (cd_tbl s inb l) \<noteq> 256"
  shows "(cdev, qp) \<in> set (cd_tbl s' inb l)"
proof -
  have "takeWhile (\<lambda>e. fst e \<noteq> cdev) (cd_tbl s inb l) = cd_tbl s inb l" using assms(3) by (auto simp: takeWhile_eq_all_conv)
  then have n: "length (takeWhile (\<lambda>e. fst e \<noteq> cdev) (cd_tbl s inb l)) = length (cd_tbl s inb l)" by (rule arg_cong)
  show ?thesis using assms(1,2,4) unfolding add_mapping_def Let_def n MAX_QP_PER_LCORE_def by (auto split: if_splits)
qed

lemma add_mapping_mono:
  assumes "add_mapping hash_add inb cdev qp l ij s = (ret, s')"
  shows "set (cd_tbl s inb1 l1) \<subseteq> set (cd_tbl s' inb1 l1) \<and> ((inb1, l1) \<noteq> (inb, l) \<longrightarrow> cd_tbl s' inb1 l1 = cd_tbl s inb1 l1
      \<and> (\<forall>ij1. cd_map s' inb1 (l1, ij1) = cd_map s inb1 (l1, ij1)))
    \<and> (ret \<longrightarrow> (\<exists>m. hash_add m (l, ij)))"
  using assms
proof (cases rule: add_mapping_cases)
  case (mapped es i)
  have "set (cd_tbl s inb l) \<subseteq> set es" using mapped(3) by auto
  moreover have "cd_tbl s' inb1 l1 = (if inb1 = inb \<and> l1 = l then es else cd_tbl s inb1 l1)" by (simp add: mapped(1))
  moreover have "(inb1, l1) \<noteq> (inb, l) \<Longrightarrow> cd_map s' inb1 (l1, ij1) = cd_map s inb1 (l1, ij1)" for ij1 using mapped(6) by auto
  ultimately show ?thesis using mapped(6) by auto
qed simp

lemma add_mappings_mono:
  "add_mappings (add_mapping hash_add inb cdev qp l) ijs s = (ret, s') \<Longrightarrow>
   set (cd_tbl s inb1 l1) \<subseteq> set (cd_tbl s' inb1 l1) \<and> ((inb1, l1) \<noteq> (inb, l) \<longrightarrow> cd_tbl s' inb1 l1 = cd_tbl s inb1 l1
      \<and> (\<forall>ij1. cd_map s' inb1 (l1, ij1) = cd_map s inb1 (l1, ij1)))
    \<and> (ret \<longrightarrow> (\<exists>m ij. hash_add m (l, ij)))"
proof (induction ijs arbitrary: s ret)
  case (Cons ij ijs)
  obtain ret1 s1 where a: "add_mapping hash_add inb cdev qp l ij s = (ret1, s1)" by fastforce
  obtain ret2 s2 where b: "add_mappings (add_mapping hash_add inb cdev qp l) ijs s1 = (ret2, s2)" by fastforce
  have r: "ret = (ret1 \<or> ret2)" "s' = s2" using Cons.prems a b by simp_all
  note m = add_mapping_mono [OF a, of inb1 l1] Cons.IH [OF b [folded r(2)]]
  then have "set (cd_tbl s inb1 l1) \<subseteq> set (cd_tbl s' inb1 l1)" by blast
  moreover from m have "cd_tbl s' inb1 l1 = cd_tbl s inb1 l1 \<and> (\<forall>ij1. cd_map s' inb1 (l1, ij1) = cd_map s inb1 (l1, ij1))"
    if "(inb1, l1) \<noteq> (inb, l)" using that by metis
  moreover from m have "\<exists>m ij. hash_add m (l, ij)" if ret using that unfolding r(1) by blast
  ultimately show ?case by blast
qed simp

lemma add_cdev_mapping_first:
  assumes "add_cdev_mapping hash_add unprotected info cdev qp p s = (ret, s')"
    and "chaining info" and "Cap_cipher i \<in> set (capabilities info)" and "Cap_auth j \<in> set (capabilities info)"
    and "\<forall>ij. cd_map s (inbound_port unprotected p) (unat (lcore_id p), ij) = None"
    and "cdev \<notin> fst ` set (cd_tbl s (inbound_port unprotected p) (unat (lcore_id p)))"
    and "length (cd_tbl s (inbound_port unprotected p) (unat (lcore_id p))) \<noteq> 256"
  shows "(cdev, qp) \<in> set (cd_tbl s' (inbound_port unprotected p) (unat (lcore_id p)))"
proof -
  let ?inb = "inbound_port unprotected p" and ?l = "unat (lcore_id p)"
  have "(i, j) \<in> set (algo_pairs (capabilities info))" using assms(3,4) by (simp add: algo_pairs_iff)
  then obtain ij ijs where e: "algo_pairs (capabilities info) = ij # ijs" by (cases "algo_pairs (capabilities info)") auto
  obtain ret1 s1 where a: "add_mapping hash_add ?inb cdev qp ?l ij s = (ret1, s1)" by fastforce
  obtain ret2 where b: "add_mappings (add_mapping hash_add ?inb cdev qp ?l) ijs s1 = (ret2, s')"
    using assms(1,2) a by (auto simp: add_cdev_mapping_def e split: prod.splits)
  have "(cdev, qp) \<in> set (cd_tbl s1 ?inb ?l)" by (rule add_mapping_first [OF a]) (use assms(5-7) in blast)+
  then show ?thesis using add_mappings_mono [OF b, of ?inb ?l] by blast
qed

text \<open>C30: When the insertions for a core fail, as they do once the map of 1024 entries is full, the core keeps
  the queue pair in its table but the next core is given the same one: two cores then work on one
  queue pair without a lock.\<close>

theorem failed_insertion_shares_queue:
  assumes "\<forall>m ij. \<not> hash_add m (unat (lcore_id p1), ij)"
    and "(inbound_port unprotected p1, lcore_id p1) \<noteq> (inbound_port unprotected p2, lcore_id p2)"
    and "chaining info" and "Cap_cipher i \<in> set (capabilities info)" and "Cap_auth j \<in> set (capabilities info)"
    and "\<forall>p\<in>{p1, p2}. (\<forall>ij. cd_map s (inbound_port unprotected p) (unat (lcore_id p), ij) = None)
      \<and> cdev \<notin> fst ` set (cd_tbl s (inbound_port unprotected p) (unat (lcore_id p)))
      \<and> length (cd_tbl s (inbound_port unprotected p) (unat (lcore_id p))) \<noteq> 256"
    and "qp < max_nb_qps"
    and "assign_qps (add_cdev_mapping hash_add unprotected info cdev) [p1, p2] max_nb_qps 2 (0, qp, s) = (idx', qp', s')"
  shows "(cdev, qp) \<in> set (cd_tbl s' (inbound_port unprotected p1) (unat (lcore_id p1)))
    \<and> (cdev, qp) \<in> set (cd_tbl s' (inbound_port unprotected p2) (unat (lcore_id p2)))"
proof -
  let ?inb1 = "inbound_port unprotected p1" and ?inb2 = "inbound_port unprotected p2"
  let ?l1 = "unat (lcore_id p1)" and ?l2 = "unat (lcore_id p2)"
  obtain ret1 s1 where a: "add_cdev_mapping hash_add unprotected info cdev qp p1 s = (ret1, s1)" by fastforce
  have m1: "add_mappings (add_mapping hash_add ?inb1 cdev qp ?l1) (algo_pairs (capabilities info)) s = (ret1, s1)"
    using a assms(3) by (simp add: add_cdev_mapping_def)
  have r1: "\<not> ret1" using add_mappings_mono [OF m1] assms(1) by blast
  have "(?inb2, ?l2) \<noteq> (?inb1, ?l1)" using assms(2) by (metis Pair_inject word_unat_eq_iff)
  with add_mappings_mono [OF m1, of ?inb2 ?l2]
  have same: "cd_tbl s1 ?inb2 ?l2 = cd_tbl s ?inb2 ?l2" "\<forall>ij. cd_map s1 ?inb2 (?l2, ij) = cd_map s ?inb2 (?l2, ij)" by blast+
  obtain ret2 s2 where b: "add_cdev_mapping hash_add unprotected info cdev qp p2 s1 = (ret2, s2)" by fastforce
  have m2: "add_mappings (add_mapping hash_add ?inb2 cdev qp ?l2) (algo_pairs (capabilities info)) s1 = (ret2, s2)"
    using b assms(3) by (simp add: add_cdev_mapping_def)
  have s': "s' = s2" using assms(7,8) a b r1 by (simp add: numeral_2_eq_2)
  have "(cdev, qp) \<in> set (cd_tbl s1 ?inb1 ?l1)" by (rule add_cdev_mapping_first [OF a assms(3-5)]) (use assms(6) in auto)
  then have "(cdev, qp) \<in> set (cd_tbl s2 ?inb1 ?l1)" using add_mappings_mono [OF m2, of ?inb1 ?l1] by blast
  moreover have "(cdev, qp) \<in> set (cd_tbl s2 ?inb2 ?l2)"
    by (rule add_cdev_mapping_first [OF b assms(3-5)]) (use assms(6) same in auto)
  ultimately show ?thesis by (simp add: s')
qed

theorem failed_insertion_shares_queue_witness:
  "\<exists>idx qp s. assign_qps (add_cdev_mapping (\<lambda>m key. fst key \<noteq> 1) 2 (pf_cdevs sample_cdevs ! 0) 0) sample_params 2 2 (0, 0, empty_cdevs) =
      (idx, qp, s) \<and> (0, 0) \<in> set (cd_tbl s False 1) \<and> (0, 0) \<in> set (cd_tbl s True 2)"
proof -
  let ?p1 = "\<lparr>port_id = 0, queue_id = 0, lcore_id = 1\<rparr> :: lcore_params" and ?p2 = "\<lparr>port_id = 1, queue_id = 0, lcore_id = 2\<rparr> :: lcore_params"
  obtain idx qp s where a: "assign_qps (add_cdev_mapping (\<lambda>m key. fst key \<noteq> 1) 2 (pf_cdevs sample_cdevs ! 0) 0) [?p1, ?p2] 2 2 (0, 0, empty_cdevs) =
      (idx, qp, s)" by (rule prod_cases3)
  have i: "inbound_port 2 ?p1 = False" "inbound_port 2 ?p2 = True" by code_simp+
  have "(0, 0) \<in> set (cd_tbl s (inbound_port 2 ?p1) (unat (lcore_id ?p1))) \<and> (0, 0) \<in> set (cd_tbl s (inbound_port 2 ?p2) (unat (lcore_id ?p2)))"
    by (rule failed_insertion_shares_queue [OF _ _ _ _ _ _ _ a, of CIPHER_AES_CBC AUTH_SHA1_HMAC])
      (simp_all add: i sample_cdevs_def empty_cdevs_def)
  then show ?thesis using a by (simp add: i sample_params_def)
qed

end
