(* ===== verification/Sa.thy ===== *)
theory Sa
  imports Crypto_Queue
begin

text \<open>
  The association databases of \<^verbatim>\<open>sa.c\<close>: an array indexed by the low 17 bits of the SPI,
  filled by \<^verbatim>\<open>sa_add_rules\<close> and searched by the inbound and outbound lookups; and the two
  entry points of \<^verbatim>\<open>ipsec.c\<close>, which look the associations up and run the crypto queues.
  The memory of a database is cleared when it is created; an entry with SPI 0 is free.
\<close>

section \<open>The database\<close>

definition IPSEC_SA_MAX_ENTRIES :: u32 where "IPSEC_SA_MAX_ENTRIES = 131072"
definition INVALID_SPI :: u32 where "INVALID_SPI = 0"

definition SPI2IDX :: "u32 \<Rightarrow> nat" where
  "SPI2IDX s = unat (s AND (IPSEC_SA_MAX_ENTRIES - 1))"

datatype xform_dir = OP_ENCRYPT | OP_DECRYPT | OP_GENERATE | OP_VERIFY

text \<open>\<^verbatim>\<open>struct rte_crypto_sym_xform\<close>; a chain of them is a list.\<close>

datatype sym_xform =
    Cipher_xform cipher_algorithm bytes u16 xform_dir
  | Auth_xform auth_algorithm u16 bytes u16 u16 xform_dir

record sa_ctx =
  sa_tab :: "nat \<Rightarrow> ipsec_sa"
  sa_xf :: "nat \<Rightarrow> sym_xform list"

definition inbound_chain :: "ipsec_sa \<Rightarrow> sym_xform list" where
  "inbound_chain sa =
     [Auth_xform (auth_algo sa) (aad_len sa) (auth_key sa) (auth_key_len sa) (digest_len sa) OP_VERIFY,
      Cipher_xform (cipher_algo sa) (cipher_key sa) (cipher_key_len sa) OP_DECRYPT]"

definition outbound_chain :: "ipsec_sa \<Rightarrow> sym_xform list" where
  "outbound_chain sa =
     [Cipher_xform (cipher_algo sa) (cipher_key sa) (cipher_key_len sa) OP_ENCRYPT,
      Auth_xform (auth_algo sa) (aad_len sa) (auth_key sa) (auth_key_len sa) (digest_len sa) OP_GENERATE]"

text \<open>\<^verbatim>\<open>rte_cpu_to_be_32\<close> on the IPv4 member of the address union.\<close>

definition swap_ip4 :: "bytes \<Rightarrow> bytes" where
  "swap_ip4 a = store a 0 (rev (take 4 a))"

definition entry_of :: "ipsec_sa \<Rightarrow> ipsec_sa" where
  "entry_of e =
     (let sa = e\<lparr>sa_seq := 0\<rparr>
      in if flags sa = IP4_TUNNEL then sa\<lparr>sa_src := swap_ip4 (sa_src sa), sa_dst := swap_ip4 (sa_dst sa)\<rparr> else sa)"

fun sa_add_rules :: "sa_ctx \<Rightarrow> ipsec_sa list \<Rightarrow> bool \<Rightarrow> int \<times> sa_ctx" where
  "sa_add_rules c [] inbound = (0, c)"
| "sa_add_rules c (e # es) inbound =
     (let idx = SPI2IDX (spi e)
      in if spi (sa_tab c idx) \<noteq> 0 then (- EINVAL, c)
         else let sa = entry_of e;
                  chain = (if inbound then inbound_chain sa else outbound_chain sa)
              in sa_add_rules (c\<lparr>sa_tab := (sa_tab c)(idx := sa), sa_xf := (sa_xf c)(idx := chain)\<rparr>) es inbound)"

definition sa_out_add_rules :: "sa_ctx \<Rightarrow> ipsec_sa list \<Rightarrow> int \<times> sa_ctx" where
  "sa_out_add_rules c es = sa_add_rules c es False"

definition sa_in_add_rules :: "sa_ctx \<Rightarrow> ipsec_sa list \<Rightarrow> int \<times> sa_ctx" where
  "sa_in_add_rules c es = sa_add_rules c es True"

text \<open>\<^verbatim>\<open>sa_init\<close> on fresh databases (the other calls end the program): a database exists
  when there is a rule for it, and the result of adding the rules is not looked at.\<close>

definition empty_sa_ctx :: "ipsec_sa \<Rightarrow> sa_ctx" where
  "empty_sa_ctx zero = \<lparr>sa_tab = \<lambda>i. zero\<lparr>spi := 0\<rparr>, sa_xf = \<lambda>i. []\<rparr>"

definition sa_init :: "ipsec_sa \<Rightarrow> ipsec_sa list \<Rightarrow> ipsec_sa list \<Rightarrow> sa_ctx option \<times> sa_ctx option" where
  "sa_init zero ins outs =
     (if 0 < length ins then Some (snd (sa_in_add_rules (empty_sa_ctx zero) ins)) else None,
      if 0 < length outs then Some (snd (sa_out_add_rules (empty_sa_ctx zero) outs)) else None)"

section \<open>Lookups\<close>

text \<open>The ESP header is expected right behind the fixed IP header.\<close>

definition esp_spi :: "bytes \<Rightarrow> u32" where
  "esp_spi d = load 4 d (if ip_v d = IPVERSION then 20 else 40)"

definition single_inbound_lookup :: "(nat \<Rightarrow> ipsec_sa) \<Rightarrow> bytes \<Rightarrow> nat option" where
  "single_inbound_lookup db d =
     (if esp_spi d = INVALID_SPI then None
      else let n = bswap32 (esp_spi d); i = SPI2IDX n; sa = db i
           in if n \<noteq> spi sa then None
              else if flags sa = IP4_TUNNEL then
                (if ip_v d = IPVERSION \<and> (load 4 (sa_src sa) 0 :: u32) = load 4 d 12
                    \<and> (load 4 (sa_dst sa) 0 :: u32) = load 4 d 16 then Some i else None)
              else if flags sa = IP6_TUNNEL then
                (if ip_v d = IP6_VERSION \<and> take 16 (sa_src sa) = take 16 (drop 8 d)
                    \<and> take 16 (sa_dst sa) = take 16 (drop 24 d) then Some i else None)
              else if flags sa = TRANSPORT then Some i
              else None)"

definition inbound_sa_lookup :: "ipsec_ctx \<Rightarrow> nat list \<Rightarrow> nat option list" where
  "inbound_sa_lookup s pkts = map (\<lambda>p. single_inbound_lookup (sadb s) (mdata (pkt_buf s p))) pkts"

definition outbound_sa_lookup :: "nat list \<Rightarrow> nat option list" where
  "outbound_sa_lookup sa_idx = map Some sa_idx"

definition inbound_sa_check :: "ipsec_ctx \<Rightarrow> nat \<Rightarrow> nat \<Rightarrow> bool" where
  "inbound_sa_check s p sa_idx \<longleftrightarrow> spi (sadb s sa_idx) = spi (sadb s (pkt_sa s p))"

section \<open>Inbound and outbound processing\<close>

definition ipsec_inbound :: "crypto_device \<Rightarrow> (int \<Rightarrow> u8) \<Rightarrow> nat \<Rightarrow> ipsec_ctx \<Rightarrow> nat list \<Rightarrow> nat \<Rightarrow>
    (nat list \<times> ipsec_ctx) option" where
  "ipsec_inbound dev below lcore s pkts len =
     (case ipsec_enqueue dev inbound_xform lcore (zip pkts (inbound_sa_lookup s pkts)) s of
        None \<Rightarrow> None
      | Some s \<Rightarrow> ipsec_dequeue dev (esp_inbound_post below) len s)"

definition ipsec_outbound :: "crypto_device \<Rightarrow> nat \<Rightarrow> ipsec_ctx \<Rightarrow> nat list \<Rightarrow> nat list \<Rightarrow> nat \<Rightarrow>
    (nat list \<times> ipsec_ctx) option" where
  "ipsec_outbound dev lcore s pkts sa_idx len =
     (case ipsec_enqueue dev outbound_xform lcore (zip pkts (outbound_sa_lookup sa_idx)) s of
        None \<Rightarrow> None
      | Some s \<Rightarrow> ipsec_dequeue dev outbound_post len s)"

section \<open>The database after loading\<close>

definition db_ok :: "(nat \<Rightarrow> ipsec_sa) \<Rightarrow> bool" where
  "db_ok db \<longleftrightarrow> (\<forall>i. spi (db i) \<noteq> 0 \<longrightarrow> SPI2IDX (spi (db i)) = i)"

lemma spi_entry_of [simp]: "spi (entry_of e) = spi e"
  by (simp add: entry_of_def Let_def)

lemma sa_add_rules_spec:
  assumes "sa_add_rules c es inbound = (r, c')" and "db_ok (sa_tab c)"
  shows "db_ok (sa_tab c') \<and> (\<forall>i. spi (sa_tab c i) \<noteq> 0 \<longrightarrow> sa_tab c' i = sa_tab c i \<and> sa_xf c' i = sa_xf c i)
    \<and> (r = 0 \<longrightarrow> (\<forall>e\<in>set es. spi e \<noteq> 0 \<longrightarrow> sa_tab c' (SPI2IDX (spi e)) = entry_of e
          \<and> sa_xf c' (SPI2IDX (spi e)) = (if inbound then inbound_chain else outbound_chain) (entry_of e)))"
  using assms
proof (induction es arbitrary: c)
  case (Cons e es)
  let ?i = "SPI2IDX (spi e)"
  show ?case
  proof (cases "spi (sa_tab c ?i) = 0")
    case True
    let ?c = "c\<lparr>sa_tab := (sa_tab c)(?i := entry_of e),
      sa_xf := (sa_xf c)(?i := if inbound then inbound_chain (entry_of e) else outbound_chain (entry_of e))\<rparr>"
    have ok: "db_ok (sa_tab ?c)" using Cons.prems(2) by (auto simp: db_ok_def)
    have r: "sa_add_rules ?c es inbound = (r, c')" using Cons.prems(1) True by (simp add: Let_def)
    note IH = Cons.IH [OF r ok]
    have "\<forall>i. spi (sa_tab c i) \<noteq> 0 \<longrightarrow> sa_tab c' i = sa_tab c i \<and> sa_xf c' i = sa_xf c i"
    proof (intro allI impI)
      fix i assume "spi (sa_tab c i) \<noteq> 0"
      moreover from this True have "i \<noteq> ?i" by auto
      ultimately show "sa_tab c' i = sa_tab c i \<and> sa_xf c' i = sa_xf c i" using IH by simp
    qed
    moreover have "spi e \<noteq> 0 \<longrightarrow> sa_tab c' ?i = entry_of e
        \<and> sa_xf c' ?i = (if inbound then inbound_chain else outbound_chain) (entry_of e)"
      using IH by simp
    ultimately show ?thesis using IH by simp
  next
    case False
    then show ?thesis using Cons.prems by (auto simp: Let_def EINVAL_def)
  qed
qed simp

text \<open>Loading succeeds exactly when no two rules share an index.\<close>

lemma sa_add_rules_succeeds:
  assumes "\<forall>e\<in>set es. spi e \<noteq> 0"
  shows "fst (sa_add_rules c es inbound) = 0 \<longleftrightarrow>
    distinct (map (SPI2IDX \<circ> spi) es) \<and> (\<forall>e\<in>set es. spi (sa_tab c (SPI2IDX (spi e))) = 0)"
  using assms
proof (induction es arbitrary: c)
  case (Cons e es)
  let ?i = "SPI2IDX (spi e)"
  let ?c = "c\<lparr>sa_tab := (sa_tab c)(?i := entry_of e),
      sa_xf := (sa_xf c)(?i := if inbound then inbound_chain (entry_of e) else outbound_chain (entry_of e))\<rparr>"
  show ?case
  proof (cases "spi (sa_tab c ?i) = 0")
    case True
    then have "sa_add_rules c (e # es) inbound = sa_add_rules ?c es inbound" by (simp add: Let_def)
    moreover have "\<forall>e\<in>set es. spi e \<noteq> 0" using Cons.prems by simp
    note Cons.IH [OF this, of ?c]
    ultimately have "fst (sa_add_rules c (e # es) inbound) = 0 \<longleftrightarrow>
        distinct (map (SPI2IDX \<circ> spi) es) \<and> (\<forall>x\<in>set es. spi (sa_tab ?c (SPI2IDX (spi x))) = 0)"
      by (simp only:)
    also have "(\<forall>x\<in>set es. spi (sa_tab ?c (SPI2IDX (spi x))) = 0) \<longleftrightarrow>
        ?i \<notin> set (map (SPI2IDX \<circ> spi) es) \<and> (\<forall>x\<in>set es. spi (sa_tab c (SPI2IDX (spi x))) = 0)"
      (is "?L \<longleftrightarrow> ?R")
    proof -
      have "spi (sa_tab ?c j) = 0 \<longleftrightarrow> j \<noteq> ?i \<and> spi (sa_tab c j) = 0" for j using Cons.prems by simp
      then show ?thesis by (simp only:) (auto simp: image_iff comp_def)
    qed
    finally show ?thesis using True by (simp add: comp_def) blast
  next
    case False
    then show ?thesis by (auto simp: Let_def EINVAL_def)
  qed
qed simp

lemma db_ok_empty [simp]: "db_ok (sa_tab (empty_sa_ctx z))" "spi (sa_tab (empty_sa_ctx z) i) = 0"
  by (simp_all add: db_ok_def empty_sa_ctx_def)

text \<open>C23: Loading the inbound or outbound rules of a configuration into a fresh database succeeds
  exactly when the low 17 bits of their SPIs differ; then each rule is found at its index with the
  transform chain of its direction, and whatever the result, an entry lies at the index of its SPI.\<close>

theorem sa_add_rules_loads:
  assumes "\<forall>e\<in>set es. spi e \<noteq> 0" and "sa_add_rules (empty_sa_ctx z) es inbound = (r, c)"
  shows "(r = 0 \<longleftrightarrow> distinct (map (SPI2IDX \<circ> spi) es))
    \<and> (r = 0 \<longrightarrow> (\<forall>e\<in>set es. sa_tab c (SPI2IDX (spi e)) = entry_of e
          \<and> sa_xf c (SPI2IDX (spi e)) = (if inbound then inbound_chain else outbound_chain) (entry_of e)))
    \<and> db_ok (sa_tab c)"
  using sa_add_rules_spec [OF assms(2)] sa_add_rules_succeeds [OF assms(1), of "empty_sa_ctx z" inbound] assms
  by simp

section \<open>The two gateways\<close>

lemma load_bswap_header:
  "length h = off \<Longrightarrow> bswap32 (load 4 (h @ le_bytes 4 (bswap32 w) @ d) off) = w"
proof -
  assume h: "length h = off"
  have "take 4 (le_bytes 4 (bswap32 w) @ d) = le_bytes 4 (bswap32 w)" by simp
  then show ?thesis using h by (simp add: load_def le_word_le_bytes)
qed

lemma tunnel_addresses:
  fixes six :: bool and ds :: u8 and n :: nat
  assumes "length src = 16" "length dst = 16" "length ck = 2"
  defines "h \<equiv> tunnel_header six ds n ck src dst"
  shows "six \<Longrightarrow> take 16 (drop 8 (h @ d)) = src \<and> take 16 (drop 24 (h @ d)) = dst"
    and "\<not> six \<Longrightarrow> take 4 (drop 12 (h @ d)) = take 4 src \<and> take 4 (drop 16 (h @ d)) = take 4 dst"
  using assms by (simp_all add: tunnel_header_def ip6_header_def ip4_header_def htons_bytes_def)

text \<open>C11: A packet the outbound gateway puts into a tunnel finds its association at the inbound
  gateway: when that gateway has a rule with the SPI, mode and tunnel end points of the sender's
  association, its lookup in the loaded database answers with this rule.\<close>

theorem tunnel_packet_finds_sa:
  assumes "sa_ok sa" and "tunnel_flags sa" and "outbound_fits sa (sa_hl sa) m" and "spi sa \<noteq> 0"
    and "esp_outbound m sa cop = Some (0, m1, sa1, cop1)"
    and "sa_in_add_rules (empty_sa_ctx z) es = (0, c)" and "e \<in> set es"
    and "spi (entry_of e) = spi sa" and "flags (entry_of e) = flags sa"
    and "sa_src (entry_of e) = sa_src sa" and "sa_dst (entry_of e) = sa_dst sa"
  shows "single_inbound_lookup (sa_tab c) (mdata m1) = Some (SPI2IDX (spi sa)) \<and> sa_tab c (SPI2IDX (spi sa)) = entry_of e"
proof -
  let ?six = "flags sa = IP6_TUNNEL" and ?d = "mdata m"
  from esp_outbound_tunnel [OF assms(1-3), of cop] assms(5) obtain ck D n where
    m1: "mdata m1 = tunnel_header ?six (ds_ecn ?d) n ck (sa_src sa) (sa_dst sa)
        @ esp_header (sa\<lparr>sa_seq := sa_seq sa + 1\<rparr>) @ D" and ck: "length ck = 2"
    by auto
  define h where "h = tunnel_header ?six (ds_ecn ?d) n ck (sa_src sa) (sa_dst sa)"
  have e: "sa_tab c (SPI2IDX (spi sa)) = entry_of e"
    using sa_add_rules_spec [OF assms(6) [unfolded sa_in_add_rules_def]] assms(4,7,8) by auto
  have l: "length (sa_src sa) = 16" "length (sa_dst sa) = 16" using assms(1) by (simp_all add: sa_ok_def)
  have hl: "length h = (if ip_v (mdata m1) = IPVERSION then 20 else 40)"
    using l ck by (simp add: h_def m1 tunnel_header_fields tunnel_len_def IPVERSION_def IP6_VERSION_def)
  obtain E where "mdata m1 = h @ le_bytes 4 (bswap32 (spi sa)) @ E" by (simp add: m1 h_def esp_header_def)
  then have spi: "bswap32 (esp_spi (mdata m1)) = spi sa"
    unfolding esp_spi_def hl [symmetric] by (simp add: load_bswap_header)
  then have nz: "esp_spi (mdata m1) \<noteq> INVALID_SPI" using assms(4) by (auto simp: INVALID_SPI_def)
  have fl: "\<not> ?six \<Longrightarrow> flags sa = IP4_TUNNEL" "IP4_TUNNEL \<noteq> IP6_TUNNEL"
    using assms(2) by (auto simp: tunnel_flags_def IP4_TUNNEL_def IP6_TUNNEL_def)
  have v: "ip_v (mdata m1) = (if ?six then IP6_VERSION else IPVERSION)" by (simp add: m1 tunnel_header_fields)
  note ad = tunnel_addresses [OF l ck, of ?six "ds_ecn ?d" n "esp_header (sa\<lparr>sa_seq := sa_seq sa + 1\<rparr>) @ D"]
  show ?thesis
  proof (cases ?six)
    case True
    then show ?thesis using nz spi e assms(8-11) fl(2) v ad(1) l m1
      by (simp add: single_inbound_lookup_def Let_def)
  next
    case False
    then show ?thesis using nz spi e assms(8-11) fl v ad(2) l m1
      by (simp add: single_inbound_lookup_def Let_def load_def)
  qed
qed

lemma ipsec_outbound_step:
  assumes "queues_ok s" and "device_ok dev" and "distinct pkts" and "length sa_idx = length pkts"
    and "\<forall>p\<in>set pkts. \<forall>i. out_ready (pkt_buf s p) (sadb s i)"
  shows "\<exists>out s'. ipsec_outbound dev lcore s pkts sa_idx len = Some (out, s')
    \<and> queues_ok s' \<and> mset out + total s' = total s + mset pkts \<and> length out \<le> len"
proof -
  let ?xs = "zip pkts (outbound_sa_lookup sa_idx)"
  have fst: "map fst ?xs = pkts" using assms(4) by (simp add: outbound_sa_lookup_def)
  then have "fst ` set ?xs = set pkts" by (metis list.set_map)
  then obtain s1 where e: "ipsec_enqueue dev outbound_xform lcore ?xs s = Some s1"
    using out_ready.enqueue_ready [where xs = ?xs and s = s and dev = dev and lcore = lcore] assms(3,5) fst by auto
  note a = esp_out.enqueue_accounts [OF assms(1,2) e, unfolded fst]
  obtain out s' where d: "ipsec_dequeue dev outbound_post len s1 = Some (out, s')"
    using dequeue_defined [where post = outbound_post and dev = dev and mx = len and s = s1] by (fastforce simp: outbound_post_def)
  from dequeue_loop_accounts [OF d [unfolded ipsec_dequeue_def] _ assms(2)] a
  have "queues_ok s' \<and> mset out + total s' = total s + mset pkts \<and> length out \<le> len" by simp
  moreover have "ipsec_outbound dev lcore s pkts sa_idx len = Some (out, s')"
    using e d by (simp add: ipsec_outbound_def)
  ultimately show ?thesis by blast
qed


text \<open>The same for the inbound direction, whatever the lookup answers; enqueueing always returns,
  and the post-processing returns when the decapsulated packets are long enough.\<close>

lemma ipsec_inbound_accounts:
  assumes "queues_ok s" and "device_ok dev" and "distinct pkts"
  shows "\<exists>s1. ipsec_enqueue dev inbound_xform lcore (zip pkts (inbound_sa_lookup s pkts)) s = Some s1
    \<and> (\<forall>out s'. ipsec_dequeue dev (esp_inbound_post below) len s1 = Some (out, s') \<longrightarrow>
         ipsec_inbound dev below lcore s pkts len = Some (out, s')
         \<and> queues_ok s' \<and> mset out + total s' = total s + mset pkts \<and> length out \<le> len)"
proof -
  let ?xs = "zip pkts (inbound_sa_lookup s pkts)"
  have fst: "map fst ?xs = pkts" by (simp add: inbound_sa_lookup_def)
  then obtain s1 where e: "ipsec_enqueue dev inbound_xform lcore ?xs s = Some s1"
    using in_ready.enqueue_ready [where xs = ?xs and s = s and dev = dev and lcore = lcore] assms(3) by auto
  note a = esp_in.enqueue_accounts [OF assms(1,2) e, unfolded fst]
  show ?thesis
  proof (intro exI [of _ s1] conjI e allI impI)
    fix out s' assume d: "ipsec_dequeue dev (esp_inbound_post below) len s1 = Some (out, s')"
    then show "ipsec_inbound dev below lcore s pkts len = Some (out, s')" using e by (simp add: ipsec_inbound_def)
    from dequeue_loop_accounts [OF d [unfolded ipsec_dequeue_def] _ assms(2)] a
    show "queues_ok s'" "mset out + total s' = total s + mset pkts" "length out \<le> len" by simp_all
  qed
qed


section \<open>Examples\<close>

definition sample_ctx :: ipsec_ctx where
  "sample_ctx = \<lparr>cdev_map = \<lambda>key. Some 0, nb_qps = 1, last_qp = 0,
     tbl = \<lambda>k. \<lparr>qp_dev = 0, qp_qp = 0, in_flight = 0, qp_buf = []\<rparr>,
     sadb = \<lambda>i. sample_sa, pkt_buf = \<lambda>p. sample_buf, pkt_sa = \<lambda>p. 0, pkt_op = \<lambda>p. sample_op,
     pkt_status = \<lambda>p. STATUS_NOT_PROCESSED, pkt_session = \<lambda>p. None, dev_queue = \<lambda>q. [], ctx_freed = [], calls = 0\<rparr>"

definition sample_dev :: crypto_device where
  "sample_dev = \<lparr>enq_count = \<lambda>n q held ops. if length held + length ops < 2 ^ 16 then length ops else 0,
     deq_count = \<lambda>n q held k. min k (length held), session_create = \<lambda>d sa. Some 0,
     crypt = \<lambda>c cop m. (m, STATUS_SUCCESS)\<rparr>"

lemma sample_dev_ok: "device_ok sample_dev"
  by (simp add: device_ok_def sample_dev_def)

lemma sample_ctx_ok:
  "queues_ok sample_ctx" "quiet sample_ctx" "out_ready (pkt_buf sample_ctx p) (sadb sample_ctx i)"
  "n < 32 \<Longrightarrow> room_for n sample_ctx" "total sample_ctx = {#}" "dev_queue sample_ctx = (\<lambda>q. [])"
  by (simp_all add: queues_ok_def qps_ok_def sessions_ok_def quiet_def out_ready_def room_for_def total_def held_def
      sample_ctx_def sample_sa_def sample_buf_def MAX_PKT_BURST_def qp_id_def inj_on_def)

theorem sa_add_rules_loads_witness:
  "fst (sa_add_rules (empty_sa_ctx sample_sa) [sample_sa] True) = 0
   \<and> fst (sa_add_rules (empty_sa_ctx sample_sa) [sample_sa, sample_sa\<lparr>spi := 131077\<rparr>] True) \<noteq> 0"
proof -
  have "spi sample_sa = 5" by (simp add: sample_sa_def)
  then have i: "\<forall>e\<in>set [sample_sa]. spi e \<noteq> 0" "\<forall>e\<in>set [sample_sa, sample_sa\<lparr>spi := 131077\<rparr>]. spi e \<noteq> 0"
    "\<not> distinct (map (SPI2IDX \<circ> spi) [sample_sa, sample_sa\<lparr>spi := 131077\<rparr>])"
    by (simp_all add: SPI2IDX_def IPSEC_SA_MAX_ENTRIES_def)
  show ?thesis
    using sa_add_rules_loads [OF i(1), of sample_sa True] sa_add_rules_loads [OF i(2), of sample_sa True] i(3)
    by (metis distinct_singleton list.map prod.collapse)
qed

theorem tunnel_packet_finds_sa_witness:
  "\<exists>m1 sa1 cop1. esp_outbound sample_buf sample_sa sample_op = Some (0, m1, sa1, cop1)
    \<and> single_inbound_lookup (sa_tab (snd (sa_in_add_rules (empty_sa_ctx sample_sa) [sample_sa]))) (mdata m1) = Some 5"
proof -
  have fits: "outbound_fits sample_sa (sa_hl sample_sa) sample_buf" using sample_sa_ok by simp
  from esp_outbound_tunnel [OF sample_sa_ok(1,2) fits, of sample_op] obtain m1 sa1 cop1 where
    o: "esp_outbound sample_buf sample_sa sample_op = Some (0, m1, sa1, cop1)" by blast
  have e: "entry_of sample_sa = sample_sa" by (simp add: entry_of_def sample_sa_def swap_ip4_def store_def eval_nat_numeral)
  have s: "spi sample_sa = 5" by (simp add: sample_sa_def)
  obtain c where c: "sa_in_add_rules (empty_sa_ctx sample_sa) [sample_sa] = (0, c)"
    by (simp add: sa_in_add_rules_def Let_def)
  have "single_inbound_lookup (sa_tab c) (mdata m1) = Some (SPI2IDX (spi sample_sa))"
    using tunnel_packet_finds_sa [OF sample_sa_ok(1,2) fits _ o c, of sample_sa] e s by simp
  moreover have "SPI2IDX (spi sample_sa) = 5" by (simp add: s SPI2IDX_def IPSEC_SA_MAX_ENTRIES_def)
  ultimately show ?thesis using o c by auto
qed



end
