(* ===== verification/Ipsec_Room.thy ===== *)
theory Ipsec_Room
  imports Sa
begin

text \<open>
  How much headroom IPsec processing uses: the outbound direction takes at most 64 bytes of each
  packet it is given, one time, and nothing of any other packet.  A crypto device that works in
  place leaves the headroom alone.
\<close>

definition in_place :: "crypto_device \<Rightarrow> bool" where
  "in_place dev \<longleftrightarrow> (\<forall>c cop m. length (headroom (fst (crypt dev c cop m))) = length (headroom m))"

definition short_ivs :: "ipsec_ctx \<Rightarrow> bool" where
  "short_ivs s \<longleftrightarrow> (\<forall>i. unat (iv_len (sadb s i)) \<le> 16)"

definition room_kept :: "nat set \<Rightarrow> ipsec_ctx \<Rightarrow> ipsec_ctx \<Rightarrow> bool" where
  "room_kept P s s' \<longleftrightarrow> (\<forall>i. iv_len (sadb s' i) = iv_len (sadb s i))
     \<and> (\<forall>q. length (headroom (pkt_buf s q)) \<le> length (headroom (pkt_buf s' q)) + (if q \<in> P then 64 else 0))"

lemma room_kept_refl: "room_kept {} s s"
  by (simp add: room_kept_def)

lemma room_kept_trans:
  assumes "room_kept P s s1" and "room_kept Q s1 s2" and "P \<inter> Q = {}"
  shows "room_kept (P \<union> Q) s s2"
proof -
  have "length (headroom (pkt_buf s q)) \<le> length (headroom (pkt_buf s2 q)) + (if q \<in> P \<union> Q then 64 else 0)" for q
  proof -
    have "length (headroom (pkt_buf s q)) \<le> length (headroom (pkt_buf s1 q)) + (if q \<in> P then 64 else 0)"
      "length (headroom (pkt_buf s1 q)) \<le> length (headroom (pkt_buf s2 q)) + (if q \<in> Q then 64 else 0)"
      using assms(1,2) unfolding room_kept_def by blast+
    then show ?thesis using assms(3) by (auto split: if_splits)
  qed
  then show ?thesis using assms(1,2) by (simp add: room_kept_def)
qed

lemma room_kept_mono: "room_kept P s s' \<Longrightarrow> P \<subseteq> Q \<Longrightarrow> room_kept Q s s'"
proof -
  assume *: "room_kept P s s'" "P \<subseteq> Q"
  have "length (headroom (pkt_buf s q)) \<le> length (headroom (pkt_buf s' q)) + (if q \<in> Q then 64 else 0)" for q
  proof -
    have "length (headroom (pkt_buf s q)) \<le> length (headroom (pkt_buf s' q)) + (if q \<in> P then 64 else 0)"
      using *(1) unfolding room_kept_def by blast
    then show ?thesis using *(2) by (auto split: if_splits)
  qed
  then show ?thesis using *(1) by (simp add: room_kept_def)
qed

lemma short_ivs_kept: "room_kept P s s' \<Longrightarrow> short_ivs s \<Longrightarrow> short_ivs s'"
  by (simp add: room_kept_def short_ivs_def)

lemma room_kept_fields:
  "pkt_buf s' = pkt_buf s \<Longrightarrow> \<forall>i. iv_len (sadb s' i) = iv_len (sadb s i) \<Longrightarrow> room_kept {} s s'"
  by (simp add: room_kept_def)

section \<open>The transform\<close>

named_theorems headroom_simps \<open>operations that leave the headroom alone\<close>

lemma headroom_poke [headroom_simps]: "headroom (poke off ys m) = headroom m"
  by (simp add: poke_def Let_def)

lemma headroom_set_cnt_blk [headroom_simps]: "headroom (set_cnt_blk sl iv c m) = headroom m"
  by (simp add: set_cnt_blk_def)

lemma headroom_set_aad [headroom_simps]: "headroom (set_aad ys m) = headroom m"
  by (simp add: set_aad_def)

lemma headroom_prepend: "rte_pktmbuf_prepend n m = Some m' \<Longrightarrow> length (headroom m') + n = length (headroom m)"
  by (auto simp: rte_pktmbuf_prepend_def Let_def split: if_splits)

lemma headroom_new_headers:
  assumes "esp_new_headers sa ext hl m = Some m'"
  shows "length (headroom m) \<le> length (headroom m') + (ext + 40)"
proof -
  consider (six) "ipip_outbound ext True (sa_src sa) (sa_dst sa) m = Some m'"
    | (four) "ipip_outbound ext False (sa_src sa) (sa_dst sa) m = Some m'" | (tr) "transport_outbound ext hl m = Some m'"
    using assms by (auto simp: esp_new_headers_def split: if_splits)
  then show ?thesis
  proof cases
    case six
    then show ?thesis by (auto simp: ipip_outbound_def Let_def outer_ip6_def headroom_simps dest: headroom_prepend)
  next
    case four
    then show ?thesis by (auto simp: ipip_outbound_def Let_def outer_ip4_def headroom_simps dest: headroom_prepend)
  next
    case tr
    then show ?thesis by (auto simp: transport_outbound_def Let_def headroom_simps split: option.splits if_splits dest: headroom_prepend)
  qed
qed

lemma headroom_esp_fill: "esp_fill sa hl pp pl nlp pad m cop = (r, m', sa', cop') \<Longrightarrow> headroom m' = headroom m"
  by (auto simp: esp_fill_def outbound_cipher_def outbound_auth_def Let_def headroom_simps split: option.splits if_splits)

lemma headroom_esp_outbound:
  assumes "esp_outbound m sa cop = Some (r, m', sa', cop')" and "unat (iv_len sa) \<le> 16"
  shows "length (headroom m) \<le> length (headroom m') + 64"
proof -
  have a: "headroom m1 = headroom m" if "rte_pktmbuf_append n m = Some m1" for n m1
    using that by (auto simp: rte_pktmbuf_append_def split: if_splits)
  have "m' = m \<or> (\<exists>n m1 hl hl2 pp pl nlp pad m2. rte_pktmbuf_append n m = Some m1 \<and> esp_new_headers sa (8 + unat (iv_len sa)) hl m1 = Some m2
      \<and> esp_fill sa hl2 pp pl nlp pad m2 cop = (r, m', sa', cop'))"
    using assms(1) unfolding esp_outbound_def Let_def by (simp split: option.splits prod.splits if_splits) blast+
  then show ?thesis
  proof
    assume "\<exists>n m1 hl hl2 pp pl nlp pad m2. rte_pktmbuf_append n m = Some m1 \<and> esp_new_headers sa (8 + unat (iv_len sa)) hl m1 = Some m2
      \<and> esp_fill sa hl2 pp pl nlp pad m2 cop = (r, m', sa', cop')"
    then obtain n m1 hl hl2 pp pl nlp pad m2 where "rte_pktmbuf_append n m = Some m1"
      "esp_new_headers sa (8 + unat (iv_len sa)) hl m1 = Some m2" "esp_fill sa hl2 pp pl nlp pad m2 cop = (r, m', sa', cop')"
      by blast
    with headroom_new_headers headroom_esp_fill a assms(2) show ?thesis by fastforce
  qed simp
qed

section \<open>The queues\<close>

lemma run_outbound_room:
  assumes "run_xform outbound_xform p i s = Some (r, s')" and "short_ivs s"
  shows "room_kept {p} s s'"
proof -
  from assms(1) obtain m' sa' cop' where x: "esp_outbound (pkt_buf s p) (sadb s i) (pkt_op s p) = Some (r, m', sa', cop')"
    and s': "s' = s\<lparr>pkt_buf := (pkt_buf s)(p := m'), sadb := (sadb s)(i := sa'), pkt_op := (pkt_op s)(p := cop')\<rparr>"
    by (auto simp: run_xform_def outbound_xform_def)
  have "unat (iv_len (sadb s i)) \<le> 16" using assms(2) by (simp add: short_ivs_def)
  from headroom_esp_outbound [OF x this] esp_outbound_sa [OF x] show ?thesis by (auto simp: room_kept_def s')
qed

lemma create_session_room: "create_session dev lcore i s = Some s' \<Longrightarrow> room_kept {} s s'"
  by (auto simp: create_session_def Let_def room_kept_def split: option.splits)

lemma enqueue_cop_room_kept: "room_kept {} s (enqueue_cop dev k p s)"
  by (simp add: enqueue_cop_def Let_def room_kept_def free_pkts_def)

lemma free_pkts_room: "room_kept {} s (free_pkts ps s)"
  by (simp add: room_kept_def free_pkts_def)

lemma enqueue_one_room_kept:
  assumes "enqueue_one dev outbound_xform lcore (p, sa) s = Some s'" and "short_ivs s"
  shows "room_kept {p} s s'"
proof (cases sa)
  case None
  then show ?thesis using assms(1) room_kept_mono [OF free_pkts_room] by (auto simp: enqueue_one_def)
next
  case (Some i)
  define s1 where "s1 = s\<lparr>pkt_sa := (pkt_sa s)(p := i), pkt_status := (pkt_status s)(p := STATUS_NOT_PROCESSED)\<rparr>"
  define c where "c = (if crypto_session (sadb s1 i) = None then create_session dev lcore i s1 else Some s1)"
  have s1: "room_kept {} s s1" by (rule room_kept_fields) (simp_all add: s1_def)
  have e: "enqueue_one dev outbound_xform lcore (p, Some i) s =
      (case c of
              None \<Rightarrow> Some (free_pkts [p] s1)
            | Some s \<Rightarrow>
                let s = s\<lparr>pkt_session := (pkt_session s)(p := crypto_session (sadb s i))\<rparr>
                in (case run_xform outbound_xform p i s of
                   None \<Rightarrow> None
                 | Some (ret, s) \<Rightarrow>
                     Some (if ret \<noteq> 0 then free_pkts [p] s
                           else enqueue_cop dev (unat (cdev_id_qp (sadb s i))) p s)))"
    unfolding c_def s1_def by (simp add: enqueue_one_def Let_def)
  show ?thesis
  proof (cases c)
    case None
    then have "s' = free_pkts [p] s1" using assms(1) unfolding Some e by simp
    then show ?thesis using room_kept_trans [OF s1 free_pkts_room] room_kept_mono [of "{}" s s' "{p}"] by simp
  next
    case s2: (Some s2)
    have "room_kept {} s1 s2" using s2 create_session_room room_kept_refl unfolding c_def by (metis option.inject)
    then have k2: "room_kept {} s s2" using room_kept_trans [OF s1] by simp
    define s3 where "s3 = s2\<lparr>pkt_session := (pkt_session s2)(p := crypto_session (sadb s2 i))\<rparr>"
    have "room_kept {} s2 s3" by (rule room_kept_fields) (simp_all add: s3_def)
    then have k3: "room_kept {} s s3" using room_kept_trans [OF k2] by simp
    from assms(1) obtain ret s4 where r: "run_xform outbound_xform p i s3 = Some (ret, s4)"
      and s': "s' = (if ret \<noteq> 0 then free_pkts [p] s4 else enqueue_cop dev (unat (cdev_id_qp (sadb s4 i))) p s4)"
      unfolding Some e s2 by (auto simp: s3_def Let_def split: option.splits)
    have "room_kept {p} s3 s4" by (rule run_outbound_room [OF r short_ivs_kept [OF k3 assms(2)]])
    then have "room_kept {p} s s4" using room_kept_trans [OF k3] by simp
    moreover have "room_kept {} s4 s'" unfolding s' by (simp add: free_pkts_room enqueue_cop_room_kept)
    ultimately show ?thesis using room_kept_trans by fastforce
  qed
qed

lemma enqueue_room_kept:
  "ipsec_enqueue dev outbound_xform lcore xs s = Some s' \<Longrightarrow> short_ivs s \<Longrightarrow> distinct (map fst xs) \<Longrightarrow>
   room_kept (fst ` set xs) s s'"
proof (induction xs arbitrary: s)
  case (Cons x xs)
  obtain p sa where x: "x = (p, sa)" by fastforce
  from Cons.prems(1) obtain s1 where s1: "enqueue_one dev outbound_xform lcore (p, sa) s = Some s1"
    "ipsec_enqueue dev outbound_xform lcore xs s1 = Some s'"
    by (auto simp: x split: option.splits)
  have k: "room_kept {p} s s1" by (rule enqueue_one_room_kept [OF s1(1) Cons.prems(2)])
  have "room_kept (fst ` set xs) s1 s'"
    using Cons.IH [OF s1(2) short_ivs_kept [OF k Cons.prems(2)]] Cons.prems(3) by (simp add: x)
  from room_kept_trans [OF k this] show ?case using Cons.prems(3) by (simp add: x)
qed (simp add: room_kept_refl)

lemma post_ops_room:
  "post_ops dev outbound_post ops (pkts, s) = Some (pkts', s') \<Longrightarrow> in_place dev \<Longrightarrow> room_kept {} s s'"
proof (induction ops arbitrary: pkts s)
  case (Cons p ops)
  let ?s = "finish_op dev p s"
  let ?s1 = "?s\<lparr>pkt_buf := (pkt_buf ?s)(p := pkt_buf ?s p)\<rparr>"
  have "length (headroom (pkt_buf ?s q)) = length (headroom (pkt_buf s q))" for q
    using Cons.prems(2) by (auto simp: finish_op_def in_place_def split: prod.splits) (metis fst_conv)
  then have k: "room_kept {} s ?s" by (simp add: room_kept_def)
  then have k1: "room_kept {} s (free_pkts [p] ?s)" using room_kept_trans [OF k free_pkts_room] by simp
  have "post_ops dev outbound_post (p # ops) (pkts, s) = post_ops dev outbound_post ops
      (if esp_outbound_post (pkt_status ?s p) \<noteq> 0 then (pkts, free_pkts [p] ?s) else (pkts @ [p], ?s))"
    by (simp add: Let_def outbound_post_def)
  with Cons.prems(1) have "\<exists>pk. post_ops dev outbound_post ops (pk, ?s) = Some (pkts', s')
      \<or> post_ops dev outbound_post ops (pk, free_pkts [p] ?s) = Some (pkts', s')"
    by (cases "esp_outbound_post (pkt_status ?s p) = 0") (simp_all only: if_True if_False simp_thms, blast+)
  then show ?case using Cons.IH Cons.prems(2) room_kept_trans [OF k] room_kept_trans [OF k1] by fastforce
qed (simp add: room_kept_refl)

lemma dequeue_one_room:
  assumes "dequeue_one dev outbound_post mx (pkts, s) = Some (pkts', s')" and "in_place dev"
  shows "room_kept {} s s'"
proof -
  from assms(1) have "(pkt_buf s' = pkt_buf s \<and> sadb s' = sadb s)
      \<or> (\<exists>ops s1. pkt_buf s1 = pkt_buf s \<and> sadb s1 = sadb s \<and> post_ops dev outbound_post ops (pkts, s1) = Some (pkts', s'))"
    by (fastforce simp: dequeue_one_def Let_def split: if_splits)
  then show ?thesis
  proof
    assume "\<exists>ops s1. pkt_buf s1 = pkt_buf s \<and> sadb s1 = sadb s \<and> post_ops dev outbound_post ops (pkts, s1) = Some (pkts', s')"
    then obtain ops s1 where s1: "pkt_buf s1 = pkt_buf s" "sadb s1 = sadb s" "post_ops dev outbound_post ops (pkts, s1) = Some (pkts', s')"
      by blast
    have "room_kept {} s s1" using s1(1,2) by (intro room_kept_fields) simp_all
    from room_kept_trans [OF this post_ops_room [OF s1(3) assms(2)]] show ?thesis by simp
  qed (simp add: room_kept_fields)
qed

lemma dequeue_loop_room:
  "dequeue_loop n dev outbound_post mx (pkts, s) = Some (pkts', s') \<Longrightarrow> in_place dev \<Longrightarrow> room_kept {} s s'"
proof (induction n arbitrary: pkts s)
  case (Suc n)
  show ?case
  proof (cases "length pkts < mx")
    case True
    with Suc.prems(1) obtain pk1 s1 where o: "dequeue_one dev outbound_post mx (pkts, s) = Some (pk1, s1)"
      and r: "dequeue_loop n dev outbound_post mx (pk1, s1) = Some (pkts', s')"
      by (auto split: option.splits)
    from room_kept_trans [OF dequeue_one_room [OF o Suc.prems(2)] Suc.IH [OF r Suc.prems(2)]] show ?thesis by simp
  next
    case False
    with Suc.prems show ?thesis by (simp add: room_kept_refl)
  qed
qed (simp add: room_kept_refl)

lemma ipsec_outbound_room:
  assumes "ipsec_outbound dev lcore s pkts sa_idx len = Some (out, s')" and "in_place dev" and "short_ivs s"
    and "distinct pkts" and "length sa_idx = length pkts"
  shows "room_kept (set pkts) s s'"
proof -
  let ?xs = "zip pkts (outbound_sa_lookup sa_idx)"
  have f: "map fst ?xs = pkts" using assms(5) by (simp add: outbound_sa_lookup_def)
  then have "fst ` set ?xs = set pkts" by (metis list.set_map)
  moreover from assms(1) obtain s1 where e: "ipsec_enqueue dev outbound_xform lcore ?xs s = Some s1"
    and d: "ipsec_dequeue dev outbound_post len s1 = Some (out, s')"
    by (auto simp: ipsec_outbound_def split: option.splits)
  ultimately show ?thesis
    using room_kept_trans [OF enqueue_room_kept [OF e assms(3)] dequeue_loop_room [OF d [unfolded ipsec_dequeue_def] assms(2)]]
      f assms(4) by simp
qed

end
