(* ===== verification/Cfg_Parser.thy ===== *)
theory Cfg_Parser
  imports Addr_Text Sa
begin

text \<open>
  The configuration of the gateway: the rules for security associations (\<^verbatim>\<open>sa.c\<close>), security
  policies (\<^verbatim>\<open>sp4.c\<close>, \<^verbatim>\<open>sp6.c\<close>) and routes (\<^verbatim>\<open>rt.c\<close>), read token by
  token, and the file loop of \<^verbatim>\<open>parser.c\<close>.  The static arrays the parsers fill are the lists
  of the rules accepted so far.  A rejected line ends the program, so what a parser leaves behind
  in the next array entry when it rejects a line is never read and is not kept.
\<close>

section \<open>Token loops\<close>

text \<open>A step handles one token and the tokens behind it, of which it may use some up.\<close>

type_synonym 'a token_step = "string \<Rightarrow> string list \<Rightarrow> 'a \<Rightarrow> ('a \<times> string list) outcome"

fun token_loop :: "nat \<Rightarrow> 'a token_step \<Rightarrow> string list \<Rightarrow> 'a \<Rightarrow> 'a outcome" where
  "token_loop n step [] a = Value a"
| "token_loop 0 step (t # ts) a = Undefined"
| "token_loop (Suc n) step (t # ts) a = bind_outcome (step t ts a) (\<lambda>(a, ts). token_loop n step ts a)"

definition parse_tokens :: "'a token_step \<Rightarrow> string list \<Rightarrow> 'a \<Rightarrow> 'a outcome" where
  "parse_tokens step ts a = token_loop (length ts) step ts a"

text \<open>\<^verbatim>\<open>INCREMENT_TOKEN_INDEX\<close> and the access to the token after it.\<close>

definition next_token :: "string list \<Rightarrow> (string \<times> string list) outcome" where
  "next_token ts = (case ts of [] \<Rightarrow> Failure | t # ts \<Rightarrow> Value (t, ts))"

text \<open>The contract of a step: it never gives tokens back, and it keeps what is known of the rule.\<close>

locale token_parser =
  fixes step :: "'a token_step" and inv :: "'a \<Rightarrow> bool"
  assumes shorter: "step t ts a = Value (a', ts') \<Longrightarrow> length ts' \<le> length ts"
    and keeps: "step t ts a = Value (a', ts') \<Longrightarrow> inv a \<Longrightarrow> inv a'"
begin

text \<open>The number of tokens is enough fuel.\<close>

lemma token_loop_fuel:
  "length ts \<le> n \<Longrightarrow> length ts \<le> m \<Longrightarrow> token_loop n step ts a = token_loop m step ts a"
proof (induction n arbitrary: m ts a)
  case (Suc n)
  show ?case
  proof (cases ts)
    case (Cons t us)
    with Suc.prems obtain m' where m: "m = Suc m'" "length us \<le> n" "length us \<le> m'" by (cases m) auto
    have "token_loop n step us' a' = token_loop m' step us' a'" if "step t us a = Value (a', us')" for a' us'
      using Suc.IH [of us' m' a'] shorter [OF that] m(2,3) by simp
    then show ?thesis using Cons m(1) by (cases "step t us a") auto
  qed simp
qed simp

lemma parse_tokens_Cons:
  "parse_tokens step (t # ts) a = bind_outcome (step t ts a) (\<lambda>(a, ts). parse_tokens step ts a)"
proof (cases "step t ts a")
  case (Value x)
  then show ?thesis
    using shorter [of t ts a "fst x" "snd x"] token_loop_fuel [of "snd x" "length ts" "length (snd x)" "fst x"]
    by (simp add: parse_tokens_def split_beta)
qed (simp_all add: parse_tokens_def)

lemma token_loop_keeps: "token_loop n step ts a = Value a' \<Longrightarrow> inv a \<Longrightarrow> inv a'"
proof (induction n arbitrary: ts a)
  case 0
  then show ?case by (cases ts) simp_all
next
  case (Suc n)
  show ?case
  proof (cases ts)
    case (Cons t us)
    with Suc.prems(1) obtain a1 ts1 where s: "step t us a = Value (a1, ts1)" and r: "token_loop n step ts1 a1 = Value a'"
      by (auto simp: bind_outcome_eq_Value)
    from Suc.IH [OF r keeps [OF s Suc.prems(2)]] show ?thesis .
  qed (use Suc.prems in simp)
qed

lemma parse_tokens_keeps: "parse_tokens step ts a = Value a' \<Longrightarrow> inv a \<Longrightarrow> inv a'"
  unfolding parse_tokens_def by (rule token_loop_keeps)

end

section \<open>Security associations\<close>

record supported_cipher_algo =
  c_keyword :: string
  c_algo :: cipher_algorithm
  c_iv_len :: u16
  c_block_size :: u16
  c_key_len :: u16

record supported_auth_algo =
  a_keyword :: string
  a_algo :: auth_algorithm
  a_digest_len :: u16
  a_key_len :: u16
  a_aad_len :: u8
  a_key_not_req :: bool

definition cipher_algos :: "supported_cipher_algo list" where
  "cipher_algos =
     [\<lparr>c_keyword = ''null'', c_algo = CIPHER_NULL, c_iv_len = 0, c_block_size = 4, c_key_len = 0\<rparr>,
      \<lparr>c_keyword = ''aes-128-cbc'', c_algo = CIPHER_AES_CBC, c_iv_len = 16, c_block_size = 16, c_key_len = 16\<rparr>,
      \<lparr>c_keyword = ''aes-128-gcm'', c_algo = CIPHER_AES_GCM, c_iv_len = 8, c_block_size = 16, c_key_len = 20\<rparr>,
      \<lparr>c_keyword = ''aes-128-ctr'', c_algo = CIPHER_AES_CTR, c_iv_len = 8, c_block_size = 16, c_key_len = 20\<rparr>]"

definition auth_algos :: "supported_auth_algo list" where
  "auth_algos =
     [\<lparr>a_keyword = ''null'', a_algo = AUTH_NULL, a_digest_len = 0, a_key_len = 0, a_aad_len = 0, a_key_not_req = True\<rparr>,
      \<lparr>a_keyword = ''sha1-hmac'', a_algo = AUTH_SHA1_HMAC, a_digest_len = 12, a_key_len = 20, a_aad_len = 0, a_key_not_req = False\<rparr>,
      \<lparr>a_keyword = ''sha256-hmac'', a_algo = AUTH_SHA256_HMAC, a_digest_len = 12, a_key_len = 32, a_aad_len = 0, a_key_not_req = False\<rparr>,
      \<lparr>a_keyword = ''aes-128-gcm'', a_algo = AUTH_AES_GCM, a_digest_len = 16, a_key_len = 0, a_aad_len = 8, a_key_not_req = True\<rparr>]"

definition find_match_cipher_algo :: "string \<Rightarrow> supported_cipher_algo option" where
  "find_match_cipher_algo keyword = find (\<lambda>a. keyword = c_keyword a) cipher_algos"

definition find_match_auth_algo :: "string \<Rightarrow> supported_auth_algo option" where
  "find_match_auth_algo keyword = find (\<lambda>a. keyword = a_keyword a) auth_algos"

text \<open>\<^verbatim>\<open>strtol (s, NULL, 16)\<close>: white space, a sign, an optional prefix, digits.\<close>

definition hex_digits :: "string \<Rightarrow> int" where
  "hex_digits s = int (hex_value (takeWhile (\<lambda>c. xdigit_value c \<noteq> None) s))"

definition strtol16 :: "string \<Rightarrow> int" where
  "strtol16 s =
     (let s = dropWhile isspace s;
          sign = (if s \<noteq> [] \<and> hd s = CHR ''-'' then - 1 else 1);
          s = (if s \<noteq> [] \<and> hd s \<in> {CHR ''-'', CHR ''+''} then tl s else s);
          s = (if 2 < length s \<and> hd s = CHR ''0'' \<and> s ! 1 \<in> {CHR ''x'', CHR ''X''} \<and> xdigit_value (s ! 2) \<noteq> None
               then drop 2 s else s)
      in sign * hex_digits s)"

text \<open>\<^verbatim>\<open>parse_key_string\<close>: the number returned (0 for an error) and the bytes written; the
  key arrays have 32 bytes.\<close>

definition MAX_KEY_SIZE :: nat where "MAX_KEY_SIZE = 32"

fun split_fields :: "char \<Rightarrow> string \<Rightarrow> string list" where
  "split_fields c [] = [[]]"
| "split_fields c (x # xs) = (if x = c then [] # split_fields c xs
     else case split_fields c xs of [] \<Rightarrow> [[x]] | f # fs \<Rightarrow> (x # f) # fs)"

fun key_loop :: "string list \<Rightarrow> bytes \<Rightarrow> (nat \<times> bytes) outcome" where
  "key_loop [] key = Value (length key, key)"
| "key_loop (f # fs) key =
     (if 2 < length f then Value (0, key)
      else if MAX_KEY_SIZE \<le> length key then Undefined
      else key_loop fs (key @ [word_of_int (strtol16 f)]))"

definition parse_key_string :: "string \<Rightarrow> (nat \<times> bytes) outcome" where
  "parse_key_string s = key_loop (split_fields CHR '':'' s) []"

record sa_args =
  sa_rule :: ipsec_sa
  mode_p :: bool
  cipher_algo_p :: bool
  auth_algo_p :: bool
  src_p :: bool
  dst_p :: bool

definition sa_mode :: "string list \<Rightarrow> sa_args \<Rightarrow> (sa_args \<times> string list) outcome" where
  "sa_mode ts a =
     app_check (\<not> mode_p a)
       (bind_outcome (next_token ts) (\<lambda>(t, ts).
          if t = ''ipv4-tunnel'' then Value (a\<lparr>sa_rule := (sa_rule a)\<lparr>flags := IP4_TUNNEL\<rparr>, mode_p := True\<rparr>, ts)
          else if t = ''ipv6-tunnel'' then Value (a\<lparr>sa_rule := (sa_rule a)\<lparr>flags := IP6_TUNNEL\<rparr>, mode_p := True\<rparr>, ts)
          else if t = ''transport'' then Value (a\<lparr>sa_rule := (sa_rule a)\<lparr>flags := TRANSPORT\<rparr>, mode_p := True\<rparr>, ts)
          else Failure))"

text \<open>An unknown algorithm sets the status but does not return: the null pointer is read.\<close>

definition sa_cipher_key :: "u32 \<Rightarrow> string list \<Rightarrow> ipsec_sa \<Rightarrow> (ipsec_sa \<times> string list) outcome" where
  "sa_cipher_key rnd ts r =
     bind_outcome (next_token ts) (\<lambda>(t, ts).
     app_check (t = ''cipher_key'')
       (bind_outcome (next_token ts) (\<lambda>(t, ts).
        bind_outcome (parse_key_string t) (\<lambda>(key_len, key).
        let r = r\<lparr>cipher_key := store (cipher_key r) 0 key\<rparr>
        in app_check (key_len = unat (cipher_key_len r))
             (let r = (if cipher_algo r = CIPHER_AES_CBC then r\<lparr>salt := rnd\<rparr> else r)
              in Value (if cipher_algo r \<in> {CIPHER_AES_CTR, CIPHER_AES_GCM}
                        then r\<lparr>cipher_key_len := of_nat (key_len - 4), salt := load 4 (cipher_key r) (key_len - 4)\<rparr>
                        else r, ts))))))"

definition sa_cipher :: "u32 \<Rightarrow> string list \<Rightarrow> sa_args \<Rightarrow> (sa_args \<times> string list) outcome" where
  "sa_cipher rnd ts a =
     app_check (\<not> cipher_algo_p a)
       (bind_outcome (next_token ts) (\<lambda>(t, ts).
          case find_match_cipher_algo t of
            None \<Rightarrow> Undefined
          | Some al \<Rightarrow>
              let r = (sa_rule a)\<lparr>cipher_algo := c_algo al, block_size := c_block_size al, iv_len := c_iv_len al,
                        cipher_key_len := c_key_len al\<rparr>
              in bind_outcome (if cipher_algo r = CIPHER_NULL then Value (r, ts) else sa_cipher_key rnd ts r)
                   (\<lambda>(r, ts). Value (a\<lparr>sa_rule := r, cipher_algo_p := True\<rparr>, ts))))"

definition sa_auth_key :: "string list \<Rightarrow> ipsec_sa \<Rightarrow> (ipsec_sa \<times> string list) outcome" where
  "sa_auth_key ts r =
     bind_outcome (next_token ts) (\<lambda>(t, ts).
     app_check (t = ''auth_key'')
       (bind_outcome (next_token ts) (\<lambda>(t, ts).
        bind_outcome (parse_key_string t) (\<lambda>(key_len, key).
        let r = r\<lparr>auth_key := store (auth_key r) 0 key\<rparr>
        in app_check (key_len = unat (auth_key_len r)) (Value (r, ts))))))"

definition sa_auth :: "string list \<Rightarrow> sa_args \<Rightarrow> (sa_args \<times> string list) outcome" where
  "sa_auth ts a =
     app_check (\<not> auth_algo_p a)
       (bind_outcome (next_token ts) (\<lambda>(t, ts).
          case find_match_auth_algo t of
            None \<Rightarrow> Undefined
          | Some al \<Rightarrow>
              let r = (sa_rule a)\<lparr>auth_algo := a_algo al, auth_key_len := a_key_len al, digest_len := a_digest_len al,
                        aad_len := a_key_len al\<rparr>
              in bind_outcome (if a_key_not_req al then Value (r, ts) else sa_auth_key ts r)
                   (\<lambda>(r, ts). Value (a\<lparr>sa_rule := r, auth_algo_p := True\<rparr>, ts))))"

text \<open>The address of a tunnel end, by the mode read so far; without a mode it is not looked at.\<close>

definition sa_address :: "u16 \<Rightarrow> string \<Rightarrow> bytes \<Rightarrow> bytes outcome" where
  "sa_address fl t old =
     (if fl = IP4_TUNNEL then bind_outcome (parse_ipv4_addr t) (\<lambda>(ip, m). Value (store old 0 (rev ip)))
      else if fl = IP6_TUNNEL then bind_outcome (parse_ipv6_addr t) (\<lambda>(ip, m). Value (store old 0 ip))
      else if fl = TRANSPORT then Failure
      else Value old)"

definition sa_src_arg :: "string list \<Rightarrow> sa_args \<Rightarrow> (sa_args \<times> string list) outcome" where
  "sa_src_arg ts a =
     app_check (\<not> src_p a)
       (bind_outcome (next_token ts) (\<lambda>(t, ts).
        bind_outcome (sa_address (flags (sa_rule a)) t (sa_src (sa_rule a))) (\<lambda>x.
          Value (a\<lparr>sa_rule := (sa_rule a)\<lparr>sa_src := x\<rparr>, src_p := True\<rparr>, ts))))"

definition sa_dst_arg :: "string list \<Rightarrow> sa_args \<Rightarrow> (sa_args \<times> string list) outcome" where
  "sa_dst_arg ts a =
     app_check (\<not> dst_p a)
       (bind_outcome (next_token ts) (\<lambda>(t, ts).
        bind_outcome (sa_address (flags (sa_rule a)) t (sa_dst (sa_rule a))) (\<lambda>x.
          Value (a\<lparr>sa_rule := (sa_rule a)\<lparr>sa_dst := x\<rparr>, dst_p := True\<rparr>, ts))))"

definition sa_step :: "u32 \<Rightarrow> sa_args token_step" where
  "sa_step rnd t ts a =
     (if t = ''mode'' then sa_mode ts a
      else if t = ''cipher_algo'' then sa_cipher rnd ts a
      else if t = ''auth_algo'' then sa_auth ts a
      else if t = ''src'' then sa_src_arg ts a
      else if t = ''dst'' then sa_dst_arg ts a
      else Failure)"

text \<open>An element of the static arrays before a rule is read into it.\<close>

definition zero_sa :: ipsec_sa where
  "zero_sa = \<lparr>spi = 0, cdev_id_qp = 0, sa_seq = 0, salt = 0, crypto_session = None,
     cipher_algo = CIPHER_OTHER 0, auth_algo = AUTH_OTHER 0, digest_len = 0, iv_len = 0, block_size = 0, flags = 0,
     sa_src = replicate 16 0, sa_dst = replicate 16 0, cipher_key = replicate 32 0, cipher_key_len = 0,
     auth_key = replicate 32 0, auth_key_len = 0, aad_len = 0\<rparr>"

section \<open>Security policies\<close>

text \<open>A field of a rule is the pair of its value and its mask or upper bound.  Shorter members of
  the unions are written into zeroed memory, so the pair holds their values.\<close>

record acl_rule =
  category_mask :: u32
  acl_priority :: u32
  userdata :: u32
  acl_field :: "(u32 \<times> u32) list"

definition DISCARD :: u32 where "DISCARD = 0x80000000"
definition BYPASS :: u32 where "BYPASS = 0x40000000"
definition PROTECT_MASK :: u32 where "PROTECT_MASK = 0x3fffffff"

definition PROTECT :: "u32 \<Rightarrow> u32" where
  "PROTECT sa_idx = (sa_idx AND (IPSEC_SA_MAX_ENTRIES - 1)) AND PROTECT_MASK"

record sp_args =
  sp_rule :: acl_rule
  esp_p :: bool
  protect_p :: bool
  bypass_p :: bool
  discard_p :: bool
  pri_p :: bool
  sp_src_p :: bool
  sp_dst_p :: bool
  proto_p :: bool
  sport_p :: bool
  dport_p :: bool

type_synonym sp_handler = "string list \<Rightarrow> sp_args \<Rightarrow> (sp_args \<times> string list) outcome"

definition sp_esp :: sp_handler where
  "sp_esp ts a = app_check (\<not> esp_p a) (Value (a\<lparr>esp_p := True\<rparr>, ts))"

definition sp_protect :: sp_handler where
  "sp_protect ts a =
     app_check (\<not> protect_p a) (app_check (\<not> bypass_p a) (app_check (\<not> discard_p a)
       (bind_outcome (next_token ts) (\<lambda>(t, ts).
          app_check (is_str_num t)
            (Value (a\<lparr>sp_rule := (sp_rule a)\<lparr>userdata := PROTECT (atoi32 t)\<rparr>, protect_p := True\<rparr>, ts))))))"

definition sp_bypass :: sp_handler where
  "sp_bypass ts a =
     app_check (\<not> bypass_p a) (app_check (\<not> protect_p a) (app_check (\<not> discard_p a)
       (Value (a\<lparr>sp_rule := (sp_rule a)\<lparr>userdata := BYPASS\<rparr>, bypass_p := True\<rparr>, ts))))"

definition sp_discard :: sp_handler where
  "sp_discard ts a =
     app_check (\<not> discard_p a) (app_check (\<not> protect_p a) (app_check (\<not> bypass_p a)
       (Value (a\<lparr>sp_rule := (sp_rule a)\<lparr>userdata := DISCARD\<rparr>, discard_p := True\<rparr>, ts))))"

definition sp_pri :: sp_handler where
  "sp_pri ts a =
     app_check (\<not> pri_p a)
       (bind_outcome (next_token ts) (\<lambda>(t, ts).
          app_check (is_str_num t)
            (Value (a\<lparr>sp_rule := (sp_rule a)\<lparr>acl_priority := atoi32 t\<rparr>, pri_p := True\<rparr>, ts))))"

text \<open>Writes of consecutive fields.\<close>

fun set_fields :: "nat \<Rightarrow> (u32 \<times> u32) list \<Rightarrow> acl_rule \<Rightarrow> acl_rule" where
  "set_fields k [] r = r"
| "set_fields k (x # xs) r = set_fields (k + 1) xs (r\<lparr>acl_field := (acl_field r)[k := x]\<rparr>)"

definition sp_proto :: sp_handler where
  "sp_proto ts a =
     app_check (\<not> proto_p a)
       (bind_outcome (next_token ts) (\<lambda>(t, ts).
        bind_outcome (parse_range t) (\<lambda>(low, high).
          app_check (low \<le> 0xff) (app_check (high \<le> 0xff)
            (Value (a\<lparr>sp_rule := set_fields 0 [(ucast low, ucast high)] (sp_rule a), proto_p := True\<rparr>, ts))))))"

definition sp_sport :: "nat \<Rightarrow> sp_handler" where
  "sp_sport k ts a =
     app_check (\<not> sport_p a)
       (bind_outcome (next_token ts) (\<lambda>(t, ts).
        bind_outcome (parse_range t) (\<lambda>(low, high).
          Value (a\<lparr>sp_rule := set_fields k [(ucast low, ucast high)] (sp_rule a), sport_p := True\<rparr>, ts))))"

definition sp_dport :: "nat \<Rightarrow> sp_handler" where
  "sp_dport k ts a =
     app_check (\<not> dport_p a)
       (bind_outcome (next_token ts) (\<lambda>(t, ts).
        bind_outcome (parse_range t) (\<lambda>(low, high).
          Value (a\<lparr>sp_rule := set_fields k [(ucast low, ucast high)] (sp_rule a), dport_p := True\<rparr>, ts))))"

section \<open>IPv4 policies\<close>

definition sp4_src :: sp_handler where
  "sp4_src ts a =
     app_check (\<not> sp_src_p a)
       (bind_outcome (next_token ts) (\<lambda>(t, ts).
        bind_outcome (parse_ipv4_addr t) (\<lambda>(ip, depth).
          Value (a\<lparr>sp_rule := set_fields 1 [(bswap32 (load 4 ip 0), depth)] (sp_rule a), sp_src_p := True\<rparr>, ts))))"

definition sp4_dst :: sp_handler where
  "sp4_dst ts a =
     app_check (\<not> sp_dst_p a)
       (bind_outcome (next_token ts) (\<lambda>(t, ts).
        bind_outcome (parse_ipv4_addr t) (\<lambda>(ip, depth).
          Value (a\<lparr>sp_rule := set_fields 2 [(bswap32 (load 4 ip 0), depth)] (sp_rule a), sp_dst_p := True\<rparr>, ts))))"

definition sp4_step :: "sp_args token_step" where
  "sp4_step t ts a =
     (if t = ''esp'' then sp_esp ts a
      else if t = ''protect'' then sp_protect ts a
      else if t = ''bypass'' then sp_bypass ts a
      else if t = ''discard'' then sp_discard ts a
      else if t = ''pri'' then sp_pri ts a
      else if t = ''src'' then sp4_src ts a
      else if t = ''dst'' then sp4_dst ts a
      else if t = ''proto'' then sp_proto ts a
      else if t = ''sport'' then sp_sport 3 ts a
      else if t = ''dport'' then sp_dport 4 ts a
      else Failure)"

section \<open>IPv6 policies\<close>

text \<open>An address and its prefix length as four fields of 32 bits.\<close>

definition be_word :: "bytes \<Rightarrow> nat \<Rightarrow> u32" where
  "be_word a i = push_bit 24 (ucast (a ! i)) OR push_bit 16 (ucast (a ! (i + 1)))
     OR push_bit 8 (ucast (a ! (i + 2))) OR ucast (a ! (i + 3))"

definition depth_part :: "u32 \<Rightarrow> u32" where "depth_part d = (if 32 < d then 32 else d)"
definition depth_rest :: "u32 \<Rightarrow> u32" where "depth_rest d = (if 32 < d then d - 32 else 0)"

definition ip6_fields :: "bytes \<Rightarrow> u32 \<Rightarrow> (u32 \<times> u32) list" where
  "ip6_fields ip d0 =
     (let d1 = depth_rest d0; d2 = depth_rest d1; d3 = depth_rest d2
      in [(be_word ip 0, depth_part d0), (be_word ip 4, depth_part d1),
          (be_word ip 8, depth_part d2), (be_word ip 12, depth_part d3)])"

definition sp6_src :: sp_handler where
  "sp6_src ts a =
     app_check (\<not> sp_src_p a)
       (bind_outcome (next_token ts) (\<lambda>(t, ts).
        bind_outcome (parse_ipv6_addr t) (\<lambda>(ip, depth).
          Value (a\<lparr>sp_rule := set_fields 1 (ip6_fields ip depth) (sp_rule a), sp_src_p := True\<rparr>, ts))))"

definition sp6_dst :: sp_handler where
  "sp6_dst ts a =
     app_check (\<not> sp_dst_p a)
       (bind_outcome (next_token ts) (\<lambda>(t, ts).
        bind_outcome (parse_ipv6_addr t) (\<lambda>(ip, depth).
          Value (a\<lparr>sp_rule := set_fields 5 (ip6_fields ip depth) (sp_rule a), sp_dst_p := True\<rparr>, ts))))"

definition sp6_proto :: sp_handler where "sp6_proto = sp_proto"
definition sp6_sport :: sp_handler where "sp6_sport = sp_sport 9"
definition sp6_dport :: sp_handler where "sp6_dport = sp_dport 10"

definition sp6_step :: "sp_args token_step" where
  "sp6_step t ts a =
     (if t = ''esp'' then sp_esp ts a
      else if t = ''protect'' then sp_protect ts a
      else if t = ''bypass'' then sp_bypass ts a
      else if t = ''discard'' then sp_discard ts a
      else if t = ''pri'' then sp_pri ts a
      else if t = ''src'' then sp6_src ts a
      else if t = ''dst'' then sp6_dst ts a
      else if t = ''proto'' then sp6_proto ts a
      else if t = ''sport'' then sp6_sport ts a
      else if t = ''dport'' then sp6_dport ts a
      else Failure)"

section \<open>Routes\<close>

record ip4_route =
  r4_ip :: u32
  r4_depth :: u8
  r4_if_out :: u8

record ip6_route =
  r6_ip :: bytes
  r6_depth :: u8
  r6_if_out :: u8

datatype route = Route4 ip4_route | Route6 ip6_route

text \<open>After \<^verbatim>\<open>dst\<close> the code goes on to compare the address token with \<^verbatim>\<open>port\<close>; a token
  that is neither is skipped.\<close>

definition rt_dst :: "string list \<Rightarrow> route \<Rightarrow> (string \<times> route \<times> string list) outcome" where
  "rt_dst ts r =
     bind_outcome (next_token ts) (\<lambda>(t, ts).
       case r of
         Route4 r \<Rightarrow> bind_outcome (parse_ipv4_addr t) (\<lambda>(ip, depth).
           Value (t, Route4 (r\<lparr>r4_ip := bswap32 (load 4 ip 0), r4_depth := ucast depth\<rparr>), ts))
       | Route6 r \<Rightarrow> bind_outcome (parse_ipv6_addr t) (\<lambda>(ip, depth).
           Value (t, Route6 (r\<lparr>r6_ip := ip, r6_depth := ucast depth\<rparr>), ts)))"

definition rt_port :: "string list \<Rightarrow> route \<Rightarrow> (route \<times> string list) outcome" where
  "rt_port ts r =
     bind_outcome (next_token ts) (\<lambda>(t, ts).
       app_check (is_str_num t)
         (Value (case r of Route4 r \<Rightarrow> Route4 (r\<lparr>r4_if_out := ucast (atoi32 t)\<rparr>)
                 | Route6 r \<Rightarrow> Route6 (r\<lparr>r6_if_out := ucast (atoi32 t)\<rparr>), ts)))"

definition rt_step :: "route token_step" where
  "rt_step t ts r =
     bind_outcome (if t = ''dst'' then rt_dst ts r else Value (t, r, ts)) (\<lambda>(t, r, ts).
       if t = ''port'' then rt_port ts r else Value (r, ts))"

section \<open>What the steps keep\<close>

lemma next_token_Value [outcome_simps]: "next_token ts = Value (t, ts') \<longleftrightarrow> ts = t # ts'"
  by (auto simp: next_token_def split: list.splits)

lemma key_loop_length: "key_loop fs key = Value (n, key') \<Longrightarrow> length key \<le> MAX_KEY_SIZE \<Longrightarrow> length key' \<le> MAX_KEY_SIZE"
  by (induction fs key rule: key_loop.induct) (auto split: if_splits)

lemma parse_key_string_length: "parse_key_string s = Value (n, key) \<Longrightarrow> length key \<le> 32"
  using key_loop_length [of "split_fields CHR '':'' s" "[]" n key] by (simp add: parse_key_string_def MAX_KEY_SIZE_def)

text \<open>The algorithm tables fit the transforms of \<^verbatim>\<open>esp.c\<close>.\<close>

lemma find_match_cipher_algo_Some:
  assumes "find_match_cipher_algo t = Some al"
  shows "c_block_size al \<in> {4, 16} \<and> (c_algo al, c_iv_len al) \<in>
    {(CIPHER_NULL, 0), (CIPHER_AES_CBC, 16), (CIPHER_AES_CTR, 8), (CIPHER_AES_GCM, 8)} \<and> c_key_len al \<le> 20"
  using assms by (auto simp: find_match_cipher_algo_def cipher_algos_def split: if_splits)

lemma find_match_auth_algo_Some:
  assumes "find_match_auth_algo t = Some al"
  shows "a_digest_len al \<le> 16 \<and> a_algo al \<in> {AUTH_NULL, AUTH_SHA1_HMAC, AUTH_SHA256_HMAC, AUTH_AES_GCM}
    \<and> a_key_len al \<le> 32"
  using assms by (auto simp: find_match_auth_algo_def auth_algos_def split: if_splits)

definition sizes_ok :: "ipsec_sa \<Rightarrow> bool" where
  "sizes_ok r \<longleftrightarrow> length (sa_src r) = 16 \<and> length (sa_dst r) = 16 \<and> length (cipher_key r) = 32 \<and> length (auth_key r) = 32
     \<and> crypto_session r = None"

definition cipher_ok :: "ipsec_sa \<Rightarrow> bool" where
  "cipher_ok r \<longleftrightarrow> block_size r \<in> {4, 16}
     \<and> (cipher_algo r, iv_len r) \<in> {(CIPHER_NULL, 0), (CIPHER_AES_CBC, 16), (CIPHER_AES_CTR, 8), (CIPHER_AES_GCM, 8)}"

definition auth_ok :: "ipsec_sa \<Rightarrow> bool" where
  "auth_ok r \<longleftrightarrow> digest_len r \<le> 16 \<and> auth_algo r \<in> {AUTH_NULL, AUTH_SHA1_HMAC, AUTH_SHA256_HMAC, AUTH_AES_GCM}"

definition sa_inv :: "sa_args \<Rightarrow> bool" where
  "sa_inv a \<longleftrightarrow> sizes_ok (sa_rule a) \<and> (cipher_algo_p a \<longrightarrow> cipher_ok (sa_rule a))
     \<and> (auth_algo_p a \<longrightarrow> auth_ok (sa_rule a))
     \<and> (mode_p a \<longrightarrow> flags (sa_rule a) \<in> {IP4_TUNNEL, IP6_TUNNEL, TRANSPORT})"

text \<open>Each handler changes some members only.\<close>

lemma sizes_ok_update [simp]:
  "sizes_ok (r\<lparr>flags := f\<rparr>) = sizes_ok r" "sizes_ok (r\<lparr>salt := w\<rparr>) = sizes_ok r"
  "sizes_ok (r\<lparr>cipher_key_len := n\<rparr>) = sizes_ok r"
  "sizes_ok (r\<lparr>cipher_algo := c\<rparr>) = sizes_ok r" "sizes_ok (r\<lparr>block_size := b\<rparr>) = sizes_ok r" "sizes_ok (r\<lparr>iv_len := i\<rparr>) = sizes_ok r"
  "sizes_ok (r\<lparr>auth_algo := l\<rparr>) = sizes_ok r" "sizes_ok (r\<lparr>auth_key_len := n\<rparr>) = sizes_ok r" "sizes_ok (r\<lparr>digest_len := d\<rparr>) = sizes_ok r"
  "sizes_ok (r\<lparr>aad_len := n\<rparr>) = sizes_ok r"
  by (simp_all add: sizes_ok_def)

lemma cipher_ok_update [simp]:
  "cipher_ok (r\<lparr>flags := f\<rparr>) = cipher_ok r" "cipher_ok (r\<lparr>salt := w\<rparr>) = cipher_ok r"
  "cipher_ok (r\<lparr>cipher_key_len := n\<rparr>) = cipher_ok r" "cipher_ok (r\<lparr>cipher_key := k\<rparr>) = cipher_ok r"
  "cipher_ok (r\<lparr>auth_key := k\<rparr>) = cipher_ok r" "cipher_ok (r\<lparr>sa_src := k\<rparr>) = cipher_ok r" "cipher_ok (r\<lparr>sa_dst := k\<rparr>) = cipher_ok r"
  "cipher_ok (r\<lparr>auth_algo := l\<rparr>) = cipher_ok r" "cipher_ok (r\<lparr>auth_key_len := n\<rparr>) = cipher_ok r" "cipher_ok (r\<lparr>digest_len := d\<rparr>) = cipher_ok r"
  "cipher_ok (r\<lparr>aad_len := n\<rparr>) = cipher_ok r"
  by (simp_all add: cipher_ok_def)

lemma auth_ok_update [simp]:
  "auth_ok (r\<lparr>flags := f\<rparr>) = auth_ok r" "auth_ok (r\<lparr>salt := w\<rparr>) = auth_ok r"
  "auth_ok (r\<lparr>cipher_key_len := n\<rparr>) = auth_ok r" "auth_ok (r\<lparr>cipher_key := k\<rparr>) = auth_ok r"
  "auth_ok (r\<lparr>auth_key := k\<rparr>) = auth_ok r" "auth_ok (r\<lparr>sa_src := k\<rparr>) = auth_ok r" "auth_ok (r\<lparr>sa_dst := k\<rparr>) = auth_ok r"
  "auth_ok (r\<lparr>cipher_algo := c\<rparr>) = auth_ok r" "auth_ok (r\<lparr>block_size := b\<rparr>) = auth_ok r" "auth_ok (r\<lparr>iv_len := i\<rparr>) = auth_ok r"
  by (simp_all add: auth_ok_def)

lemma sa_mode_ok:
  "sa_mode ts a = Value (a', ts') \<Longrightarrow> length ts' \<le> length ts \<and> (sa_inv a \<longrightarrow> sa_inv a')"
  by (auto simp: sa_mode_def outcome_simps sa_inv_def simp del: insert_iff split: if_splits)

lemma sa_cipher_key_ok:
  assumes "sa_cipher_key rnd ts r = Value (r', ts')"
  shows "length ts' \<le> length ts \<and> (sizes_ok r \<longrightarrow> sizes_ok r') \<and> cipher_ok r' = cipher_ok r \<and> auth_ok r' = auth_ok r
    \<and> flags r' = flags r"
proof -
  from assms obtain t1 t2 key_len key where ts: "ts = t1 # t2 # ts'" and k: "parse_key_string t2 = Value (key_len, key)"
    and r': "r' = (let r = r\<lparr>cipher_key := store (cipher_key r) 0 key\<rparr>;
        r = (if cipher_algo r = CIPHER_AES_CBC then r\<lparr>salt := rnd\<rparr> else r)
      in if cipher_algo r \<in> {CIPHER_AES_CTR, CIPHER_AES_GCM}
         then r\<lparr>cipher_key_len := of_nat (key_len - 4), salt := load 4 (cipher_key r) (key_len - 4)\<rparr> else r)"
    by (auto simp: sa_cipher_key_def outcome_simps Let_def)
  have "sizes_ok (r\<lparr>cipher_key := store (cipher_key r) 0 key\<rparr>)" if "sizes_ok r"
    using that parse_key_string_length [OF k] by (simp add: sizes_ok_def)
  then show ?thesis using ts unfolding r' by (simp add: Let_def)
qed

lemma sa_cipher_ok:
  assumes "sa_cipher rnd ts a = Value (a', ts')"
  shows "length ts' \<le> length ts \<and> (sa_inv a \<longrightarrow> sa_inv a')"
proof -
  from assms obtain t ts1 al r where ts: "ts = t # ts1" and al: "find_match_cipher_algo t = Some al"
    and r: "(let r = (sa_rule a)\<lparr>cipher_algo := c_algo al, block_size := c_block_size al, iv_len := c_iv_len al, cipher_key_len := c_key_len al\<rparr>
        in if cipher_algo r = CIPHER_NULL then Value (r, ts1) else sa_cipher_key rnd ts1 r) = Value (r, ts')"
    and a': "a' = a\<lparr>sa_rule := r, cipher_algo_p := True\<rparr>"
    by (auto simp: sa_cipher_def outcome_simps Let_def split: option.splits)
  define r0 where "r0 = (sa_rule a)\<lparr>cipher_algo := c_algo al, block_size := c_block_size al, iv_len := c_iv_len al, cipher_key_len := c_key_len al\<rparr>"
  have r0: "cipher_ok r0" "sizes_ok r0 = sizes_ok (sa_rule a)" "auth_ok r0 = auth_ok (sa_rule a)" "flags r0 = flags (sa_rule a)"
    using find_match_cipher_algo_Some [OF al] by (simp_all add: r0_def cipher_ok_def)
  have "length ts' \<le> length ts1 \<and> (sizes_ok r0 \<longrightarrow> sizes_ok r) \<and> cipher_ok r = cipher_ok r0 \<and> auth_ok r = auth_ok r0 \<and> flags r = flags r0"
    using r sa_cipher_key_ok [of rnd ts1 r0 r ts'] by (auto simp: r0_def [symmetric] split: if_splits)
  then show ?thesis using ts r0 by (simp add: a' sa_inv_def)
qed

lemma sa_auth_key_ok:
  assumes "sa_auth_key ts r = Value (r', ts')"
  shows "length ts' \<le> length ts \<and> (sizes_ok r \<longrightarrow> sizes_ok r') \<and> cipher_ok r' = cipher_ok r \<and> auth_ok r' = auth_ok r
    \<and> flags r' = flags r"
proof -
  from assms obtain t1 t2 key_len key where ts: "ts = t1 # t2 # ts'" and k: "parse_key_string t2 = Value (key_len, key)"
    and r': "r' = r\<lparr>auth_key := store (auth_key r) 0 key\<rparr>"
    by (auto simp: sa_auth_key_def outcome_simps Let_def)
  have "sizes_ok (r\<lparr>auth_key := store (auth_key r) 0 key\<rparr>)" if "sizes_ok r"
    using that parse_key_string_length [OF k] by (simp add: sizes_ok_def)
  then show ?thesis using ts unfolding r' by simp
qed

lemma sa_auth_ok:
  assumes "sa_auth ts a = Value (a', ts')"
  shows "length ts' \<le> length ts \<and> (sa_inv a \<longrightarrow> sa_inv a')"
proof -
  from assms obtain t ts1 al r where ts: "ts = t # ts1" and al: "find_match_auth_algo t = Some al"
    and r: "(let r = (sa_rule a)\<lparr>auth_algo := a_algo al, auth_key_len := a_key_len al, digest_len := a_digest_len al, aad_len := a_key_len al\<rparr>
        in if a_key_not_req al then Value (r, ts1) else sa_auth_key ts1 r) = Value (r, ts')"
    and a': "a' = a\<lparr>sa_rule := r, auth_algo_p := True\<rparr>"
    by (auto simp: sa_auth_def outcome_simps Let_def split: option.splits)
  define r0 where "r0 = (sa_rule a)\<lparr>auth_algo := a_algo al, auth_key_len := a_key_len al, digest_len := a_digest_len al, aad_len := a_key_len al\<rparr>"
  have r0: "auth_ok r0" "sizes_ok r0 = sizes_ok (sa_rule a)" "cipher_ok r0 = cipher_ok (sa_rule a)" "flags r0 = flags (sa_rule a)"
    using find_match_auth_algo_Some [OF al] by (simp_all add: r0_def auth_ok_def)
  have "length ts' \<le> length ts1 \<and> (sizes_ok r0 \<longrightarrow> sizes_ok r) \<and> cipher_ok r = cipher_ok r0 \<and> auth_ok r = auth_ok r0 \<and> flags r = flags r0"
    using r sa_auth_key_ok [of ts1 r0 r ts'] by (auto simp: r0_def [symmetric] split: if_splits)
  then show ?thesis using ts r0 by (simp add: a' sa_inv_def)
qed

lemma sa_address_length:
  assumes "sa_address fl t old = Value x" and "length old = 16"
  shows "length x = 16"
  using assms
  by (auto simp: sa_address_def outcome_simps split: if_splits dest: parse_addr_length)

lemma sa_src_arg_ok:
  assumes "sa_src_arg ts a = Value (a', ts')"
  shows "length ts' \<le> length ts \<and> (sa_inv a \<longrightarrow> sa_inv a')"
proof -
  from assms obtain t x where "ts = t # ts'" and x: "sa_address (flags (sa_rule a)) t (sa_src (sa_rule a)) = Value x"
    and a': "a' = a\<lparr>sa_rule := (sa_rule a)\<lparr>sa_src := x\<rparr>, src_p := True\<rparr>"
    by (auto simp: sa_src_arg_def outcome_simps)
  moreover have "sizes_ok ((sa_rule a)\<lparr>sa_src := x\<rparr>)" if "sizes_ok (sa_rule a)"
    using that sa_address_length [OF x] by (simp add: sizes_ok_def)
  ultimately show ?thesis by (simp add: sa_inv_def)
qed

lemma sa_dst_arg_ok:
  assumes "sa_dst_arg ts a = Value (a', ts')"
  shows "length ts' \<le> length ts \<and> (sa_inv a \<longrightarrow> sa_inv a')"
proof -
  from assms obtain t x where "ts = t # ts'" and x: "sa_address (flags (sa_rule a)) t (sa_dst (sa_rule a)) = Value x"
    and a': "a' = a\<lparr>sa_rule := (sa_rule a)\<lparr>sa_dst := x\<rparr>, dst_p := True\<rparr>"
    by (auto simp: sa_dst_arg_def outcome_simps)
  moreover have "sizes_ok ((sa_rule a)\<lparr>sa_dst := x\<rparr>)" if "sizes_ok (sa_rule a)"
    using that sa_address_length [OF x] by (simp add: sizes_ok_def)
  ultimately show ?thesis by (simp add: sa_inv_def)
qed

interpretation sa_tokens: token_parser "sa_step rnd" sa_inv for rnd
  by unfold_locales
    (use sa_mode_ok sa_cipher_ok sa_auth_ok sa_src_arg_ok sa_dst_arg_ok in
      \<open>auto simp: sa_step_def split: if_splits\<close>)

section \<open>Policies\<close>

text \<open>The action of a policy: bypass, discard, or an index into the association table.\<close>

definition action_ok :: "u32 \<Rightarrow> bool" where
  "action_ok u \<longleftrightarrow> u = BYPASS \<or> u = DISCARD \<or> unat u < unat IPSEC_SA_MAX_ENTRIES"

definition acl_ok :: "nat \<Rightarrow> acl_rule \<Rightarrow> bool" where
  "acl_ok n r \<longleftrightarrow> category_mask r = 1 \<and> length (acl_field r) = n \<and> action_ok (userdata r)"

definition sp_inv :: "nat \<Rightarrow> sp_args \<Rightarrow> bool" where
  "sp_inv n a \<longleftrightarrow> acl_ok n (sp_rule a)
     \<and> (bypass_p a \<longrightarrow> userdata (sp_rule a) = BYPASS) \<and> (discard_p a \<longrightarrow> userdata (sp_rule a) = DISCARD)
     \<and> (protect_p a \<longrightarrow> unat (userdata (sp_rule a)) < unat IPSEC_SA_MAX_ENTRIES)
     \<and> \<not> (bypass_p a \<and> discard_p a) \<and> \<not> (bypass_p a \<and> protect_p a) \<and> \<not> (discard_p a \<and> protect_p a)"

lemma PROTECT_less: "unat (PROTECT x) < unat IPSEC_SA_MAX_ENTRIES"
proof -
  have e: "IPSEC_SA_MAX_ENTRIES = 2 ^ 17" by (simp add: IPSEC_SA_MAX_ENTRIES_def)
  have "PROTECT x = take_bit 17 x AND PROTECT_MASK" unfolding PROTECT_def e mask_and_word(2) by (rule refl)
  then have "PROTECT x \<le> take_bit 17 x" by (simp add: word_and_le2)
  then have "unat (PROTECT x) \<le> unat (take_bit 17 x)" by (simp add: word_le_nat_alt)
  then show ?thesis using unat_take_bit_less [of 17 x] by (simp add: IPSEC_SA_MAX_ENTRIES_def)
qed

lemma set_fields_keeps:
  "category_mask (set_fields k xs r) = category_mask r \<and> length (acl_field (set_fields k xs r)) = length (acl_field r)
   \<and> userdata (set_fields k xs r) = userdata r"
  by (induction k xs r rule: set_fields.induct) simp_all

lemma sp_inv_fields: "sp_inv n a \<Longrightarrow> sp_inv n (a\<lparr>sp_rule := set_fields k xs (sp_rule a)\<rparr>)"
  using set_fields_keeps [of k xs "sp_rule a"] by (simp add: sp_inv_def acl_ok_def)

lemma sp_inv_flags [simp]:
  "sp_inv n (a\<lparr>esp_p := b\<rparr>) = sp_inv n a" "sp_inv n (a\<lparr>pri_p := b\<rparr>) = sp_inv n a" "sp_inv n (a\<lparr>sp_src_p := b\<rparr>) = sp_inv n a"
  "sp_inv n (a\<lparr>sp_dst_p := b\<rparr>) = sp_inv n a" "sp_inv n (a\<lparr>proto_p := b\<rparr>) = sp_inv n a" "sp_inv n (a\<lparr>sport_p := b\<rparr>) = sp_inv n a"
  "sp_inv n (a\<lparr>dport_p := b\<rparr>) = sp_inv n a" "sp_inv n (a\<lparr>sp_rule := (sp_rule a)\<lparr>acl_priority := p\<rparr>\<rparr>) = sp_inv n a"
  by (simp_all add: sp_inv_def acl_ok_def)

definition sp_handler_ok :: "sp_handler \<Rightarrow> bool" where
  "sp_handler_ok h \<longleftrightarrow> (\<forall>ts a a' ts' n. h ts a = Value (a', ts') \<longrightarrow> length ts' \<le> length ts \<and> (sp_inv n a \<longrightarrow> sp_inv n a'))"

named_theorems sp_handlers \<open>handlers that keep the invariant\<close>

lemma sp_action_handlers [sp_handlers]:
  "sp_handler_ok sp_esp" "sp_handler_ok sp_protect" "sp_handler_ok sp_bypass" "sp_handler_ok sp_discard" "sp_handler_ok sp_pri"
proof -
  show "sp_handler_ok sp_esp" "sp_handler_ok sp_pri"
    by (auto simp: sp_handler_ok_def sp_esp_def sp_pri_def outcome_simps)
  show "sp_handler_ok sp_protect" using PROTECT_less
    by (auto simp: sp_handler_ok_def sp_protect_def outcome_simps sp_inv_def acl_ok_def action_ok_def)
  show "sp_handler_ok sp_bypass" "sp_handler_ok sp_discard"
    by (auto simp: sp_handler_ok_def sp_bypass_def sp_discard_def outcome_simps sp_inv_def acl_ok_def action_ok_def)
qed

lemma sp_field_handlers [sp_handlers]:
  "sp_handler_ok sp_proto" "sp_handler_ok (sp_sport k)" "sp_handler_ok (sp_dport k)"
  "sp_handler_ok sp4_src" "sp_handler_ok sp4_dst" "sp_handler_ok sp6_src" "sp_handler_ok sp6_dst"
  "sp_handler_ok sp6_proto" "sp_handler_ok sp6_sport" "sp_handler_ok sp6_dport"
  by (auto simp: sp_handler_ok_def sp_proto_def sp_sport_def sp_dport_def sp4_src_def sp4_dst_def sp6_src_def sp6_dst_def
      sp6_proto_def sp6_sport_def sp6_dport_def outcome_simps simp del: set_fields.simps intro: sp_inv_fields)

lemma sp_handler_use:
  "sp_handler_ok h \<Longrightarrow> h ts a = Value (a', ts') \<Longrightarrow> length ts' \<le> length ts \<and> (sp_inv n a \<longrightarrow> sp_inv n a')"
  by (simp add: sp_handler_ok_def)

lemma sp_handler_choice [sp_handlers]:
  "sp_handler_ok (\<lambda>ts a. Failure)"
  "sp_handler_ok h1 \<Longrightarrow> sp_handler_ok h2 \<Longrightarrow> sp_handler_ok (\<lambda>ts a. if b then h1 ts a else h2 ts a)"
  by (auto simp: sp_handler_ok_def)

lemma sp_step_handlers: "sp_handler_ok (sp4_step t)" "sp_handler_ok (sp6_step t)"
  unfolding sp4_step_def [abs_def] sp6_step_def [abs_def] by (intro sp_handlers)+

interpretation sp4_tokens: token_parser sp4_step "sp_inv n" for n
  using sp_step_handlers(1) sp_handler_use by unfold_locales blast+

interpretation sp6_tokens: token_parser sp6_step "sp_inv n" for n
  using sp_step_handlers(2) sp_handler_use by unfold_locales blast+

text \<open>A route keeps its address family.\<close>

definition route_inv :: "bool \<Rightarrow> route \<Rightarrow> bool" where
  "route_inv six r \<longleftrightarrow> (case r of Route4 r \<Rightarrow> \<not> six | Route6 r \<Rightarrow> six \<and> length (r6_ip r) = 16)"

lemma rt_step_ok:
  assumes "rt_step t ts r = Value (r', ts')"
  shows "length ts' \<le> length ts \<and> (route_inv six r \<longrightarrow> route_inv six r')"
  using assms
  by (auto simp: rt_step_def rt_dst_def rt_port_def outcome_simps route_inv_def split: if_splits route.splits)
    (erule parse_addr_length(2))+

interpretation rt_tokens: token_parser rt_step "route_inv six" for six
  using rt_step_ok by unfold_locales blast+

end
