(* ===== verification/Policy.thy ===== *)
theory Policy
  imports Cfg_Parser
begin

text \<open>
  The first half of the data path of \<^verbatim>\<open>ipsec-secgw.c\<close>: a received burst is sorted into
  ESP, IPv4 and IPv6 packets (\<^verbatim>\<open>prepare_traffic\<close>) and the security policies are applied
  (\<^verbatim>\<open>inbound_sp_sa\<close>, \<^verbatim>\<open>outbound_sp\<close>).  The arrays are filled and
  compacted in place, as in the code; \<open>pkts_of\<close> reads the list of packets an array holds.
  A policy database is an optional classifier, the parameter that stands for
  \<^verbatim>\<open>rte_acl_classify\<close>: from the bytes behind the data pointer of a packet it gives the
  user data of the rule found, or 0.
\<close>

section \<open>Traffic\<close>

text \<open>A data pointer is a packet and an offset into it.  Entries from \<open>tt_num\<close> on are whatever was
  in the arrays before.\<close>

record traffic_type =
  tt_data :: "nat \<Rightarrow> nat \<times> nat"
  tt_pkts :: "nat \<Rightarrow> nat"
  tt_res :: "nat \<Rightarrow> u32"
  tt_num :: nat

record ipsec_traffic =
  t_ipsec :: traffic_type
  t_ip4 :: traffic_type
  t_ip6 :: traffic_type

definition push_pkt :: "nat \<Rightarrow> traffic_type \<Rightarrow> traffic_type" where
  "push_pkt p t = t\<lparr>tt_pkts := (tt_pkts t)(tt_num t := p), tt_num := tt_num t + 1\<rparr>"

definition push_data :: "nat \<Rightarrow> nat \<Rightarrow> traffic_type \<Rightarrow> traffic_type" where
  "push_data off p t = push_pkt p (t\<lparr>tt_data := (tt_data t)(tt_num t := (p, off))\<rparr>)"

definition push_res :: "u32 \<Rightarrow> nat \<Rightarrow> traffic_type \<Rightarrow> traffic_type" where
  "push_res r p t = push_pkt p (t\<lparr>tt_res := (tt_res t)(tt_num t := r)\<rparr>)"

text \<open>What can be read from the start of the packet on: its data and the room behind it.\<close>

definition room :: "pktbuf \<Rightarrow> bytes" where
  "room m = mdata m @ tailroom m"

definition set_buf :: "nat \<Rightarrow> pktbuf \<Rightarrow> ipsec_ctx \<Rightarrow> ipsec_ctx" where
  "set_buf p m s = s\<lparr>pkt_buf := (pkt_buf s)(p := m)\<rparr>"

section \<open>Sorting a burst\<close>

definition ETHER_TYPE_IPv4 :: u16 where "ETHER_TYPE_IPv4 = 0x0800"
definition ETHER_TYPE_IPv6 :: u16 where "ETHER_TYPE_IPv6 = 0x86DD"
definition ETHER_HDR_LEN :: nat where "ETHER_HDR_LEN = 14"
definition IP_P_OFFSET :: nat where "IP_P_OFFSET = 9"
definition IP6_NXT_OFFSET :: nat where "IP6_NXT_OFFSET = 6"
definition PREFETCH_OFFSET :: nat where "PREFETCH_OFFSET = 3"

text \<open>\<open>None\<close> is the read through the null pointer \<^verbatim>\<open>rte_pktmbuf_adj\<close> returns for a
  packet shorter than an Ethernet header.\<close>

definition prepare_one_packet :: "nat \<Rightarrow> ipsec_traffic \<times> ipsec_ctx \<Rightarrow> (ipsec_traffic \<times> ipsec_ctx) option" where
  "prepare_one_packet p = (\<lambda>(t, s).
     let ether_type = load 2 (room (pkt_buf s p)) 12
     in if ether_type = bswap16 ETHER_TYPE_IPv4 then
          case rte_pktmbuf_adj ETHER_HDR_LEN (pkt_buf s p) of
            None \<Rightarrow> None
          | Some m \<Rightarrow>
              Some (if room m ! IP_P_OFFSET = IPPROTO_ESP then t\<lparr>t_ipsec := push_pkt p (t_ipsec t)\<rparr>
                    else t\<lparr>t_ip4 := push_data IP_P_OFFSET p (t_ip4 t)\<rparr>, set_buf p m s)
        else if ether_type = bswap16 ETHER_TYPE_IPv6 then
          case rte_pktmbuf_adj ETHER_HDR_LEN (pkt_buf s p) of
            None \<Rightarrow> None
          | Some m \<Rightarrow>
              Some (if room m ! IP6_NXT_OFFSET = IPPROTO_ESP then t\<lparr>t_ipsec := push_pkt p (t_ipsec t)\<rparr>
                    else t\<lparr>t_ip6 := push_data IP6_NXT_OFFSET p (t_ip6 t)\<rparr>, set_buf p m s)
        else Some (t, free_pkts [p] s))"

definition reset_traffic :: "ipsec_traffic \<Rightarrow> ipsec_traffic" where
  "reset_traffic t = t\<lparr>t_ipsec := (t_ipsec t)\<lparr>tt_num := 0\<rparr>, t_ip4 := (t_ip4 t)\<lparr>tt_num := 0\<rparr>,
     t_ip6 := (t_ip6 t)\<lparr>tt_num := 0\<rparr>\<rparr>"

text \<open>Two loops: all but the last three packets, with the prefetch of a later one, and the rest.\<close>

definition prepare_traffic :: "nat list \<Rightarrow> ipsec_traffic \<Rightarrow> ipsec_ctx \<Rightarrow> (ipsec_traffic \<times> ipsec_ctx) option" where
  "prepare_traffic pkts t s =
     (let k = length pkts - PREFETCH_OFFSET
      in case fold_option prepare_one_packet (take k pkts) (reset_traffic t, s) of
           None \<Rightarrow> None
         | Some st \<Rightarrow> fold_option prepare_one_packet (drop k pkts) st)"

section \<open>Policies\<close>

type_synonym acl = "bytes \<Rightarrow> u32"


definition data_bytes :: "ipsec_ctx \<Rightarrow> nat \<times> nat \<Rightarrow> bytes" where
  "data_bytes s = (\<lambda>(p, off). drop off (room (pkt_buf s p)))"

definition rte_acl_classify :: "acl \<Rightarrow> ipsec_ctx \<Rightarrow> traffic_type \<Rightarrow> traffic_type" where
  "rte_acl_classify cl s t = t\<lparr>tt_res := \<lambda>i. if i < tt_num t then cl (data_bytes s (tt_data t i)) else tt_res t i\<rparr>"

definition inbound_step :: "nat \<Rightarrow> nat \<Rightarrow> nat \<times> traffic_type \<times> ipsec_ctx \<Rightarrow> nat \<times> traffic_type \<times> ipsec_ctx" where
  "inbound_step lim i = (\<lambda>(j, ip, s).
     let m = tt_pkts ip i; res = tt_res ip i
     in if res AND BYPASS \<noteq> 0 then (j + 1, ip\<lparr>tt_pkts := (tt_pkts ip)(j := m)\<rparr>, s)
        else if res AND DISCARD \<noteq> 0 \<or> i < lim then (j, ip, free_pkts [m] s)
        else let sa_idx = unat (tt_res ip i AND PROTECT_MASK)
             in if sa_idx = 0 \<or> \<not> inbound_sa_check s m sa_idx then (j, ip, free_pkts [m] s)
                else (j + 1, ip\<lparr>tt_pkts := (tt_pkts ip)(j := m)\<rparr>, s))"

definition inbound_sp_sa :: "acl option \<Rightarrow> nat \<Rightarrow> traffic_type \<Rightarrow> ipsec_ctx \<Rightarrow> traffic_type \<times> ipsec_ctx" where
  "inbound_sp_sa sp lim ip s =
     (case sp of
        None \<Rightarrow> (ip, s)
      | Some cl \<Rightarrow>
          if tt_num ip = 0 then (ip, s)
          else let (j, ip, s) = fold (inbound_step lim) [0..<tt_num ip] (0, rte_acl_classify cl s ip, s)
               in (ip\<lparr>tt_num := j\<rparr>, s))"

definition outbound_step ::
  "nat \<Rightarrow> nat \<times> traffic_type \<times> traffic_type \<times> ipsec_ctx \<Rightarrow> nat \<times> traffic_type \<times> traffic_type \<times> ipsec_ctx" where
  "outbound_step i = (\<lambda>(j, ip, ips, s).
     let m = tt_pkts ip i; sa_idx = tt_res ip i AND PROTECT_MASK
     in if tt_res ip i = 0 \<or> tt_res ip i AND DISCARD \<noteq> 0 then (j, ip, ips, free_pkts [m] s)
        else if sa_idx \<noteq> 0 then (j, ip, push_res sa_idx m ips, s)
        else (j + 1, ip\<lparr>tt_pkts := (tt_pkts ip)(j := m)\<rparr>, ips, s))"

definition outbound_sp :: "acl option \<Rightarrow> traffic_type \<Rightarrow> traffic_type \<Rightarrow> ipsec_ctx \<Rightarrow>
    traffic_type \<times> traffic_type \<times> ipsec_ctx" where
  "outbound_sp sp ip ips s =
     (case sp of
        None \<Rightarrow> (ip, ips, s)
      | Some cl \<Rightarrow>
          if tt_num ip = 0 then (ip, ips, s)
          else let (j, ip, ips, s) = fold outbound_step [0..<tt_num ip] (0, rte_acl_classify cl s ip, ips, s)
               in (ip\<lparr>tt_num := j\<rparr>, ips, s))"

section \<open>The packets an array holds\<close>

definition pkts_of :: "traffic_type \<Rightarrow> nat list" where
  "pkts_of t = map (tt_pkts t) [0..<tt_num t]"

definition sas_of :: "traffic_type \<Rightarrow> u32 list" where
  "sas_of t = map (tt_res t) [0..<tt_num t]"

lemma length_pkts_of [simp]: "length (pkts_of t) = tt_num t"
  by (simp add: pkts_of_def)

lemma length_sas_of [simp]: "length (sas_of t) = tt_num t"
  by (simp add: sas_of_def)

lemma pkts_of_0 [simp]: "tt_num t = 0 \<Longrightarrow> pkts_of t = []" "tt_num t = 0 \<Longrightarrow> sas_of t = []"
  by (simp_all add: pkts_of_def sas_of_def)

lemma pkts_of_push [simp]:
  "pkts_of (push_pkt p t) = pkts_of t @ [p]" "pkts_of (push_data off p t) = pkts_of t @ [p]"
  "pkts_of (push_res r p t) = pkts_of t @ [p]" "sas_of (push_res r p t) = sas_of t @ [r]"
  by (simp_all add: pkts_of_def sas_of_def push_pkt_def push_data_def push_res_def)

lemma tt_num_push [simp]:
  "tt_num (push_pkt p t) = tt_num t + 1" "tt_num (push_data off p t) = tt_num t + 1"
  "tt_num (push_res r p t) = tt_num t + 1"
  by (simp_all add: push_pkt_def push_data_def push_res_def)

lemma prepare_traffic_eq:
  "prepare_traffic pkts t s = fold_option prepare_one_packet pkts (reset_traffic t, s)"
  using fold_option_append [of prepare_one_packet "take (length pkts - PREFETCH_OFFSET) pkts"
      "drop (length pkts - PREFETCH_OFFSET) pkts"]
  by (simp add: prepare_traffic_def Let_def)

text \<open>Compaction: the loop writes slot \<open>j\<close> after it has read slot \<open>i\<close>, and \<open>j\<close> never passes \<open>i\<close>.\<close>

definition compacted :: "(nat \<Rightarrow> bool) \<Rightarrow> nat \<Rightarrow> traffic_type \<Rightarrow> nat \<Rightarrow> traffic_type \<Rightarrow> bool" where
  "compacted P k ip j ip' \<longleftrightarrow> j \<le> k \<and> map (tt_pkts ip') [0..<j] = map (tt_pkts ip) (filter P [0..<k])
     \<and> (\<forall>i\<ge>k. tt_pkts ip' i = tt_pkts ip i) \<and> tt_res ip' = tt_res ip \<and> tt_num ip' = tt_num ip"

lemma compacted_0: "compacted P 0 ip 0 ip"
  by (simp add: compacted_def)

lemma compacted_keep:
  assumes "compacted P k ip j ip'" and "P k"
  shows "compacted P (Suc k) ip (Suc j) (ip'\<lparr>tt_pkts := (tt_pkts ip')(j := tt_pkts ip' k)\<rparr>)"
proof -
  have "map ((tt_pkts ip')(j := x)) [0..<j] = map (tt_pkts ip') [0..<j]" for x by simp
  then show ?thesis using assms by (auto simp: compacted_def)
qed

lemma compacted_drop: "compacted P k ip j ip' \<Longrightarrow> \<not> P k \<Longrightarrow> compacted P (Suc k) ip j ip'"
  by (auto simp: compacted_def)

lemma compacted_result: "compacted P (tt_num ip) ip j ip' \<Longrightarrow> pkts_of (ip'\<lparr>tt_num := j\<rparr>) = map (tt_pkts ip) (filter P [0..<tt_num ip])"
  by (simp add: compacted_def pkts_of_def)

section \<open>What the loops decide\<close>

definition inbound_keeps :: "ipsec_ctx \<Rightarrow> nat \<Rightarrow> traffic_type \<Rightarrow> nat \<Rightarrow> bool" where
  "inbound_keeps s lim ip i \<longleftrightarrow> tt_res ip i AND BYPASS \<noteq> 0
     \<or> \<not> (tt_res ip i AND DISCARD \<noteq> 0 \<or> i < lim) \<and> unat (tt_res ip i AND PROTECT_MASK) \<noteq> 0
       \<and> inbound_sa_check s (tt_pkts ip i) (unat (tt_res ip i AND PROTECT_MASK))"

lemma inbound_sa_check_free [simp]: "inbound_sa_check (free_pkts ps s) = inbound_sa_check s"
  by (simp add: inbound_sa_check_def free_pkts_def fun_eq_iff)

lemma free_pkts_append: "free_pkts ys (free_pkts xs s) = free_pkts (xs @ ys) s"
  by (simp add: free_pkts_def)

lemma inbound_fold:
  "\<exists>j ip'. fold (inbound_step lim) [0..<k] (0, ip, s) =
      (j, ip', free_pkts (map (tt_pkts ip) (filter (\<lambda>i. \<not> inbound_keeps s lim ip i) [0..<k])) s)
    \<and> compacted (inbound_keeps s lim ip) k ip j ip'"
proof (induction k)
  case 0
  then show ?case by (simp add: compacted_0 free_pkts_def)
next
  case (Suc k)
  let ?F = "\<lambda>k. map (tt_pkts ip) (filter (\<lambda>i. \<not> inbound_keeps s lim ip i) [0..<k])"
  from Suc obtain j ip' where f: "fold (inbound_step lim) [0..<k] (0, ip, s) = (j, ip', free_pkts (?F k) s)"
    and c: "compacted (inbound_keeps s lim ip) k ip j ip'" by blast
  have k: "tt_pkts ip' k = tt_pkts ip k" "tt_res ip' k = tt_res ip k" using c by (simp_all add: compacted_def)
  show ?case
  proof (cases "inbound_keeps s lim ip k")
    case True
    then have "inbound_step lim k (j, ip', free_pkts (?F k) s) =
        (Suc j, ip'\<lparr>tt_pkts := (tt_pkts ip')(j := tt_pkts ip' k)\<rparr>, free_pkts (?F (Suc k)) s)"
      using k by (auto simp: inbound_step_def inbound_keeps_def Let_def)
    then show ?thesis using f compacted_keep [OF c True] by auto
  next
    case False
    then have "inbound_step lim k (j, ip', free_pkts (?F k) s) = (j, ip', free_pkts (?F (Suc k)) s)"
      using k by (auto simp: inbound_step_def inbound_keeps_def Let_def free_pkts_append)
    then show ?thesis using f compacted_drop [OF c False] by auto
  qed
qed

definition out_dropped :: "u32 \<Rightarrow> bool" where "out_dropped r \<longleftrightarrow> r = 0 \<or> r AND DISCARD \<noteq> 0"
definition out_protected :: "u32 \<Rightarrow> bool" where "out_protected r \<longleftrightarrow> \<not> out_dropped r \<and> r AND PROTECT_MASK \<noteq> 0"
definition out_bypassed :: "u32 \<Rightarrow> bool" where "out_bypassed r \<longleftrightarrow> \<not> out_dropped r \<and> r AND PROTECT_MASK = 0"

lemma outbound_fold:
  "\<exists>j ip' ips'. fold outbound_step [0..<k] (0, ip, ips, s) =
      (j, ip', ips', free_pkts (map (tt_pkts ip) (filter (\<lambda>i. out_dropped (tt_res ip i)) [0..<k])) s)
    \<and> compacted (\<lambda>i. out_bypassed (tt_res ip i)) k ip j ip'
    \<and> pkts_of ips' = pkts_of ips @ map (tt_pkts ip) (filter (\<lambda>i. out_protected (tt_res ip i)) [0..<k])
    \<and> sas_of ips' = sas_of ips @ map (\<lambda>i. tt_res ip i AND PROTECT_MASK) (filter (\<lambda>i. out_protected (tt_res ip i)) [0..<k])"
proof (induction k)
  case 0
  then show ?case by (simp add: compacted_0 free_pkts_def)
next
  case (Suc k)
  let ?F = "\<lambda>k. map (tt_pkts ip) (filter (\<lambda>i. out_dropped (tt_res ip i)) [0..<k])"
  let ?B = "\<lambda>i. out_bypassed (tt_res ip i)" and ?P = "\<lambda>i. out_protected (tt_res ip i)"
  from Suc obtain j ip' ips' where f: "fold outbound_step [0..<k] (0, ip, ips, s) = (j, ip', ips', free_pkts (?F k) s)"
    and c: "compacted ?B k ip j ip'"
    and p: "pkts_of ips' = pkts_of ips @ map (tt_pkts ip) (filter ?P [0..<k])"
      "sas_of ips' = sas_of ips @ map (\<lambda>i. tt_res ip i AND PROTECT_MASK) (filter ?P [0..<k])"
    by blast
  have k: "tt_pkts ip' k = tt_pkts ip k" "tt_res ip' k = tt_res ip k" using c by (simp_all add: compacted_def)
  consider (drop) "out_dropped (tt_res ip k)" "\<not> ?B k" "\<not> ?P k" | (prot) "\<not> out_dropped (tt_res ip k)" "\<not> ?B k" "?P k"
    | (byp) "\<not> out_dropped (tt_res ip k)" "?B k" "\<not> ?P k"
    by (auto simp: out_protected_def out_bypassed_def)
  then show ?case
  proof cases
    case drop
    then have "outbound_step k (j, ip', ips', free_pkts (?F k) s) = (j, ip', ips', free_pkts (?F (Suc k)) s)"
      using k by (simp add: outbound_step_def out_dropped_def Let_def free_pkts_append)
    then show ?thesis using f p drop compacted_drop [OF c drop(2)] by auto
  next
    case prot
    then have "outbound_step k (j, ip', ips', free_pkts (?F k) s) =
        (j, ip', push_res (tt_res ip k AND PROTECT_MASK) (tt_pkts ip k) ips', free_pkts (?F (Suc k)) s)"
      using k by (auto simp: outbound_step_def out_dropped_def out_protected_def Let_def)
    then show ?thesis using f p prot compacted_drop [OF c prot(2)] by auto
  next
    case byp
    then have "outbound_step k (j, ip', ips', free_pkts (?F k) s) =
        (Suc j, ip'\<lparr>tt_pkts := (tt_pkts ip')(j := tt_pkts ip' k)\<rparr>, ips', free_pkts (?F (Suc k)) s)"
      using k by (auto simp: outbound_step_def out_dropped_def out_bypassed_def Let_def)
    then show ?thesis using f p byp compacted_keep [OF c byp(2)] by auto
  qed
qed


section \<open>The abstract policy\<close>

text \<open>A rule bypasses, discards or protects with an association; a packet may match no rule.  The
  user data of a rule is the encoding \<^verbatim>\<open>sp4.c\<close> and \<^verbatim>\<open>sp6.c\<close> choose
  (\<open>parsed_rules_encode_actions\<close> below), and 0 when no rule matches.\<close>

datatype action = Bypass | Discard | Protect nat

fun user_data :: "action option \<Rightarrow> u32" where
  "user_data None = 0"
| "user_data (Some Bypass) = BYPASS"
| "user_data (Some Discard) = DISCARD"
| "user_data (Some (Protect i)) = of_nat i AND PROTECT_MASK"

type_synonym policy = "bytes \<Rightarrow> action option"

definition policy_ok :: "policy \<Rightarrow> bool" where
  "policy_ok pol \<longleftrightarrow> (\<forall>d i. pol d = Some (Protect i) \<longrightarrow> i < 2 ^ 30)"

definition action_of :: "policy \<Rightarrow> nat \<Rightarrow> ipsec_ctx \<Rightarrow> nat \<Rightarrow> action option" where
  "action_of pol off s p = pol (data_bytes s (p, off))"

fun sa_index :: "action option \<Rightarrow> nat" where
  "sa_index (Some (Protect i)) = i"
| "sa_index _ = 0"

definition data_at :: "nat \<Rightarrow> traffic_type \<Rightarrow> bool" where
  "data_at off t \<longleftrightarrow> (\<forall>i<tt_num t. tt_data t i = (tt_pkts t i, off))"

definition spec_outbound :: "(nat \<Rightarrow> action option) \<Rightarrow> nat list \<Rightarrow> nat list \<times> (nat \<times> nat) list \<times> nat list" where
  "spec_outbound act ps =
     (filter (\<lambda>p. act p = Some Bypass) ps,
      map (\<lambda>p. (p, sa_index (act p))) (filter (\<lambda>p. sa_index (act p) \<noteq> 0) ps),
      filter (\<lambda>p. act p \<noteq> Some Bypass \<and> sa_index (act p) = 0) ps)"

definition sa_matches :: "ipsec_ctx \<Rightarrow> action option \<Rightarrow> nat \<Rightarrow> bool" where
  "sa_matches s a p \<longleftrightarrow> sa_index a \<noteq> 0 \<and> spi (sadb s (sa_index a)) = spi (sadb s (pkt_sa s p))"

definition spec_inbound :: "(nat \<Rightarrow> action option) \<Rightarrow> ipsec_ctx \<Rightarrow> nat list \<Rightarrow> nat list \<Rightarrow> nat list" where
  "spec_inbound act s clear decrypted =
     filter (\<lambda>p. act p = Some Bypass) clear
     @ filter (\<lambda>p. act p = Some Bypass \<or> sa_matches s (act p) p) decrypted"

lemma protect_bits:
  assumes "i < 2 ^ 30"
  shows "unat ((of_nat i :: u32) AND PROTECT_MASK) = i" and "(of_nat i :: u32) AND PROTECT_MASK AND BYPASS = 0"
    and "(of_nat i :: u32) AND PROTECT_MASK AND DISCARD = 0"
proof -
  have m: "PROTECT_MASK = mask 30" by (simp add: PROTECT_MASK_def mask_eq_exp_minus_1)
  have "unat (of_nat i :: u32) = i" using assms by (intro unat_of_nat_eq) simp
  then show "unat ((of_nat i :: u32) AND PROTECT_MASK) = i"
    using assms unfolding m by (simp add: take_bit_nat_eq_self unsigned_take_bit_eq flip: take_bit_eq_mask)
  have "PROTECT_MASK AND BYPASS = 0" "PROTECT_MASK AND DISCARD = 0"
    by (simp_all add: PROTECT_MASK_def BYPASS_def DISCARD_def)
  then show "(of_nat i :: u32) AND PROTECT_MASK AND BYPASS = 0" "(of_nat i :: u32) AND PROTECT_MASK AND DISCARD = 0"
    by (simp_all add: and.assoc)
qed

text \<open>What the parser of the policy rules leaves in a rule is the encoding of an action.\<close>

lemma parsed_rules_encode_actions:
  assumes "action_ok u"
  shows "\<exists>a. u = user_data (Some a) \<and> sa_index (Some a) < 2 ^ 17"
proof -
  consider "u = BYPASS" | "u = DISCARD" | "unat u < 2 ^ 17"
    using assms by (auto simp: action_ok_def IPSEC_SA_MAX_ENTRIES_def)
  then show ?thesis
  proof cases
    case 3
    then have "unat u < 2 ^ 30" by simp
    then have "user_data (Some (Protect (unat u))) = u"
      using protect_bits(1) [of "unat u"] by (metis user_data.simps(4) word_unat_eq_iff)
    then show ?thesis using 3 by (metis sa_index.simps(1))
  qed (force intro: exI [of _ Bypass] exI [of _ Discard])+
qed

lemma fixed_bits:
  "BYPASS AND BYPASS \<noteq> 0" "DISCARD AND BYPASS = 0" "BYPASS AND DISCARD = 0" "DISCARD AND DISCARD \<noteq> 0" "BYPASS \<noteq> 0" "DISCARD \<noteq> 0"
  "BYPASS AND PROTECT_MASK = 0" "DISCARD AND PROTECT_MASK = 0"
  by (simp_all add: BYPASS_def DISCARD_def PROTECT_MASK_def)

lemma userdata_bits:
  assumes "sa_index a < 2 ^ 30"
  shows "unat (user_data a AND PROTECT_MASK) = sa_index a"
    and "user_data a AND BYPASS \<noteq> 0 \<longleftrightarrow> a = Some Bypass" and "user_data a AND DISCARD \<noteq> 0 \<longleftrightarrow> a = Some Discard"
    and "user_data a = 0 \<longleftrightarrow> a \<noteq> Some Bypass \<and> a \<noteq> Some Discard \<and> sa_index a = 0"
proof -
  have "unat (user_data a AND PROTECT_MASK) = sa_index a
    \<and> (user_data a AND BYPASS \<noteq> 0 \<longleftrightarrow> a = Some Bypass) \<and> (user_data a AND DISCARD \<noteq> 0 \<longleftrightarrow> a = Some Discard)
    \<and> (user_data a = 0 \<longleftrightarrow> a \<noteq> Some Bypass \<and> a \<noteq> Some Discard \<and> sa_index a = 0)"
  proof (cases a rule: user_data.cases)
    case (4 i)
    then have "i < 2 ^ 30" using assms by simp
    note b = protect_bits [OF this]
    have "(of_nat i :: u32) AND PROTECT_MASK = 0 \<longleftrightarrow> i = 0" using b(1) by (metis unat_eq_zero)
    with 4 b show ?thesis by (simp add: and.assoc)
  qed (simp_all add: fixed_bits)
  then show "unat (user_data a AND PROTECT_MASK) = sa_index a" "user_data a AND BYPASS \<noteq> 0 \<longleftrightarrow> a = Some Bypass"
    "user_data a AND DISCARD \<noteq> 0 \<longleftrightarrow> a = Some Discard"
    "user_data a = 0 \<longleftrightarrow> a \<noteq> Some Bypass \<and> a \<noteq> Some Discard \<and> sa_index a = 0"
    by blast+
qed

lemma userdata_out:
  assumes "sa_index a < 2 ^ 30"
  shows "out_bypassed (user_data a) \<longleftrightarrow> a = Some Bypass" and "out_protected (user_data a) \<longleftrightarrow> sa_index a \<noteq> 0"
    and "out_dropped (user_data a) \<longleftrightarrow> a \<noteq> Some Bypass \<and> sa_index a = 0"
proof -
  note b = userdata_bits [OF assms]
  have p: "user_data a AND PROTECT_MASK = 0 \<longleftrightarrow> sa_index a = 0" using b(1) by (metis unat_eq_zero)
  have d: "out_dropped (user_data a) \<longleftrightarrow> a \<noteq> Some Bypass \<and> a \<noteq> Some Discard \<and> sa_index a = 0 \<or> a = Some Discard"
    by (simp only: out_dropped_def b)
  then show "out_dropped (user_data a) \<longleftrightarrow> a \<noteq> Some Bypass \<and> sa_index a = 0" by auto
  then show "out_bypassed (user_data a) \<longleftrightarrow> a = Some Bypass" "out_protected (user_data a) \<longleftrightarrow> sa_index a \<noteq> 0"
    unfolding out_bypassed_def out_protected_def p by auto
qed

section \<open>The code implements the policy\<close>

lemma filter_map_nums: "map f (filter (\<lambda>i. P (f i)) [0..<n]) = filter P (map f [0..<n])"
  by (simp add: filter_map comp_def)

lemma mset_filter_split: "mset (map f (filter (\<lambda>x. \<not> P x) xs)) + mset (map f (filter P xs)) = mset (map f xs)"
  by (induction xs) auto

lemma classified:
  assumes "data_at off ip" and "policy_ok pol"
  shows "i < tt_num ip \<Longrightarrow> tt_res (rte_acl_classify (user_data \<circ> pol) s ip) i = user_data (action_of pol off s (tt_pkts ip i))"
    and "sa_index (action_of pol off s p) < 2 ^ 30"
proof -
  show "i < tt_num ip \<Longrightarrow> tt_res (rte_acl_classify (user_data \<circ> pol) s ip) i = user_data (action_of pol off s (tt_pkts ip i))"
    using assms(1) by (simp add: rte_acl_classify_def data_at_def action_of_def)
  have "sa_index a < 2 ^ 30" if "\<And>k. a = Some (Protect k) \<Longrightarrow> k < 2 ^ 30" for a
    using that by (cases a rule: sa_index.cases) simp_all
  then show "sa_index (action_of pol off s p) < 2 ^ 30"
    using assms(2) by (simp add: action_of_def policy_ok_def)
qed

lemma outbound_policy:
  assumes "data_at off ip" and "policy_ok pol"
    and "outbound_sp (Some (user_data \<circ> pol)) ip ips s = (ip', ips', s')"
  defines "act \<equiv> action_of pol off s"
  shows "pkts_of ip' = filter (\<lambda>p. act p = Some Bypass) (pkts_of ip)
    \<and> pkts_of ips' = pkts_of ips @ filter (\<lambda>p. sa_index (act p) \<noteq> 0) (pkts_of ip)
    \<and> map unat (sas_of ips') = map unat (sas_of ips) @ map (sa_index \<circ> act) (filter (\<lambda>p. sa_index (act p) \<noteq> 0) (pkts_of ip))
    \<and> s' = free_pkts (filter (\<lambda>p. act p \<noteq> Some Bypass \<and> sa_index (act p) = 0) (pkts_of ip)) s"
proof (cases "tt_num ip = 0")
  case True
  then show ?thesis using assms(3) by (simp add: outbound_sp_def free_pkts_def)
next
  case False
  define c where "c = rte_acl_classify (user_data \<circ> pol) s ip"
  have c: "tt_num c = tt_num ip" "tt_pkts c = tt_pkts ip" by (simp_all add: c_def rte_acl_classify_def)
  note r = classified(1) [OF assms(1,2), of _ s, folded c_def act_def]
  have act: "sa_index (act p) < 2 ^ 30" for p unfolding act_def by (rule classified(2) [OF assms(1,2)])
  note u = userdata_out [OF act] userdata_bits(1) [OF act]
  obtain j ip2 ips2 where f: "fold outbound_step [0..<tt_num c] (0, c, ips, s) =
      (j, ip2, ips2, free_pkts (map (tt_pkts c) (filter (\<lambda>i. out_dropped (tt_res c i)) [0..<tt_num c])) s)"
    and k: "compacted (\<lambda>i. out_bypassed (tt_res c i)) (tt_num c) c j ip2"
    and p: "pkts_of ips2 = pkts_of ips @ map (tt_pkts c) (filter (\<lambda>i. out_protected (tt_res c i)) [0..<tt_num c])"
      "sas_of ips2 = sas_of ips @ map (\<lambda>i. tt_res c i AND PROTECT_MASK) (filter (\<lambda>i. out_protected (tt_res c i)) [0..<tt_num c])"
    using outbound_fold [of "tt_num c" c ips s] by blast
  have res: "ip' = ip2\<lparr>tt_num := j\<rparr>" "ips' = ips2"
    "s' = free_pkts (map (tt_pkts c) (filter (\<lambda>i. out_dropped (tt_res c i)) [0..<tt_num c])) s"
    using assms(3) False f c(1) by (simp_all add: outbound_sp_def c_def)
  have flt: "filter (\<lambda>i. P (tt_res c i)) [0..<tt_num ip] = filter (\<lambda>i. P (user_data (act (tt_pkts ip i)))) [0..<tt_num ip]" for P
    using r by (intro filter_cong) auto
  have sel: "map (tt_pkts ip) (filter (\<lambda>i. P (tt_res c i)) [0..<tt_num ip]) = filter (\<lambda>p. P (user_data (act p))) (pkts_of ip)" for P
    unfolding flt pkts_of_def by (rule filter_map_nums)
  have "map unat (map (\<lambda>i. tt_res c i AND PROTECT_MASK) (filter (\<lambda>i. out_protected (tt_res c i)) [0..<tt_num ip]))
      = map (sa_index \<circ> act) (map (tt_pkts ip) (filter (\<lambda>i. out_protected (tt_res c i)) [0..<tt_num ip]))"
    unfolding map_map by (rule map_cong [OF refl]) (use r u(4) in auto)
  then have sas: "map unat (sas_of ips') = map unat (sas_of ips) @ map (sa_index \<circ> act) (filter (\<lambda>p. out_protected (user_data (act p))) (pkts_of ip))"
    unfolding res p c sel by simp
  show ?thesis
    using compacted_result [OF k] p sas unfolding res c sel by (simp add: u)
qed

lemma inbound_policy:
  assumes "data_at off ip" and "policy_ok pol" and "lim \<le> tt_num ip"
    and "inbound_sp_sa (Some (user_data \<circ> pol)) lim ip s = (ip', s')"
  defines "act \<equiv> action_of pol off s"
  shows "pkts_of ip' = spec_inbound act s (take lim (pkts_of ip)) (drop lim (pkts_of ip))
    \<and> (\<exists>fs. s' = free_pkts fs s \<and> mset fs + mset (pkts_of ip') = mset (pkts_of ip))"
proof (cases "tt_num ip = 0")
  case True
  then show ?thesis using assms(4)
    by (auto simp: inbound_sp_sa_def free_pkts_def spec_inbound_def intro!: exI [of _ "[]"])
next
  case False
  define c where "c = rte_acl_classify (user_data \<circ> pol) s ip"
  have c: "tt_num c = tt_num ip" "tt_pkts c = tt_pkts ip" by (simp_all add: c_def rte_acl_classify_def)
  note r = classified(1) [OF assms(1,2), of _ s, folded c_def act_def]
  have act: "sa_index (act p) < 2 ^ 30" for p unfolding act_def by (rule classified(2) [OF assms(1,2)])
  note u = userdata_bits [OF act]
  let ?K = "inbound_keeps s lim c"
  obtain j ip2 where f: "fold (inbound_step lim) [0..<tt_num c] (0, c, s) =
      (j, ip2, free_pkts (map (tt_pkts c) (filter (\<lambda>i. \<not> ?K i) [0..<tt_num c])) s)"
    and k: "compacted ?K (tt_num c) c j ip2"
    using inbound_fold [of lim "tt_num c" c s] by blast
  have res: "ip' = ip2\<lparr>tt_num := j\<rparr>" "s' = free_pkts (map (tt_pkts c) (filter (\<lambda>i. \<not> ?K i) [0..<tt_num c])) s"
    using assms(4) False f c(1) by (simp_all add: inbound_sp_sa_def c_def)
  have kept: "pkts_of ip' = map (tt_pkts ip) (filter ?K [0..<tt_num ip])"
    using compacted_result [OF k] by (simp add: res c)
  have K: "?K i \<longleftrightarrow> act (tt_pkts ip i) = Some Bypass \<or> lim \<le> i \<and> sa_matches s (act (tt_pkts ip i)) (tt_pkts ip i)"
    if "i < tt_num ip" for i
  proof -
    have "?K i \<longleftrightarrow> act (tt_pkts ip i) = Some Bypass \<or> \<not> (act (tt_pkts ip i) = Some Discard \<or> i < lim)
        \<and> sa_matches s (act (tt_pkts ip i)) (tt_pkts ip i)"
      unfolding inbound_keeps_def sa_matches_def inbound_sa_check_def r [OF that] c(2) u(1-3) by simp
    then show ?thesis by (auto simp: sa_matches_def)
  qed
  have parts: "[0..<tt_num ip] = [0..<lim] @ [lim..<tt_num ip]" using assms(3) by (metis le_add_diff_inverse upt_add_eq_append zero_le)
  have pk: "take lim (pkts_of ip) = map (tt_pkts ip) [0..<lim]" "drop lim (pkts_of ip) = map (tt_pkts ip) [lim..<tt_num ip]"
    using assms(3) by (simp_all add: pkts_of_def take_map drop_map min_def)
  have "filter ?K [0..<lim] = filter (\<lambda>i. act (tt_pkts ip i) = Some Bypass) [0..<lim]"
    using K assms(3) by (intro filter_cong) auto
  moreover have "filter ?K [lim..<tt_num ip] =
      filter (\<lambda>i. act (tt_pkts ip i) = Some Bypass \<or> sa_matches s (act (tt_pkts ip i)) (tt_pkts ip i)) [lim..<tt_num ip]"
    using K by (intro filter_cong) auto
  ultimately have "pkts_of ip' = spec_inbound act s (take lim (pkts_of ip)) (drop lim (pkts_of ip))"
    unfolding kept spec_inbound_def pk by (simp add: parts filter_map comp_def)
  moreover have "mset (map (tt_pkts c) (filter (\<lambda>i. \<not> ?K i) [0..<tt_num c])) + mset (pkts_of ip') = mset (pkts_of ip)"
    unfolding kept c unfolding pkts_of_def by (rule mset_filter_split)
  ultimately show ?thesis using res(2) by blast
qed

section \<open>Where the packets of a burst go\<close>

datatype pkt_kind = Kind_esp | Kind_ip4 | Kind_ip6 | Kind_other

definition kind_of :: "pktbuf \<Rightarrow> pkt_kind" where
  "kind_of m =
     (let ether_type = load 2 (room m) 12; d = drop ETHER_HDR_LEN (room m)
      in if ether_type = bswap16 ETHER_TYPE_IPv4 then (if d ! IP_P_OFFSET = IPPROTO_ESP then Kind_esp else Kind_ip4)
         else if ether_type = bswap16 ETHER_TYPE_IPv6 then (if d ! IP6_NXT_OFFSET = IPPROTO_ESP then Kind_esp else Kind_ip6)
         else Kind_other)"

definition strip_ether :: "pktbuf \<Rightarrow> pktbuf" where
  "strip_ether m = m\<lparr>headroom := headroom m @ take 14 (mdata m), mdata := drop 14 (mdata m)\<rparr>"

definition sorted_into :: "pkt_kind \<Rightarrow> nat \<Rightarrow> ipsec_traffic \<Rightarrow> ipsec_traffic" where
  "sorted_into k p t =
     (case k of Kind_esp \<Rightarrow> t\<lparr>t_ipsec := push_pkt p (t_ipsec t)\<rparr>
      | Kind_ip4 \<Rightarrow> t\<lparr>t_ip4 := push_data 9 p (t_ip4 t)\<rparr>
      | Kind_ip6 \<Rightarrow> t\<lparr>t_ip6 := push_data 6 p (t_ip6 t)\<rparr>
      | Kind_other \<Rightarrow> t)"

lemma prepare_one_packet_eq:
  assumes "14 \<le> length (mdata (pkt_buf s p))"
  shows "prepare_one_packet p (t, s) =
    (let k = kind_of (pkt_buf s p)
     in Some (sorted_into k p t, if k = Kind_other then free_pkts [p] s else set_buf p (strip_ether (pkt_buf s p)) s))"
proof -
  have "room (strip_ether (pkt_buf s p)) = drop 14 (room (pkt_buf s p))"
    using assms by (simp add: room_def strip_ether_def)
  moreover have "rte_pktmbuf_adj 14 (pkt_buf s p) = Some (strip_ether (pkt_buf s p))"
    using assms by (simp add: adj_eq strip_ether_def)
  moreover have "bswap16 ETHER_TYPE_IPv4 \<noteq> bswap16 ETHER_TYPE_IPv6"
    by (simp add: ETHER_TYPE_IPv4_def ETHER_TYPE_IPv6_def)
  ultimately show ?thesis
    by (simp add: prepare_one_packet_def kind_of_def sorted_into_def Let_def ETHER_HDR_LEN_def IP_P_OFFSET_def IP6_NXT_OFFSET_def)
qed

definition traffic_after :: "(nat \<Rightarrow> pkt_kind) \<Rightarrow> nat list \<Rightarrow> ipsec_traffic \<Rightarrow> ipsec_traffic \<Rightarrow> bool" where
  "traffic_after kd ps t t' \<longleftrightarrow>
     pkts_of (t_ipsec t') = pkts_of (t_ipsec t) @ filter (\<lambda>p. kd p = Kind_esp) ps
     \<and> pkts_of (t_ip4 t') = pkts_of (t_ip4 t) @ filter (\<lambda>p. kd p = Kind_ip4) ps
     \<and> pkts_of (t_ip6 t') = pkts_of (t_ip6 t) @ filter (\<lambda>p. kd p = Kind_ip6) ps
     \<and> (data_at 9 (t_ip4 t) \<longrightarrow> data_at 9 (t_ip4 t')) \<and> (data_at 6 (t_ip6 t) \<longrightarrow> data_at 6 (t_ip6 t'))"

lemma data_at_push [simp]: "data_at off (push_data off p t) = data_at off t"
  by (auto simp: data_at_def push_data_def push_pkt_def less_Suc_eq)

lemma traffic_after_one: "traffic_after kd [p] t (sorted_into (kd p) p t)"
  by (simp add: traffic_after_def sorted_into_def split: pkt_kind.split)

lemma traffic_after_append: "traffic_after kd ps t t1 \<Longrightarrow> traffic_after kd qs t1 t2 \<Longrightarrow> traffic_after kd (ps @ qs) t t2"
  by (auto simp: traffic_after_def)

definition stripped :: "(nat \<Rightarrow> pkt_kind) \<Rightarrow> nat list \<Rightarrow> ipsec_ctx \<Rightarrow> ipsec_ctx" where
  "stripped kd ps s =
     free_pkts (filter (\<lambda>p. kd p = Kind_other) ps)
       (s\<lparr>pkt_buf := \<lambda>p. if p \<in> set ps \<and> kd p \<noteq> Kind_other then strip_ether (pkt_buf s p) else pkt_buf s p\<rparr>)"

lemma prepare_fold:
  assumes "distinct ps" and "\<forall>p\<in>set ps. 14 \<le> length (mdata (pkt_buf s p))"
    and "\<forall>p\<in>set ps. kd p = kind_of (pkt_buf s p)"
  shows "\<exists>t'. fold_option prepare_one_packet ps (t, s) = Some (t', stripped kd ps s) \<and> traffic_after kd ps t t'"
  using assms
proof (induction ps arbitrary: t s)
  case Nil
  then show ?case by (simp add: traffic_after_def stripped_def free_pkts_def)
next
  case (Cons p ps)
  let ?s = "if kd p = Kind_other then free_pkts [p] s else set_buf p (strip_ether (pkt_buf s p)) s"
  have one: "prepare_one_packet p (t, s) = Some (sorted_into (kd p) p t, ?s)"
    using prepare_one_packet_eq [of s p t] Cons.prems by (simp add: Let_def)
  have buf: "pkt_buf ?s q = pkt_buf s q" if "q \<in> set ps" for q
    using that Cons.prems(1) by (auto simp: set_buf_def free_pkts_def)
  from Cons.IH [of ?s "sorted_into (kd p) p t"] Cons.prems buf obtain t' where
    t': "fold_option prepare_one_packet ps (sorted_into (kd p) p t, ?s) = Some (t', stripped kd ps ?s)"
      "traffic_after kd ps (sorted_into (kd p) p t) t'"
    by auto
  have "stripped kd ps ?s = stripped kd (p # ps) s"
    using Cons.prems(1) by (auto simp: stripped_def free_pkts_def set_buf_def fun_eq_iff)
  then show ?case
    using one t' traffic_after_append [OF traffic_after_one t'(2)] by simp
qed

section \<open>Properties\<close>

text \<open>C21: A burst of frames is sorted completely and in order: ESP packets of either IP version, other
  IPv4 packets and other IPv6 packets go to the three arrays, with their Ethernet header removed
  and a data pointer to the protocol field; every other frame is freed, and no frame goes anywhere
  else.\<close>

theorem prepare_traffic_sorts:
  assumes "distinct ps" and "\<forall>p\<in>set ps. 14 \<le> length (mdata (pkt_buf s p))"
  shows "\<exists>t'. prepare_traffic ps t s = Some (t', stripped (\<lambda>p. kind_of (pkt_buf s p)) ps s)
    \<and> pkts_of (t_ipsec t') = filter (\<lambda>p. kind_of (pkt_buf s p) = Kind_esp) ps
    \<and> pkts_of (t_ip4 t') = filter (\<lambda>p. kind_of (pkt_buf s p) = Kind_ip4) ps
    \<and> pkts_of (t_ip6 t') = filter (\<lambda>p. kind_of (pkt_buf s p) = Kind_ip6) ps
    \<and> data_at 9 (t_ip4 t') \<and> data_at 6 (t_ip6 t')"
proof -
  have "data_at off (x\<lparr>tt_num := 0\<rparr>)" for off x by (simp add: data_at_def)
  then show ?thesis
    using prepare_fold [OF assms, of "\<lambda>p. kind_of (pkt_buf s p)" "reset_traffic t"]
    by (auto simp: prepare_traffic_eq traffic_after_def reset_traffic_def)
qed

text \<open>C2: \<^verbatim>\<open>outbound_sp\<close> implements the policy database: the array of clear packets keeps
  exactly the bypassed ones, in order, those to protect go with the index of their association to
  the array for ESP, and the others (discarded, without a rule, or protected by the index 0) are
  freed; nothing else of the state changes.\<close>

theorem outbound_sp_refines:
  assumes "data_at off ip" and "policy_ok pol"
    and "outbound_sp (Some (user_data \<circ> pol)) ip ips s = (ip', ips', s')"
    and "length (pkts_of ips) = length (sas_of ips)"
  shows "(pkts_of ip', zip (pkts_of ips') (map unat (sas_of ips')), s') =
    (let (pass, secure, drop) = spec_outbound (action_of pol off s) (pkts_of ip)
     in (pass, zip (pkts_of ips) (map unat (sas_of ips)) @ secure, free_pkts drop s))"
proof -
  have "zip xs (map f xs) = map (\<lambda>x. (x, f x)) xs" for f :: "nat \<Rightarrow> nat" and xs by (induction xs) simp_all
  then show ?thesis using outbound_policy [OF assms(1-3)] by (simp add: spec_outbound_def comp_def)
qed

text \<open>C6: \<^verbatim>\<open>inbound_sp_sa\<close> implements the policy database: of the packets that arrived in
  the clear only the bypassed ones stay; of those that were decrypted also the ones whose rule
  demands protection by an association with the SPI they were decrypted with.  The others are
  freed.\<close>

theorem inbound_sp_refines:
  assumes "data_at off ip" and "policy_ok pol" and "pkts_of ip = clear @ decrypted"
    and "inbound_sp_sa (Some (user_data \<circ> pol)) (length clear) ip s = (ip', s')"
  shows "pkts_of ip' = spec_inbound (action_of pol off s) s clear decrypted
    \<and> (\<exists>fs. s' = free_pkts fs s \<and> mset fs + mset (pkts_of ip') = mset (clear @ decrypted))"
proof -
  have "length clear \<le> tt_num ip" using arg_cong [OF assms(3), of length] by simp
  note t = inbound_policy [OF assms(1,2) this assms(4)]
  have "take (length clear) (clear @ decrypted) = clear" "drop (length clear) (clear @ decrypted) = decrypted" by simp_all
  then have "pkts_of ip' = spec_inbound (action_of pol off s) s clear decrypted
    \<and> (\<exists>fs. s' = free_pkts fs s \<and> mset fs + mset (pkts_of ip') = mset (clear @ decrypted))"
    using t unfolding assms(3) by metis
  then show ?thesis .
qed

text \<open>Without a database nothing is checked: what arrived in the clear passes.\<close>

lemma no_policy_passes: "inbound_sp_sa None lim ip s = (ip, s)" "outbound_sp None ip ips s = (ip, ips, s)"
  by (simp_all add: inbound_sp_sa_def outbound_sp_def)

section \<open>Examples\<close>

definition sample_frame :: "bytes \<Rightarrow> u8 \<Rightarrow> u8 \<Rightarrow> pktbuf" where
  "sample_frame et nxt6 nxt4 =
     \<lparr>headroom = replicate 128 0, mdata = replicate 12 0 @ et @ replicate 6 0 @ [nxt6, 0, 0, nxt4] @ replicate 10 0,
      tailroom = replicate 64 0, priv = replicate 32 0\<rparr>"

definition sample_traffic :: ipsec_traffic where
  "sample_traffic = (let t = \<lparr>tt_data = \<lambda>i. (0, 0), tt_pkts = \<lambda>i. 0, tt_res = \<lambda>i. 0, tt_num = 0\<rparr>
     in \<lparr>t_ipsec = t, t_ip4 = t, t_ip6 = t\<rparr>)"

lemma sample_frame_kinds:
  "kind_of (sample_frame [8, 0] 0 50) = Kind_esp" "kind_of (sample_frame [8, 0] 0 6) = Kind_ip4"
  "kind_of (sample_frame [0x86, 0xDD] 6 0) = Kind_ip6" "kind_of (sample_frame [8, 6] 0 0) = Kind_other"
proof -
  have et: "load 2 (room (sample_frame e a b)) 12 = (le_word e :: u16)" if "length e = 2" for e a b
    using that by (simp add: sample_frame_def room_def load_def)
  have d: "drop 14 (room (sample_frame e a b)) = replicate 6 0 @ a # 0 # 0 # b # replicate 74 0" if "length e = 2" for e a b
    using that by (simp add: sample_frame_def room_def flip: replicate_add)
  have n: "drop 14 (room (sample_frame e a b)) ! 6 = a" "drop 14 (room (sample_frame e a b)) ! 9 = b" if "length e = 2" for e a b
    unfolding d [OF that] by (simp_all add: nth_append)
  have w: "(le_word [8, 0] :: u16) = 8" "(le_word [0x86, 0xDD] :: u16) = 0xDD86" "(le_word [8, 6] :: u16) = 0x608"
    "bswap16 ETHER_TYPE_IPv4 = 8" "bswap16 ETHER_TYPE_IPv6 = 0xDD86"
    by (simp_all add: bswap16_def le_bytes_def upt_rec ETHER_TYPE_IPv4_def ETHER_TYPE_IPv6_def)
  show "kind_of (sample_frame [8, 0] 0 50) = Kind_esp" "kind_of (sample_frame [8, 0] 0 6) = Kind_ip4"
    "kind_of (sample_frame [0x86, 0xDD] 6 0) = Kind_ip6" "kind_of (sample_frame [8, 6] 0 0) = Kind_other"
    by (simp_all add: kind_of_def Let_def ETHER_HDR_LEN_def IP_P_OFFSET_def IP6_NXT_OFFSET_def IPPROTO_ESP_def et n w del: le_word.simps)
qed

theorem prepare_traffic_sorts_witness:
  "\<exists>s t' s'. prepare_traffic [5, 2, 3, 4] sample_traffic s = Some (t', s') \<and> pkts_of (t_ipsec t') = [4]
     \<and> pkts_of (t_ip4 t') = [2] \<and> pkts_of (t_ip6 t') = [3] \<and> ctx_freed s' = [5]"
proof -
  define s where "s = sample_ctx\<lparr>pkt_buf := (\<lambda>p. sample_frame [8, 6] 0 0)
    (2 := sample_frame [8, 0] 0 6, 3 := sample_frame [0x86, 0xDD] 6 0, 4 := sample_frame [8, 0] 0 50)\<rparr>"
  have k: "kind_of (pkt_buf s 5) = Kind_other" "kind_of (pkt_buf s 2) = Kind_ip4" "kind_of (pkt_buf s 3) = Kind_ip6"
    "kind_of (pkt_buf s 4) = Kind_esp"
    by (simp_all add: s_def sample_frame_kinds)
  have "distinct [5, 2, 3, 4 :: nat]" "\<forall>p\<in>set [5, 2, 3, 4]. 14 \<le> length (mdata (pkt_buf s p))"
    by (simp_all add: s_def sample_frame_def)
  from prepare_traffic_sorts [OF this, of sample_traffic] obtain t' where
    "prepare_traffic [5, 2, 3, 4] sample_traffic s = Some (t', stripped (\<lambda>p. kind_of (pkt_buf s p)) [5, 2, 3, 4] s)"
    "pkts_of (t_ipsec t') = [4]" "pkts_of (t_ip4 t') = [2]" "pkts_of (t_ip6 t') = [3]"
    by (auto simp: k)
  moreover have "ctx_freed (stripped (\<lambda>p. kind_of (pkt_buf s p)) [5, 2, 3, 4] s) = [5]"
    by (simp add: stripped_def free_pkts_def k) (simp add: s_def sample_ctx_def)
  ultimately show ?thesis by blast
qed

text \<open>A policy on the first byte of the data.\<close>

definition sample_policy :: policy where
  "sample_policy d = (if hd d = 17 then Some Bypass else if hd d = 6 then Some (Protect 5) else None)"

definition sample_ip4 :: traffic_type where
  "sample_ip4 = \<lparr>tt_data = \<lambda>i. (i + 7, 9), tt_pkts = \<lambda>i. i + 7, tt_res = \<lambda>i. 0, tt_num = 3\<rparr>"

definition sample_policy_ctx :: ipsec_ctx where
  "sample_policy_ctx = sample_ctx\<lparr>pkt_buf := (\<lambda>p. sample_buf\<lparr>mdata := replicate 9 0 @ [if p = 7 then 17 else if p = 8 then 6 else 1]\<rparr>)\<rparr>"

lemma sample_policy_facts:
  "data_at 9 sample_ip4" "policy_ok sample_policy" "pkts_of sample_ip4 = [7, 8, 9]"
  "action_of sample_policy 9 sample_policy_ctx 7 = Some Bypass"
  "action_of sample_policy 9 sample_policy_ctx 8 = Some (Protect 5)"
  "action_of sample_policy 9 sample_policy_ctx 9 = None"
  by (simp_all add: data_at_def sample_ip4_def policy_ok_def sample_policy_def pkts_of_def upt_rec action_of_def
      data_bytes_def sample_policy_ctx_def room_def)

theorem outbound_sp_refines_witness:
  "\<exists>ip' ips' s'. outbound_sp (Some (user_data \<circ> sample_policy)) sample_ip4 (t_ipsec sample_traffic) sample_policy_ctx = (ip', ips', s')
     \<and> pkts_of ip' = [7] \<and> zip (pkts_of ips') (map unat (sas_of ips')) = [(8, 5)] \<and> s' = free_pkts [9] sample_policy_ctx"
proof -
  obtain ip' ips' s' where o: "outbound_sp (Some (user_data \<circ> sample_policy)) sample_ip4 (t_ipsec sample_traffic) sample_policy_ctx = (ip', ips', s')"
    using prod_cases3 by blast
  have "tt_num (t_ipsec sample_traffic) = 0" by (simp add: sample_traffic_def Let_def)
  then have "(pkts_of ip', zip (pkts_of ips') (map unat (sas_of ips')), s') = ([7], [(8, 5)], free_pkts [9] sample_policy_ctx)"
    using outbound_sp_refines [OF sample_policy_facts(1,2) o] by (simp add: spec_outbound_def sample_policy_facts)
  then show ?thesis using o by blast
qed

theorem inbound_sp_refines_witness:
  "\<exists>ip' s'. inbound_sp_sa (Some (user_data \<circ> sample_policy)) 1 sample_ip4 sample_policy_ctx = (ip', s') \<and> pkts_of ip' = [7, 8]"
proof -
  obtain ip' s' where i: "inbound_sp_sa (Some (user_data \<circ> sample_policy)) 1 sample_ip4 sample_policy_ctx = (ip', s')"
    by fastforce
  have "pkts_of sample_ip4 = [7] @ [8, 9]" by (simp add: sample_policy_facts)
  from inbound_sp_refines [OF sample_policy_facts(1,2) this, of sample_policy_ctx] i
  have "pkts_of ip' = spec_inbound (action_of sample_policy 9 sample_policy_ctx) sample_policy_ctx [7] [8, 9]" by simp
  moreover have "spi (sadb sample_policy_ctx i) = spi (sadb sample_policy_ctx j)" for i j
    by (simp add: sample_policy_ctx_def sample_ctx_def)
  ultimately have "pkts_of ip' = [7, 8]" by (simp add: spec_inbound_def sa_matches_def sample_policy_facts)
  then show ?thesis using i by blast
qed

end
