(* ===== verification/Gateway_Tx.thy ===== *)
theory Gateway_Tx
  imports Policy L3fwd_Tx
begin

text \<open>
  The second half of the data path of \<^verbatim>\<open>ipsec-secgw.c\<close>: packets are routed
  (\<^verbatim>\<open>route4_pkts\<close>, \<^verbatim>\<open>route6_pkts\<close>), buffered per port
  (\<^verbatim>\<open>send_single_packet\<close>) and sent with a new Ethernet header (\<^verbatim>\<open>send_burst\<close>,
  \<^verbatim>\<open>prepare_tx_burst\<close>).  The transmit buffers are those of the forwarder
  (\<open>L3fwd_Tx\<close>, the code is the same); the packets are in the memory that is part of the IPsec
  context.  The route tables are parameters: what the bulk lookups of DPDK answer for an address.
  \<^verbatim>\<open>tx_mbufs\<close> and \<^verbatim>\<open>tx_queue_id\<close> have \<^verbatim>\<open>RTE_MAX_ETHPORTS\<close> entries; an access behind
  them is \<open>None\<close>.
\<close>

section \<open>State\<close>

datatype tx_flag = PKT_TX_IP_CKSUM | PKT_TX_IPV4 | PKT_TX_IPV6

record tx_offload =
  ol_flags :: "tx_flag set"
  l2_len :: nat
  l3_len :: nat

record tx_stage =
  tg_tx :: "nat fwd_state"
  tg_ctx :: ipsec_ctx
  tg_off :: "nat \<Rightarrow> tx_offload"

text \<open>\<^verbatim>\<open>ethaddr_tbl\<close>: source and destination address of each port.\<close>

record ethaddr_info =
  eth_src :: u64
  eth_dst :: u64

record tx_env =
  env_tx :: "nat tx_driver"
  ethaddr_tbl :: "nat \<Rightarrow> ethaddr_info"
  lookup4 :: "u32 \<Rightarrow> u32"
  lookup6 :: "bytes \<Rightarrow> u16"

section \<open>The code\<close>

definition on_tx :: "(nat fwd_state \<Rightarrow> nat fwd_state) \<Rightarrow> tx_stage \<Rightarrow> tx_stage" where
  "on_tx f g = g\<lparr>tg_tx := f (tg_tx g)\<rparr>"

definition ether_header :: "ethaddr_info \<Rightarrow> u16 \<Rightarrow> pktbuf \<Rightarrow> pktbuf" where
  "ether_header e ty m =
     poke 0 (take 6 (le_bytes 8 (eth_dst e))) (poke 6 (take 6 (le_bytes 8 (eth_src e)))
       (poke 12 (le_bytes 2 (bswap16 ty)) m))"

text \<open>\<open>None\<close> is the write through the null pointer \<^verbatim>\<open>rte_pktmbuf_prepend\<close> returns
  when there is no headroom.\<close>

definition prepare_tx_pkt :: "tx_env \<Rightarrow> nat \<Rightarrow> nat \<Rightarrow> tx_stage \<Rightarrow> tx_stage option" where
  "prepare_tx_pkt env port p g =
     (let m = pkt_buf (tg_ctx g) p; v4 = (ip_v (room m) = IPVERSION); off = tg_off g p
      in case rte_pktmbuf_prepend ETHER_HDR_LEN m of
           None \<Rightarrow> None
         | Some m \<Rightarrow>
             let off = (if v4 then off\<lparr>ol_flags := ol_flags off \<union> {PKT_TX_IP_CKSUM, PKT_TX_IPV4}, l3_len := 20, l2_len := ETHER_HDR_LEN\<rparr>
                        else off\<lparr>ol_flags := ol_flags off \<union> {PKT_TX_IPV6}, l3_len := 40, l2_len := ETHER_HDR_LEN\<rparr>);
                 m = ether_header (ethaddr_tbl env port) (if v4 then ETHER_TYPE_IPv4 else ETHER_TYPE_IPv6) m
             in Some (g\<lparr>tg_ctx := set_buf p m (tg_ctx g), tg_off := (tg_off g)(p := off)\<rparr>))"

text \<open>Again two loops, with a prefetch two packets ahead in the first.\<close>

definition prepare_tx_burst :: "tx_env \<Rightarrow> nat list \<Rightarrow> nat \<Rightarrow> nat \<Rightarrow> tx_stage \<Rightarrow> tx_stage option" where
  "prepare_tx_burst env pkts nb_pkts port g =
     (case fold_option (prepare_tx_pkt env port) (take (nb_pkts - 2) pkts) g of
        None \<Rightarrow> None
      | Some g \<Rightarrow> fold_option (prepare_tx_pkt env port) (drop (nb_pkts - 2) (take nb_pkts pkts)) g)"

definition secgw_send_burst :: "tx_env \<Rightarrow> nat \<Rightarrow> nat \<Rightarrow> tx_stage \<Rightarrow> tx_stage option" where
  "secgw_send_burst env n port g =
     (let queueid = tx_queue_id (tg_tx g) port; m = m_table (tx_mbufs (tg_tx g) port)
      in case prepare_tx_burst env m n port g of
           None \<Rightarrow> None
         | Some g \<Rightarrow> Some (on_tx (tx_or_free (env_tx env) port queueid m n) g))"

definition RTE_MAX_ETHPORTS :: nat where "RTE_MAX_ETHPORTS = 32"

text \<open>A core has \<^verbatim>\<open>RTE_MAX_ETHPORTS\<close> buffers and transmit queues, and nothing checks the port: \<open>None\<close>
  is also the access behind \<^verbatim>\<open>tx_mbufs\<close>.\<close>

definition secgw_send_single_packet :: "tx_env \<Rightarrow> nat \<Rightarrow> nat \<Rightarrow> tx_stage \<Rightarrow> tx_stage option" where
  "secgw_send_single_packet env p port g =
     (if RTE_MAX_ETHPORTS \<le> port then None
      else let n = mbt_len (tx_mbufs (tg_tx g) port);
          g = on_tx (set_slot port n p) g;
          n = n + 1
      in if n = L3fwd_Tx.MAX_PKT_BURST
         then map_option (on_tx (set_len port 0)) (secgw_send_burst env L3fwd_Tx.MAX_PKT_BURST port g)
         else Some (on_tx (set_len port n) g))"

definition RTE_LPM_LOOKUP_SUCCESS :: u32 where "RTE_LPM_LOOKUP_SUCCESS = 0x01000000"

definition free_in :: "nat \<Rightarrow> tx_stage \<Rightarrow> tx_stage" where
  "free_in p g = g\<lparr>tg_ctx := free_pkts [p] (tg_ctx g)\<rparr>"

definition route4_step :: "tx_env \<Rightarrow> nat \<times> u32 \<Rightarrow> tx_stage \<Rightarrow> tx_stage option" where
  "route4_step env = (\<lambda>(p, hop) g.
     if hop AND RTE_LPM_LOOKUP_SUCCESS = 0 then Some (free_in p g)
     else secgw_send_single_packet env p (unat (hop AND 0xff)) g)"

text \<open>The first loop collects the addresses, the bulk lookup answers all of them, the second loop
  sends.\<close>

definition route4_pkts :: "tx_env \<Rightarrow> nat list \<Rightarrow> tx_stage \<Rightarrow> tx_stage option" where
  "route4_pkts env pkts g =
     (let dst_ip = map (\<lambda>p. bswap32 (load 4 (room (pkt_buf (tg_ctx g) p)) 16)) pkts;
          hop = map (lookup4 env) dst_ip
      in fold_option (route4_step env) (zip pkts hop) g)"

definition route6_step :: "tx_env \<Rightarrow> nat \<times> u16 \<Rightarrow> tx_stage \<Rightarrow> tx_stage option" where
  "route6_step env = (\<lambda>(p, hop) g.
     if hop = - 1 then Some (free_in p g)
     else secgw_send_single_packet env p (unat (hop AND 0xff)) g)"

definition route6_pkts :: "tx_env \<Rightarrow> nat list \<Rightarrow> tx_stage \<Rightarrow> tx_stage option" where
  "route6_pkts env pkts g =
     (let dst_ip = map (\<lambda>p. take 16 (drop 24 (room (pkt_buf (tg_ctx g) p)))) pkts;
          hop = map (lookup6 env) dst_ip
      in fold_option (route6_step env) (zip pkts hop) g)"

definition drain_port :: "tx_env \<Rightarrow> nat \<Rightarrow> tx_stage \<Rightarrow> tx_stage option" where
  "drain_port env port g =
     (let n = mbt_len (tx_mbufs (tg_tx g) port)
      in if n = 0 then Some g
         else map_option (on_tx (set_len port 0)) (secgw_send_burst env n port g))"

definition drain_buffers :: "tx_env \<Rightarrow> tx_stage \<Rightarrow> tx_stage option" where
  "drain_buffers env g = fold_option (drain_port env) [0..<RTE_MAX_ETHPORTS] g"

section \<open>Preparing a burst\<close>

definition headroom_of :: "tx_stage \<Rightarrow> nat \<Rightarrow> nat" where
  "headroom_of g p = length (headroom (pkt_buf (tg_ctx g) p))"

text \<open>Only the buffers of the packets in \<open>P\<close> change.\<close>

definition only_bufs :: "nat set \<Rightarrow> ipsec_ctx \<Rightarrow> ipsec_ctx \<Rightarrow> bool" where
  "only_bufs P s s' \<longleftrightarrow> (\<exists>b. s' = s\<lparr>pkt_buf := b\<rparr> \<and> (\<forall>p. p \<notin> P \<longrightarrow> b p = pkt_buf s p))"

lemma only_bufs_refl: "only_bufs P s s"
  unfolding only_bufs_def by (rule exI [of _ "pkt_buf s"]) simp

lemma only_bufs_trans: "only_bufs P s s1 \<Longrightarrow> only_bufs Q s1 s2 \<Longrightarrow> P \<union> Q \<subseteq> R \<Longrightarrow> only_bufs R s s2"
proof -
  assume *: "only_bufs P s s1" "only_bufs Q s1 s2" "P \<union> Q \<subseteq> R"
  then obtain b c where "s2 = s\<lparr>pkt_buf := c\<rparr>" "\<forall>p. p \<notin> P \<longrightarrow> b p = pkt_buf s p" "\<forall>p. p \<notin> Q \<longrightarrow> c p = b p"
    by (auto simp: only_bufs_def)
  moreover have "c p = pkt_buf s p" if "p \<notin> R" for p
  proof -
    have "p \<notin> P" "p \<notin> Q" using that *(3) by auto
    then show ?thesis using calculation(2,3) by simp
  qed
  ultimately show ?thesis unfolding only_bufs_def by blast
qed

lemma only_bufs_set_buf: "only_bufs {p} s (set_buf p m s)"
  by (auto simp: only_bufs_def set_buf_def)

lemma only_bufs_buf: "only_bufs P s s' \<Longrightarrow> p \<notin> P \<Longrightarrow> pkt_buf s' p = pkt_buf s p"
  by (auto simp: only_bufs_def)

lemma only_bufs_total: "only_bufs P s s' \<Longrightarrow> Crypto_Queue.total s' = Crypto_Queue.total s \<and> queues_ok s' = queues_ok s"
  using Crypto_Queue.total_cong [of s' s] qps_ok_cong [of s' s]
  by (auto simp: only_bufs_def queues_ok_def sessions_ok_def)

lemma prepare_tx_pkt_effect:
  "prepare_tx_pkt env port p g = Some g' \<Longrightarrow> tg_tx g' = tg_tx g \<and> only_bufs {p} (tg_ctx g) (tg_ctx g')"
  by (auto simp: prepare_tx_pkt_def Let_def only_bufs_set_buf split: option.splits)

lemma prepare_tx_pkt_defined: "14 \<le> headroom_of g p \<Longrightarrow> prepare_tx_pkt env port p g \<noteq> None"
  by (simp add: prepare_tx_pkt_def Let_def headroom_of_def ETHER_HDR_LEN_def mdata_prepend)

lemma prepare_tx_burst_eq:
  "prepare_tx_burst env pkts n port g = fold_option (prepare_tx_pkt env port) (take n pkts) g"
proof -
  have "take n pkts = take (n - 2) pkts @ drop (n - 2) (take n pkts)"
    using append_take_drop_id [of "n - 2" "take n pkts"] by (simp add: min_def)
  then show ?thesis unfolding prepare_tx_burst_def by (metis fold_option_append)
qed

lemma prepare_fold_effect:
  "fold_option (prepare_tx_pkt env port) ps g = Some g' \<Longrightarrow> tg_tx g' = tg_tx g \<and> only_bufs (set ps) (tg_ctx g) (tg_ctx g')"
proof (induction ps arbitrary: g)
  case Nil
  then show ?case by (simp add: only_bufs_refl)
next
  case (Cons p ps)
  then obtain g1 where g1: "prepare_tx_pkt env port p g = Some g1" "fold_option (prepare_tx_pkt env port) ps g1 = Some g'"
    by (auto split: option.splits)
  from prepare_tx_pkt_effect [OF g1(1)] Cons.IH [OF g1(2)] show ?case
    using only_bufs_trans [of "{p}" "tg_ctx g" "tg_ctx g1" "set ps" "tg_ctx g'" "set (p # ps)"] by simp
qed

lemma prepare_fold_defined:
  "distinct ps \<Longrightarrow> \<forall>p\<in>set ps. 14 \<le> headroom_of g p \<Longrightarrow> fold_option (prepare_tx_pkt env port) ps g \<noteq> None"
proof (induction ps arbitrary: g)
  case (Cons p ps)
  then obtain g1 where g1: "prepare_tx_pkt env port p g = Some g1"
    using prepare_tx_pkt_defined by fastforce
  have "headroom_of g1 q = headroom_of g q" if "q \<in> set ps" for q
  proof -
    have "q \<notin> {p}" using that Cons.prems(1) by auto
    then show ?thesis using prepare_tx_pkt_effect [OF g1] only_bufs_buf by (fastforce simp: headroom_of_def)
  qed
  then show ?case using Cons g1 by simp
qed simp

section \<open>Sending\<close>

lemma on_tx_fields [simp]: "tg_tx (on_tx f g) = f (tg_tx g)" "tg_ctx (on_tx f g) = tg_ctx g" "tg_off (on_tx f g) = tg_off g"
  by (simp_all add: on_tx_def)

lemma headroom_on_tx [simp]: "headroom_of (on_tx f g) p = headroom_of g p"
  by (simp add: headroom_of_def)

lemma send_burst_effect:
  assumes "secgw_send_burst env n port g = Some g'"
  shows "tg_tx g' = send_burst (env_tx env) n port (tg_tx g)"
    and "only_bufs (set (take n (m_table (tx_mbufs (tg_tx g) port)))) (tg_ctx g) (tg_ctx g')"
proof -
  let ?m = "m_table (tx_mbufs (tg_tx g) port)"
  from assms obtain g1 where p: "fold_option (prepare_tx_pkt env port) (take n ?m) g = Some g1"
    and g': "g' = on_tx (tx_or_free (env_tx env) port (tx_queue_id (tg_tx g) port) ?m n) g1"
    unfolding secgw_send_burst_def prepare_tx_burst_eq Let_def by (auto split: option.splits)
  note e = prepare_fold_effect [OF p]
  show "tg_tx g' = send_burst (env_tx env) n port (tg_tx g)" using e by (simp add: g' send_burst_def)
  show "only_bufs (set (take n ?m)) (tg_ctx g) (tg_ctx g')" using e by (simp add: g')
qed

lemma send_burst_defined:
  assumes "distinct (take n (m_table (tx_mbufs (tg_tx g) port)))"
    and "\<forall>p\<in>set (take n (m_table (tx_mbufs (tg_tx g) port))). 14 \<le> headroom_of g p"
  shows "secgw_send_burst env n port g \<noteq> None"
proof -
  obtain g' where "fold_option (prepare_tx_pkt env port) (take n (m_table (tx_mbufs (tg_tx g) port))) g = Some g'"
    using prepare_fold_defined [OF assms, of env port] by blast
  then show ?thesis by (simp add: secgw_send_burst_def prepare_tx_burst_eq Let_def)
qed

text \<open>The buffer part of the code is \<^verbatim>\<open>send_single_packet\<close> of the forwarder.\<close>

lemma send_single_in_array:
  "port < RTE_MAX_ETHPORTS \<Longrightarrow> secgw_send_single_packet env p port g =
     (let n = mbt_len (tx_mbufs (tg_tx g) port);
          g = on_tx (set_slot port n p) g;
          n = n + 1
      in if n = L3fwd_Tx.MAX_PKT_BURST
         then map_option (on_tx (set_len port 0)) (secgw_send_burst env L3fwd_Tx.MAX_PKT_BURST port g)
         else Some (on_tx (set_len port n) g))"
  by (simp add: secgw_send_single_packet_def)

lemma send_single_behind_array: "RTE_MAX_ETHPORTS \<le> port \<Longrightarrow> secgw_send_single_packet env p port g = None"
  by (simp add: secgw_send_single_packet_def)

lemma send_single_port: "secgw_send_single_packet env p port g = Some g' \<Longrightarrow> port < RTE_MAX_ETHPORTS"
  by (simp add: secgw_send_single_packet_def split: if_splits)

lemma send_single_effect:
  assumes "secgw_send_single_packet env p port g = Some g'"
  shows "tg_tx g' = send_single_packet (env_tx env) p port (tg_tx g)" (is ?A)
    and "\<exists>P. only_bufs P (tg_ctx g) (tg_ctx g')" (is ?B)
proof -
  note port = send_single_in_array [OF send_single_port [OF assms]]
  have "?A \<and> ?B"
  proof (cases "mbt_len (tx_mbufs (tg_tx g) port) + 1 = L3fwd_Tx.MAX_PKT_BURST")
    case True
    then obtain g1 where "secgw_send_burst env L3fwd_Tx.MAX_PKT_BURST port (on_tx (set_slot port (mbt_len (tx_mbufs (tg_tx g) port)) p) g) = Some g1"
      and "g' = on_tx (set_len port 0) g1"
      using assms by (auto simp: port Let_def)
    moreover note send_burst_effect [OF this(1)]
    ultimately show ?thesis using True by (auto simp: send_single_packet_def Let_def)
  next
    case False
    then show ?thesis using assms only_bufs_refl by (auto simp: port send_single_packet_def Let_def)
  qed
  then show ?A ?B by blast+
qed

section \<open>Packets that are still in use\<close>

text \<open>The packets in the transmit buffers and those in \<open>R\<close>, which are elsewhere, are different packets
  with room for an Ethernet header.\<close>

definition live_ok :: "nat multiset \<Rightarrow> tx_stage \<Rightarrow> bool" where
  "live_ok R g \<longleftrightarrow> tx_ok (tg_tx g)
     \<and> (\<forall>p. count (L3fwd_Tx.held (tg_tx g) + R) p \<le> 1)
     \<and> (\<forall>p\<in>#L3fwd_Tx.held (tg_tx g) + R. 14 \<le> headroom_of g p)"

lemma distinct_if_count: "(\<And>x. count (mset xs) x \<le> 1) \<Longrightarrow> distinct xs"
proof (induction xs)
  case (Cons x xs)
  have "count (mset xs) y \<le> count (mset (x # xs)) y" for y by simp
  then have "count (mset xs) y \<le> 1" for y using Cons.prems by (rule order_trans)
  moreover have "count (mset xs) x = 0" using Cons.prems [of x] by simp
  then have "x \<notin> set xs" by simp
  ultimately show ?case using Cons.IH by simp
qed simp

lemma buffered_subset_held: "port < 256 \<Longrightarrow> mset (buffered port s) \<subseteq># L3fwd_Tx.held s"
  unfolding L3fwd_Tx.held_def using sum.remove [of "{..<256}" port "\<lambda>p. mset (buffered p s)"]
  by simp

text \<open>A burst \<open>b\<close> leaves the set of packets in use and only its buffers change.\<close>

lemma live_ok_step:
  assumes "live_ok (R + M) g" and "tx_ok (tg_tx g')" and "only_bufs (set b) (tg_ctx g) (tg_ctx g')"
    and "L3fwd_Tx.held (tg_tx g') + mset b = L3fwd_Tx.held (tg_tx g) + M"
  shows "live_ok R g'"
proof -
  let ?H = "L3fwd_Tx.held (tg_tx g)" and ?H' = "L3fwd_Tx.held (tg_tx g')"
  have e: "?H' + R + mset b = ?H + (R + M)" using assms(4) by (metis add.assoc add.commute)
  have c: "count (?H' + R) p + count (mset b) p \<le> 1" for p
    using assms(1) arg_cong [OF e, of "\<lambda>M. count M p"] unfolding live_ok_def by (metis count_union)
  have "14 \<le> headroom_of g' p" if "p \<in># ?H' + R" for p
  proof -
    have "0 < count (?H' + R) p" using that by (simp only: count_greater_zero_iff)
    then have "count (mset b) p = 0" using c [of p] by linarith
    then have "p \<notin> set b" by simp
    then have "headroom_of g' p = headroom_of g p" using only_bufs_buf [OF assms(3)] by (simp add: headroom_of_def)
    moreover have "p \<in># ?H + (R + M)" using that e by (metis union_iff)
    ultimately show ?thesis using assms(1) by (simp add: live_ok_def)
  qed
  then show ?thesis using c assms(2) unfolding live_ok_def by (metis add_leE)
qed

lemma live_ok_burst:
  assumes "live_ok R g" and "mset b \<subseteq># L3fwd_Tx.held (tg_tx g) + R"
  shows "distinct b" and "\<forall>p\<in>set b. 14 \<le> headroom_of g p"
proof -
  have "count (mset b) p \<le> 1" for p
    using assms unfolding live_ok_def subseteq_mset_def by (meson order_trans)
  then show "distinct b" by (rule distinct_if_count)
  show "\<forall>p\<in>set b. 14 \<le> headroom_of g p" using assms mset_subset_eqD unfolding live_ok_def by fastforce
qed

definition stage_total :: "tx_stage \<Rightarrow> nat multiset" where
  "stage_total g = tx_total (tg_tx g) + Crypto_Queue.total (tg_ctx g)"

lemma send_single_live:
  assumes "driver_ok (env_tx env)" and "port < RTE_MAX_ETHPORTS" and "live_ok (R + {#p#}) g"
  shows "\<exists>g'. secgw_send_single_packet env p port g = Some g' \<and> live_ok R g'"
proof -
  have port: "port < 256" using assms(2) by (simp add: RTE_MAX_ETHPORTS_def)
  let ?n = "mbt_len (tx_mbufs (tg_tx g) port)"
  let ?t = "m_table (tx_mbufs (tg_tx g) port)" and ?g = "on_tx (set_slot port ?n p) g"
  have ok: "tx_ok (tg_tx g)" using assms(3) by (simp add: live_ok_def)
  then have n: "?n < 32" "length ?t = 32" by (simp_all add: tx_ok_def L3fwd_Tx.MAX_PKT_BURST_def)
  note acc = send_single_packet_accounts [OF assms(1) ok, of port p]
  have hc: "L3fwd_Tx.held (send_single_packet (env_tx env) p port (tg_tx g)) + mset (buffered port (tg_tx g))
      = L3fwd_Tx.held (tg_tx g) + mset (buffered port (send_single_packet (env_tx env) p port (tg_tx g)))"
    using acc by (intro held_change [OF port]) (simp add: accounts_def)
  show ?thesis
  proof (cases "?n + 1 = L3fwd_Tx.MAX_PKT_BURST")
    case True
    let ?b = "buffered port (tg_tx g) @ [p]"
    have b: "take L3fwd_Tx.MAX_PKT_BURST (m_table (tx_mbufs (tg_tx ?g) port)) = ?b"
      unfolding True [symmetric] using n by (simp add: buffered_def take_Suc_conv_app_nth)
    have "mset ?b \<subseteq># L3fwd_Tx.held (tg_tx g) + (R + {#p#})"
      unfolding mset_append using buffered_subset_held [OF port, of "tg_tx g"] by (intro subset_mset.add_mono) simp_all
    note lb = live_ok_burst [OF assms(3) this]
    have "secgw_send_burst env L3fwd_Tx.MAX_PKT_BURST port ?g \<noteq> None"
      by (rule send_burst_defined, unfold b headroom_on_tx) (use lb in simp_all)
    then obtain g1 where g1: "secgw_send_burst env L3fwd_Tx.MAX_PKT_BURST port ?g = Some g1" by blast
    then have s: "secgw_send_single_packet env p port g = Some (on_tx (set_len port 0) g1)"
      using True by (simp add: send_single_in_array [OF assms(2)] Let_def)
    note e = send_single_effect(1) [OF s]
    have "buffered port (tg_tx (on_tx (set_len port 0) g1)) = []" by (simp add: buffered_def)
    then have "live_ok R (on_tx (set_len port 0) g1)"
      using send_burst_effect(2) [OF g1] acc hc b e
      by (intro live_ok_step [OF assms(3), of _ ?b]) (simp_all add: accounts_def)
    then show ?thesis using s by blast
  next
    case False
    then have s: "secgw_send_single_packet env p port g = Some (on_tx (set_len port (?n + 1)) ?g)"
      by (simp add: send_single_in_array [OF assms(2)] Let_def)
    note e = send_single_effect(1) [OF s]
    have "buffered port (tg_tx (on_tx (set_len port (?n + 1)) ?g)) = buffered port (tg_tx g) @ [p]"
      using n by (simp add: buffered_def take_Suc_conv_app_nth)
    then have "live_ok R (on_tx (set_len port (?n + 1)) ?g)"
      using acc hc e
      by (intro live_ok_step [OF assms(3), of _ "[]"]) (simp_all add: accounts_def only_bufs_refl)
    then show ?thesis using s by blast
  qed
qed

lemma send_single_accounts:
  assumes "driver_ok (env_tx env)" and "tx_ok (tg_tx g)" and "secgw_send_single_packet env p port g = Some g'"
  shows "tx_ok (tg_tx g') \<and> stage_total g' = stage_total g + {#p#} \<and> queues_ok (tg_ctx g') = queues_ok (tg_ctx g)"
proof -
  have "port < 256" using send_single_port [OF assms(3)] by (simp add: RTE_MAX_ETHPORTS_def)
  from send_single_step [OF assms(1,2) this, of p] send_single_effect [OF assms(3)] only_bufs_total show ?thesis
    by (fastforce simp: stage_total_def)
qed

section \<open>Routing\<close>

text \<open>What a routing loop relies on: a step sends or frees its packet, and it returns when the packets
  in use have room for an Ethernet header and the answer \<open>h\<close> of the lookup names a port that the arrays
  of the core have.\<close>

locale tx_steps =
  fixes drv :: bool and ok :: "'h \<Rightarrow> bool" and f :: "nat \<times> 'h \<Rightarrow> tx_stage \<Rightarrow> tx_stage option"
  assumes step_accounts: "drv \<Longrightarrow> tx_ok (tg_tx g) \<Longrightarrow> f (p, h) g = Some g' \<Longrightarrow>
      tx_ok (tg_tx g') \<and> stage_total g' = stage_total g + {#p#} \<and> queues_ok (tg_ctx g') = queues_ok (tg_ctx g)
      \<and> sadb (tg_ctx g') = sadb (tg_ctx g)"
    and step_live: "drv \<Longrightarrow> ok h \<Longrightarrow> live_ok (Crypto_Queue.total (tg_ctx g) + X + {#p#}) g \<Longrightarrow>
      \<exists>g'. f (p, h) g = Some g' \<and> live_ok (Crypto_Queue.total (tg_ctx g') + X) g'"
begin

lemma steps_account:
  "drv \<Longrightarrow> tx_ok (tg_tx g) \<Longrightarrow> fold_option f xs g = Some g' \<Longrightarrow>
   tx_ok (tg_tx g') \<and> stage_total g' = stage_total g + mset (map fst xs) \<and> queues_ok (tg_ctx g') = queues_ok (tg_ctx g)
   \<and> sadb (tg_ctx g') = sadb (tg_ctx g)"
proof (induction xs arbitrary: g)
  case (Cons x xs)
  obtain p h where x: "x = (p, h)" by fastforce
  with Cons.prems(3) obtain g1 where g1: "f (p, h) g = Some g1" "fold_option f xs g1 = Some g'" by (auto split: option.splits)
  note a = step_accounts [OF Cons.prems(1,2) g1(1)]
  from a have "tx_ok (tg_tx g1)" by simp
  from Cons.IH [OF Cons.prems(1) this g1(2)] a show ?case by (simp add: x)
qed simp

lemma steps_live:
  "drv \<Longrightarrow> \<forall>x\<in>set xs. ok (snd x) \<Longrightarrow> live_ok (Crypto_Queue.total (tg_ctx g) + X + mset (map fst xs)) g \<Longrightarrow>
   \<exists>g'. fold_option f xs g = Some g' \<and> live_ok (Crypto_Queue.total (tg_ctx g') + X) g'"
proof (induction xs arbitrary: g)
  case (Cons x xs)
  obtain p h where x: "x = (p, h)" by fastforce
  have "live_ok (Crypto_Queue.total (tg_ctx g) + (X + mset (map fst xs)) + {#p#}) g"
    using Cons.prems(3) by (simp add: x ac_simps)
  moreover have "ok h" "\<forall>x\<in>set xs. ok (snd x)" using Cons.prems(2) by (simp_all add: x)
  moreover note step_live [OF Cons.prems(1) this(1), of g "X + mset (map fst xs)" p]
  ultimately obtain g1 where
    g1: "f (p, h) g = Some g1" "live_ok (Crypto_Queue.total (tg_ctx g1) + (X + mset (map fst xs))) g1" by blast
  from Cons.IH [OF Cons.prems(1) \<open>\<forall>x\<in>set xs. ok (snd x)\<close>, of g1] g1 show ?case by (simp add: x ac_simps)
qed simp

end

lemma free_in_fields [simp]: "tg_tx (free_in p g) = tg_tx g" "headroom_of (free_in p g) q = headroom_of g q"
  "tg_ctx (free_in p g) = free_pkts [p] (tg_ctx g)"
  by (simp_all add: free_in_def headroom_of_def) (simp add: free_pkts_def)

lemma send_single_ctx:
  assumes "secgw_send_single_packet env p port g = Some g'"
  shows "Crypto_Queue.total (tg_ctx g') = Crypto_Queue.total (tg_ctx g)" and "sadb (tg_ctx g') = sadb (tg_ctx g)"
  using send_single_effect(2) [OF assms] only_bufs_total by (fastforce simp: only_bufs_def)+

lemma free_or_send_accounts:
  assumes "driver_ok (env_tx env)" and "tx_ok (tg_tx g)"
    and "(if b then Some (free_in p g) else secgw_send_single_packet env p port g) = Some g'"
  shows "tx_ok (tg_tx g') \<and> stage_total g' = stage_total g + {#p#} \<and> queues_ok (tg_ctx g') = queues_ok (tg_ctx g)
    \<and> sadb (tg_ctx g') = sadb (tg_ctx g)"
proof (cases b)
  case True
  then show ?thesis using assms(2,3) by (auto simp: stage_total_def free_pkts_total)
next
  case False
  then show ?thesis using send_single_accounts [OF assms(1,2)] send_single_ctx(2) assms(3) by auto
qed

lemma free_or_send_live:
  assumes "driver_ok (env_tx env)" and "\<not> b \<Longrightarrow> port < RTE_MAX_ETHPORTS"
    and "live_ok (Crypto_Queue.total (tg_ctx g) + X + {#p#}) g"
  shows "\<exists>g'. (if b then Some (free_in p g) else secgw_send_single_packet env p port g) = Some g'
    \<and> live_ok (Crypto_Queue.total (tg_ctx g') + X) g'"
proof (cases b)
  case True
  have "live_ok (Crypto_Queue.total (tg_ctx (free_in p g)) + X) (free_in p g)"
    using assms(3) by (simp add: live_ok_def free_pkts_total ac_simps)
  then show ?thesis using True by simp
next
  case False
  from send_single_live [OF assms(1) assms(2) [OF False] assms(3)] obtain g' where
    g': "secgw_send_single_packet env p port g = Some g'" "live_ok (Crypto_Queue.total (tg_ctx g) + X) g'" by blast
  then show ?thesis using False send_single_ctx(1) [OF g'(1)] by simp
qed

lemma route4_step_eq: "route4_step env (p, h) g =
    (if h AND RTE_LPM_LOOKUP_SUCCESS = 0 then Some (free_in p g) else secgw_send_single_packet env p (unat (h AND 0xff)) g)"
  by (simp add: route4_step_def)

text \<open>\<open>hop4_ok h\<close>: the packet is freed, or its port has a buffer.\<close>

definition hop4_ok :: "u32 \<Rightarrow> bool" where
  "hop4_ok h \<longleftrightarrow> (h AND RTE_LPM_LOOKUP_SUCCESS \<noteq> 0 \<longrightarrow> unat (h AND 0xff) < RTE_MAX_ETHPORTS)"

interpretation route4: tx_steps "driver_ok (env_tx env)" hop4_ok "route4_step env" for env
proof unfold_locales
  fix g p and h :: u32 and g' X
  show "tx_ok (tg_tx g') \<and> stage_total g' = stage_total g + {#p#} \<and> queues_ok (tg_ctx g') = queues_ok (tg_ctx g)
      \<and> sadb (tg_ctx g') = sadb (tg_ctx g)"
    if "driver_ok (env_tx env)" "tx_ok (tg_tx g)" "route4_step env (p, h) g = Some g'"
    by (rule free_or_send_accounts [OF that(1,2) that(3) [unfolded route4_step_eq]])
  show "\<exists>g'. route4_step env (p, h) g = Some g' \<and> live_ok (Crypto_Queue.total (tg_ctx g') + X) g'"
    if "driver_ok (env_tx env)" "hop4_ok h" "live_ok (Crypto_Queue.total (tg_ctx g) + X + {#p#}) g"
    unfolding route4_step_eq by (rule free_or_send_live [OF that(1) _ that(3)]) (use that(2) in \<open>simp add: hop4_ok_def\<close>)
qed

lemma route6_step_eq: "route6_step env (p, h) g =
    (if h = - 1 then Some (free_in p g) else secgw_send_single_packet env p (unat (h AND 0xff)) g)"
  by (simp add: route6_step_def)

text \<open>\<open>hop6_ok h\<close>: the packet is freed, or its port has a buffer.\<close>

definition hop6_ok :: "u16 \<Rightarrow> bool" where
  "hop6_ok h \<longleftrightarrow> (h \<noteq> - 1 \<longrightarrow> unat (h AND 0xff) < RTE_MAX_ETHPORTS)"

interpretation route6: tx_steps "driver_ok (env_tx env)" hop6_ok "route6_step env" for env
proof unfold_locales
  fix g p and h :: u16 and g' X
  show "tx_ok (tg_tx g') \<and> stage_total g' = stage_total g + {#p#} \<and> queues_ok (tg_ctx g') = queues_ok (tg_ctx g)
      \<and> sadb (tg_ctx g') = sadb (tg_ctx g)"
    if "driver_ok (env_tx env)" "tx_ok (tg_tx g)" "route6_step env (p, h) g = Some g'"
    by (rule free_or_send_accounts [OF that(1,2) that(3) [unfolded route6_step_eq]])
  show "\<exists>g'. route6_step env (p, h) g = Some g' \<and> live_ok (Crypto_Queue.total (tg_ctx g') + X) g'"
    if "driver_ok (env_tx env)" "hop6_ok h" "live_ok (Crypto_Queue.total (tg_ctx g) + X + {#p#}) g"
    unfolding route6_step_eq by (rule free_or_send_live [OF that(1) _ that(3)]) (use that(2) in \<open>simp add: hop6_ok_def\<close>)
qed

section \<open>Ports behind the arrays\<close>

lemma zip_map_in: "p \<in> set ps \<Longrightarrow> (p, f p) \<in> set (zip ps (map f ps))"
  by (induction ps) auto

lemma zip_map_all: "(\<forall>x\<in>set (zip ps (map f ps)). P (snd x)) \<longleftrightarrow> (\<forall>p\<in>set ps. P (f p))"
  by (induction ps) auto

lemma route4_step_behind: "\<not> hop4_ok h \<Longrightarrow> route4_step env (p, h) g = None"
  by (simp add: hop4_ok_def route4_step_eq send_single_behind_array)

lemma route6_step_behind: "\<not> hop6_ok h \<Longrightarrow> route6_step env (p, h) g = None"
  by (simp add: hop6_ok_def route6_step_eq send_single_behind_array)

definition hop4_of :: "tx_env \<Rightarrow> tx_stage \<Rightarrow> nat \<Rightarrow> u32" where
  "hop4_of env g p = lookup4 env (bswap32 (load 4 (room (pkt_buf (tg_ctx g) p)) 16))"

definition hop6_of :: "tx_env \<Rightarrow> tx_stage \<Rightarrow> nat \<Rightarrow> u16" where
  "hop6_of env g p = lookup6 env (take 16 (drop 24 (room (pkt_buf (tg_ctx g) p))))"

lemma route4_pkts_eq: "route4_pkts env pkts g = fold_option (route4_step env) (zip pkts (map (hop4_of env g) pkts)) g"
  by (simp add: route4_pkts_def hop4_of_def [abs_def] comp_def)

lemma route6_pkts_eq: "route6_pkts env pkts g = fold_option (route6_step env) (zip pkts (map (hop6_of env g) pkts)) g"
  by (simp add: route6_pkts_def hop6_of_def [abs_def] comp_def)

lemma route4_pkts_live:
  assumes "driver_ok (env_tx env)" and "live_ok (Crypto_Queue.total (tg_ctx g) + X + mset pkts) g"
    and "\<forall>p\<in>set pkts. hop4_ok (hop4_of env g p)"
  shows "\<exists>g'. route4_pkts env pkts g = Some g' \<and> live_ok (Crypto_Queue.total (tg_ctx g') + X) g'
    \<and> stage_total g' = stage_total g + mset pkts \<and> queues_ok (tg_ctx g') = queues_ok (tg_ctx g) \<and> sadb (tg_ctx g') = sadb (tg_ctx g)"
proof -
  let ?xs = "zip pkts (map (hop4_of env g) pkts)"
  have m: "map fst ?xs = pkts" by simp
  have "\<forall>x\<in>set ?xs. hop4_ok (snd x)" using assms(3) zip_map_all by blast
  from route4.steps_live [OF assms(1) this, of g X] assms(2) obtain g' where
    g': "fold_option (route4_step env) ?xs g = Some g'" "live_ok (Crypto_Queue.total (tg_ctx g') + X) g'" unfolding m by blast
  have "tx_ok (tg_tx g)" using assms(2) by (simp add: live_ok_def)
  from route4.steps_account [OF assms(1) this g'(1)] g' show ?thesis unfolding m route4_pkts_eq by auto
qed

lemma route6_pkts_live:
  assumes "driver_ok (env_tx env)" and "live_ok (Crypto_Queue.total (tg_ctx g) + X + mset pkts) g"
    and "\<forall>p\<in>set pkts. hop6_ok (hop6_of env g p)"
  shows "\<exists>g'. route6_pkts env pkts g = Some g' \<and> live_ok (Crypto_Queue.total (tg_ctx g') + X) g'
    \<and> stage_total g' = stage_total g + mset pkts \<and> queues_ok (tg_ctx g') = queues_ok (tg_ctx g) \<and> sadb (tg_ctx g') = sadb (tg_ctx g)"
proof -
  let ?xs = "zip pkts (map (hop6_of env g) pkts)"
  have m: "map fst ?xs = pkts" by simp
  have "\<forall>x\<in>set ?xs. hop6_ok (snd x)" using assms(3) zip_map_all by blast
  from route6.steps_live [OF assms(1) this, of g X] assms(2) obtain g' where
    g': "fold_option (route6_step env) ?xs g = Some g'" "live_ok (Crypto_Queue.total (tg_ctx g') + X) g'" unfolding m by blast
  have "tx_ok (tg_tx g)" using assms(2) by (simp add: live_ok_def)
  from route6.steps_account [OF assms(1) this g'(1)] g' show ?thesis unfolding m route6_pkts_eq by auto
qed

lemma route4_pkts_behind: "p \<in> set pkts \<Longrightarrow> \<not> hop4_ok (hop4_of env g p) \<Longrightarrow> route4_pkts env pkts g = None"
  unfolding route4_pkts_eq by (rule fold_option_undefined [OF zip_map_in]) (assumption, rule route4_step_behind)

lemma route6_pkts_behind: "p \<in> set pkts \<Longrightarrow> \<not> hop6_ok (hop6_of env g p) \<Longrightarrow> route6_pkts env pkts g = None"
  unfolding route6_pkts_eq by (rule fold_option_undefined [OF zip_map_in]) (assumption, rule route6_step_behind)

text \<open>C22: Routing a burst stays inside the arrays of the core exactly when every route that is found goes to
  one of the 32 ports that have a transmit buffer.  For a burst of packets in use, with room for an
  Ethernet header, both routing functions return, with every packet sent, freed or buffered once, if for each packet
  the lookup finds nothing or a port below 32; if it finds a port from 32 to 255 for any packet
  of the burst, they write behind \<^verbatim>\<open>tx_mbufs\<close>.  Nothing between the file and this loop checks the port of
  a route.\<close>

theorem route_pkts_defined:
  assumes "driver_ok (env_tx env)" and "live_ok (Crypto_Queue.total (tg_ctx g) + X + mset pkts) g"
  shows "(if \<forall>p\<in>set pkts. hop4_ok (lookup4 env (bswap32 (load 4 (room (pkt_buf (tg_ctx g) p)) 16)))
      then \<exists>g'. route4_pkts env pkts g = Some g' \<and> stage_total g' = stage_total g + mset pkts
      else route4_pkts env pkts g = None)
    \<and> (if \<forall>p\<in>set pkts. hop6_ok (lookup6 env (take 16 (drop 24 (room (pkt_buf (tg_ctx g) p)))))
      then \<exists>g'. route6_pkts env pkts g = Some g' \<and> stage_total g' = stage_total g + mset pkts
      else route6_pkts env pkts g = None)"
  using route4_pkts_live [OF assms] route6_pkts_live [OF assms] route4_pkts_behind [of _ pkts env g] route6_pkts_behind [of _ pkts env g]
  by (auto simp: hop4_of_def hop6_of_def)

text \<open>A packet for 9.9.9.9 with a route to port 40.\<close>

definition sample_routes :: tx_env where
  "sample_routes = \<lparr>env_tx = \<lambda>h port q ms. length ms div 2, ethaddr_tbl = \<lambda>p. \<lparr>eth_src = 1, eth_dst = 2\<rparr>,
     lookup4 = \<lambda>a. if a = 0x09090909 then 0x01000028 else 0, lookup6 = \<lambda>a. 3\<rparr>"

definition sample_stage :: tx_stage where
  "sample_stage = \<lparr>tg_tx = empty_fwd 0, tg_ctx = sample_ctx, tg_off = \<lambda>p. \<lparr>ol_flags = {}, l2_len = 0, l3_len = 0\<rparr>\<rparr>"

theorem route_pkts_defined_witness:
  "route4_pkts sample_routes [7] sample_stage = None
   \<and> (\<exists>g'. route6_pkts sample_routes [7] sample_stage = Some g' \<and> stage_total g' = {#7#})"
proof -
  have t: "Crypto_Queue.total sample_ctx = {#}" by (rule sample_ctx_ok(5))
  have h: "L3fwd_Tx.held (empty_fwd 0) = {#}" by (simp add: L3fwd_Tx.held_def empty_fwd_ok)
  have d: "driver_ok (env_tx sample_routes)" by (simp add: driver_ok_def sample_routes_def)
  have "headroom_of sample_stage 7 = 128" by (simp add: headroom_of_def sample_stage_def sample_ctx_def sample_buf_def)
  then have l: "live_ok (Crypto_Queue.total (tg_ctx sample_stage) + {#} + mset [7]) sample_stage"
    by (simp add: live_ok_def sample_stage_def t h empty_fwd_ok headroom_of_def)
  have a: "bswap32 (load 4 (room (pkt_buf (tg_ctx sample_stage) 7)) 16) = 0x09090909"
    by (simp add: sample_stage_def sample_ctx_def sample_buf_def) code_simp
  have "stage_total sample_stage = {#}" by (simp add: stage_total_def sample_stage_def t empty_fwd_ok)
  then show ?thesis using route_pkts_defined [OF d l] a
    by (simp add: sample_routes_def hop4_ok_def hop6_ok_def RTE_LPM_LOOKUP_SUCCESS_def RTE_MAX_ETHPORTS_def)
qed

section \<open>Draining\<close>

lemma drain_port_effect:
  assumes "drain_port env port g = Some g'" and "driver_ok (env_tx env)" and "tx_ok (tg_tx g)"
  shows "accounts port [] (tg_tx g) (tg_tx g')" and "buffered port (tg_tx g') = []"
    and "only_bufs (set (buffered port (tg_tx g))) (tg_ctx g) (tg_ctx g')"
proof -
  let ?n = "mbt_len (tx_mbufs (tg_tx g) port)" and ?t = "m_table (tx_mbufs (tg_tx g) port)"
  have "accounts port [] (tg_tx g) (tg_tx g') \<and> buffered port (tg_tx g') = []
      \<and> only_bufs (set (buffered port (tg_tx g))) (tg_ctx g) (tg_ctx g')"
  proof (cases "?n = 0")
    case True
    then show ?thesis using assms(1,3) by (auto simp: drain_port_def accounts_def buffered_def only_bufs_refl)
  next
    case False
    with assms(1) obtain g1 where g1: "secgw_send_burst env ?n port g = Some g1" "g' = on_tx (set_len port 0) g1"
      by (auto simp: drain_port_def Let_def)
    note e = send_burst_effect [OF g1(1)]
    have "?n \<le> length ?t" using assms(3) by (metis less_imp_le tx_ok_def)
    note t = tx_or_free_sent [OF assms(2) this, of port "tx_queue_id (tg_tx g) port" "tg_tx g"]
    have "accounts port [] (tg_tx g) (tg_tx g')"
      using t assms(3) by (auto simp: accounts_def g1(2) e send_burst_def tx_ok_def buffered_def sent_def L3fwd_Tx.MAX_PKT_BURST_def)
    then show ?thesis using e(2) by (simp add: g1(2) buffered_def)
  qed
  then show "accounts port [] (tg_tx g) (tg_tx g')" "buffered port (tg_tx g') = []"
    "only_bufs (set (buffered port (tg_tx g))) (tg_ctx g) (tg_ctx g')" by blast+
qed

lemma drain_port_live:
  assumes "driver_ok (env_tx env)" and "live_ok R g" and "port < 256"
  shows "\<exists>g'. drain_port env port g = Some g' \<and> live_ok R g'"
proof -
  let ?n = "mbt_len (tx_mbufs (tg_tx g) port)"
  have ok: "tx_ok (tg_tx g)" using assms(2) by (simp add: live_ok_def)
  have "mset (buffered port (tg_tx g)) \<subseteq># L3fwd_Tx.held (tg_tx g) + R"
    using buffered_subset_held [OF assms(3), of "tg_tx g"] by (metis subset_mset.add_increasing2 subset_mset.zero_le)
  from live_ok_burst [OF assms(2) this] have "secgw_send_burst env ?n port g \<noteq> None"
    by (intro send_burst_defined) (simp_all add: buffered_def)
  then have "drain_port env port g \<noteq> None" by (simp add: drain_port_def Let_def)
  then obtain g' where g': "drain_port env port g = Some g'" by blast
  note e = drain_port_effect [OF g' assms(1) ok]
  have "L3fwd_Tx.held (tg_tx g') + mset (buffered port (tg_tx g)) = L3fwd_Tx.held (tg_tx g) + {#}"
    using held_change [OF assms(3), of "tg_tx g'" "tg_tx g"] e by (simp add: accounts_def)
  then have "live_ok R g'" using e assms(2) by (intro live_ok_step [of R "{#}" g g']) (simp_all add: accounts_def)
  then show ?thesis using g' by blast
qed

text \<open>Draining empties the buffers of the ports; every packet in them is sent or freed.\<close>

lemma drain_ports:
  assumes "driver_ok (env_tx env)" and "live_ok R g" and "\<forall>p\<in>set ports. p < 256"
  shows "\<exists>g'. fold_option (drain_port env) ports g = Some g' \<and> live_ok R g' \<and> stage_total g' = stage_total g
    \<and> (\<forall>p. buffered p (tg_tx g') = (if p \<in> set ports then [] else buffered p (tg_tx g)))
    \<and> (\<exists>P. only_bufs P (tg_ctx g) (tg_ctx g'))"
  using assms(2,3)
proof (induction ports arbitrary: g)
  case Nil
  then show ?case using only_bufs_refl by fastforce
next
  case (Cons port ports)
  have p: "port < 256" using Cons.prems(2) by simp
  from drain_port_live [OF assms(1) Cons.prems(1) p] obtain g1 where g1: "drain_port env port g = Some g1" "live_ok R g1" by blast
  have "tx_ok (tg_tx g)" using Cons.prems(1) by (simp add: live_ok_def)
  note e = drain_port_effect [OF g1(1) assms(1) this]
  have t: "stage_total g1 = stage_total g"
    using accounts_total [OF e(1) p] only_bufs_total [OF e(3)] by (simp add: stage_total_def)
  from Cons.IH [OF g1(2)] Cons.prems(2) obtain g' where
    g': "fold_option (drain_port env) ports g1 = Some g'" "live_ok R g'" "stage_total g' = stage_total g1"
      "\<And>p. buffered p (tg_tx g') = (if p \<in> set ports then [] else buffered p (tg_tx g1))"
      "\<exists>P. only_bufs P (tg_ctx g1) (tg_ctx g')"
    by auto
  have "\<exists>P. only_bufs P (tg_ctx g) (tg_ctx g')" using g'(5) only_bufs_trans [OF e(3)] by blast
  moreover have "buffered p (tg_tx g') = (if p \<in> set (port # ports) then [] else buffered p (tg_tx g))" for p
    using g'(4) e(1,2) by (auto simp: accounts_def)
  ultimately show ?case using g1(1) g'(1-3) t by auto
qed

end
