(* ===== verification/Gateway.thy ===== *)
theory Gateway
  imports Ipsec_Room Gateway_Tx
begin

text \<open>
  The data path of \<^verbatim>\<open>ipsec-secgw.c\<close> put together: \<^verbatim>\<open>process_pkts\<close> on a
  received burst in its four variants, and the main loop, which drains the transmit buffers from
  time to time and polls the receive queues.  A core has an inbound and an outbound IPsec context
  over one packet memory; the memory is a part of both records, and \<open>share_packets\<close> copies it from
  the context that was used to the other.  The policy databases, the route tables, the crypto
  device and the driver are parameters.
\<close>

section \<open>State\<close>

record gw_env =
  gw_tx :: tx_env
  gw_dev :: crypto_device
  gw_below :: "int \<Rightarrow> u8"
  gw_lcore :: nat
  gw_junk :: ipsec_traffic
  unprotected_port_mask :: u32
  single_sa :: u32
  single_sa_idx :: u32
  sp4_in :: "acl option"
  sp6_in :: "acl option"
  sp4_out :: "acl option"
  sp6_out :: "acl option"

record lcore_conf =
  lc_tx :: "nat fwd_state"
  lc_off :: "nat \<Rightarrow> tx_offload"
  inbound :: ipsec_ctx
  outbound :: ipsec_ctx

definition share_packets :: "ipsec_ctx \<Rightarrow> ipsec_ctx \<Rightarrow> ipsec_ctx" where
  "share_packets s c = c\<lparr>pkt_buf := pkt_buf s, pkt_sa := pkt_sa s, pkt_op := pkt_op s, pkt_status := pkt_status s,
     pkt_session := pkt_session s\<rparr>"

section \<open>Processing a burst\<close>

definition put_pkts :: "nat list \<Rightarrow> traffic_type \<Rightarrow> traffic_type" where
  "put_pkts out t = t\<lparr>tt_pkts := \<lambda>i. if i < length out then out ! i else tt_pkts t i\<rparr>"

definition version_of :: "ipsec_ctx \<Rightarrow> nat \<Rightarrow> u8" where
  "version_of s p = ip_v (room (pkt_buf s p))"

definition place_inbound :: "nat \<Rightarrow> ipsec_traffic \<times> ipsec_ctx \<Rightarrow> ipsec_traffic \<times> ipsec_ctx" where
  "place_inbound p = (\<lambda>(t, s).
     if version_of s p = IPVERSION then (t\<lparr>t_ip4 := push_data IP_P_OFFSET p (t_ip4 t)\<rparr>, s)
     else if version_of s p = IP6_VERSION then (t\<lparr>t_ip6 := push_data IP6_NXT_OFFSET p (t_ip6 t)\<rparr>, s)
     else (t, free_pkts [p] s))"

definition process_pkts_inbound :: "gw_env \<Rightarrow> ipsec_traffic \<Rightarrow> ipsec_ctx \<Rightarrow> (ipsec_traffic \<times> ipsec_ctx) option" where
  "process_pkts_inbound env t s =
     (case ipsec_inbound (gw_dev env) (gw_below env) (gw_lcore env) s (pkts_of (t_ipsec t)) Crypto_Queue.MAX_PKT_BURST of
        None \<Rightarrow> None
      | Some (out, s) \<Rightarrow>
          let n_ip4 = tt_num (t_ip4 t); n_ip6 = tt_num (t_ip6 t);
              (t, s) = fold place_inbound out (t\<lparr>t_ipsec := put_pkts out (t_ipsec t)\<rparr>, s);
              (ip4, s) = inbound_sp_sa (sp4_in env) n_ip4 (t_ip4 t) s;
              (ip6, s) = inbound_sp_sa (sp6_in env) n_ip6 (t_ip6 t) s
          in Some (t\<lparr>t_ip4 := ip4, t_ip6 := ip6\<rparr>, s))"

definition place :: "ipsec_ctx \<Rightarrow> nat \<Rightarrow> ipsec_traffic \<Rightarrow> ipsec_traffic" where
  "place s p t =
     (if version_of s p = IPVERSION then t\<lparr>t_ip4 := push_pkt p (t_ip4 t)\<rparr>
      else t\<lparr>t_ip6 := push_pkt p (t_ip6 t)\<rparr>)"

definition free_all :: "traffic_type \<Rightarrow> ipsec_ctx \<Rightarrow> ipsec_ctx" where
  "free_all t s = fold (\<lambda>p. free_pkts [p]) (pkts_of t) s"

definition process_pkts_outbound :: "gw_env \<Rightarrow> ipsec_traffic \<Rightarrow> ipsec_ctx \<Rightarrow> (ipsec_traffic \<times> ipsec_ctx) option" where
  "process_pkts_outbound env t s =
     (let s = free_all (t_ipsec t) s;
          ips = (t_ipsec t)\<lparr>tt_num := 0\<rparr>;
          (ip4, ips, s) = outbound_sp (sp4_out env) (t_ip4 t) ips s;
          (ip6, ips, s) = outbound_sp (sp6_out env) (t_ip6 t) ips s
      in case ipsec_outbound (gw_dev env) (gw_lcore env) s (pkts_of ips) (map unat (sas_of ips)) Crypto_Queue.MAX_PKT_BURST of
           None \<Rightarrow> None
         | Some (out, s) \<Rightarrow>
             Some (fold (place s) out (t\<lparr>t_ipsec := put_pkts out ips, t_ip4 := ip4, t_ip6 := ip6\<rparr>), s))"

definition process_pkts_inbound_nosp :: "gw_env \<Rightarrow> ipsec_traffic \<Rightarrow> ipsec_ctx \<Rightarrow> (ipsec_traffic \<times> ipsec_ctx) option" where
  "process_pkts_inbound_nosp env t s =
     (let s = free_all (t_ip6 t) (free_all (t_ip4 t) s);
          t = t\<lparr>t_ip4 := (t_ip4 t)\<lparr>tt_num := 0\<rparr>, t_ip6 := (t_ip6 t)\<lparr>tt_num := 0\<rparr>\<rparr>
      in case ipsec_inbound (gw_dev env) (gw_below env) (gw_lcore env) s (pkts_of (t_ipsec t)) Crypto_Queue.MAX_PKT_BURST of
           None \<Rightarrow> None
         | Some (out, s) \<Rightarrow> Some (fold (place s) out (t\<lparr>t_ipsec := put_pkts out (t_ipsec t)\<rparr>), s))"

definition fill_res :: "u32 \<Rightarrow> traffic_type \<Rightarrow> traffic_type" where
  "fill_res r t = t\<lparr>tt_res := \<lambda>i. if i < tt_num t then r else tt_res t i\<rparr>"

text \<open>At the end the index left by the last loop, the number of IPv6 packets, is used to read from the
  array of ESP packets, which was emptied.\<close>

definition process_pkts_outbound_nosp :: "gw_env \<Rightarrow> ipsec_traffic \<Rightarrow> ipsec_ctx \<Rightarrow> (ipsec_traffic \<times> ipsec_ctx) option" where
  "process_pkts_outbound_nosp env t s =
     (let s = free_all (t_ipsec t) s;
          ips = (t_ipsec t)\<lparr>tt_num := 0\<rparr>;
          ip4 = fill_res (single_sa_idx env) (t_ip4 t);
          ip6 = fill_res (single_sa_idx env) (t_ip6 t);
          i = tt_num ip6
      in case ipsec_outbound (gw_dev env) (gw_lcore env) s (pkts_of ip4) (map unat (sas_of ip4)) Crypto_Queue.MAX_PKT_BURST of
           None \<Rightarrow> None
         | Some (out, s) \<Rightarrow>
             let ip4 = put_pkts out ip4; m = tt_pkts ips i
             in if version_of s m = IPVERSION
                then Some (t\<lparr>t_ipsec := ips, t_ip4 := ip4\<lparr>tt_num := length out\<rparr>, t_ip6 := ip6\<rparr>, s)
                else Some (t\<lparr>t_ipsec := ips, t_ip4 := ip4, t_ip6 := ip6\<lparr>tt_num := length out\<rparr>\<rparr>, s))"

definition UNPROTECTED_PORT :: "gw_env \<Rightarrow> nat \<Rightarrow> bool" where
  "UNPROTECTED_PORT env portid \<longleftrightarrow> unprotected_port_mask env AND push_bit portid 1 \<noteq> 0"

definition process_traffic :: "gw_env \<Rightarrow> nat \<Rightarrow> ipsec_traffic \<Rightarrow> ipsec_ctx \<Rightarrow> (ipsec_traffic \<times> ipsec_ctx) option" where
  "process_traffic env portid =
     (if single_sa env \<noteq> 0
      then if UNPROTECTED_PORT env portid then process_pkts_inbound_nosp env else process_pkts_outbound_nosp env
      else if UNPROTECTED_PORT env portid then process_pkts_inbound env else process_pkts_outbound env)"

text \<open>The counts passed to the routing functions are \<^verbatim>\<open>uint8_t\<close>.\<close>

definition route_traffic :: "tx_env \<Rightarrow> ipsec_traffic \<Rightarrow> tx_stage \<Rightarrow> tx_stage option" where
  "route_traffic env t g =
     (case route4_pkts env (take (tt_num (t_ip4 t) mod 256) (pkts_of (t_ip4 t))) g of
        None \<Rightarrow> None
      | Some g \<Rightarrow> route6_pkts env (take (tt_num (t_ip6 t) mod 256) (pkts_of (t_ip6 t))) g)"

definition stage_of :: "lcore_conf \<Rightarrow> ipsec_ctx \<Rightarrow> tx_stage" where
  "stage_of q s = \<lparr>tg_tx = lc_tx q, tg_ctx = s, tg_off = lc_off q\<rparr>"

definition finish_stage :: "bool \<Rightarrow> tx_stage \<Rightarrow> lcore_conf \<Rightarrow> lcore_conf" where
  "finish_stage inb g q =
     \<lparr>lc_tx = tg_tx g, lc_off = tg_off g,
      inbound = (if inb then tg_ctx g else share_packets (tg_ctx g) (inbound q)),
      outbound = (if inb then share_packets (tg_ctx g) (outbound q) else tg_ctx g)\<rparr>"

definition process_pkts :: "gw_env \<Rightarrow> nat list \<Rightarrow> nat \<Rightarrow> lcore_conf \<Rightarrow> lcore_conf option" where
  "process_pkts env pkts portid q =
     (let inb = UNPROTECTED_PORT env portid
      in case prepare_traffic pkts (gw_junk env) (if inb then inbound q else outbound q) of
           None \<Rightarrow> None
         | Some (t, s) \<Rightarrow>
             (case process_traffic env portid t s of
                None \<Rightarrow> None
              | Some (t, s) \<Rightarrow> map_option (\<lambda>g. finish_stage inb g q) (route_traffic (gw_tx env) t (stage_of q s))))"

section \<open>The main loop\<close>

definition US_PER_S :: u64 where "US_PER_S = 1000000"
definition BURST_TX_DRAIN_US :: u64 where "BURST_TX_DRAIN_US = 100"

definition drain_tsc :: "u64 \<Rightarrow> u64" where
  "drain_tsc hz = (hz + US_PER_S - 1) div US_PER_S * BURST_TX_DRAIN_US"

definition drain_lcore :: "gw_env \<Rightarrow> lcore_conf \<Rightarrow> lcore_conf option" where
  "drain_lcore env q = map_option (\<lambda>g. finish_stage False g q) (drain_buffers (gw_tx env) (stage_of q (outbound q)))"

text \<open>A burst comes from a port; the driver has written each frame to its buffer.\<close>

definition receive :: "(nat \<times> pktbuf) list \<Rightarrow> lcore_conf \<Rightarrow> lcore_conf" where
  "receive frames q =
     (let s = fold (\<lambda>(p, m). set_buf p m) frames (outbound q)
      in q\<lparr>outbound := s, inbound := share_packets s (inbound q)\<rparr>)"

definition poll_queue :: "gw_env \<Rightarrow> nat \<times> (nat \<times> pktbuf) list \<Rightarrow> lcore_conf \<Rightarrow> lcore_conf option" where
  "poll_queue env = (\<lambda>(portid, frames) q.
     if 0 < length frames then process_pkts env (map fst frames) portid (receive frames q) else Some q)"

text \<open>One turn of the loop: the time stamp and what each receive queue delivers are the input.\<close>

record turn =
  cur_tsc :: u64
  bursts :: "(nat \<times> (nat \<times> pktbuf) list) list"

definition main_turn :: "gw_env \<Rightarrow> u64 \<Rightarrow> turn \<Rightarrow> u64 \<times> lcore_conf \<Rightarrow> (u64 \<times> lcore_conf) option" where
  "main_turn env hz e = (\<lambda>(prev_tsc, q).
     let diff_tsc = cur_tsc e - prev_tsc
     in case (if drain_tsc hz < diff_tsc then map_option (Pair (cur_tsc e)) (drain_lcore env q) else Some (prev_tsc, q)) of
          None \<Rightarrow> None
        | Some (prev_tsc, q) \<Rightarrow> map_option (Pair prev_tsc) (fold_option (poll_queue env) (bursts e) q))"

definition main_loop :: "gw_env \<Rightarrow> u64 \<Rightarrow> turn list \<Rightarrow> lcore_conf \<Rightarrow> (u64 \<times> lcore_conf) option" where
  "main_loop env hz es q = fold_option (main_turn env hz) es (0, q)"

section \<open>Accounting for the policies\<close>

lemma three_way: "mset (map f (filter P xs)) + mset (map f (filter Q xs)) + mset (map f (filter R xs)) = mset (map f xs)"
  if "\<And>x. (P x \<and> \<not> Q x \<and> \<not> R x) \<or> (\<not> P x \<and> Q x \<and> \<not> R x) \<or> (\<not> P x \<and> \<not> Q x \<and> R x)"
proof (induction xs)
  case (Cons x xs)
  with that [of x] show ?case by auto
qed simp

lemma outbound_sp_accounts:
  assumes "outbound_sp sp ip ips s = (ip', ips', s')"
  shows "\<exists>fs. s' = free_pkts fs s \<and> mset (pkts_of ip') + mset (pkts_of ips') + mset fs = mset (pkts_of ip) + mset (pkts_of ips)"
proof (cases "sp = None \<or> tt_num ip = 0")
  case True
  then have "ip' = ip \<and> ips' = ips \<and> s' = free_pkts [] s"
    using assms by (auto simp: outbound_sp_def free_pkts_def split: option.splits)
  then show ?thesis by (intro exI [of _ "[]"]) simp
next
  case False
  then obtain cl where cl: "sp = Some cl" by auto
  let ?c = "rte_acl_classify cl s ip"
  let ?F = "\<lambda>P. map (tt_pkts ?c) (filter (\<lambda>i. P (tt_res ?c i)) [0..<tt_num ?c])"
  have c: "tt_num ?c = tt_num ip" "tt_pkts ?c = tt_pkts ip" by (simp_all add: rte_acl_classify_def)
  obtain j ip2 ips2 where f: "fold outbound_step [0..<tt_num ?c] (0, ?c, ips, s) = (j, ip2, ips2, free_pkts (?F out_dropped) s)"
    and k: "compacted (\<lambda>i. out_bypassed (tt_res ?c i)) (tt_num ?c) ?c j ip2"
    and p: "pkts_of ips2 = pkts_of ips @ ?F out_protected"
    using outbound_fold [of "tt_num ?c" ?c ips s] by blast
  have r: "ip' = ip2\<lparr>tt_num := j\<rparr>" "ips' = ips2" "s' = free_pkts (?F out_dropped) s"
    using assms False f c(1) by (simp_all add: outbound_sp_def cl)
  have "mset (?F out_bypassed) + mset (?F out_protected) + mset (?F out_dropped) = mset (map (tt_pkts ?c) [0..<tt_num ?c])"
    by (rule three_way) (auto simp: out_bypassed_def out_protected_def)
  then have "mset (pkts_of ip') + mset (pkts_of ips') + mset (?F out_dropped) = mset (pkts_of ip) + mset (pkts_of ips)"
    using compacted_result [OF k] p unfolding r by (simp add: c pkts_of_def [of ip] ac_simps)
  then show ?thesis using r(3) by blast
qed

lemma free_all_eq: "free_all t s = free_pkts (pkts_of t) s"
proof -
  have "fold (\<lambda>p. free_pkts [p]) ps s = free_pkts ps s" for ps
    by (induction ps arbitrary: s) (simp_all add: free_pkts_append, simp add: free_pkts_def)
  then show ?thesis by (simp add: free_all_def)
qed

lemma place_fold:
  "pkts_of (t_ip4 (fold (place s) out t)) = pkts_of (t_ip4 t) @ filter (\<lambda>p. version_of s p = IPVERSION) out"
  "pkts_of (t_ip6 (fold (place s) out t)) = pkts_of (t_ip6 t) @ filter (\<lambda>p. version_of s p \<noteq> IPVERSION) out"
  by (induction out arbitrary: t) (simp_all add: place_def)

lemma free_pkts_keeps: "pkt_buf (free_pkts ps s) = pkt_buf s" "sadb (free_pkts ps s) = sadb s"
  "Crypto_Queue.total (free_pkts ps s) = Crypto_Queue.total s + mset ps" "queues_ok (free_pkts ps s) = queues_ok s"
  by (simp_all add: free_pkts_total) (simp add: free_pkts_def)

section \<open>Outbound bursts\<close>

text \<open>What the outbound gateway leaves of a sorted burst.\<close>

lemma process_pkts_outbound_step:
  assumes "queues_ok s" and "device_ok (gw_dev env)" and "in_place (gw_dev env)" and "short_ivs s"
    and "distinct (pkts_of (t_ip4 t) @ pkts_of (t_ip6 t))"
    and "\<forall>p\<in>set (pkts_of (t_ip4 t) @ pkts_of (t_ip6 t)). 64 \<le> length (headroom (pkt_buf s p))"
  shows "\<exists>t' s'. process_pkts_outbound env t s = Some (t', s') \<and> queues_ok s'
    \<and> mset (pkts_of (t_ip4 t') @ pkts_of (t_ip6 t')) + Crypto_Queue.total s' =
        Crypto_Queue.total s + mset (pkts_of (t_ipsec t)) + mset (pkts_of (t_ip4 t) @ pkts_of (t_ip6 t))
    \<and> tt_num (t_ip4 t') + tt_num (t_ip6 t') \<le> tt_num (t_ip4 t) + tt_num (t_ip6 t) + 32
    \<and> room_kept (set (pkts_of (t_ip4 t) @ pkts_of (t_ip6 t))) s s'"
proof -
  let ?L = "pkts_of (t_ip4 t) @ pkts_of (t_ip6 t)" and ?ips = "(t_ipsec t)\<lparr>tt_num := 0\<rparr>"
  let ?s0 = "free_all (t_ipsec t) s"
  obtain ip4 ips1 s1 where o4: "outbound_sp (sp4_out env) (t_ip4 t) ?ips ?s0 = (ip4, ips1, s1)" using prod_cases3 by blast
  obtain ip6 ips2 s2 where o6: "outbound_sp (sp6_out env) (t_ip6 t) ips1 s1 = (ip6, ips2, s2)" using prod_cases3 by blast
  from outbound_sp_accounts [OF o4] obtain f4 where
    f4: "s1 = free_pkts f4 ?s0" "mset (pkts_of ip4) + mset (pkts_of ips1) + mset f4 = mset (pkts_of (t_ip4 t))" by auto
  from outbound_sp_accounts [OF o6] obtain f6 where
    f6: "s2 = free_pkts f6 s1" "mset (pkts_of ip6) + mset (pkts_of ips2) + mset f6 = mset (pkts_of (t_ip6 t)) + mset (pkts_of ips1)"
    by auto
  have s2: "pkt_buf s2 = pkt_buf s" "sadb s2 = sadb s" "queues_ok s2"
    "Crypto_Queue.total s2 = Crypto_Queue.total s + mset (pkts_of (t_ipsec t)) + mset f4 + mset f6"
    using assms(1) by (simp_all add: f6(1) f4(1) free_all_eq free_pkts_keeps)
  have split: "mset (pkts_of ip4) + mset (pkts_of ip6) + mset (pkts_of ips2) + (mset f4 + mset f6) = mset ?L"
  proof (rule multiset_eqI)
    fix x
    show "count (mset (pkts_of ip4) + mset (pkts_of ip6) + mset (pkts_of ips2) + (mset f4 + mset f6)) x = count (mset ?L) x"
      using arg_cong [OF f4(2), of "\<lambda>M. count M x"] arg_cong [OF f6(2), of "\<lambda>M. count M x"] by simp
  qed
  then have sub: "mset (pkts_of ips2) \<subseteq># mset ?L" by (metis mset_subset_eq_add_left mset_subset_eq_add_right subset_mset.order_trans)
  then have ips2: "set (pkts_of ips2) \<subseteq> set ?L" using set_mset_mono by fastforce
  have d2: "distinct (pkts_of ips2)"
  proof (rule distinct_if_count)
    show "count (mset (pkts_of ips2)) x \<le> 1" for x
      using sub assms(5) unfolding subseteq_mset_def distinct_count_atmost_1 by (metis le_trans zero_le_one linorder_le_cases order.refl)
  qed
  have "\<forall>p\<in>set (pkts_of ips2). \<forall>i. out_ready (pkt_buf s2 p) (sadb s2 i)"
    using assms(4,6) ips2 by (auto simp: out_ready_def s2 short_ivs_def)
  from ipsec_outbound_step [OF s2(3) assms(2) d2 _ this, of "map unat (sas_of ips2)" "gw_lcore env" Crypto_Queue.MAX_PKT_BURST]
  obtain out s' where o: "ipsec_outbound (gw_dev env) (gw_lcore env) s2 (pkts_of ips2) (map unat (sas_of ips2)) Crypto_Queue.MAX_PKT_BURST = Some (out, s')"
    and q: "queues_ok s'" "mset out + Crypto_Queue.total s' = Crypto_Queue.total s2 + mset (pkts_of ips2)" "length out \<le> 32"
    by (auto simp: Crypto_Queue.MAX_PKT_BURST_def)
  have "short_ivs s2" using assms(4) by (simp add: short_ivs_def s2)
  from ipsec_outbound_room [OF o assms(3) this d2] have "room_kept (set (pkts_of ips2)) s2 s'" by simp
  then have room: "room_kept (set ?L) s s'" using room_kept_mono [OF _ ips2] by (simp add: room_kept_def s2)
  define t' where "t' = fold (place s') out (t\<lparr>t_ipsec := put_pkts out ips2, t_ip4 := ip4, t_ip6 := ip6\<rparr>)"
  have p: "process_pkts_outbound env t s = Some (t', s')"
    by (simp add: process_pkts_outbound_def o4 o6 o t'_def)
  have t': "pkts_of (t_ip4 t') = pkts_of ip4 @ filter (\<lambda>p. version_of s' p = IPVERSION) out"
    "pkts_of (t_ip6 t') = pkts_of ip6 @ filter (\<lambda>p. version_of s' p \<noteq> IPVERSION) out"
    by (simp_all add: t'_def place_fold)
  have vs: "mset (filter (\<lambda>p. version_of s' p = IPVERSION) out) + mset (filter (\<lambda>p. version_of s' p \<noteq> IPVERSION) out) = mset out"
    using multiset_partition [of "mset out" "\<lambda>p. version_of s' p = IPVERSION"] by simp
  have "mset (pkts_of (t_ip4 t') @ pkts_of (t_ip6 t')) = mset (pkts_of ip4) + mset (pkts_of ip6) + mset out"
    unfolding t' using vs by (simp add: ac_simps)
  then have m: "mset (pkts_of (t_ip4 t') @ pkts_of (t_ip6 t')) + Crypto_Queue.total s' =
      Crypto_Queue.total s + mset (pkts_of (t_ipsec t)) + mset ?L"
    using q(2) unfolding s2(4) split [symmetric] by (simp add: ac_simps)
  have "size (mset (pkts_of ip4) + mset (pkts_of ip6)) \<le> size (mset ?L)"
    by (rule size_mset_mono) (metis split mset_subset_eq_add_left add.assoc)
  then have "tt_num ip4 + tt_num ip6 \<le> tt_num (t_ip4 t) + tt_num (t_ip6 t)" by simp
  moreover have "tt_num (t_ip4 t') + tt_num (t_ip6 t') = tt_num ip4 + tt_num ip6 + length out"
    using arg_cong [OF t'(1), of length] arg_cong [OF t'(2), of length]
      sum_length_filter_compl [of "\<lambda>p. version_of s' p = IPVERSION" out] by simp
  ultimately have "tt_num (t_ip4 t') + tt_num (t_ip6 t') \<le> tt_num (t_ip4 t) + tt_num (t_ip6 t) + 32" using q(3) by simp
  then show ?thesis using p q(1) m room by blast
qed

section \<open>The state of a core\<close>

definition in_use :: "lcore_conf \<Rightarrow> nat multiset" where
  "in_use q = Crypto_Queue.total (inbound q) + Crypto_Queue.total (outbound q)"

definition lc_total :: "lcore_conf \<Rightarrow> nat multiset" where
  "lc_total q = tx_total (lc_tx q) + in_use q"

definition gw_ok :: "lcore_conf \<Rightarrow> bool" where
  "gw_ok q \<longleftrightarrow> queues_ok (inbound q) \<and> queues_ok (outbound q) \<and> short_ivs (outbound q)
     \<and> pkt_buf (inbound q) = pkt_buf (outbound q)
     \<and> live_ok (in_use q) (stage_of q (outbound q))"

text \<open>The route tables answer ports that have a transmit buffer.\<close>

definition routes_bounded :: "tx_env \<Rightarrow> bool" where
  "routes_bounded env \<longleftrightarrow> (\<forall>a. hop4_ok (lookup4 env a)) \<and> (\<forall>a. hop6_ok (lookup6 env a))"

definition env_ok :: "gw_env \<Rightarrow> bool" where
  "env_ok env \<longleftrightarrow> driver_ok (env_tx (gw_tx env)) \<and> routes_bounded (gw_tx env) \<and> device_ok (gw_dev env) \<and> in_place (gw_dev env)"

text \<open>What the receive side of the driver delivers: at most 32 frames, each in a buffer of its own that
  is not in use, with an Ethernet header and headroom.\<close>

definition frames_ok :: "(nat \<times> pktbuf) list \<Rightarrow> bool" where
  "frames_ok frames \<longleftrightarrow> length frames \<le> 32 \<and> list_all (\<lambda>(p, m). 14 \<le> length (mdata m) \<and> 64 \<le> length (headroom m)) frames"

lemma share_packets_fields [simp]:
  "pkt_buf (share_packets s c) = pkt_buf s" "sadb (share_packets s c) = sadb c"
  "Crypto_Queue.total (share_packets s c) = Crypto_Queue.total c" "queues_ok (share_packets s c) = queues_ok c"
proof -
  show "Crypto_Queue.total (share_packets s c) = Crypto_Queue.total c"
    by (rule Crypto_Queue.total_cong) (simp_all add: share_packets_def)
  show "queues_ok (share_packets s c) = queues_ok c"
    by (rule queues_ok_cong) (simp_all add: share_packets_def)
qed (simp_all add: share_packets_def)

lemma pkt_buf_set_buf: "pkt_buf (set_buf p m s) q = (if q = p then m else pkt_buf s q)"
  by (simp add: set_buf_def)

lemma set_bufs_fields:
  fixes frames :: "(nat \<times> pktbuf) list"
  defines "f \<equiv> fold (\<lambda>(p, m). set_buf p m) frames"
  shows "sadb (f s) = sadb s" and "Crypto_Queue.total (f s) = Crypto_Queue.total s" and "queues_ok (f s) = queues_ok s"
    and "p \<notin> fst ` set frames \<Longrightarrow> pkt_buf (f s) p = pkt_buf s p"
    and "distinct (map fst frames) \<Longrightarrow> (p, m) \<in> set frames \<Longrightarrow> pkt_buf (f s) p = m"
proof -
  have o: "only_bufs (fst ` set frames) s (f s)" unfolding f_def
  proof (induction frames arbitrary: s)
    case Nil
    then show ?case by (simp add: only_bufs_refl)
  next
    case (Cons x frames)
    obtain p m where x: "x = (p, m)" by fastforce
    show ?case
      using only_bufs_trans [OF only_bufs_set_buf [of p s m] Cons.IH, of "fst ` set (x # frames)"]
      by (simp add: x subset_insertI)
  qed
  show "sadb (f s) = sadb s" using o by (auto simp: only_bufs_def)
  show "Crypto_Queue.total (f s) = Crypto_Queue.total s" "queues_ok (f s) = queues_ok s" using only_bufs_total [OF o] by simp_all
  show "pkt_buf (f s) p = pkt_buf s p" if "p \<notin> fst ` set frames" by (rule only_bufs_buf [OF o that])
  show "pkt_buf (f s) p = m" if "distinct (map fst frames)" "(p, m) \<in> set frames"
    unfolding f_def using that
  proof (induction frames arbitrary: s)
    case (Cons x frames)
    obtain p' m' where x: "x = (p', m')" by fastforce
    have keep: "pkt_buf (fold (\<lambda>(p, m). set_buf p m) fs s) p = pkt_buf s p" if "p \<notin> fst ` set fs" for fs :: "(nat \<times> pktbuf) list" and s
      using that by (induction fs arbitrary: s) (auto simp: set_buf_def)
    show ?case
    proof (cases "(p, m) = (p', m')")
      case True
      then have "p \<notin> fst ` set frames" using Cons.prems(1) x by auto
      then show ?thesis using True keep by (simp add: x pkt_buf_set_buf)
    next
      case False
      then show ?thesis using Cons.IH Cons.prems x by auto
    qed
  qed simp
qed

lemma receive_fields [simp]: "lc_tx (receive frames q) = lc_tx q" "lc_off (receive frames q) = lc_off q"
  by (simp_all add: receive_def Let_def)

lemma stage_of_fields [simp]: "tg_tx (stage_of q s) = lc_tx q" "tg_ctx (stage_of q s) = s" "tg_off (stage_of q s) = lc_off q"
  by (simp_all add: stage_of_def)

lemma receive_ok:
  assumes "gw_ok q" and "frames_ok frames" and "distinct (map fst frames)"
    and fresh: "\<forall>p\<in>fst ` set frames. p \<notin># lc_total q"
  defines "q' \<equiv> receive frames q"
  shows "gw_ok q'" and "lc_total q' = lc_total q" and "in_use q' = in_use q"
    and "\<forall>p\<in>set (map fst frames). 14 \<le> length (mdata (pkt_buf (outbound q') p)) \<and> 64 \<le> length (headroom (pkt_buf (outbound q') p))"
proof -
  let ?s = "fold (\<lambda>(p, m). set_buf p m) frames (outbound q)"
  have q': "outbound q' = ?s" "inbound q' = share_packets ?s (inbound q)" by (simp_all add: q'_def receive_def Let_def)
  show u: "in_use q' = in_use q" by (simp add: in_use_def q' set_bufs_fields)
  then show "lc_total q' = lc_total q" by (simp add: lc_total_def q'_def)
  have "headroom_of (stage_of q' (outbound q')) p = headroom_of (stage_of q (outbound q)) p"
    if "p \<in># L3fwd_Tx.held (lc_tx q) + in_use q" for p
  proof -
    have "p \<in># lc_total q" using that by (auto simp: lc_total_def tx_total_def)
    then have "p \<notin> fst ` set frames" using fresh by blast
    then show ?thesis by (simp add: headroom_of_def q' set_bufs_fields(4))
  qed
  then have "live_ok (in_use q') (stage_of q' (outbound q'))"
    using assms(1) unfolding u by (simp add: gw_ok_def live_ok_def q'_def)
  then show "gw_ok q'" using assms(1) by (simp add: gw_ok_def q' set_bufs_fields short_ivs_def)
  show "\<forall>p\<in>set (map fst frames). 14 \<le> length (mdata (pkt_buf (outbound q') p)) \<and> 64 \<le> length (headroom (pkt_buf (outbound q') p))"
    using assms(2) by (auto simp: q' set_bufs_fields(5) [OF assms(3)] frames_ok_def list_all_iff)
qed

lemma stripped_ctx:
  "sadb (stripped kd ps s) = sadb s" "queues_ok (stripped kd ps s) = queues_ok s"
  "Crypto_Queue.total (stripped kd ps s) = Crypto_Queue.total s + mset (filter (\<lambda>p. kd p = Kind_other) ps)"
proof -
  define b where "b = (\<lambda>p. if p \<in> set ps \<and> kd p \<noteq> Kind_other then strip_ether (pkt_buf s p) else pkt_buf s p)"
  have o: "only_bufs (set ps) s (s\<lparr>pkt_buf := b\<rparr>)" unfolding only_bufs_def by (rule exI [of _ b]) (simp add: b_def)
  have e: "stripped kd ps s = free_pkts (filter (\<lambda>p. kd p = Kind_other) ps) (s\<lparr>pkt_buf := b\<rparr>)" by (simp add: stripped_def b_def)
  show "sadb (stripped kd ps s) = sadb s" by (simp add: e)
  show "queues_ok (stripped kd ps s) = queues_ok s"
    "Crypto_Queue.total (stripped kd ps s) = Crypto_Queue.total s + mset (filter (\<lambda>p. kd p = Kind_other) ps)"
    using only_bufs_total [OF o] by (simp_all add: e free_pkts_keeps)
qed

lemma stripped_headroom:
  "length (headroom (pkt_buf s p)) \<le> length (headroom (pkt_buf (stripped kd ps s) p))"
  "p \<in> set ps \<Longrightarrow> kd p \<noteq> Kind_other \<Longrightarrow> 14 \<le> length (mdata (pkt_buf s p)) \<Longrightarrow>
   length (headroom (pkt_buf (stripped kd ps s) p)) = length (headroom (pkt_buf s p)) + 14"
  by (simp_all add: stripped_def free_pkts_def strip_ether_def)

lemma four_kinds:
  "mset (filter (\<lambda>p. kd p = Kind_other) ps) + mset (filter (\<lambda>p. kd p = Kind_esp) ps)
   + (mset (filter (\<lambda>p. kd p = Kind_ip4) ps) + mset (filter (\<lambda>p. kd p = Kind_ip6) ps)) = mset ps"
proof (induction ps)
  case (Cons p ps)
  then show ?case by (cases "kd p") auto
qed simp

text \<open>Routing what is left of a burst.\<close>

lemma route_traffic_live:
  assumes "driver_ok (env_tx env)" and "routes_bounded env" and "tt_num (t_ip4 t) + tt_num (t_ip6 t) < 256"
    and "live_ok (Crypto_Queue.total (tg_ctx g) + X + mset (pkts_of (t_ip4 t) @ pkts_of (t_ip6 t))) g"
  shows "\<exists>g'. route_traffic env t g = Some g' \<and> live_ok (Crypto_Queue.total (tg_ctx g') + X) g'
    \<and> stage_total g' = stage_total g + mset (pkts_of (t_ip4 t) @ pkts_of (t_ip6 t))
    \<and> queues_ok (tg_ctx g') = queues_ok (tg_ctx g) \<and> sadb (tg_ctx g') = sadb (tg_ctx g)"
proof -
  let ?p4 = "pkts_of (t_ip4 t)" and ?p6 = "pkts_of (t_ip6 t)"
  have n: "take (tt_num (t_ip4 t) mod 256) ?p4 = ?p4" "take (tt_num (t_ip6 t) mod 256) ?p6 = ?p6" using assms(3) by simp_all
  have h: "\<forall>p\<in>set ?p4. hop4_ok (hop4_of env g p)" "\<forall>p\<in>set ?p6. hop6_ok (hop6_of env g1 p)" for g1
    using assms(2) by (simp_all add: routes_bounded_def hop4_of_def hop6_of_def)
  have "live_ok (Crypto_Queue.total (tg_ctx g) + (X + mset ?p6) + mset ?p4) g" using assms(4) by (simp add: ac_simps)
  from route4_pkts_live [OF assms(1) this h(1)] obtain g1 where
    g1: "route4_pkts env ?p4 g = Some g1" "live_ok (Crypto_Queue.total (tg_ctx g1) + (X + mset ?p6)) g1"
      "stage_total g1 = stage_total g + mset ?p4" "queues_ok (tg_ctx g1) = queues_ok (tg_ctx g)" "sadb (tg_ctx g1) = sadb (tg_ctx g)"
    by blast
  have "live_ok (Crypto_Queue.total (tg_ctx g1) + X + mset ?p6) g1" using g1(2) by (simp add: ac_simps)
  from route6_pkts_live [OF assms(1) this h(2)] g1 show ?thesis by (auto simp: route_traffic_def n ac_simps)
qed

lemma process_pkts_outbound_live:
  assumes "env_ok env" and "single_sa env = 0" and "\<not> UNPROTECTED_PORT env portid" and "gw_ok q"
    and "distinct ps" and "length ps \<le> 32" and "\<forall>p\<in>set ps. p \<notin># lc_total q"
    and bufs: "\<forall>p\<in>set ps. 14 \<le> length (mdata (pkt_buf (outbound q) p)) \<and> 64 \<le> length (headroom (pkt_buf (outbound q) p))"
  shows "\<exists>q'. process_pkts env ps portid q = Some q' \<and> gw_ok q' \<and> lc_total q' = lc_total q + mset ps"
proof -
  let ?s = "outbound q"
  define kd where "kd = (\<lambda>p. kind_of (pkt_buf ?s p))"
  let ?s1 = "stripped kd ps ?s"
  have "\<forall>p\<in>set ps. 14 \<le> length (mdata (pkt_buf ?s p))" "\<forall>p\<in>set ps. kd p = kind_of (pkt_buf ?s p)" using bufs by (simp_all add: kd_def)
  from prepare_fold [OF assms(5) this, of "reset_traffic (gw_junk env)"] obtain t where
    t: "prepare_traffic ps (gw_junk env) ?s = Some (t, ?s1)" "traffic_after kd ps (reset_traffic (gw_junk env)) t"
    by (auto simp: prepare_traffic_eq)
  have pk: "pkts_of (t_ipsec t) = filter (\<lambda>p. kd p = Kind_esp) ps" "pkts_of (t_ip4 t) = filter (\<lambda>p. kd p = Kind_ip4) ps"
    "pkts_of (t_ip6 t) = filter (\<lambda>p. kd p = Kind_ip6) ps"
    using t(2) by (simp_all add: traffic_after_def reset_traffic_def)
  let ?L = "pkts_of (t_ip4 t) @ pkts_of (t_ip6 t)"
  have L: "distinct ?L" "set ?L \<subseteq> set ps" "\<forall>p\<in>set ?L. kd p \<noteq> Kind_other" using assms(5) by (auto simp: pk)
  have hr: "78 \<le> length (headroom (pkt_buf ?s1 p))" if "p \<in> set ?L" for p
    using that L bufs stripped_headroom(2) [of p ps kd ?s] by fastforce
  then have hr64: "\<forall>p\<in>set ?L. 64 \<le> length (headroom (pkt_buf ?s1 p))" by fastforce
  have s1: "queues_ok ?s1" "short_ivs ?s1" using assms(4) by (simp_all add: gw_ok_def stripped_ctx short_ivs_def)
  from process_pkts_outbound_step [OF s1(1) _ _ s1(2) L(1) hr64, of env] assms(1) obtain t' s' where
    p: "process_pkts_outbound env t ?s1 = Some (t', s')" and q': "queues_ok s'"
    and m: "mset (pkts_of (t_ip4 t') @ pkts_of (t_ip6 t')) + Crypto_Queue.total s' =
        Crypto_Queue.total ?s1 + mset (pkts_of (t_ipsec t)) + mset ?L"
    and n: "tt_num (t_ip4 t') + tt_num (t_ip6 t') \<le> tt_num (t_ip4 t) + tt_num (t_ip6 t) + 32"
    and k: "room_kept (set ?L) ?s1 s'"
    unfolding env_ok_def by blast
  let ?M = "mset (pkts_of (t_ip4 t') @ pkts_of (t_ip6 t'))" and ?I = "Crypto_Queue.total (inbound q)" and ?g = "stage_of q s'"
  have M: "?M + Crypto_Queue.total s' = Crypto_Queue.total ?s + mset ps"
    unfolding m stripped_ctx(3) four_kinds [of kd ps, symmetric] pk by (simp add: ac_simps)
  let ?A = "L3fwd_Tx.held (lc_tx q) + (Crypto_Queue.total s' + ?I + ?M)"
  have A: "?A = L3fwd_Tx.held (lc_tx q) + in_use q + mset ps"
    unfolding in_use_def using M by (simp add: ac_simps)
  have fresh: "p \<notin># L3fwd_Tx.held (lc_tx q) + in_use q" if "p \<in> set ps" for p
    using assms(7) that by (auto simp: lc_total_def tx_total_def)
  have live: "live_ok (in_use q) (stage_of q (outbound q))" using assms(4) by (simp add: gw_ok_def)
  have "live_ok (Crypto_Queue.total s' + ?I + ?M) ?g" unfolding live_ok_def stage_of_fields A
  proof (intro conjI allI ballI)
    show "tx_ok (lc_tx q)" using live by (simp add: live_ok_def)
  next
    fix p
    show "count (L3fwd_Tx.held (lc_tx q) + in_use q + mset ps) p \<le> 1"
    proof (cases "p \<in> set ps")
      case True
      then have "count (L3fwd_Tx.held (lc_tx q) + in_use q) p = 0" using fresh by (simp only: not_in_iff)
      then show ?thesis using assms(5) unfolding distinct_count_atmost_1 by (auto split: if_splits)
    next
      case False
      then have "count (mset ps) p = 0" by simp
      then show ?thesis using live unfolding live_ok_def stage_of_fields by (metis count_union add.right_neutral)
    qed
  next
    fix p assume p: "p \<in># L3fwd_Tx.held (lc_tx q) + in_use q + mset ps"
    have k1: "length (headroom (pkt_buf ?s1 p)) \<le> length (headroom (pkt_buf s' p)) + (if p \<in> set ?L then 64 else 0)"
      using k unfolding room_kept_def by blast
    note k0 = stripped_headroom(1) [of ?s p kd ps]
    show "14 \<le> headroom_of ?g p"
    proof (cases "p \<in> set ?L")
      case True
      then show ?thesis using hr [OF True] k1 by (simp add: headroom_of_def)
    next
      case False
      have "14 \<le> length (headroom (pkt_buf ?s p))"
        using p live bufs by (cases "p \<in> set ps") (fastforce simp: live_ok_def headroom_of_def)+
      then show ?thesis using False k0 k1 by (simp add: headroom_of_def)
    qed
  qed
  then have lv: "live_ok (Crypto_Queue.total (tg_ctx ?g) + ?I + ?M) ?g" by simp
  have "length (filter (\<lambda>p. kd p = Kind_ip4) ps) + length (filter (\<lambda>p. kd p = Kind_ip6) ps) \<le> length ps"
    by (induction ps) auto
  then have "tt_num (t_ip4 t) + tt_num (t_ip6 t) \<le> 32"
    using assms(6) pk(2,3) by (metis length_pkts_of le_trans)
  then have "tt_num (t_ip4 t') + tt_num (t_ip6 t') < 256" using n by simp
  from route_traffic_live [OF _ _ this lv, of "gw_tx env"] assms(1) obtain g' where
    g': "route_traffic (gw_tx env) t' ?g = Some g'" "live_ok (Crypto_Queue.total (tg_ctx g') + ?I) g'"
      "stage_total g' = stage_total ?g + ?M" "queues_ok (tg_ctx g') = queues_ok s'" "sadb (tg_ctx g') = sadb s'"
    by (auto simp: env_ok_def)
  let ?q = "finish_stage False g' q"
  have r: "process_pkts env ps portid q = Some ?q"
    using assms(2,3) t(1) p g'(1) by (simp add: process_pkts_def process_traffic_def)
  have st: "stage_of ?q (outbound ?q) = g'" by (simp add: finish_stage_def stage_of_def)
  have sh: "short_ivs s'" using short_ivs_kept [OF k s1(2)] .
  have "gw_ok ?q"
    unfolding gw_ok_def st using assms(4) q' g'(2,4,5) sh
    by (simp add: finish_stage_def in_use_def short_ivs_def gw_ok_def add.commute)
  moreover have "lc_total ?q = lc_total q + mset ps"
  proof -
    have "lc_total ?q = stage_total g' + ?I" by (simp add: lc_total_def in_use_def finish_stage_def stage_total_def ac_simps)
    also have "\<dots> = tx_total (lc_tx q) + ?I + (?M + Crypto_Queue.total s')" unfolding g'(3) by (simp add: stage_total_def ac_simps)
    finally show ?thesis unfolding M by (simp add: lc_total_def in_use_def ac_simps)
  qed
  ultimately show ?thesis using r by blast
qed

section \<open>Runs of the main loop\<close>

lemma drain_lcore_live:
  assumes "env_ok env" and "gw_ok q"
  shows "\<exists>q'. drain_lcore env q = Some q' \<and> gw_ok q' \<and> lc_total q' = lc_total q
    \<and> (\<forall>p<RTE_MAX_ETHPORTS. buffered p (lc_tx q') = [])"
proof -
  let ?g = "stage_of q (outbound q)"
  have "live_ok (in_use q) ?g" "\<forall>p\<in>set [0..<RTE_MAX_ETHPORTS]. p < 256"
    using assms(2) by (simp_all add: gw_ok_def RTE_MAX_ETHPORTS_def)
  from drain_ports [OF _ this, of "gw_tx env"] assms(1) obtain g' P where
    g': "drain_buffers (gw_tx env) ?g = Some g'" "live_ok (in_use q) g'" "stage_total g' = stage_total ?g"
      "only_bufs P (outbound q) (tg_ctx g')"
    and b: "\<And>p. p < RTE_MAX_ETHPORTS \<Longrightarrow> buffered p (tg_tx g') = []"
    by (auto simp: env_ok_def drain_buffers_def)
  let ?q = "finish_stage False g' q"
  note o = only_bufs_total [OF g'(4)]
  have st: "stage_of ?q (outbound ?q) = g'" by (simp add: finish_stage_def stage_of_def)
  have u: "in_use ?q = in_use q" using o by (simp add: in_use_def finish_stage_def)
  have sa: "sadb (tg_ctx g') = sadb (outbound q)" using g'(4) by (auto simp: only_bufs_def)
  have "gw_ok ?q"
    unfolding gw_ok_def st u using assms(2) g'(2) o sa by (simp add: finish_stage_def gw_ok_def short_ivs_def)
  moreover have "lc_total ?q = lc_total q"
    using g'(3) o u by (simp add: lc_total_def stage_total_def finish_stage_def)
  moreover have "drain_lcore env q = Some ?q" using g'(1) by (simp add: drain_lcore_def)
  ultimately show ?thesis using b by (auto simp: finish_stage_def)
qed

definition bursts_ok :: "gw_env \<Rightarrow> (nat \<times> (nat \<times> pktbuf) list) list \<Rightarrow> bool" where
  "bursts_ok env bs \<longleftrightarrow> list_all (\<lambda>(port, frames). \<not> UNPROTECTED_PORT env port \<and> frames_ok frames) bs"

definition names :: "(nat \<times> (nat \<times> pktbuf) list) list \<Rightarrow> nat list" where
  "names bs = map fst (concat (map snd bs))"

lemma poll_queues_live:
  assumes "env_ok env" and "single_sa env = 0"
  shows "gw_ok q \<Longrightarrow> bursts_ok env bs \<Longrightarrow> distinct (names bs) \<Longrightarrow> \<forall>p\<in>set (names bs). p \<notin># lc_total q \<Longrightarrow>
    \<exists>q'. fold_option (poll_queue env) bs q = Some q' \<and> gw_ok q' \<and> lc_total q' = lc_total q + mset (names bs)"
proof (induction bs arbitrary: q)
  case Nil
  then show ?case by (simp add: names_def)
next
  case (Cons b bs)
  obtain port frames where b: "b = (port, frames)" by fastforce
  have ns: "names (b # bs) = map fst frames @ names bs" by (simp add: names_def b)
  have ok: "\<not> UNPROTECTED_PORT env port" "frames_ok frames" "bursts_ok env bs" using Cons.prems(2) by (simp_all add: bursts_ok_def b)
  have "\<exists>q1. poll_queue env b q = Some q1 \<and> gw_ok q1 \<and> lc_total q1 = lc_total q + mset (map fst frames)"
  proof (cases frames)
    case Nil
    then show ?thesis using Cons.prems(1) by (simp add: poll_queue_def b)
  next
    case nonempty: (Cons x xs)
    have d: "distinct (map fst frames)" "\<forall>p\<in>fst ` set frames. p \<notin># lc_total q" using Cons.prems(3,4) by (auto simp: ns)
    note r = receive_ok [OF Cons.prems(1) ok(2) d]
    have "length (map fst frames) \<le> 32" using ok(2) by (simp add: frames_ok_def)
    moreover have "\<forall>p\<in>set (map fst frames). p \<notin># lc_total (receive frames q)" using d(2) r(2) by simp
    ultimately show ?thesis
      using process_pkts_outbound_live [OF assms ok(1) r(1) d(1) _ _ r(4)] r(2) nonempty by (simp add: poll_queue_def b)
  qed
  then obtain q1 where q1: "poll_queue env b q = Some q1" "gw_ok q1" "lc_total q1 = lc_total q + mset (map fst frames)" by blast
  have "distinct (names bs)" "\<forall>p\<in>set (names bs). p \<notin># lc_total q1"
    using Cons.prems(3,4) unfolding ns q1(3) by auto
  from Cons.IH [OF q1(2) ok(3) this] q1 show ?case by (auto simp: ns ac_simps)
qed

definition run_names :: "turn list \<Rightarrow> nat list" where
  "run_names es = concat (map (names \<circ> bursts) es)"

lemma main_turn_live:
  assumes "env_ok env" and "single_sa env = 0" and "gw_ok q" and "bursts_ok env (bursts e)"
    and "distinct (names (bursts e))" and "\<forall>p\<in>set (names (bursts e)). p \<notin># lc_total q"
  shows "\<exists>tsc q'. main_turn env hz e (prev, q) = Some (tsc, q') \<and> gw_ok q' \<and> lc_total q' = lc_total q + mset (names (bursts e))"
proof -
  obtain q1 prev1 where q1: "gw_ok q1" "lc_total q1 = lc_total q"
    and d: "(if drain_tsc hz < cur_tsc e - prev then map_option (Pair (cur_tsc e)) (drain_lcore env q) else Some (prev, q)) = Some (prev1, q1)"
  proof (cases "drain_tsc hz < cur_tsc e - prev")
    case True
    obtain q1 where "drain_lcore env q = Some q1" "gw_ok q1" "lc_total q1 = lc_total q"
      using drain_lcore_live [OF assms(1,3)] by blast
    then show ?thesis using that [of q1 "cur_tsc e"] True by simp
  next
    case False
    then show ?thesis using that [of q prev] assms(3) by simp
  qed
  have "\<forall>p\<in>set (names (bursts e)). p \<notin># lc_total q1" using assms(6) q1(2) by simp
  from poll_queues_live [OF assms(1,2) q1(1) assms(4,5) this] q1(2) d show ?thesis
    unfolding main_turn_def prod.case Let_def d by auto
qed

lemma main_loop_live:
  assumes "env_ok env" and "single_sa env = 0"
  shows "gw_ok q \<Longrightarrow> list_all (\<lambda>e. bursts_ok env (bursts e)) es \<Longrightarrow> distinct (run_names es) \<Longrightarrow>
    \<forall>p\<in>set (run_names es). p \<notin># lc_total q \<Longrightarrow>
    \<exists>tsc q'. fold_option (main_turn env hz) es (prev, q) = Some (tsc, q') \<and> gw_ok q' \<and> lc_total q' = lc_total q + mset (run_names es)"
proof (induction es arbitrary: prev q)
  case Nil
  then show ?case by (simp add: run_names_def)
next
  case (Cons e es)
  have ns: "run_names (e # es) = names (bursts e) @ run_names es" by (simp add: run_names_def)
  have e: "bursts_ok env (bursts e)" "distinct (names (bursts e))" "\<forall>p\<in>set (names (bursts e)). p \<notin># lc_total q"
    using Cons.prems by (auto simp: ns)
  from main_turn_live [OF assms Cons.prems(1) e, of hz prev] obtain tsc q1 where
    q1: "main_turn env hz e (prev, q) = Some (tsc, q1)" "gw_ok q1" "lc_total q1 = lc_total q + mset (names (bursts e))"
    by blast
  have "list_all (\<lambda>e. bursts_ok env (bursts e)) es" "distinct (run_names es)" "\<forall>p\<in>set (run_names es). p \<notin># lc_total q1"
    using Cons.prems(2-4) unfolding ns q1(3) by auto
  from Cons.IH [OF q1(2) this, of tsc] q1 show ?case by (auto simp: ns ac_simps)
qed

text \<open>C1: The gateway does not crash on packets from protected ports and loses none of them: from a
  good state, for every sequence of turns of the main loop, whatever the driver, the crypto device and
  the policies answer and whatever frames arrive, and for all route tables that only answer ports
  below 32, the size of \<^verbatim>\<open>tx_mbufs\<close>, the loop body returns, the state
  stays good, and every frame received is afterwards sent, freed, in a transmit buffer, or held by
  the crypto queues, once.  The databases are those of the core alone.  What happens for other
  ports is stated with the routing functions in Gateway_Tx.\<close>

theorem main_loop_conserves:
  assumes "env_ok env" and "single_sa env = 0" and "gw_ok q" and "list_all (\<lambda>e. bursts_ok env (bursts e)) es"
    and "distinct (run_names es)" and "\<forall>p\<in>set (run_names es). p \<notin># lc_total q"
  shows "\<exists>tsc q'. main_loop env hz es q = Some (tsc, q') \<and> gw_ok q' \<and> lc_total q' = lc_total q + mset (run_names es)"
  unfolding main_loop_def by (rule main_loop_live [OF assms])

text \<open>When more time than the drain interval has passed since the last drain, a turn empties the
  transmit buffer of every port before it polls: no packet waits there for ever.\<close>

theorem drain_lcore_empties:
  assumes "env_ok env" and "gw_ok q" and "drain_tsc hz < cur_tsc e - prev" and "bursts e = []"
  shows "\<exists>q'. main_turn env hz e (prev, q) = Some (cur_tsc e, q') \<and> lc_total q' = lc_total q
    \<and> (\<forall>p<RTE_MAX_ETHPORTS. buffered p (lc_tx q') = [])"
  using drain_lcore_live [OF assms(1,2)] assms(3,4) by (auto simp: main_turn_def Let_def)

section \<open>Example\<close>

definition sample_env :: gw_env where
  "sample_env = \<lparr>gw_tx = \<lparr>env_tx = \<lambda>h port q ms. length ms div 2, ethaddr_tbl = \<lambda>p. \<lparr>eth_src = 1, eth_dst = 2\<rparr>,
       lookup4 = \<lambda>a. 0x01000003, lookup6 = \<lambda>a. 3\<rparr>,
     gw_dev = sample_dev, gw_below = \<lambda>i. 0, gw_lcore = 0, gw_junk = sample_traffic, unprotected_port_mask = 2,
     single_sa = 0, single_sa_idx = 0, sp4_in = None, sp6_in = None,
     sp4_out = Some (user_data \<circ> sample_policy), sp6_out = None\<rparr>"

definition sample_lcore :: lcore_conf where
  "sample_lcore = \<lparr>lc_tx = empty_fwd 0, lc_off = \<lambda>p. \<lparr>ol_flags = {}, l2_len = 0, l3_len = 0\<rparr>,
     inbound = sample_ctx, outbound = sample_ctx\<rparr>"

definition sample_turn :: turn where
  "sample_turn = \<lparr>cur_tsc = 5000, bursts = [(0, [(7, sample_frame [8, 0] 0 17), (8, sample_frame [8, 0] 0 6)]),
     (2, [(9, sample_frame [0x86, 0xDD] 6 0)])]\<rparr>"

lemma sample_env_ok: "env_ok sample_env" "gw_ok sample_lcore" "lc_total sample_lcore = {#}" "single_sa sample_env = 0"
proof -
  show "env_ok sample_env"
    by (simp add: env_ok_def sample_env_def sample_dev_ok driver_ok_def in_place_def routes_bounded_def hop4_ok_def hop6_ok_def
        RTE_MAX_ETHPORTS_def) (simp add: sample_dev_def)
  have t: "Crypto_Queue.total sample_ctx = {#}" by (rule sample_ctx_ok(5))
  have h: "L3fwd_Tx.held (empty_fwd 0) = {#}" by (simp add: L3fwd_Tx.held_def empty_fwd_ok)
  have "short_ivs sample_ctx" using sample_ctx_ok(3) by (simp add: short_ivs_def out_ready_def)
  then show "gw_ok sample_lcore"
    by (simp add: gw_ok_def sample_lcore_def sample_ctx_ok(1) live_ok_def in_use_def t h empty_fwd_ok)
  show "lc_total sample_lcore = {#}" by (simp add: lc_total_def in_use_def sample_lcore_def t empty_fwd_ok)
qed (simp add: sample_env_def)

theorem main_loop_conserves_witness:
  "\<exists>tsc q'. main_loop sample_env 1000000 [sample_turn] sample_lcore = Some (tsc, q') \<and> lc_total q' = {#7, 8, 9#}"
proof -
  have n: "run_names [sample_turn] = [7, 8, 9]" by (simp add: run_names_def names_def sample_turn_def)
  have "list_all (\<lambda>e. bursts_ok sample_env (bursts e)) [sample_turn]"
    by (simp add: bursts_ok_def sample_turn_def UNPROTECTED_PORT_def sample_env_def frames_ok_def sample_frame_def)
  from main_loop_conserves [OF sample_env_ok(1,4,2) this, of 1000000] show ?thesis
    unfolding n sample_env_ok(3) by auto
qed

theorem drain_lcore_empties_witness:
  "\<exists>q'. main_turn sample_env 1000000 (sample_turn\<lparr>bursts := []\<rparr>) (0, sample_lcore) = Some (5000, q')
     \<and> buffered 3 (lc_tx q') = []"
proof -
  have "drain_tsc 1000000 < cur_tsc (sample_turn\<lparr>bursts := []\<rparr>) - 0"
    by (simp add: drain_tsc_def US_PER_S_def BURST_TX_DRAIN_US_def sample_turn_def)
  from drain_lcore_empties [OF sample_env_ok(1,2) this] show ?thesis
    by (auto simp: sample_turn_def RTE_MAX_ETHPORTS_def)
qed

end
