(* ===== verification/Config.thy ===== *)
theory Config
  imports Cfg_Parser
begin

text \<open>
  The configuration as a whole: the parsers of the four kinds of rules, the file loop
  \<^verbatim>\<open>parse_cfg_file\<close>, and the tables built from the rules at start-up (\<^verbatim>\<open>sp4_init\<close>,
  \<^verbatim>\<open>sp6_init\<close>, \<^verbatim>\<open>rt_init\<close>).  The DPDK command line, classifier and route tables are
  parameters.
\<close>

section \<open>The rules read so far\<close>

record ipsec_cfg =
  acl4_rules_in :: "acl_rule list"
  acl4_rules_out :: "acl_rule list"
  acl6_rules_in :: "acl_rule list"
  acl6_rules_out :: "acl_rule list"
  cfg_sa_in :: "ipsec_sa list"
  cfg_sa_out :: "ipsec_sa list"
  rt_ip4 :: "ip4_route list"
  rt_ip6 :: "ip6_route list"

definition empty_cfg :: ipsec_cfg where
  "empty_cfg = \<lparr>acl4_rules_in = [], acl4_rules_out = [], acl6_rules_in = [], acl6_rules_out = [],
     cfg_sa_in = [], cfg_sa_out = [], rt_ip4 = [], rt_ip6 = []\<rparr>"

section \<open>One line\<close>

text \<open>Reading \<^verbatim>\<open>tokens[0]\<close> or \<^verbatim>\<open>tokens[1]\<close> when there is no such token goes through
  a null pointer.\<close>

definition token_at :: "nat \<Rightarrow> string list \<Rightarrow> string outcome" where
  "token_at i tokens = (if i < length tokens then Value (tokens ! i) else Undefined)"

definition sa_missing_checks :: "sa_args \<Rightarrow> ipsec_sa outcome" where
  "sa_missing_checks a = app_check (cipher_algo_p a) (app_check (auth_algo_p a) (app_check (mode_p a) (Value (sa_rule a))))"

definition start_sa :: "string \<Rightarrow> sa_args" where
  "start_sa t = \<lparr>sa_rule = zero_sa\<lparr>spi := atoi32 t\<rparr>, mode_p = False, cipher_algo_p = False, auth_algo_p = False,
     src_p = False, dst_p = False\<rparr>"

definition parse_sa_tokens :: "u32 \<Rightarrow> string list \<Rightarrow> ipsec_cfg \<Rightarrow> ipsec_cfg outcome" where
  "parse_sa_tokens rnd tokens c =
     bind_outcome (token_at 0 tokens) (\<lambda>t0.
     let inbound = (t0 = ''in''); tab = (if inbound then cfg_sa_in c else cfg_sa_out c)
     in app_check (int (length tab) \<le> uint (IPSEC_SA_MAX_ENTRIES - 1))
          (bind_outcome (token_at 1 tokens) (\<lambda>t1.
           app_check (is_str_num t1)
             (bind_outcome (parse_tokens (sa_step rnd) (drop 2 tokens) (start_sa t1)) (\<lambda>a.
              bind_outcome (sa_missing_checks a) (\<lambda>r.
                Value (if inbound then c\<lparr>cfg_sa_in := cfg_sa_in c @ [r]\<rparr>
                       else c\<lparr>cfg_sa_out := cfg_sa_out c @ [r]\<rparr>)))))))"

definition start_sp :: "nat \<Rightarrow> sp_args" where
  "start_sp n = \<lparr>sp_rule = \<lparr>category_mask = 1, acl_priority = 0, userdata = 0, acl_field = replicate n (0, 0)\<rparr>,
     esp_p = False, protect_p = False, bypass_p = False, discard_p = False, pri_p = False, sp_src_p = False,
     sp_dst_p = False, proto_p = False, sport_p = False, dport_p = False\<rparr>"

definition sp_missing_checks :: "sp_args \<Rightarrow> acl_rule outcome" where
  "sp_missing_checks a =
     app_check (esp_p a) (app_check (protect_p a \<or> bypass_p a \<or> discard_p a) (Value (sp_rule a)))"

definition SP4_MAX_ACL_RULE_NUM :: int where "SP4_MAX_ACL_RULE_NUM = 300000"
definition SP6_MAX_ACL_RULE_NUM :: int where "SP6_MAX_ACL_RULE_NUM = 1024"

definition parse_sp4_tokens :: "string list \<Rightarrow> ipsec_cfg \<Rightarrow> ipsec_cfg outcome" where
  "parse_sp4_tokens tokens c =
     bind_outcome (token_at 1 tokens) (\<lambda>t1.
       if t1 = ''in'' then
         app_check (int (length (acl4_rules_in c)) \<le> SP4_MAX_ACL_RULE_NUM - 1)
           (bind_outcome (parse_tokens sp4_step (drop 2 tokens) (start_sp 5)) (\<lambda>a.
            bind_outcome (sp_missing_checks a) (\<lambda>r. Value (c\<lparr>acl4_rules_in := acl4_rules_in c @ [r]\<rparr>))))
       else if t1 = ''out'' then
         app_check (int (length (acl4_rules_out c)) \<le> SP4_MAX_ACL_RULE_NUM - 1)
           (bind_outcome (parse_tokens sp4_step (drop 2 tokens) (start_sp 5)) (\<lambda>a.
            bind_outcome (sp_missing_checks a) (\<lambda>r. Value (c\<lparr>acl4_rules_out := acl4_rules_out c @ [r]\<rparr>))))
       else Failure)"

definition parse_sp6_tokens :: "string list \<Rightarrow> ipsec_cfg \<Rightarrow> ipsec_cfg outcome" where
  "parse_sp6_tokens tokens c =
     bind_outcome (token_at 1 tokens) (\<lambda>t1.
       if t1 = ''in'' then
         app_check (int (length (acl6_rules_in c)) \<le> SP6_MAX_ACL_RULE_NUM - 1)
           (bind_outcome (parse_tokens sp6_step (drop 2 tokens) (start_sp 11)) (\<lambda>a.
            bind_outcome (sp_missing_checks a) (\<lambda>r. Value (c\<lparr>acl6_rules_in := acl6_rules_in c @ [r]\<rparr>))))
       else if t1 = ''out'' then
         app_check (int (length (acl6_rules_out c)) \<le> SP6_MAX_ACL_RULE_NUM - 1)
           (bind_outcome (parse_tokens sp6_step (drop 2 tokens) (start_sp 11)) (\<lambda>a.
            bind_outcome (sp_missing_checks a) (\<lambda>r. Value (c\<lparr>acl6_rules_out := acl6_rules_out c @ [r]\<rparr>))))
       else Failure)"

definition RT_IPV4_MAX_RULES :: int where "RT_IPV4_MAX_RULES = 65536"
definition RT_IPV6_MAX_RULES :: int where "RT_IPV6_MAX_RULES = 1024"

definition parse_rt_tokens :: "string list \<Rightarrow> ipsec_cfg \<Rightarrow> ipsec_cfg outcome" where
  "parse_rt_tokens tokens c =
     bind_outcome (token_at 0 tokens) (\<lambda>t0.
     bind_outcome
       (if t0 = ''ipv4'' then app_check (int (length (rt_ip4 c)) \<le> RT_IPV4_MAX_RULES - 1)
          (Value (Route4 \<lparr>r4_ip = 0, r4_depth = 0, r4_if_out = 0\<rparr>))
        else if t0 = ''ipv6'' then app_check (int (length (rt_ip6 c)) \<le> RT_IPV6_MAX_RULES - 1)
          (Value (Route6 \<lparr>r6_ip = replicate 16 0, r6_depth = 0, r6_if_out = 0\<rparr>))
        else Failure) (\<lambda>r.
     bind_outcome (parse_tokens rt_step (drop 1 tokens) r) (\<lambda>r.
       Value (case r of Route4 r \<Rightarrow> c\<lparr>rt_ip4 := rt_ip4 c @ [r]\<rparr> | Route6 r \<Rightarrow> c\<lparr>rt_ip6 := rt_ip6 c @ [r]\<rparr>))))"

section \<open>The file\<close>

text \<open>The three instructions; each gets the text behind its keyword.\<close>

datatype cfg_item = Cfg_sp | Cfg_sa | Cfg_rt

definition cfg_sp_add_cfg_item_parsed :: "string \<Rightarrow> ipsec_cfg \<Rightarrow> ipsec_cfg outcome" where
  "cfg_sp_add_cfg_item_parsed multi_string c =
     (let (ok, tokens) = parse_tokenize_string 32 multi_string
      in app_check ok (bind_outcome (token_at 0 tokens) (\<lambda>t0.
           if t0 = ''ipv4'' then parse_sp4_tokens tokens c
           else if t0 = ''ipv6'' then parse_sp6_tokens tokens c
           else Failure)))"

text \<open>Here the result of the tokenizer sets the status, but the next check overwrites it.\<close>

definition cfg_sa_add_cfg_item_parsed :: "u32 \<Rightarrow> string \<Rightarrow> ipsec_cfg \<Rightarrow> ipsec_cfg outcome" where
  "cfg_sa_add_cfg_item_parsed rnd multi_string c =
     (let (ok, tokens) = parse_tokenize_string 32 multi_string in parse_sa_tokens rnd tokens c)"

definition cfg_rt_add_cfg_item_parsed :: "string \<Rightarrow> ipsec_cfg \<Rightarrow> ipsec_cfg outcome" where
  "cfg_rt_add_cfg_item_parsed multi_string c =
     (let (ok, tokens) = parse_tokenize_string 32 multi_string in app_check ok (parse_rt_tokens tokens c))"

text \<open>What \<^verbatim>\<open>cmdline_parse\<close> does with a line: an error, nothing, or a call of an instruction.\<close>

datatype cmd_match = Cmd_error | Cmd_nothing | Cmd_item cfg_item string

definition cfg_command :: "(string \<Rightarrow> cmd_match) \<Rightarrow> u32 \<Rightarrow> string \<Rightarrow> ipsec_cfg \<Rightarrow> ipsec_cfg outcome" where
  "cfg_command cmdline_parse rnd line c =
     (case cmdline_parse line of
        Cmd_error \<Rightarrow> Failure
      | Cmd_nothing \<Rightarrow> Value c
      | Cmd_item Cfg_sp s \<Rightarrow> cfg_sp_add_cfg_item_parsed s c
      | Cmd_item Cfg_sa s \<Rightarrow> cfg_sa_add_cfg_item_parsed rnd s c
      | Cmd_item Cfg_rt s \<Rightarrow> cfg_rt_add_cfg_item_parsed s c)"

text \<open>\<^verbatim>\<open>fgets\<close> with a buffer of 1024 bytes on the rest of a file without zero bytes.\<close>

definition newline :: char where "newline = CHR 0x0A"

definition fgets :: "string \<Rightarrow> string" where
  "fgets s =
     (let t = take 1023 s
      in if newline \<in> set t then takeWhile (\<lambda>c. c \<noteq> newline) t @ [newline] else t)"

text \<open>One turn of the loop.  \<open>str\<close> is what earlier lines ending in a backslash left;
  \<open>Failure\<close> is \<^verbatim>\<open>rte_panic\<close>.\<close>

definition cfg_line :: "(string \<Rightarrow> cmd_match) \<Rightarrow> u32 \<Rightarrow> string \<Rightarrow> string \<times> ipsec_cfg \<Rightarrow> (string \<times> ipsec_cfg) outcome" where
  "cfg_line cmdline_parse rnd oneline = (\<lambda>(str, c).
     if 1022 < length oneline then Failure
     else if oneline \<noteq> [] \<and> hd oneline = CHR ''#'' then Value (str, c)
     else let oneline = takeWhile (\<lambda>x. x \<noteq> CHR ''#'') oneline
          in case split_at CHR 92 oneline of
               Some (pre, post) \<Rightarrow>
                 if length post \<noteq> 1 then Failure
                 else if 1022 < length pre + length str then Failure
                 else Value (str @ pre, c)
             | None \<Rightarrow>
                 if 1022 < length oneline + length str then Failure
                 else bind_outcome (cfg_command cmdline_parse rnd (str @ oneline @ [newline]) c) (\<lambda>c. Value ([], c)))"

function cfg_lines :: "(string \<Rightarrow> cmd_match) \<Rightarrow> (nat \<Rightarrow> u32) \<Rightarrow> nat \<Rightarrow> string \<Rightarrow> string \<times> ipsec_cfg \<Rightarrow> ipsec_cfg outcome" where
  "cfg_lines cmdline_parse rnd line_num s st =
     (if s = [] then Value (snd st)
      else bind_outcome (cfg_line cmdline_parse (rnd line_num) (fgets s) st)
             (cfg_lines cmdline_parse rnd (line_num + 1) (drop (length (fgets s)) s)))"
  by auto
termination
proof (relation "measure (\<lambda>(p, r, n, s, st). length s)")
  show "wf (measure (\<lambda>(p, r, n, s, st). length s))" by simp
next
  fix p r n and s :: string and st st'
  assume "s \<noteq> []"
  then have "fgets s \<noteq> []" by (cases s) (auto simp: fgets_def Let_def)
  then have "0 < length (fgets s)" by blast
  with \<open>s \<noteq> []\<close> show "((p, r, n + 1, drop (length (fgets s)) s, st'), (p, r, n, s, st)) \<in> measure (\<lambda>(p, r, n, s, st). length s)"
    by simp
qed

declare cfg_lines.simps [simp del]

definition parse_cfg_file :: "(string \<Rightarrow> cmd_match) \<Rightarrow> (nat \<Rightarrow> u32) \<Rightarrow> string \<Rightarrow> ipsec_cfg outcome" where
  "parse_cfg_file cmdline_parse rnd content = cfg_lines cmdline_parse rnd 1 content ([], empty_cfg)"

section \<open>The tables\<close>

text \<open>\<^verbatim>\<open>acl4_init\<close> and \<^verbatim>\<open>acl6_init\<close>: \<open>acl\<close> stands for creating a classifier, adding
  the rules and building it; every error ends the program.\<close>

definition acl_init :: "(acl_rule list \<Rightarrow> 'acl option) \<Rightarrow> acl_rule list \<Rightarrow> 'acl outcome" where
  "acl_init acl rules = (case acl rules of None \<Rightarrow> Failure | Some ctx \<Rightarrow> Value ctx)"

definition acl4_init :: "(acl_rule list \<Rightarrow> 'acl option) \<Rightarrow> acl_rule list \<Rightarrow> 'acl outcome" where
  "acl4_init = acl_init"

definition acl6_init :: "(acl_rule list \<Rightarrow> 'acl option) \<Rightarrow> acl_rule list \<Rightarrow> 'acl outcome" where
  "acl6_init = acl_init"

definition init_if_rules :: "(acl_rule list \<Rightarrow> 'acl outcome) \<Rightarrow> acl_rule list \<Rightarrow> 'acl option outcome" where
  "init_if_rules init rules =
     (if 0 < length rules then bind_outcome (init rules) (\<lambda>ctx. Value (Some ctx)) else Value None)"

definition sp4_init :: "(acl_rule list \<Rightarrow> 'acl option) \<Rightarrow> ipsec_cfg \<Rightarrow> ('acl option \<times> 'acl option) outcome" where
  "sp4_init acl c =
     bind_outcome (init_if_rules (acl4_init acl) (acl4_rules_in c)) (\<lambda>i.
     bind_outcome (init_if_rules (acl4_init acl) (acl4_rules_out c)) (\<lambda>out. Value (i, out)))"

definition sp6_init :: "(acl_rule list \<Rightarrow> 'acl option) \<Rightarrow> ipsec_cfg \<Rightarrow> ('acl option \<times> 'acl option) outcome" where
  "sp6_init acl c =
     bind_outcome (init_if_rules (acl6_init acl) (acl6_rules_in c)) (\<lambda>i.
     bind_outcome (init_if_rules (acl6_init acl) (acl6_rules_out c)) (\<lambda>out. Value (i, out)))"

text \<open>\<open>lpm_add\<close> and \<open>lpm6_add\<close> add an entry to a route table; an error ends the program.\<close>

fun add_routes :: "('t \<Rightarrow> 'r \<Rightarrow> 't option) \<Rightarrow> 't \<Rightarrow> 'r list \<Rightarrow> 't outcome" where
  "add_routes add tab [] = Value tab"
| "add_routes add tab (r # rs) = (case add tab r of None \<Rightarrow> Failure | Some tab \<Rightarrow> add_routes add tab rs)"

definition rt_init :: "('t \<Rightarrow> ip4_route \<Rightarrow> 't option) \<Rightarrow> ('u \<Rightarrow> ip6_route \<Rightarrow> 'u option) \<Rightarrow> 't \<Rightarrow> 'u \<Rightarrow>
    ipsec_cfg \<Rightarrow> ('t \<times> 'u) outcome" where
  "rt_init lpm_add lpm6_add lpm lpm6 c =
     bind_outcome (add_routes lpm_add lpm (rt_ip4 c)) (\<lambda>lpm.
     bind_outcome (add_routes lpm6_add lpm6 (rt_ip6 c)) (\<lambda>lpm6. Value (lpm, lpm6)))"

section \<open>Every accepted file is well formed\<close>

definition sa_rule_ok :: "ipsec_sa \<Rightarrow> bool" where
  "sa_rule_ok r \<longleftrightarrow> sa_ok r \<and> flags r \<in> {IP4_TUNNEL, IP6_TUNNEL, TRANSPORT} \<and> length (cipher_key r) = 32 \<and> length (auth_key r) = 32
     \<and> crypto_session r = None"

definition cfg_ok :: "ipsec_cfg \<Rightarrow> bool" where
  "cfg_ok c \<longleftrightarrow>
     list_all (acl_ok 5) (acl4_rules_in c @ acl4_rules_out c) \<and> list_all (acl_ok 11) (acl6_rules_in c @ acl6_rules_out c)
     \<and> list_all sa_rule_ok (cfg_sa_in c @ cfg_sa_out c) \<and> list_all (\<lambda>r. length (r6_ip r) = 16) (rt_ip6 c)
     \<and> int (length (acl4_rules_in c)) \<le> SP4_MAX_ACL_RULE_NUM \<and> int (length (acl4_rules_out c)) \<le> SP4_MAX_ACL_RULE_NUM
     \<and> int (length (acl6_rules_in c)) \<le> SP6_MAX_ACL_RULE_NUM \<and> int (length (acl6_rules_out c)) \<le> SP6_MAX_ACL_RULE_NUM
     \<and> length (cfg_sa_in c) \<le> 131072 \<and> length (cfg_sa_out c) \<le> 131072
     \<and> int (length (rt_ip4 c)) \<le> RT_IPV4_MAX_RULES \<and> int (length (rt_ip6 c)) \<le> RT_IPV6_MAX_RULES"

lemma sa_missing_checks_ok:
  assumes "sa_missing_checks a = Value r" and "sa_inv a"
  shows "sa_rule_ok r"
proof -
  from assms(1) have "cipher_algo_p a" "auth_algo_p a" "mode_p a" "r = sa_rule a"
    by (auto simp: sa_missing_checks_def outcome_simps)
  with assms(2) have r: "sizes_ok r" "cipher_ok r" "auth_ok r" "flags r \<in> {IP4_TUNNEL, IP6_TUNNEL, TRANSPORT}"
    by (simp_all add: sa_inv_def)
  then have "sa_ok r" unfolding sizes_ok_def cipher_ok_def auth_ok_def sa_ok_def by blast
  with r show ?thesis by (simp add: sa_rule_ok_def sizes_ok_def)
qed

lemma start_sa_inv: "sa_inv (start_sa t)"
  by (simp add: sa_inv_def start_sa_def sizes_ok_def zero_sa_def)

lemma parse_sa_tokens_ok:
  assumes "parse_sa_tokens rnd tokens c = Value c'" and "cfg_ok c"
  shows "cfg_ok c'"
proof -
  from assms(1) obtain t0 t1 a r where
    n: "int (length (if t0 = ''in'' then cfg_sa_in c else cfg_sa_out c)) \<le> uint (IPSEC_SA_MAX_ENTRIES - 1)"
    and a: "parse_tokens (sa_step rnd) (drop 2 tokens) (start_sa t1) = Value a" and r: "sa_missing_checks a = Value r"
    and c': "c' = (if t0 = ''in'' then c\<lparr>cfg_sa_in := cfg_sa_in c @ [r]\<rparr> else c\<lparr>cfg_sa_out := cfg_sa_out c @ [r]\<rparr>)"
    by (auto simp: parse_sa_tokens_def outcome_simps Let_def)
  have "sa_rule_ok r" by (rule sa_missing_checks_ok [OF r sa_tokens.parse_tokens_keeps [OF a start_sa_inv]])
  moreover have "uint (IPSEC_SA_MAX_ENTRIES - 1) = 131071" by (simp add: IPSEC_SA_MAX_ENTRIES_def)
  ultimately show ?thesis using assms(2) n unfolding c' by (auto simp: cfg_ok_def split: if_splits)
qed

lemma start_sp_inv: "sp_inv n (start_sp n)"
  by (simp add: sp_inv_def start_sp_def acl_ok_def action_ok_def IPSEC_SA_MAX_ENTRIES_def)

lemma sp_missing_checks_ok: "sp_missing_checks a = Value r \<Longrightarrow> sp_inv n a \<Longrightarrow> acl_ok n r"
  by (auto simp: sp_missing_checks_def outcome_simps sp_inv_def)

lemma parse_sp4_tokens_ok:
  assumes "parse_sp4_tokens tokens c = Value c'" and "cfg_ok c"
  shows "cfg_ok c'"
proof -
  have "acl_ok 5 r" if "parse_tokens sp4_step ts (start_sp 5) = Value a" "sp_missing_checks a = Value r" for ts a r
    by (rule sp_missing_checks_ok [OF that(2) sp4_tokens.parse_tokens_keeps [OF that(1) start_sp_inv]])
  then show ?thesis using assms
    by (fastforce simp: parse_sp4_tokens_def outcome_simps cfg_ok_def SP4_MAX_ACL_RULE_NUM_def split: if_splits)
qed

lemma parse_sp6_tokens_ok:
  assumes "parse_sp6_tokens tokens c = Value c'" and "cfg_ok c"
  shows "cfg_ok c'"
proof -
  have "acl_ok 11 r" if "parse_tokens sp6_step ts (start_sp 11) = Value a" "sp_missing_checks a = Value r" for ts a r
    by (rule sp_missing_checks_ok [OF that(2) sp6_tokens.parse_tokens_keeps [OF that(1) start_sp_inv]])
  then show ?thesis using assms
    by (fastforce simp: parse_sp6_tokens_def outcome_simps cfg_ok_def SP6_MAX_ACL_RULE_NUM_def split: if_splits)
qed

lemma parse_rt_tokens_ok:
  assumes "parse_rt_tokens tokens c = Value c'" and "cfg_ok c"
  shows "cfg_ok c'"
proof -
  from assms(1) obtain t0 r0 r where
    r0: "(if t0 = ''ipv4'' then app_check (int (length (rt_ip4 c)) \<le> RT_IPV4_MAX_RULES - 1)
          (Value (Route4 \<lparr>r4_ip = 0, r4_depth = 0, r4_if_out = 0\<rparr>))
        else if t0 = ''ipv6'' then app_check (int (length (rt_ip6 c)) \<le> RT_IPV6_MAX_RULES - 1)
          (Value (Route6 \<lparr>r6_ip = replicate 16 0, r6_depth = 0, r6_if_out = 0\<rparr>))
        else Failure) = Value r0"
    and r: "parse_tokens rt_step (drop 1 tokens) r0 = Value r"
    and c': "c' = (case r of Route4 r \<Rightarrow> c\<lparr>rt_ip4 := rt_ip4 c @ [r]\<rparr> | Route6 r \<Rightarrow> c\<lparr>rt_ip6 := rt_ip6 c @ [r]\<rparr>)"
    unfolding parse_rt_tokens_def outcome_simps by (auto simp: outcome_simps)
  have "route_inv (t0 \<noteq> ''ipv4'') r0 \<and> (if t0 \<noteq> ''ipv4'' then int (length (rt_ip6 c)) < RT_IPV6_MAX_RULES else int (length (rt_ip4 c)) < RT_IPV4_MAX_RULES)"
    using r0 by (auto simp: outcome_simps route_inv_def RT_IPV4_MAX_RULES_def RT_IPV6_MAX_RULES_def split: if_splits)
  with rt_tokens.parse_tokens_keeps [OF r, of "t0 \<noteq> ''ipv4''"] assms(2) show ?thesis
    unfolding c' by (auto simp: route_inv_def cfg_ok_def split: route.splits if_splits)
qed

lemma cfg_command_ok:
  assumes "cfg_command cmdline_parse rnd line c = Value c'" and "cfg_ok c"
  shows "cfg_ok c'"
  using assms parse_sa_tokens_ok parse_sp4_tokens_ok parse_sp6_tokens_ok parse_rt_tokens_ok
  by (fastforce simp: cfg_command_def cfg_sp_add_cfg_item_parsed_def cfg_sa_add_cfg_item_parsed_def
      cfg_rt_add_cfg_item_parsed_def outcome_simps Let_def split: cmd_match.splits cfg_item.splits prod.splits if_splits)

lemma cfg_line_ok:
  assumes "cfg_line cmdline_parse rnd oneline st = Value st'" and "cfg_ok (snd st)"
  shows "cfg_ok (snd st')"
  using assms cfg_command_ok [of cmdline_parse rnd]
  by (auto simp: cfg_line_def outcome_simps Let_def split: if_splits option.splits prod.splits)

lemma cfg_lines_ok: "cfg_lines cmdline_parse rnd n s st = Value c \<Longrightarrow> cfg_ok (snd st) \<Longrightarrow> cfg_ok c"
proof (induction cmdline_parse rnd n s st rule: cfg_lines.induct)
  case (1 cmdline_parse rnd n s st)
  show ?case
  proof (cases "s = []")
    case True
    then show ?thesis using 1(2,3) by (subst (asm) cfg_lines.simps) simp
  next
    case False
    with 1(2) obtain st' where l: "cfg_line cmdline_parse (rnd n) (fgets s) st = Value st'"
      and r: "cfg_lines cmdline_parse rnd (n + 1) (drop (length (fgets s)) s) st' = Value c"
      by (subst (asm) cfg_lines.simps) (auto simp: outcome_simps)
    show ?thesis using 1(1) [OF False r cfg_line_ok [OF l 1(3)]] .
  qed
qed

text \<open>C15: Whatever the command line library matches, a configuration file that is accepted gives
  only well-formed rules: each association has a mode, key arrays and addresses of their sizes and
  the lengths that belong to its algorithms (what the ESP functions rely on); each policy has one
  action, which is bypass, discard or the index of an association; and no table is overrun.\<close>

theorem parse_cfg_file_well_formed:
  assumes "parse_cfg_file cmdline_parse rnd content = Value c"
  shows "cfg_ok c"
proof -
  have "cfg_ok empty_cfg" by (simp add: cfg_ok_def empty_cfg_def SP4_MAX_ACL_RULE_NUM_def
      SP6_MAX_ACL_RULE_NUM_def RT_IPV4_MAX_RULES_def RT_IPV6_MAX_RULES_def)
  with cfg_lines_ok [OF assms [unfolded parse_cfg_file_def]] show ?thesis by simp
qed

definition sample_cmdline :: "string \<Rightarrow> cmd_match" where
  "sample_cmdline line =
     (if take 3 line = ''sp '' then Cmd_item Cfg_sp (drop 3 line)
      else if take 3 line = ''sa '' then Cmd_item Cfg_sa (drop 3 line)
      else if take 3 line = ''rt '' then Cmd_item Cfg_rt (drop 3 line)
      else Cmd_error)"

definition sample_cfg :: string where
  "sample_cfg = ''sa in 5 mode ipv4-tunnel cipher_algo null auth_algo null src 1.1.1.1 dst 2.2.2.2''"

lemma sample_cfg_value:
  "case parse_cfg_file sample_cmdline (\<lambda>n. 0) sample_cfg of Value c \<Rightarrow> map spi (cfg_sa_in c) = [5] | _ \<Rightarrow> False"
  by code_simp

theorem parse_cfg_file_well_formed_witness:
  "\<exists>c. parse_cfg_file sample_cmdline (\<lambda>n. 0) sample_cfg = Value c \<and> cfg_ok c \<and> map spi (cfg_sa_in c) = [5]"
proof (cases "parse_cfg_file sample_cmdline (\<lambda>n. 0) sample_cfg")
  case (Value c)
  have "map spi (cfg_sa_in c) = [5]" using sample_cfg_value unfolding Value outcome.case .
  with Value parse_cfg_file_well_formed [OF Value] show ?thesis by (intro exI [of _ c] conjI)
qed (use sample_cfg_value in \<open>simp_all only: outcome.case\<close>)

end
