(* ===== verification/Gateway_Setup.thy ===== *)
theory Gateway_Setup
  imports Gateway_Cdev Gateway Config
begin

text \<open>
  The start of the gateway (\<^verbatim>\<open>ipsec-secgw.c\<close>): the options, the checks of the queue
  configuration, the databases of every socket, the queues of the ports, and which queue pair of
  which crypto device every core uses in each direction.  \<^verbatim>\<open>getopt_long\<close> delivers a list of
  options, and what the board, the drivers and DPDK answer is the record \<open>platform\<close>.
  \<open>Failure\<close> is an error return that ends the program, \<^verbatim>\<open>rte_exit\<close> or
  \<^verbatim>\<open>rte_panic\<close>; \<open>Undefined\<close> is an access outside an array.
\<close>

section \<open>Options\<close>

record secgw_args =
  g_enabled_port_mask :: u32
  g_unprotected_port_mask :: u32
  g_promiscuous_on :: int
  g_single_sa :: u32
  g_single_sa_idx :: u32
  g_lcore_params :: "lcore_params list option"
  g_cfg :: "ipsec_cfg option"

definition secgw_static :: secgw_args where
  "secgw_static = \<lparr>g_enabled_port_mask = 0, g_unprotected_port_mask = 0, g_promiscuous_on = 1, g_single_sa = 0,
     g_single_sa_idx = 0, g_lcore_params = None, g_cfg = None\<rparr>"

text \<open>\<open>errno\<close> is whether the variable is set when the function is called: it is not cleared.\<close>

definition secgw_parse_portmask :: "bool \<Rightarrow> string \<Rightarrow> u32" where
  "secgw_parse_portmask errno portmask =
     (let (pm, end, err) = strtoul 16 portmask
      in if portmask = [] \<or> end \<noteq> [] then - 1 else if pm = 0 \<and> (errno \<or> err) then - 1 else ucast pm)"

definition parse_decimal :: "string \<Rightarrow> u32" where
  "parse_decimal str = (let (num, end, err) = strtoul 10 str in if str = [] \<or> end \<noteq> [] then - 1 else ucast num)"

definition secgw_parse_config :: "strsplit \<Rightarrow> string \<Rightarrow> lcore_params list option" where
  "secgw_parse_config split q_arg = parse_config_from split q_arg []"

text \<open>The options; a mask comes with \<open>errno\<close>.  The configuration file is opened and parsed
  by \<open>cfg_file\<close>.\<close>

datatype secgw_opt = Gw_p bool string | Gw_P | Gw_u bool string | Gw_f string | Gw_config string | Gw_single_sa string
  | Gw_other

definition load_cfg_file :: "(string \<Rightarrow> cmd_match) \<Rightarrow> (nat \<Rightarrow> u32) \<Rightarrow> (string \<Rightarrow> string option) \<Rightarrow> string \<Rightarrow> ipsec_cfg outcome" where
  "load_cfg_file cmdline_parse rnd fopen cfg_filename =
     (case fopen cfg_filename of None \<Rightarrow> Failure | Some content \<Rightarrow> parse_cfg_file cmdline_parse rnd content)"

definition parse_args_long_options :: "strsplit \<Rightarrow> secgw_opt \<Rightarrow> secgw_args \<Rightarrow> secgw_args option" where
  "parse_args_long_options split opt a =
     (case opt of
        Gw_config optarg \<Rightarrow> map_option (\<lambda>ps. a\<lparr>g_lcore_params := Some ps\<rparr>) (secgw_parse_config split optarg)
      | Gw_single_sa optarg \<Rightarrow>
          let ret = parse_decimal optarg
          in if ret \<noteq> - 1 then Some (a\<lparr>g_single_sa := 1, g_single_sa_idx := ret\<rparr>) else None
      | _ \<Rightarrow> None)"

definition secgw_parse_opt :: "strsplit \<Rightarrow> (string \<Rightarrow> ipsec_cfg outcome) \<Rightarrow> secgw_opt \<Rightarrow> secgw_args \<Rightarrow> secgw_args outcome" where
  "secgw_parse_opt split cfg_file opt a =
     (case opt of
        Gw_p errno optarg \<Rightarrow>
          let pm = secgw_parse_portmask errno optarg
          in if pm = 0 then Failure else Value (a\<lparr>g_enabled_port_mask := pm\<rparr>)
      | Gw_P \<Rightarrow> Value (a\<lparr>g_promiscuous_on := 1\<rparr>)
      | Gw_u errno optarg \<Rightarrow>
          let pm = secgw_parse_portmask errno optarg
          in if pm = 0 then Failure else Value (a\<lparr>g_unprotected_port_mask := pm\<rparr>)
      | Gw_f optarg \<Rightarrow>
          if g_cfg a \<noteq> None then Failure
          else bind_outcome (cfg_file optarg) (\<lambda>c. Value (a\<lparr>g_cfg := Some c\<rparr>))
      | Gw_other \<Rightarrow> Failure
      | _ \<Rightarrow> (case parse_args_long_options split opt a of None \<Rightarrow> Failure | Some a \<Rightarrow> Value a))"

fun fold_outcome :: "('a \<Rightarrow> 's \<Rightarrow> 's outcome) \<Rightarrow> 'a list \<Rightarrow> 's \<Rightarrow> 's outcome" where
  "fold_outcome f [] s = Value s"
| "fold_outcome f (x # xs) s = bind_outcome (f x s) (fold_outcome f xs)"

definition secgw_parse_args :: "strsplit \<Rightarrow> (string \<Rightarrow> ipsec_cfg outcome) \<Rightarrow> secgw_opt list \<Rightarrow> (secgw_args \<times> ipsec_cfg) outcome" where
  "secgw_parse_args split cfg_file opts =
     bind_outcome (fold_outcome (secgw_parse_opt split cfg_file) opts secgw_static)
       (\<lambda>a. case g_cfg a of None \<Rightarrow> Failure | Some c \<Rightarrow> Value (a, c))"

section \<open>Checks\<close>

definition check_params :: "(nat \<Rightarrow> bool) \<Rightarrow> u32 \<Rightarrow> u8 \<Rightarrow> lcore_params list option \<Rightarrow> bool" where
  "check_params lcore_is_enabled pm nb_ports params =
     (case params of None \<Rightarrow> False
      | Some ps \<Rightarrow> list_all (\<lambda>p. lcore_is_enabled (unat (lcore_id p)) \<and> port_bit pm (unat (port_id p)) \<and> port_id p < nb_ports) ps)"

definition get_port_nb_rx_queues :: "lcore_params list \<Rightarrow> u8 \<Rightarrow> u8" where
  "get_port_nb_rx_queues ps port =
     of_int (fold (\<lambda>p queue. if port_id p = port \<and> queue < uint (queue_id p) then uint (queue_id p) else queue) ps (- 1) + 1)"

definition secgw_init_lcore_rx_queues :: "lcore_params list \<Rightarrow> rx_conf option" where
  "secgw_init_lcore_rx_queues ps = fold_option add_rx_queue ps (\<lambda>l. [])"

section \<open>The platform\<close>

record ('t, 'u) platform = cdev_platform +
  pf_nb_ports :: u8
  pf_lcores :: "nat list"
  pf_socket :: "nat \<Rightarrow> nat"
  pf_macaddr :: "nat \<Rightarrow> bytes"
  pf_max_rx :: "nat \<Rightarrow> u16"
  pf_max_tx :: "nat \<Rightarrow> u16"
  pf_dev_configure :: "nat \<Rightarrow> u16 \<Rightarrow> u16 \<Rightarrow> bool"
  pf_tx_queue_setup :: "nat \<Rightarrow> u16 \<Rightarrow> bool"
  pf_rx_queue_setup :: "nat \<Rightarrow> u8 \<Rightarrow> bool"
  pf_dev_start :: "nat \<Rightarrow> bool"
  pf_sa_create :: "nat \<Rightarrow> bool"
  pf_acl4 :: "nat \<Rightarrow> acl_rule list \<Rightarrow> acl option"
  pf_acl6 :: "nat \<Rightarrow> acl_rule list \<Rightarrow> acl option"
  pf_lpm_create :: "nat \<Rightarrow> ('t \<times> 'u) option"
  pf_lpm_add :: "'t \<Rightarrow> ip4_route \<Rightarrow> 't option"
  pf_lpm6_add :: "'u \<Rightarrow> ip6_route \<Rightarrow> 'u option"
  pf_pool_create :: "nat \<Rightarrow> bool"

section \<open>The databases of a socket\<close>

definition SECGW_NB_SOCKETS :: nat where "SECGW_NB_SOCKETS = 4"

record ('t, 'u) socket_ctx =
  sk_sa_in :: "sa_ctx option"
  sk_sa_out :: "sa_ctx option"
  sk_sp4 :: "acl option \<times> acl option"
  sk_sp6 :: "acl option \<times> acl option"
  sk_rt :: "'t \<times> 'u"

definition init_socket :: "('t, 'u) platform \<Rightarrow> ipsec_cfg \<Rightarrow> nat \<Rightarrow> ('t, 'u) socket_ctx outcome" where
  "init_socket pf c socket_id =
     (if (cfg_sa_in c \<noteq> [] \<or> cfg_sa_out c \<noteq> []) \<and> \<not> pf_sa_create pf socket_id then Failure
      else let (sa_in, sa_out) = sa_init zero_sa (cfg_sa_in c) (cfg_sa_out c)
      in bind_outcome (sp4_init (pf_acl4 pf socket_id) c) (\<lambda>sp4.
         bind_outcome (sp6_init (pf_acl6 pf socket_id) c) (\<lambda>sp6.
         case pf_lpm_create pf socket_id of None \<Rightarrow> Failure
         | Some (lpm, lpm6) \<Rightarrow>
             bind_outcome (rt_init (pf_lpm_add pf) (pf_lpm6_add pf) lpm lpm6 c) (\<lambda>rt.
               if \<not> pf_pool_create pf socket_id then Failure
               else Value \<lparr>sk_sa_in = sa_in, sk_sa_out = sa_out, sk_sp4 = sp4, sk_sp6 = sp6, sk_rt = rt\<rparr>))))"

text \<open>\<^verbatim>\<open>numa_on\<close> is 1: no option clears it.\<close>

definition secgw_socket :: "('t, 'u) platform \<Rightarrow> nat \<Rightarrow> nat" where
  "secgw_socket pf lcore = pf_socket pf lcore mod 256"

definition init_lcore_socket :: "('t, 'u) platform \<Rightarrow> ipsec_cfg \<Rightarrow> nat \<Rightarrow> (nat \<Rightarrow> ('t, 'u) socket_ctx option) \<Rightarrow>
    (nat \<Rightarrow> ('t, 'u) socket_ctx option) outcome" where
  "init_lcore_socket pf c lcore sk =
     (let socket_id = secgw_socket pf lcore
      in if SECGW_NB_SOCKETS \<le> socket_id then Undefined
         else if sk socket_id \<noteq> None then Value sk
         else bind_outcome (init_socket pf c socket_id) (\<lambda>ctx. Value (sk(socket_id := Some ctx))))"

section \<open>Ports\<close>

text \<open>The transmit queue of each core and port, the receive queues that were set up, with their
  sockets, and the addresses.\<close>

record ports_conf =
  pc_ethaddr_tbl :: "nat \<Rightarrow> ethaddr_info"
  pc_tx_queue_id :: "nat \<Rightarrow> nat \<Rightarrow> u16"
  pc_rx_setup :: "(nat \<times> u8 \<times> nat) list"

definition ETHADDR_TO_UINT64 :: "bytes \<Rightarrow> u64" where
  "ETHADDR_TO_UINT64 a = le_word (take 6 a @ [0, 0])"

definition ethaddr_static :: "nat \<Rightarrow> ethaddr_info" where
  "ethaddr_static p = \<lparr>eth_src = 0, eth_dst =
     (if p = 0 then ETHADDR_TO_UINT64 [0x00, 0x16, 0x3e, 0x7e, 0x94, 0x9a]
      else if p = 1 then ETHADDR_TO_UINT64 [0x00, 0x16, 0x3e, 0x22, 0xa1, 0xd9]
      else if p = 2 then ETHADDR_TO_UINT64 [0x00, 0x16, 0x3e, 0x08, 0x69, 0x26]
      else if p = 3 then ETHADDR_TO_UINT64 [0x00, 0x16, 0x3e, 0x49, 0x9e, 0xdd] else 0)\<rparr>"

definition setup_rx_queue :: "('t, 'u) platform \<Rightarrow> nat \<Rightarrow> nat \<Rightarrow> u8 \<times> u8 \<Rightarrow> ports_conf \<Rightarrow> ports_conf option" where
  "setup_rx_queue pf portid socket_id = (\<lambda>(p, rx_queueid) st.
     if portid \<noteq> unat p then Some st
     else if \<not> pf_rx_queue_setup pf portid rx_queueid then None
     else Some (st\<lparr>pc_rx_setup := pc_rx_setup st @ [(portid, rx_queueid, socket_id)]\<rparr>))"

definition setup_lcore_queues :: "('t, 'u) platform \<Rightarrow> rx_conf \<Rightarrow> nat \<Rightarrow> nat \<Rightarrow> u16 \<times> ports_conf \<Rightarrow> (u16 \<times> ports_conf) option" where
  "setup_lcore_queues pf rx portid lcore = (\<lambda>(tx_queueid, st).
     if \<not> pf_tx_queue_setup pf portid tx_queueid then None
     else let st = st\<lparr>pc_tx_queue_id := (pc_tx_queue_id st)(lcore := (pc_tx_queue_id st lcore)(portid := tx_queueid))\<rparr>
          in map_option (Pair (tx_queueid + 1))
               (fold_option (setup_rx_queue pf portid (secgw_socket pf lcore)) (rx (of_nat lcore)) st))"

definition port_init :: "('t, 'u) platform \<Rightarrow> lcore_params list \<Rightarrow> rx_conf \<Rightarrow> nat \<Rightarrow> ports_conf \<Rightarrow> ports_conf option" where
  "port_init pf ps rx portid st =
     (let st = st\<lparr>pc_ethaddr_tbl := (pc_ethaddr_tbl st)(portid :=
               (pc_ethaddr_tbl st portid)\<lparr>eth_src := ETHADDR_TO_UINT64 (pf_macaddr pf portid)\<rparr>)\<rparr>;
          nb_rx_queue = ucast (get_port_nb_rx_queues ps (of_nat portid)) :: u16;
          nb_tx_queue = of_nat (length (pf_lcores pf)) :: u16
      in if pf_max_rx pf portid < nb_rx_queue then None
         else if pf_max_tx pf portid < nb_tx_queue then None
         else if \<not> pf_dev_configure pf portid nb_rx_queue nb_tx_queue then None
         else map_option snd (fold_option (setup_lcore_queues pf rx portid) (pf_lcores pf) (0, st)))"

definition init_enabled_port :: "('t, 'u) platform \<Rightarrow> u32 \<Rightarrow> lcore_params list \<Rightarrow> rx_conf \<Rightarrow> nat \<Rightarrow> ports_conf \<Rightarrow> ports_conf option" where
  "init_enabled_port pf pm ps rx portid st =
     (if \<not> port_bit pm portid then Some st else port_init pf ps rx portid st)"

section \<open>The start\<close>

record ('t, 'u) secgw =
  sg_args :: secgw_args
  sg_params :: "lcore_params list"
  sg_rx :: rx_conf
  sg_sockets :: "nat \<Rightarrow> ('t, 'u) socket_ctx option"
  sg_ports :: ports_conf
  sg_cdevs :: cdev_state

definition some_or_fail :: "'a option \<Rightarrow> 'a outcome" where
  "some_or_fail r = (case r of None \<Rightarrow> Failure | Some x \<Rightarrow> Value x)"

text \<open>\<^verbatim>\<open>main\<close> up to the launch of the loops.\<close>

definition secgw_start :: "('t, 'u) platform \<Rightarrow> strsplit \<Rightarrow> (string \<Rightarrow> ipsec_cfg outcome) \<Rightarrow> secgw_opt list \<Rightarrow> ('t, 'u) secgw outcome" where
  "secgw_start pf split cfg_file opts =
     bind_outcome (secgw_parse_args split cfg_file opts) (\<lambda>(a, c).
     let pm = g_enabled_port_mask a; unprot = g_unprotected_port_mask a; ps = the (g_lcore_params a);
         ports = [0..<unat (pf_nb_ports pf)]
     in if unprot AND pm \<noteq> unprot then Failure
        else if \<not> check_params (\<lambda>l. l \<in> set (pf_lcores pf)) pm (pf_nb_ports pf) (g_lcore_params a) then Failure
        else bind_outcome (some_or_fail (secgw_init_lcore_rx_queues ps)) (\<lambda>rx.
             bind_outcome (fold_outcome (init_lcore_socket pf c) (pf_lcores pf) (\<lambda>k. None)) (\<lambda>sk.
             bind_outcome (some_or_fail (fold_option (init_enabled_port pf pm ps rx) ports
                 \<lparr>pc_ethaddr_tbl = ethaddr_static, pc_tx_queue_id = (\<lambda>l p. 0), pc_rx_setup = []\<rparr>)) (\<lambda>st.
             bind_outcome (some_or_fail (cryptodevs_init pf unprot ps)) (\<lambda>cd.
               if \<not> list_all (\<lambda>p. port_bit pm p \<longrightarrow> pf_dev_start pf p) ports then Failure
               else Value \<lparr>sg_args = a, sg_params = ps, sg_rx = rx, sg_sockets = sk, sg_ports = st, sg_cdevs = cd\<rparr>)))))"

text \<open>The wait for the links before the launch, which nothing interrupts here.\<close>

definition secgw_check_all_ports_link_status :: "(nat \<Rightarrow> nat \<Rightarrow> bool) \<Rightarrow> u8 \<Rightarrow> u32 \<Rightarrow> nat \<times> (nat \<times> bool) list" where
  "secgw_check_all_ports_link_status up port_num port_mask =
     check_links_from (\<lambda>c. False) (\<lambda>c p. False) up (unat port_num) port_mask False 0"

section \<open>A core enters its loop\<close>

text \<open>The contexts a core finds, with memory \<open>mem\<close> for the packets.  The two maps are shared
  by all cores; a core looks up only keys with its own number, so that its part of the map is
  enough.  The association database is that of the socket; while a core runs, this is its content
  only when no other core of the socket polls a queue, because \<^verbatim>\<open>create_session\<close> writes into
  it (see the finding at \<^verbatim>\<open>ipsec-secgw.c:717\<close>), which \<open>alone_on_socket\<close> states.  A database that does not exist is a null pointer, which the loop must not follow.\<close>

definition start_ctx :: "(nat \<Rightarrow> pktbuf) \<Rightarrow> sym_op \<Rightarrow> nat \<Rightarrow> bool \<Rightarrow> sa_ctx option \<Rightarrow> cdev_state \<Rightarrow> ipsec_ctx" where
  "start_ctx mem cop lcore inb sa cd =
     \<lparr>cdev_map = (\<lambda>key. if fst key = lcore then cd_map cd inb key else None), nb_qps = length (cd_tbl cd inb lcore), last_qp = 0,
      tbl = (\<lambda>k. \<lparr>qp_dev = fst (cd_tbl cd inb lcore ! k), qp_qp = snd (cd_tbl cd inb lcore ! k), in_flight = 0, qp_buf = []\<rparr>),
      sadb = (case sa of None \<Rightarrow> (\<lambda>i. zero_sa) | Some c \<Rightarrow> sa_tab c), pkt_buf = mem, pkt_sa = (\<lambda>p. 0), pkt_op = (\<lambda>p. cop),
      pkt_status = (\<lambda>p. STATUS_NOT_PROCESSED), pkt_session = (\<lambda>p. None), dev_queue = (\<lambda>q. []), ctx_freed = [], calls = 0\<rparr>"

definition start_lcore :: "(nat \<Rightarrow> pktbuf) \<Rightarrow> sym_op \<Rightarrow> (nat \<Rightarrow> tx_offload) \<Rightarrow> ('t, 'u) platform \<Rightarrow> ('t, 'u) secgw \<Rightarrow> nat \<Rightarrow> lcore_conf" where
  "start_lcore mem cop off pf g lcore =
     (let sk = the (sg_sockets g (secgw_socket pf lcore))
      in \<lparr>lc_tx = \<lparr>tx_queue_id = (\<lambda>p. unat (pc_tx_queue_id (sg_ports g) lcore p)),
            tx_mbufs = (\<lambda>p. \<lparr>mbt_len = 0, m_table = replicate 32 0\<rparr>), wire = [], freed = []\<rparr>,
          lc_off = off,
          inbound = start_ctx mem cop lcore True (sk_sa_in sk) (sg_cdevs g),
          outbound = start_ctx mem cop lcore False (sk_sa_out sk) (sg_cdevs g)\<rparr>)"

definition start_env :: "nat tx_driver \<Rightarrow> crypto_device \<Rightarrow> (int \<Rightarrow> u8) \<Rightarrow> ipsec_traffic \<Rightarrow> ('t \<Rightarrow> u32 \<Rightarrow> u32) \<Rightarrow> ('u \<Rightarrow> bytes \<Rightarrow> u16) \<Rightarrow>
    ('t, 'u) platform \<Rightarrow> ('t, 'u) secgw \<Rightarrow> nat \<Rightarrow> gw_env" where
  "start_env tx dev below junk look4 look6 pf g lcore =
     (let sk = the (sg_sockets g (secgw_socket pf lcore))
      in \<lparr>gw_tx = \<lparr>env_tx = tx, ethaddr_tbl = pc_ethaddr_tbl (sg_ports g), lookup4 = look4 (fst (sk_rt sk)),
              lookup6 = look6 (snd (sk_rt sk))\<rparr>,
          gw_dev = dev, gw_below = below, gw_lcore = lcore, gw_junk = junk,
          unprotected_port_mask = g_unprotected_port_mask (sg_args g), single_sa = g_single_sa (sg_args g),
          single_sa_idx = g_single_sa_idx (sg_args g), sp4_in = fst (sk_sp4 sk), sp6_in = fst (sk_sp6 sk),
          sp4_out = snd (sk_sp4 sk), sp6_out = snd (sk_sp6 sk)\<rparr>)"

section \<open>What the options leave\<close>

lemma fold_outcome_invariant:
  "fold_outcome f xs s = Value s' \<Longrightarrow> P s \<Longrightarrow> (\<And>x s s'. x \<in> set xs \<Longrightarrow> f x s = Value s' \<Longrightarrow> P s \<Longrightarrow> P s') \<Longrightarrow> P s'"
proof (induction xs arbitrary: s)
  case (Cons x xs)
  from Cons.prems(1) obtain s1 where s1: "f x s = Value s1" "fold_outcome f xs s1 = Value s'" by (auto simp: bind_outcome_eq_Value)
  have "P s1" using Cons.prems(3) [OF _ s1(1) Cons.prems(2)] by simp
  then show ?case using Cons.IH [OF s1(2)] Cons.prems(3) by (meson list.set_intros(2))
qed simp

lemma load_cfg_file_ok: "load_cfg_file cmdline_parse rnd fopen f = Value c \<Longrightarrow> cfg_ok c"
proof -
  assume a: "load_cfg_file cmdline_parse rnd fopen f = Value c"
  have "cfg_ok empty_cfg" by (simp add: cfg_ok_def empty_cfg_def SP4_MAX_ACL_RULE_NUM_def
      SP6_MAX_ACL_RULE_NUM_def RT_IPV4_MAX_RULES_def RT_IPV6_MAX_RULES_def)
  with a show ?thesis
    by (auto simp: load_cfg_file_def parse_cfg_file_def split: option.splits dest: cfg_lines_ok)
qed

lemma secgw_parse_args_cfg:
  assumes "secgw_parse_args split (load_cfg_file cmdline_parse rnd fopen) opts = Value (a, c)"
  shows "g_cfg a = Some c \<and> cfg_ok c"
proof -
  let ?P = "\<lambda>a. \<forall>c. g_cfg a = Some c \<longrightarrow> cfg_ok c"
  from assms obtain a1 where a1: "fold_outcome (secgw_parse_opt split (load_cfg_file cmdline_parse rnd fopen)) opts secgw_static = Value a1"
    and a: "g_cfg a1 = Some c" "a = a1"
    by (auto simp: secgw_parse_args_def bind_outcome_eq_Value split: option.splits)
  have "?P a1"
    by (rule fold_outcome_invariant [OF a1])
      (auto simp: secgw_static_def secgw_parse_opt_def parse_args_long_options_def Let_def bind_outcome_eq_Value
        split: secgw_opt.splits if_splits option.splits dest: load_cfg_file_ok)
  then show ?thesis using a by simp
qed

lemma some_or_fail_Value [simp]: "some_or_fail r = Value x \<longleftrightarrow> r = Some x"
  by (cases r) (simp_all add: some_or_fail_def)

lemma secgw_start_cases:
  assumes "secgw_start pf split cfg_file opts = Value g"
  obtains a c where "secgw_parse_args split cfg_file opts = Value (a, c)" and "sg_args g = a"
    and "g_unprotected_port_mask a AND g_enabled_port_mask a = g_unprotected_port_mask a"
    and "check_params (\<lambda>l. l \<in> set (pf_lcores pf)) (g_enabled_port_mask a) (pf_nb_ports pf) (Some (sg_params g))"
    and "secgw_init_lcore_rx_queues (sg_params g) = Some (sg_rx g)"
    and "fold_outcome (init_lcore_socket pf c) (pf_lcores pf) (\<lambda>k. None) = Value (sg_sockets g)"
    and "fold_option (init_enabled_port pf (g_enabled_port_mask a) (sg_params g) (sg_rx g)) [0..<unat (pf_nb_ports pf)]
           \<lparr>pc_ethaddr_tbl = ethaddr_static, pc_tx_queue_id = (\<lambda>l p. 0), pc_rx_setup = []\<rparr> = Some (sg_ports g)"
    and "cryptodevs_init pf (g_unprotected_port_mask a) (sg_params g) = Some (sg_cdevs g)"
proof -
  obtain a c where a: "secgw_parse_args split cfg_file opts = Value (a, c)"
    using assms by (auto simp: secgw_start_def bind_outcome_eq_Value)
  have l: "g_lcore_params a \<noteq> None"
  proof
    assume "g_lcore_params a = None"
    with assms show False by (simp add: secgw_start_def a check_params_def Let_def split: if_splits)
  qed
  then obtain ps where ps: "g_lcore_params a = Some ps" by blast
  show ?thesis
    by (rule that [of a c]) (use assms in \<open>auto simp: secgw_start_def a ps Let_def bind_outcome_eq_Value split: if_splits\<close>)
qed

section \<open>The databases\<close>

lemma sa_add_rules_entries:
  "sa_add_rules c es inb = (r, c') \<Longrightarrow> (\<And>i. P (sa_tab c i)) \<Longrightarrow> (\<And>e. e \<in> set es \<Longrightarrow> P (entry_of e)) \<Longrightarrow> P (sa_tab c' i)"
proof (induction es arbitrary: c)
  case (Cons e es)
  show ?case
  proof (cases "spi (sa_tab c (SPI2IDX (spi e))) = 0")
    case True
    let ?c = "c\<lparr>sa_tab := (sa_tab c)(SPI2IDX (spi e) := entry_of e),
      sa_xf := (sa_xf c)(SPI2IDX (spi e) := (if inb then inbound_chain (entry_of e) else outbound_chain (entry_of e)))\<rparr>"
    have "sa_add_rules ?c es inb = (r, c')" using Cons.prems(1) True by (simp add: Let_def)
    then show ?thesis by (rule Cons.IH) (use Cons.prems(2,3) in auto)
  qed (use Cons.prems in \<open>auto simp: Let_def\<close>)
qed simp

text \<open>An entry of a database at the start.\<close>

definition fresh_entry :: "ipsec_sa \<Rightarrow> bool" where
  "fresh_entry e \<longleftrightarrow> crypto_session e = None \<and> unat (iv_len e) \<le> 16"

lemma rule_fresh: "sa_rule_ok e \<Longrightarrow> fresh_entry (entry_of e)"
  by (auto simp: sa_rule_ok_def sa_ok_def fresh_entry_def entry_of_def Let_def)

definition db_of :: "sa_ctx option \<Rightarrow> nat \<Rightarrow> ipsec_sa" where
  "db_of sa = (case sa of None \<Rightarrow> (\<lambda>i. zero_sa) | Some c \<Rightarrow> sa_tab c)"

lemma sa_init_fresh:
  assumes "cfg_ok c" and "sa_init zero_sa (cfg_sa_in c) (cfg_sa_out c) = (sa_in, sa_out)"
  shows "fresh_entry (db_of sa_in i)" and "fresh_entry (db_of sa_out i)" and "cfg_sa_out c \<noteq> [] \<Longrightarrow> sa_out \<noteq> None"
proof -
  have z: "fresh_entry zero_sa" "fresh_entry (zero_sa\<lparr>spi := 0\<rparr>)" by (simp_all add: fresh_entry_def zero_sa_def)
  have "fresh_entry (sa_tab (snd (sa_add_rules (empty_sa_ctx zero_sa) es inb)) i)" if "\<forall>e\<in>set es. sa_rule_ok e" for es inb
  proof -
    obtain r c' where a: "sa_add_rules (empty_sa_ctx zero_sa) es inb = (r, c')" by fastforce
    have "fresh_entry (sa_tab c' i)"
      by (rule sa_add_rules_entries [OF a]) (use that rule_fresh z in \<open>auto simp: empty_sa_ctx_def\<close>)
    then show ?thesis by (simp add: a)
  qed
  moreover have "\<forall>e\<in>set (cfg_sa_in c). sa_rule_ok e" "\<forall>e\<in>set (cfg_sa_out c). sa_rule_ok e"
    using assms(1) by (auto simp: cfg_ok_def list_all_iff)
  ultimately show "fresh_entry (db_of sa_in i)" "fresh_entry (db_of sa_out i)" "cfg_sa_out c \<noteq> [] \<Longrightarrow> sa_out \<noteq> None"
    using assms(2) z by (auto simp: sa_init_def db_of_def sa_in_add_rules_def sa_out_add_rules_def split: if_splits)
qed

lemma init_lcore_sockets:
  "fold_outcome (init_lcore_socket pf c) ls sk = Value sk' \<Longrightarrow>
   \<forall>k x. sk k = Some x \<longrightarrow> (sk_sa_in x, sk_sa_out x) = sa_init zero_sa (cfg_sa_in c) (cfg_sa_out c) \<Longrightarrow>
   (\<forall>k x. sk' k = Some x \<longrightarrow> (sk_sa_in x, sk_sa_out x) = sa_init zero_sa (cfg_sa_in c) (cfg_sa_out c))
   \<and> (\<forall>k. sk k \<noteq> None \<longrightarrow> sk' k \<noteq> None) \<and> (\<forall>l\<in>set ls. sk' (secgw_socket pf l) \<noteq> None)"
proof (induction ls arbitrary: sk)
  case (Cons l ls)
  from Cons.prems(1) obtain sk1 where l: "init_lcore_socket pf c l sk = Value sk1"
    and r: "fold_outcome (init_lcore_socket pf c) ls sk1 = Value sk'" by (auto simp: bind_outcome_eq_Value)
  have x: "(sk_sa_in x, sk_sa_out x) = sa_init zero_sa (cfg_sa_in c) (cfg_sa_out c)" if "init_socket pf c k = Value x" for k x
    using that by (auto simp: init_socket_def bind_outcome_eq_Value split: if_splits prod.splits option.splits)
  have m1: "\<forall>k x. sk1 k = Some x \<longrightarrow> (sk_sa_in x, sk_sa_out x) = sa_init zero_sa (cfg_sa_in c) (cfg_sa_out c)"
    and s1: "\<forall>k. sk k \<noteq> None \<longrightarrow> sk1 k \<noteq> None" "sk1 (secgw_socket pf l) \<noteq> None"
    using l Cons.prems(2) x by (auto simp: init_lcore_socket_def Let_def bind_outcome_eq_Value split: if_splits)
  note IH = Cons.IH [OF r m1]
  have "\<forall>k. sk k \<noteq> None \<longrightarrow> sk' k \<noteq> None" "\<forall>x\<in>set (l # ls). sk' (secgw_socket pf x) \<noteq> None"
    using IH s1 by auto
  then show ?case using IH by blast
qed simp

text \<open>What DPDK says of its route tables.  The answer of an IPv4 lookup carries the port in its low 24
  bits and more of the entry above them; without \<^verbatim>\<open>RTE_LPM_LOOKUP_SUCCESS\<close> there is no
  route.  A new table has no route, and a route that is added changes the port of an address at most to
  its own.\<close>

definition lpm_hop :: "u32 \<Rightarrow> u32 option" where
  "lpm_hop h = (if h AND RTE_LPM_LOOKUP_SUCCESS = 0 then None else Some (h AND 0x00FFFFFF))"

definition route_laws :: "('t, 'u) platform \<Rightarrow> ('t \<Rightarrow> u32 \<Rightarrow> u32) \<Rightarrow> ('u \<Rightarrow> bytes \<Rightarrow> u16) \<Rightarrow> bool" where
  "route_laws pf look4 look6 \<longleftrightarrow>
     (\<forall>k t u. pf_lpm_create pf k = Some (t, u) \<longrightarrow> (\<forall>a. lpm_hop (look4 t a) = None) \<and> (\<forall>a. look6 u a = - 1))
     \<and> (\<forall>t r t' a. pf_lpm_add pf t r = Some t' \<longrightarrow>
          lpm_hop (look4 t' a) = Some (ucast (r4_if_out r)) \<or> lpm_hop (look4 t' a) = lpm_hop (look4 t a))
     \<and> (\<forall>u r u' a. pf_lpm6_add pf u r = Some u' \<longrightarrow> look6 u' a = ucast (r6_if_out r) \<or> look6 u' a = look6 u a)"

text \<open>The routes of the configuration file lead to enabled ports, of which there are at most
  \<^verbatim>\<open>RTE_MAX_ETHPORTS\<close>.  The program does not check it: see the finding at
  \<^verbatim>\<open>ipsec-secgw.c:621\<close>.\<close>

definition routes_enabled :: "('t, 'u) platform \<Rightarrow> secgw_args \<Rightarrow> bool" where
  "routes_enabled pf a \<longleftrightarrow>
     unat (pf_nb_ports pf) \<le> RTE_MAX_ETHPORTS
     \<and> (\<forall>port \<in> r4_if_out ` set (rt_ip4 (the (g_cfg a))) \<union> r6_if_out ` set (rt_ip6 (the (g_cfg a))).
          port < pf_nb_ports pf \<and> port_bit (g_enabled_port_mask a) (unat port))"

text \<open>No other core that polls a queue uses the databases of this core.\<close>

definition alone_on_socket :: "('t, 'u) platform \<Rightarrow> ('t, 'u) secgw \<Rightarrow> nat \<Rightarrow> bool" where
  "alone_on_socket pf g lcore \<longleftrightarrow>
     (\<forall>l\<in>set (pf_lcores pf). secgw_socket pf l = secgw_socket pf lcore \<and> sg_rx g (of_nat l) \<noteq> [] \<longrightarrow> l = lcore)"

lemma hop4_ok_lpm_hop: "hop4_ok h \<longleftrightarrow> (\<forall>n. lpm_hop h = Some n \<longrightarrow> unat (n AND 0xff) < RTE_MAX_ETHPORTS)"
  by (simp add: hop4_ok_def lpm_hop_def and.assoc)

lemma port_masked: "unat (ucast (x :: u8) AND y :: 'a :: len word) \<le> unat x" if "8 \<le> LENGTH('a)"
proof -
  have "unat x < 2 ^ LENGTH('a)"
    using unsigned_less [where 'a = nat, of x] power_increasing [OF that, of "2 :: nat"] by simp
  then have "unat (ucast x :: 'a word) = unat x" by (simp add: unsigned_ucast_eq take_bit_nat_eq_self_iff)
  moreover have "unat (ucast x AND y :: 'a word) \<le> unat (ucast x :: 'a word)"
    by (simp add: word_and_le2 flip: word_le_nat_alt)
  ultimately show ?thesis by simp
qed

lemma add_routes_invariant:
  "add_routes add t rs = Value t' \<Longrightarrow> P t \<Longrightarrow> (\<And>r t t'. r \<in> set rs \<Longrightarrow> add t r = Some t' \<Longrightarrow> P t \<Longrightarrow> P t') \<Longrightarrow> P t'"
proof (induction rs arbitrary: t)
  case (Cons r rs)
  from Cons.prems(1) obtain t1 where t1: "add t r = Some t1" "add_routes add t1 rs = Value t'" by (auto split: option.splits)
  have "P t1" using Cons.prems(3) [OF _ t1(1) Cons.prems(2)] by simp
  then show ?case using Cons.IH [OF t1(2)] Cons.prems(3) by (meson list.set_intros(2))
qed simp

lemma init_socket_routes:
  assumes "init_socket pf c k = Value x" and "route_laws pf look4 look6"
    and "\<And>r. r \<in> set (rt_ip4 c) \<Longrightarrow> unat (r4_if_out r) < RTE_MAX_ETHPORTS"
    and "\<And>r. r \<in> set (rt_ip6 c) \<Longrightarrow> unat (r6_if_out r) < RTE_MAX_ETHPORTS"
  shows "hop4_ok (look4 (fst (sk_rt x)) a)" and "hop6_ok (look6 (snd (sk_rt x)) b)"
proof -
  from assms(1) obtain t u where new: "pf_lpm_create pf k = Some (t, u)"
    and a4: "add_routes (pf_lpm_add pf) t (rt_ip4 c) = Value (fst (sk_rt x))"
    and a6: "add_routes (pf_lpm6_add pf) u (rt_ip6 c) = Value (snd (sk_rt x))"
    by (auto simp: init_socket_def rt_init_def bind_outcome_eq_Value split: if_splits prod.splits option.splits)
  note laws = assms(2) [unfolded route_laws_def]
  show "hop4_ok (look4 (fst (sk_rt x)) a)"
  proof (rule add_routes_invariant [OF a4])
    show "hop4_ok (look4 t a)" using laws new by (simp add: hop4_ok_lpm_hop)
    fix r t t' assume r: "r \<in> set (rt_ip4 c)" and add: "pf_lpm_add pf t r = Some t'" and t: "hop4_ok (look4 t a)"
    have "unat (ucast (r4_if_out r) AND 0xff :: u32) < RTE_MAX_ETHPORTS"
      using assms(3) [OF r] port_masked [where 'a = 32, of "r4_if_out r" "0xff"] by simp
    moreover have "lpm_hop (look4 t' a) = Some (ucast (r4_if_out r)) \<or> lpm_hop (look4 t' a) = lpm_hop (look4 t a)"
      using laws add by blast
    ultimately show "hop4_ok (look4 t' a)" using t unfolding hop4_ok_lpm_hop by auto
  qed
  show "hop6_ok (look6 (snd (sk_rt x)) b)"
  proof (rule add_routes_invariant [OF a6])
    show "hop6_ok (look6 u b)" using laws new by (simp add: hop6_ok_def)
    fix r u u' assume r: "r \<in> set (rt_ip6 c)" and add: "pf_lpm6_add pf u r = Some u'" and u: "hop6_ok (look6 u b)"
    have "unat (ucast (r6_if_out r) AND 0xff :: u16) < RTE_MAX_ETHPORTS"
      using assms(4) [OF r] port_masked [where 'a = 16, of "r6_if_out r" "0xff"] by simp
    moreover have "look6 u' b = ucast (r6_if_out r) \<or> look6 u' b = look6 u b" using laws add by blast
    ultimately show "hop6_ok (look6 u' b)" using u unfolding hop6_ok_def by auto
  qed
qed

lemma init_lcore_sockets_all:
  assumes "fold_outcome (init_lcore_socket pf c) ls (\<lambda>k. None) = Value sk" and "sk k = Some x"
  obtains i where "init_socket pf c i = Value x"
proof -
  have "\<forall>k x. sk k = Some x \<longrightarrow> (\<exists>i. init_socket pf c i = Value x)"
    by (rule fold_outcome_invariant [OF assms(1)])
      (auto simp: init_lcore_socket_def Let_def bind_outcome_eq_Value split: if_splits)
  with assms(2) that show ?thesis by blast
qed

section \<open>A core at the start\<close>

lemma start_ctx_ok:
  assumes "cdev_ok pf cd" and "\<And>i. fresh_entry (db_of sa i)"
  shows "queues_ok (start_ctx mem cop lcore inb sa cd)" and "short_ivs (start_ctx mem cop lcore inb sa cd)"
    and "Crypto_Queue.total (start_ctx mem cop lcore inb sa cd) = {#}"
proof -
  let ?s = "start_ctx mem cop lcore inb sa cd" and ?es = "cd_tbl cd inb lcore"
  have db: "sadb ?s = db_of sa" by (simp add: start_ctx_def db_of_def)
  have es: "distinct ?es" "length ?es \<le> 256" using assms(1) by (simp_all add: cdev_ok_def distinct_map)
  have "qp_id ?s = (\<lambda>k. ?es ! k)" by (simp add: fun_eq_iff qp_id_def start_ctx_def)
  then have "inj_on (qp_id ?s) {..<nb_qps ?s}" using es(1) by (simp add: start_ctx_def inj_on_def nth_eq_iff_index_eq)
  moreover have "k < nb_qps ?s" if "cdev_map ?s key = Some k" for key k
    using that assms(1) by (cases key) (auto simp: start_ctx_def cdev_ok_def split: if_splits)
  ultimately have "qps_ok ?s" using es(2) by (simp add: qps_ok_def start_ctx_def Crypto_Queue.MAX_PKT_BURST_def)
  moreover have "sessions_ok ?s" using assms(2) by (simp add: sessions_ok_def db fresh_entry_def)
  ultimately show "queues_ok ?s" by (simp add: queues_ok_def)
  show "short_ivs ?s" using assms(2) by (simp add: short_ivs_def db fresh_entry_def)
  show "Crypto_Queue.total ?s = {#}" by (simp add: Crypto_Queue.total_def Crypto_Queue.held_def start_ctx_def)
qed

lemma start_lcore_ok:
  assumes "secgw_start pf split (load_cfg_file cmdline_parse rnd fopen) opts = Value g" and "lcore \<in> set (pf_lcores pf)"
  shows "gw_ok (start_lcore mem cop off pf g lcore)" and "lc_total (start_lcore mem cop off pf g lcore) = {#}"
    and "cfg_sa_out (the (g_cfg (sg_args g))) \<noteq> [] \<Longrightarrow> sk_sa_out (the (sg_sockets g (secgw_socket pf lcore))) \<noteq> None"
proof -
  from assms(1) obtain a c where a: "secgw_parse_args split (load_cfg_file cmdline_parse rnd fopen) opts = Value (a, c)" "sg_args g = a"
    and sk: "fold_outcome (init_lcore_socket pf c) (pf_lcores pf) (\<lambda>k. None) = Value (sg_sockets g)"
    and cd: "cryptodevs_init pf (g_unprotected_port_mask a) (sg_params g) = Some (sg_cdevs g)"
    by (rule secgw_start_cases)
  note c = secgw_parse_args_cfg [OF a(1)]
  obtain x where x: "sg_sockets g (secgw_socket pf lcore) = Some x"
    and sa: "sa_init zero_sa (cfg_sa_in c) (cfg_sa_out c) = (sk_sa_in x, sk_sa_out x)"
    using init_lcore_sockets [OF sk] assms(2) by fastforce
  note f = sa_init_fresh [OF conjunct2 [OF c] sa]
  show "cfg_sa_out (the (g_cfg (sg_args g))) \<noteq> [] \<Longrightarrow> sk_sa_out (the (sg_sockets g (secgw_socket pf lcore))) \<noteq> None"
    using f(3) c a(2) x by simp
  let ?q = "start_lcore mem cop off pf g lcore"
  have ctx: "inbound ?q = start_ctx mem cop lcore True (sk_sa_in x) (sg_cdevs g)"
    "outbound ?q = start_ctx mem cop lcore False (sk_sa_out x) (sg_cdevs g)" by (simp_all add: start_lcore_def x Let_def)
  have t: "tx_total (lc_tx ?q) = {#}" "L3fwd_Tx.held (lc_tx ?q) = {#}" "tx_ok (lc_tx ?q)"
    by (simp_all add: start_lcore_def Let_def tx_total_def L3fwd_Tx.held_def sent_def tx_ok_def L3fwd_Tx.MAX_PKT_BURST_def buffered_def)
  have ok: "cdev_ok pf (sg_cdevs g)" using cd by (rule cryptodevs_init_ok)
  note i = start_ctx_ok [OF ok f(1), of mem cop lcore True] and o = start_ctx_ok [OF ok f(2), of mem cop lcore False]
  have u: "in_use ?q = {#}" using i(3) o(3) by (simp add: in_use_def ctx)
  have "pkt_buf (inbound ?q) = pkt_buf (outbound ?q)" unfolding ctx by (simp add: start_ctx_def)
  then show "gw_ok ?q" using i(1) o(1,2) t by (simp add: gw_ok_def ctx u live_ok_def)
  show "lc_total ?q = {#}" using t(1) u by (simp add: lc_total_def)
qed

lemma start_env_routes:
  assumes "secgw_start pf split (load_cfg_file cmdline_parse rnd fopen) opts = Value g" and "lcore \<in> set (pf_lcores pf)"
    and "route_laws pf look4 look6" and "routes_enabled pf (sg_args g)"
  shows "routes_bounded (gw_tx (start_env tx dev below junk look4 look6 pf g lcore))"
proof -
  from assms(1) obtain a c where a: "secgw_parse_args split (load_cfg_file cmdline_parse rnd fopen) opts = Value (a, c)" "sg_args g = a"
    and sk: "fold_outcome (init_lcore_socket pf c) (pf_lcores pf) (\<lambda>k. None) = Value (sg_sockets g)"
    by (rule secgw_start_cases)
  have c: "the (g_cfg (sg_args g)) = c" using secgw_parse_args_cfg [OF a(1)] a(2) by simp
  obtain x where x: "sg_sockets g (secgw_socket pf lcore) = Some x"
    using init_lcore_sockets [OF sk] assms(2) by fastforce
  obtain i where i: "init_socket pf c i = Value x" by (rule init_lcore_sockets_all [OF sk x])
  have below: "unat port < RTE_MAX_ETHPORTS" if "port < pf_nb_ports pf" for port
    using that assms(4) by (simp add: routes_enabled_def word_less_nat_alt)
  have "unat (r4_if_out r) < RTE_MAX_ETHPORTS" if "r \<in> set (rt_ip4 c)" for r
    using that assms(4) below by (auto simp: routes_enabled_def c)
  moreover have "unat (r6_if_out r) < RTE_MAX_ETHPORTS" if "r \<in> set (rt_ip6 c)" for r
    using that assms(4) below by (auto simp: routes_enabled_def c)
  ultimately show ?thesis
    using init_socket_routes [OF i assms(3)] by (simp add: routes_bounded_def start_env_def Let_def x)
qed

section \<open>The queues of the ports\<close>

lemma setup_rx_queue_pair:
  "setup_rx_queue pf portid socket_id (p, q) st =
     (if portid \<noteq> unat p then Some st
      else if \<not> pf_rx_queue_setup pf portid q then None
      else Some (st\<lparr>pc_rx_setup := pc_rx_setup st @ [(portid, q, socket_id)]\<rparr>))"
  by (simp add: setup_rx_queue_def)

lemma setup_lcore_queues_pair:
  "setup_lcore_queues pf rx portid lcore (n, st) =
     (if \<not> pf_tx_queue_setup pf portid n then None
      else map_option (Pair (n + 1)) (fold_option (setup_rx_queue pf portid (secgw_socket pf lcore)) (rx (of_nat lcore))
        (st\<lparr>pc_tx_queue_id := (pc_tx_queue_id st)(lcore := (pc_tx_queue_id st lcore)(portid := n))\<rparr>)))"
  by (simp add: setup_lcore_queues_def Let_def)

lemma setup_rx_queues:
  "fold_option (setup_rx_queue pf portid socket_id) qs st = Some st' \<Longrightarrow>
   st' = st\<lparr>pc_rx_setup := pc_rx_setup st @ map (\<lambda>q. (portid, snd q, socket_id)) (filter (\<lambda>q. unat (fst q) = portid) qs)\<rparr>"
proof (induction qs arbitrary: st)
  case (Cons q qs)
  obtain p x where q: "q = (p, x)" by fastforce
  show ?case
  proof (cases "portid = unat p")
    case True
    then have "fold_option (setup_rx_queue pf portid socket_id) qs (st\<lparr>pc_rx_setup := pc_rx_setup st @ [(portid, x, socket_id)]\<rparr>) = Some st'"
      using Cons.prems by (simp add: q setup_rx_queue_pair split: if_splits)
    from Cons.IH [OF this] show ?thesis using True by (simp add: q)
  next
    case False
    then have "fold_option (setup_rx_queue pf portid socket_id) qs st = Some st'" using Cons.prems by (simp add: q setup_rx_queue_pair)
    from Cons.IH [OF this] show ?thesis using False by (simp add: q)
  qed
qed simp

text \<open>The receive queues that a core adds at a port.\<close>

definition rx_of :: "('t, 'u) platform \<Rightarrow> rx_conf \<Rightarrow> nat \<Rightarrow> nat \<Rightarrow> (nat \<times> u8 \<times> nat) set" where
  "rx_of pf rx portid l = (\<lambda>q. (portid, snd q, secgw_socket pf l)) ` {q \<in> set (rx (of_nat l)). unat (fst q) = portid}"

lemma setup_lcores:
  "fold_option (setup_lcore_queues pf rx portid) ls (n, st) = Some (n', st') \<Longrightarrow> distinct ls \<Longrightarrow>
   map (\<lambda>l. pc_tx_queue_id st' l portid) ls = map (\<lambda>k. n + of_nat k) [0..<length ls]
   \<and> (\<forall>l p. l \<notin> set ls \<or> p \<noteq> portid \<longrightarrow> pc_tx_queue_id st' l p = pc_tx_queue_id st l p)
   \<and> set (pc_rx_setup st') = set (pc_rx_setup st) \<union> (\<Union>l\<in>set ls. rx_of pf rx portid l)"
proof (induction ls arbitrary: n st)
  case (Cons l ls)
  let ?st = "st\<lparr>pc_tx_queue_id := (pc_tx_queue_id st)(l := (pc_tx_queue_id st l)(portid := n))\<rparr>"
  from Cons.prems(1) obtain st1 where
    r: "fold_option (setup_rx_queue pf portid (secgw_socket pf l)) (rx (of_nat l)) ?st = Some st1"
    and f: "fold_option (setup_lcore_queues pf rx portid) ls (n + 1, st1) = Some (n', st')"
    by (auto simp: setup_lcore_queues_pair split: option.splits if_splits)
  note st1 = setup_rx_queues [OF r]
  note IH = Cons.IH [OF f] Cons.prems(2)
  have k: "map (\<lambda>k. n + of_nat k) [0..<length (l # ls)] = n # map (\<lambda>k. (n + 1) + of_nat k :: u16) [0..<length ls]"
    by (simp add: upt_conv_Cons map_Suc_upt [symmetric] comp_def ac_simps del: upt_Suc)
  have tx: "pc_tx_queue_id st1 = (pc_tx_queue_id st)(l := (pc_tx_queue_id st l)(portid := n))" by (simp add: st1)
  have rx: "set (pc_rx_setup st1) = set (pc_rx_setup st) \<union> rx_of pf rx portid l" by (auto simp: st1 rx_of_def)
  have i: "map (\<lambda>l. pc_tx_queue_id st' l portid) ls = map (\<lambda>k. (n + 1) + of_nat k) [0..<length ls]"
    "\<forall>l p. l \<notin> set ls \<or> p \<noteq> portid \<longrightarrow> pc_tx_queue_id st' l p = pc_tx_queue_id st1 l p"
    "set (pc_rx_setup st') = set (pc_rx_setup st1) \<union> (\<Union>l\<in>set ls. rx_of pf rx portid l)"
    using IH(1) IH(2) by simp_all
  have "pc_tx_queue_id st' l portid = n" using i(2) IH(2) by (simp add: tx)
  then have "map (\<lambda>l. pc_tx_queue_id st' l portid) (l # ls) = map (\<lambda>k. n + of_nat k) [0..<length (l # ls)]"
    unfolding k using i(1) by simp
  moreover have "pc_tx_queue_id st' l1 p = pc_tx_queue_id st l1 p" if "l1 \<notin> set (l # ls) \<or> p \<noteq> portid" for l1 p
    using i(2) that by (auto simp: tx)
  moreover have "set (pc_rx_setup st') = set (pc_rx_setup st) \<union> (\<Union>l\<in>set (l # ls). rx_of pf rx portid l)"
    unfolding i(3) rx by auto
  ultimately show ?case by blast
qed simp

definition ports_ready :: "('t, 'u) platform \<Rightarrow> u32 \<Rightarrow> rx_conf \<Rightarrow> nat \<Rightarrow> ports_conf \<Rightarrow> bool" where
  "ports_ready pf pm rx k st \<longleftrightarrow>
     (\<forall>p<k. port_bit pm p \<longrightarrow> map (\<lambda>l. pc_tx_queue_id st l p) (pf_lcores pf) = map of_nat [0..<length (pf_lcores pf)])
     \<and> set (pc_rx_setup st) = (\<Union>p\<in>{p. p < k \<and> port_bit pm p}. \<Union>l\<in>set (pf_lcores pf). rx_of pf rx p l)"

lemma init_port_ready:
  assumes "init_enabled_port pf pm ps rx k st = Some st'" and "distinct (pf_lcores pf)" and "ports_ready pf pm rx k st"
  shows "ports_ready pf pm rx (Suc k) st'"
proof (cases "port_bit pm k")
  case True
  let ?st = "st\<lparr>pc_ethaddr_tbl := (pc_ethaddr_tbl st)(k := (pc_ethaddr_tbl st k)\<lparr>eth_src := ETHADDR_TO_UINT64 (pf_macaddr pf k)\<rparr>)\<rparr>"
  from assms(1) True obtain n where "fold_option (setup_lcore_queues pf rx k) (pf_lcores pf) (0, ?st) = Some (n, st')"
    by (auto simp: init_enabled_port_def port_init_def Let_def split: if_splits)
  note s = setup_lcores [OF this assms(2)]
  have "map (\<lambda>l. pc_tx_queue_id st' l p) (pf_lcores pf) = map of_nat [0..<length (pf_lcores pf)]"
    if "p < Suc k" "port_bit pm p" for p
  proof (cases "p = k")
    case False
    then have "p < k" using that(1) by simp
    then have "map (\<lambda>l. pc_tx_queue_id st l p) (pf_lcores pf) = map of_nat [0..<length (pf_lcores pf)]"
      using assms(3) that(2) unfolding ports_ready_def by blast
    then show ?thesis using s False by simp
  qed (use s in simp)
  moreover have "set (pc_rx_setup st') = (\<Union>p\<in>{p. p < Suc k \<and> port_bit pm p}. \<Union>l\<in>set (pf_lcores pf). rx_of pf rx p l)"
  proof -
    have "{p. p < Suc k \<and> port_bit pm p} = insert k {p. p < k \<and> port_bit pm p}" using True by (auto simp: less_Suc_eq)
    moreover have "set (pc_rx_setup st) = (\<Union>p\<in>{p. p < k \<and> port_bit pm p}. \<Union>l\<in>set (pf_lcores pf). rx_of pf rx p l)"
      using assms(3) unfolding ports_ready_def by blast
    ultimately show ?thesis using s by (simp add: Un_commute)
  qed
  ultimately show ?thesis unfolding ports_ready_def by blast
next
  case False
  then have "st' = st" using assms(1) by (simp add: init_enabled_port_def)
  moreover have "p < Suc k \<and> port_bit pm p \<longleftrightarrow> p < k \<and> port_bit pm p" for p using False by (auto simp: less_Suc_eq)
  ultimately show ?thesis using assms(3) unfolding ports_ready_def by (simp add: imp_conjL [symmetric] del: imp_conjL)
qed

lemma init_ports_ready:
  assumes "distinct (pf_lcores pf)" and "ports_ready pf pm rx 0 st"
  shows "fold_option (init_enabled_port pf pm ps rx) [0..<k] st = Some st' \<Longrightarrow> ports_ready pf pm rx k st'"
proof (induction k arbitrary: st')
  case (Suc k)
  then obtain st1 where "fold_option (init_enabled_port pf pm ps rx) [0..<k] st = Some st1" "init_enabled_port pf pm ps rx k st1 = Some st'"
    by (auto simp: fold_option_snoc split: option.splits)
  with Suc.IH init_port_ready [OF _ assms(1)] show ?case by blast
qed (use assms in simp)

text \<open>What DPDK says of the cores: listed once, with numbers below 256.\<close>

definition platform_ok :: "('t, 'u) platform \<Rightarrow> bool" where
  "platform_ok pf \<longleftrightarrow> distinct (pf_lcores pf) \<and> (\<forall>l\<in>set (pf_lcores pf). l < 256)"

section \<open>A sample start\<close>

definition sample_platform :: "(ip4_route list, ip6_route list) platform" where
  "sample_platform = \<lparr>pf_hash_create = True, pf_hash_add = (\<lambda>m key. True),
     pf_cdevs = [\<lparr>chaining = True, capabilities = [Cap_auth AUTH_SHA1_HMAC, Cap_cipher CIPHER_AES_CBC], max_nb_queue_pairs = 8\<rparr>],
     pf_cdev_configure = (\<lambda>d n. True), pf_queue_pair_setup = (\<lambda>d q. True), pf_cdev_start = (\<lambda>d. True),
     pf_nb_ports = 4, pf_lcores = [1, 2], pf_socket = (\<lambda>l. l mod 2), pf_macaddr = (\<lambda>p. replicate 6 1),
     pf_max_rx = (\<lambda>p. 8), pf_max_tx = (\<lambda>p. 8), pf_dev_configure = (\<lambda>p r n. True), pf_tx_queue_setup = (\<lambda>p q. True),
     pf_rx_queue_setup = (\<lambda>p q. True), pf_dev_start = (\<lambda>p. True), pf_sa_create = (\<lambda>k. True),
     pf_acl4 = (\<lambda>k r. None), pf_acl6 = (\<lambda>k r. None), pf_lpm_create = (\<lambda>k. Some ([], [])),
     pf_lpm_add = (\<lambda>t r. Some (r # t)), pf_lpm6_add = (\<lambda>t r. Some (r # t)), pf_pool_create = (\<lambda>k. True)\<rparr>"

definition sample_load :: "string \<Rightarrow> ipsec_cfg outcome" where
  "sample_load = load_cfg_file sample_cmdline (\<lambda>n. 0)
     (\<lambda>f. Some (''sa out 5 mode ipv4-tunnel cipher_algo null auth_algo null src 1.1.1.1 dst 2.2.2.2'' @
       [CHR 0x0A] @ ''rt ipv4 dst 10.0.0.0/8 port 3''))"

definition sample_look4 :: "ip4_route list \<Rightarrow> u32 \<Rightarrow> u32" where
  "sample_look4 t a = (case t of [] \<Rightarrow> 0 | r # rs \<Rightarrow> RTE_LPM_LOOKUP_SUCCESS OR ucast (r4_if_out r))"

definition sample_look6 :: "ip6_route list \<Rightarrow> bytes \<Rightarrow> u16" where
  "sample_look6 t a = (case t of [] \<Rightarrow> - 1 | r # rs \<Rightarrow> ucast (r6_if_out r))"

definition sample_opts :: "secgw_opt list" where
  "sample_opts = [Gw_p False ''f'', Gw_u False ''2'', Gw_config ''(0,0,1),(1,0,2)'', Gw_f ''cfg'']"

lemma sample_load_value: "case sample_load ''cfg'' of Value c \<Rightarrow> map spi (cfg_sa_out c) = [5] | _ \<Rightarrow> False"
  by code_simp

lemma sample_secgw_value:
  "case secgw_start sample_platform sample_split sample_load sample_opts of
     Value g \<Rightarrow> g_single_sa (sg_args g) = 0 \<and> g_unprotected_port_mask (sg_args g) = 2
       \<and> map spi (cfg_sa_out (the (g_cfg (sg_args g)))) = [5]
       \<and> map r4_if_out (rt_ip4 (the (g_cfg (sg_args g)))) = [3] \<and> rt_ip6 (the (g_cfg (sg_args g))) = []
       \<and> g_enabled_port_mask (sg_args g) = 15 | _ \<Rightarrow> False"
  by code_simp

lemma sample_secgw:
  obtains g where "secgw_start sample_platform sample_split sample_load sample_opts = Value g" and "g_single_sa (sg_args g) = 0"
    and "g_unprotected_port_mask (sg_args g) = 2" and "cfg_sa_out (the (g_cfg (sg_args g))) \<noteq> []"
    and "routes_enabled sample_platform (sg_args g)"
proof (cases "secgw_start sample_platform sample_split sample_load sample_opts")
  case (Value g)
  have v: "g_single_sa (sg_args g) = 0" "g_unprotected_port_mask (sg_args g) = 2"
    "map spi (cfg_sa_out (the (g_cfg (sg_args g)))) = [5]" "map r4_if_out (rt_ip4 (the (g_cfg (sg_args g)))) = [3]"
    "rt_ip6 (the (g_cfg (sg_args g))) = []" "g_enabled_port_mask (sg_args g) = 15"
    using sample_secgw_value unfolding Value outcome.case by simp_all
  have "r4_if_out ` set (rt_ip4 (the (g_cfg (sg_args g)))) = set (map r4_if_out (rt_ip4 (the (g_cfg (sg_args g)))))" by simp
  also have "\<dots> = {3}" unfolding v by simp
  finally have "routes_enabled sample_platform (sg_args g)"
    by (simp add: routes_enabled_def v sample_platform_def RTE_MAX_ETHPORTS_def port_bit_def)
  with that [OF Value v(1,2)] v(3) show ?thesis by auto
qed (use sample_secgw_value in \<open>simp_all only: outcome.case\<close>)

lemma sample_route_laws: "route_laws sample_platform sample_look4 sample_look6"
proof -
  have "lpm_hop (RTE_LPM_LOOKUP_SUCCESS OR ucast x) = Some (ucast x)" for x :: u8
  proof -
    have e: "RTE_LPM_LOOKUP_SUCCESS = push_bit 24 1" "(0x00FFFFFF :: u32) = mask 24"
      by (simp_all add: RTE_LPM_LOOKUP_SUCCESS_def mask_eq_exp_minus_1)
    have high: "(ucast x :: u32) AND push_bit n 1 = 0" if "8 \<le> n" for n
      using that by (intro bit_word_eqI) (auto simp: bit_simps dest: bit_imp_le_length)
    have low: "(ucast x :: u32) AND mask n = ucast x" if "8 \<le> n" for n
      using that by (intro bit_word_eqI) (auto simp: bit_simps dest: bit_imp_le_length)
    have success: "push_bit n 1 AND mask n = (0 :: u32)" for n
      by (intro bit_word_eqI) (auto simp: bit_simps)
    have h: "(ucast x :: u32) AND push_bit 24 1 = 0" by (rule high) simp
    have l: "(ucast x :: u32) AND mask 24 = ucast x" by (rule low) simp
    show ?thesis
      unfolding lpm_hop_def e bit.conj_disj_distrib2 h l success by simp
  qed
  then show ?thesis
    by (auto simp: route_laws_def sample_platform_def sample_look4_def sample_look6_def lpm_hop_def)
qed

section \<open>Properties\<close>

text \<open>C4: A gateway that has started from an accepted configuration with an outbound association and
  routes to enabled ports loses no packet from protected ports.  On every core that has the
  databases of its socket to itself, these exist, both IPsec contexts satisfy what the crypto queues
  rely on, nothing is in use, and for every sequence of turns, whatever the driver, the crypto
  device and the policies answer, and whatever the route tables built from the file answer under
  the laws of \<open>route_laws\<close>, the main loop returns and accounts for every frame received.\<close>

theorem gateway_run:
  assumes "secgw_start pf split (load_cfg_file cmdline_parse rnd fopen) opts = Value g" and "lcore \<in> set (pf_lcores pf)"
    and "driver_ok tx" and "device_ok dev" and "in_place dev" and "route_laws pf look4 look6"
    and "g_single_sa (sg_args g) = 0" and "cfg_sa_out (the (g_cfg (sg_args g))) \<noteq> []"
    and "routes_enabled pf (sg_args g)" and "alone_on_socket pf g lcore"
    and "list_all (\<lambda>e. bursts_ok (start_env tx dev below junk look4 look6 pf g lcore) (bursts e)) es" and "distinct (run_names es)"
  shows "sk_sa_out (the (sg_sockets g (secgw_socket pf lcore))) \<noteq> None
    \<and> gw_ok (start_lcore mem cop off pf g lcore) \<and> lc_total (start_lcore mem cop off pf g lcore) = {#}
    \<and> (\<exists>tsc q. main_loop (start_env tx dev below junk look4 look6 pf g lcore) hz es (start_lcore mem cop off pf g lcore) = Some (tsc, q)
        \<and> gw_ok q \<and> lc_total q = mset (run_names es))"
proof -
  let ?env = "start_env tx dev below junk look4 look6 pf g lcore" and ?q = "start_lcore mem cop off pf g lcore"
  note s = start_lcore_ok(1,2) [OF assms(1,2), of mem cop off] and out = start_lcore_ok(3) [OF assms(1,2,8)]
  have "routes_bounded (gw_tx ?env)" by (rule start_env_routes [OF assms(1,2,6,9)])
  then have "env_ok ?env" "single_sa ?env = 0" using assms(3-5,7) by (simp_all add: env_ok_def start_env_def Let_def)
  from main_loop_live [OF this s(1) assms(11,12), where hz = hz and prev = 0] s out show ?thesis
    by (auto simp: main_loop_def)
qed

theorem gateway_run_witness:
  "\<exists>g tsc q. secgw_start sample_platform sample_split sample_load sample_opts = Value g
    \<and> main_loop (start_env (\<lambda>h port q ms. length ms div 2) sample_dev (\<lambda>i. 0) sample_traffic sample_look4 sample_look6
        sample_platform g 1) 1000000 [sample_turn]
        (start_lcore (\<lambda>p. sample_buf) sample_op (\<lambda>p. \<lparr>ol_flags = {}, l2_len = 0, l3_len = 0\<rparr>) sample_platform g 1) = Some (tsc, q)
    \<and> lc_total q = {#7, 8, 9#}"
proof -
  obtain g where g: "secgw_start sample_platform sample_split sample_load sample_opts = Value g" "g_single_sa (sg_args g) = 0"
    "g_unprotected_port_mask (sg_args g) = 2" "cfg_sa_out (the (g_cfg (sg_args g))) \<noteq> []" "routes_enabled sample_platform (sg_args g)"
    by (rule sample_secgw)
  let ?env = "start_env (\<lambda>h port q ms. length ms div 2) sample_dev (\<lambda>i. 0) sample_traffic sample_look4 sample_look6 sample_platform g 1"
  have n: "run_names [sample_turn] = [7, 8, 9]" by (simp add: run_names_def names_def sample_turn_def)
  have b: "list_all (\<lambda>e. bursts_ok ?env (bursts e)) [sample_turn]"
    by (simp add: bursts_ok_def sample_turn_def UNPROTECTED_PORT_def start_env_def Let_def g(3) frames_ok_def sample_frame_def)
  have "1 \<in> set (pf_lcores sample_platform)" "driver_ok (\<lambda>h port q ms. length (ms :: nat list) div 2)" "in_place sample_dev"
    by (simp_all add: sample_platform_def driver_ok_def in_place_def) (simp add: sample_dev_def)
  moreover have "alone_on_socket sample_platform g 1"
    by (simp add: alone_on_socket_def sample_platform_def secgw_socket_def)
  ultimately show ?thesis
    using gateway_run [OF g(1) [unfolded sample_load_def] _ _ sample_dev_ok _ sample_route_laws g(2,4,5) _ b, where hz = 1000000
        and mem = "\<lambda>p. sample_buf" and cop = sample_op and off = "\<lambda>p. \<lparr>ol_flags = {}, l2_len = 0, l3_len = 0\<rparr>"] g(1)
    unfolding n by auto
qed

text \<open>C20: At the start of the gateway the unprotected ports are enabled, every queue of the option belongs
  to an enabled core and to an enabled port that exists, every core polls exactly its
  queues of the option, exactly those were set up, with the memory of the socket of the core
  that polls them, and the cores have different transmit queues at each enabled port.\<close>

theorem secgw_start_queues:
  assumes "secgw_start pf split cfg_file opts = Value g" and "platform_ok pf"
  shows "g_unprotected_port_mask (sg_args g) AND g_enabled_port_mask (sg_args g) = g_unprotected_port_mask (sg_args g)
    \<and> (\<forall>x\<in>set (sg_params g). unat (lcore_id x) \<in> set (pf_lcores pf) \<and> port_bit (g_enabled_port_mask (sg_args g)) (unat (port_id x))
        \<and> port_id x < pf_nb_ports pf)
    \<and> (\<forall>l. sg_rx g l = map (\<lambda>x. (port_id x, queue_id x)) (filter (\<lambda>x. lcore_id x = l) (sg_params g)))
    \<and> set (pc_rx_setup (sg_ports g)) = (\<lambda>x. (unat (port_id x), queue_id x, secgw_socket pf (unat (lcore_id x)))) ` set (sg_params g)
    \<and> (\<forall>p<unat (pf_nb_ports pf). port_bit (g_enabled_port_mask (sg_args g)) p \<longrightarrow>
        distinct (map (\<lambda>l. pc_tx_queue_id (sg_ports g) l p) (pf_lcores pf)))"
proof -
  from assms(1) obtain a where a: "sg_args g = a" "g_unprotected_port_mask a AND g_enabled_port_mask a = g_unprotected_port_mask a"
    and c: "check_params (\<lambda>l. l \<in> set (pf_lcores pf)) (g_enabled_port_mask a) (pf_nb_ports pf) (Some (sg_params g))"
    and rx: "secgw_init_lcore_rx_queues (sg_params g) = Some (sg_rx g)"
    and p: "fold_option (init_enabled_port pf (g_enabled_port_mask a) (sg_params g) (sg_rx g)) [0..<unat (pf_nb_ports pf)]
           \<lparr>pc_ethaddr_tbl = ethaddr_static, pc_tx_queue_id = (\<lambda>l p. 0), pc_rx_setup = []\<rparr> = Some (sg_ports g)"
    by (rule secgw_start_cases)
  have pf: "distinct (pf_lcores pf)" "\<forall>l\<in>set (pf_lcores pf). l < 256" using assms(2) by (simp_all add: platform_ok_def)
  have ps: "unat (lcore_id x) \<in> set (pf_lcores pf) \<and> port_bit (g_enabled_port_mask a) (unat (port_id x)) \<and> port_id x < pf_nb_ports pf"
    if "x \<in> set (sg_params g)" for x using c that by (simp add: check_params_def list_all_iff)
  have q: "sg_rx g l = map (\<lambda>x. (port_id x, queue_id x)) (filter (\<lambda>x. lcore_id x = l) (sg_params g))" for l
    using rx init_lcore_rx_queues_eq [of "sg_params g" "\<lambda>l. []"]
    by (simp add: secgw_init_lcore_rx_queues_def init_lcore_rx_queues_def split: if_splits)
  have ready: "ports_ready pf (g_enabled_port_mask a) (sg_rx g) (unat (pf_nb_ports pf)) (sg_ports g)"
    by (rule init_ports_ready [OF pf(1) _ p]) (simp add: ports_ready_def)
  have u: "unat (of_nat l :: u8) = l" if "l \<in> set (pf_lcores pf)" for l
    using that pf(2) by (intro unat_of_nat_eq) simp
  have "set (pc_rx_setup (sg_ports g)) = (\<lambda>x. (unat (port_id x), queue_id x, secgw_socket pf (unat (lcore_id x)))) ` set (sg_params g)"
    (is "?L = ?R")
  proof
    show "?L \<subseteq> ?R" using ready u by (auto simp: ports_ready_def rx_of_def q)
    have "(unat (port_id x), queue_id x, secgw_socket pf (unat (lcore_id x))) \<in> ?L" if x: "x \<in> set (sg_params g)" for x
    proof -
      have "(port_id x, queue_id x) \<in> set (sg_rx g (of_nat (unat (lcore_id x))))" using x by (auto simp: q)
      then have "(unat (port_id x), queue_id x, secgw_socket pf (unat (lcore_id x))) \<in> rx_of pf (sg_rx g) (unat (port_id x)) (unat (lcore_id x))"
        by (force simp: rx_of_def)
      moreover have "unat (port_id x) < unat (pf_nb_ports pf)" using ps [OF x] by (simp add: word_less_nat_alt)
      ultimately show ?thesis using ready ps [OF x] unfolding ports_ready_def by blast
    qed
    then show "?R \<subseteq> ?L" by blast
  qed
  moreover have "distinct (map (\<lambda>l. pc_tx_queue_id (sg_ports g) l p) (pf_lcores pf))"
    if "p < unat (pf_nb_ports pf)" "port_bit (g_enabled_port_mask a) p" for p
  proof -
    have "map (\<lambda>l. pc_tx_queue_id (sg_ports g) l p) (pf_lcores pf) = map of_nat [0..<length (pf_lcores pf)]"
      using ready that unfolding ports_ready_def by blast
    moreover have "length (pf_lcores pf) \<le> 256"
    proof -
      have "card (set (pf_lcores pf)) \<le> card {..<256 :: nat}" using pf(2) by (intro card_mono) auto
      then show ?thesis using pf(1) by (simp add: distinct_card)
    qed
    ultimately show ?thesis by (simp add: distinct_of_nat_upto)
  qed
  ultimately show ?thesis using a(2) ps q unfolding a(1) by blast
qed

theorem secgw_start_queues_witness:
  "\<exists>g. secgw_start sample_platform sample_split sample_load sample_opts = Value g
    \<and> (\<forall>x\<in>set (sg_params g). unat (lcore_id x) \<in> {1, 2})
    \<and> set (pc_rx_setup (sg_ports g)) = (\<lambda>x. (unat (port_id x), queue_id x, unat (lcore_id x) mod 2 mod 256)) ` set (sg_params g)"
proof -
  obtain g where g: "secgw_start sample_platform sample_split sample_load sample_opts = Value g" by (rule sample_secgw)
  have "platform_ok sample_platform" by (simp add: platform_ok_def sample_platform_def)
  note s = secgw_start_queues [OF g this]
  have "pf_lcores sample_platform = [1, 2]" "secgw_socket sample_platform = (\<lambda>l. l mod 2 mod 256)"
    by (simp_all add: sample_platform_def secgw_socket_def fun_eq_iff)
  with s g show ?thesis by (intro exI [of _ g]) simp
qed

end
