(* ===== verification/Spec2Isabelle.thy ===== *)
theory Spec2Isabelle
  imports L3fwd_Lpm L3fwd_Em_Frame L3fwd_Main Gateway_Setup
begin

text \<open>
  A verification library for the privacy-domain prototypes: an address hiding NAT built into
  the DPDK layer-3 forwarder (\<^verbatim>\<open>nat_eval\<close>) and an IPsec gateway it is compared with
  (\<^verbatim>\<open>ipsec_eval\<close>).

  \<^bold>\<open>How the parts interact.\<close>  The forwarder receives bursts of packets, translates their
  addresses (\<^verbatim>\<open>nat.c\<close>), chooses a port for each and sends them grouped by port.  The NAT
  encrypts the port and the low bits of the source address with a format-preserving cipher
  (\<^verbatim>\<open>enc_lib\<close>) and maps the encrypted host index to an address of the operator's prefixes
  with the tables read from a route file.

  \<^bold>\<open>Theories.\<close>
  \<^item> Prelude: machine integers, little-endian loads and stores, byte order, lemma collections.
  \<^item> Bit_Reverse, Cipher, Ff3: \<^verbatim>\<open>ff_lib.h\<close> and \<^verbatim>\<open>ff3.c\<close>; the interfaces
    \<open>block_cipher\<close> and \<open>round_cipher\<close>; the permutation property of the encryption and what
    the decryption computes instead of its inverse.
  \<^item> Rc5 (\<^verbatim>\<open>rc5.h\<close>, \<^verbatim>\<open>nat_enc.h\<close>) and Chacha (\<^verbatim>\<open>chacha.c\<close>): the two other
    ciphers, with their round trips.
  \<^item> Aesni (\<^verbatim>\<open>aesni.c\<close>): the aligned allocation of the round keys on an explicit heap, with
    sizes of 64 bits.
  \<^item> C_Strings, Prefix_Table: \<^verbatim>\<open>load_rtbl\<close>, \<^verbatim>\<open>idx_to_ip\<close>, \<^verbatim>\<open>ip_to_idx\<close> of
    \<^verbatim>\<open>nat.c\<close>, on the words \<^verbatim>\<open>fscanf\<close> returns.
  \<^item> Nat_Packet: \<^verbatim>\<open>process_outgoing_pkt\<close> and \<^verbatim>\<open>process_incoming_pkt\<close> on packet bytes;
    the first is injective, and for which packets the second undoes it.
  \<^item> L3fwd_Tx: the transmit buffers of \<^verbatim>\<open>l3fwd.h\<close> and \<^verbatim>\<open>send_packetsx4\<close>.
  \<^item> L3fwd_Sse: RFC 1812 checks, MAC rewriting and the grouping of bursts by port of
    \<^verbatim>\<open>l3fwd_sse.h\<close>.
  \<^item> L3fwd_Loop, L3fwd_Fwd, L3fwd_Lpm: the main loop of the forwarder, with the interface
    \<open>burst_handler\<close>, what both ways of forwarding share, and forwarding by longest prefix match
    (\<^verbatim>\<open>l3fwd_lpm.c\<close> and its headers): the vector handler classifies as the scalar one
    does, and both loops lose no packet.
  \<^item> L3fwd_Em_Key, L3fwd_Em, L3fwd_Em_Frame: exact match forwarding (\<^verbatim>\<open>l3fwd_em.c\<close> and
    its headers), the place where the NAT is called: keys and tables, which implement a map from
    flows to ports, the three handlers and the main loops, and the frame that is sent.
  \<^item> Ipsec_Buf (\<^verbatim>\<open>ipsec.h\<close>), Ipip (\<^verbatim>\<open>ipip.h\<close>), Esp
    (\<^verbatim>\<open>esp.c\<close>): packet buffers, tunnel headers and ESP processing; the round trip of a
    packet through both gateways.
  \<^item> Crypto_Queue, Sa (\<^verbatim>\<open>ipsec.c\<close>, \<^verbatim>\<open>sa.c\<close>): the crypto queues with the
    interfaces \<open>esp_xform\<close> and \<open>ready_xform\<close>, the association databases and lookups; no packet
    is lost, and when packets wait.

  \<^item> Addr_Text, Cfg_Parser, Config (\<^verbatim>\<open>parser.c\<close>, \<^verbatim>\<open>parser.h\<close>, the rule parsers of
    \<^verbatim>\<open>sa.c\<close>, \<^verbatim>\<open>sp4.c\<close>, \<^verbatim>\<open>sp6.c\<close>, \<^verbatim>\<open>rt.c\<close>): the text of
    addresses, ranges and keys, the token loops with the interface \<open>token_parser\<close>, and the
    configuration file; accepted files give well-formed tables.

  \<^item> Policy, Gateway_Tx, Gateway (\<^verbatim>\<open>ipsec-secgw.c\<close>), Ipsec_Room: the data path of the
    gateway from a received burst to the wire.  Policy sorts a burst and applies the security
    policies on arrays compacted in place, which refine an abstract policy on lists; Gateway_Tx
    routes and sends, with the interface \<open>tx_steps\<close>; Gateway composes them with the IPsec contexts
    and states what every run of the main loop keeps.  Ipsec_Room bounds the headroom used.

  \<^item> Startup, L3fwd_Main (\<^verbatim>\<open>main.c\<close>), Gateway_Cdev, Gateway_Setup (\<^verbatim>\<open>ipsec-secgw.c\<close>):
    the two programs up to the launch of their loops.  Startup holds what they share: numbers, the
    queue option, the receive queues of the cores and the wait for the links.  L3fwd_Main states
    which queues are polled, that the address registers and arrays agree and that the tables
    exist; Gateway_Cdev how the queue pairs of the crypto devices are divided up, and what
    happens when the map is full; Gateway_Setup that a start from an accepted file establishes
    the state on which the theorems on the main loop rest, so that they hold of the runs of a core
    that has its databases to itself, when the routes of the file lead to enabled ports.

  \<^bold>\<open>Parameters.\<close>  Code that is not C source of the repository is an argument of the
  definitions that use it: the AES-NI assembly (\<open>cbcmac\<close>, \<open>expand\<close>), \<^verbatim>\<open>malloc\<close>, the DPDK
  driver (\<open>tx\<close>), the crypto device, the hash and route tables of DPDK and packet type macros.  What the
  code relies on is a named predicate (\<open>malloc_fresh\<close>, \<open>driver_ok\<close>, \<open>device_ok\<close>,
  \<open>hash_laws\<close>, \<open>route_laws\<close>), and the witnesses instantiate it with concrete functions.

  \<^bold>\<open>Bounds.\<close>  Arrays of the code that are functions here have their bounds in the operations that
  write them: the transmit buffers of the gateway exist for 32 ports, the ports of the exact match
  tables for 1024 positions, and an access behind them is \<open>None\<close>.  The program does not check every
  bound.  A route of the configuration file may name a port without a transmit buffer: Gateway_Tx
  states for which answers of the route tables the routing functions are defined, Gateway assumes them, and
  Gateway_Setup derives them from the routes of the file when these lead to enabled ports.  An
  index behind the addresses of the NAT table may keep \<^verbatim>\<open>idx_to_ip\<close> from returning: L3fwd_Em
  states for which packets the loops return.

  \<^bold>\<open>Cores.\<close>  One core runs at a time.  Its queues and buffers are its own, but the
  association databases belong to the socket, and \<^verbatim>\<open>create_session\<close> writes into them; the
  contexts of Gateway and Gateway_Setup are therefore those of a core that has the databases of
  its socket to itself (\<open>alone_on_socket\<close>).

  \<^bold>\<open>Loops.\<close>  The walk of \<^verbatim>\<open>idx_to_ip\<close> may not end and is a \<open>partial_function\<close>; the
  properties state where it returns and where it does not.  The last loop of
  \<^verbatim>\<open>send_packets_multi\<close> advances by a table entry and has the number of packets as fuel,
  which is shown to be enough.  All other loops are folds over their index range or functions
  with a termination proof.

  \<^bold>\<open>Not modelled.\<close>  The assembly, the initialisation of DPDK itself, logging, the allocation of
  the NAT tables (\<^verbatim>\<open>setup_nat_table\<close>), the signal handler and the shutdown of the
  forwarder, the portability headers of \<^verbatim>\<open>enc_lib/chacha20\<close>, the test programs and code
  that is compiled out.
\<close>

end
